(* ===== verification/Prelude.thy ===== *)
theory Prelude
  imports "HOL-Library.Word" "HOL-Library.Monad_Syntax" "HOL-Library.Signed_Division"
begin

unbundle bit_operations_syntax

text \<open>
  Shared types and facts of the development.

  The kernel is C for x86-64: \<open>char\<close> is signed and has 8 bits, \<open>int\<close> has 32, \<open>size_t\<close>
  and \<open>uint64_t\<close> have 64. Machine integers are words of their C width. A C object (an array,
  a buffer, a struct seen as bytes) is a list of bytes of the object's size. A pointer that is
  only read through is the list of the object's bytes from the pointer to the end of the object; a
  pointer that is written through is the object together with an offset. Reading or writing outside
  the object has no defined result and is the value \<open>None\<close> of the option type; loops that may
  not end are partial functions whose value is \<open>None\<close> when they do not end. The option monad's
  \<open>do\<close> blocks thread the state through a body in the order of the C statements.
\<close>

type_synonym u8 = "8 word"
type_synonym u16 = "16 word"
type_synonym u32 = "32 word"
type_synonym u64 = "64 word"
type_synonym i32 = "32 word"
type_synonym bytes = "8 word list"

named_theorems mem_simps \<open>reads and writes of byte objects inside their bounds\<close>
named_theorems str_simps \<open>the C string of a byte object\<close>

section \<open>Objects: bounded reads and writes\<close>

definition rd :: "'a list \<Rightarrow> nat \<Rightarrow> 'a option" where
  "rd m i = (if i < length m then Some (m ! i) else None)"

definition wr :: "'a list \<Rightarrow> nat \<Rightarrow> 'a \<Rightarrow> 'a list option" where
  "wr m i v = (if i < length m then Some (m[i := v]) else None)"

lemma rd_Some [mem_simps, simp]: "i < length m \<Longrightarrow> rd m i = Some (m ! i)"
  by (simp add: rd_def)

lemma wr_Some [mem_simps, simp]: "i < length m \<Longrightarrow> wr m i v = Some (m[i := v])"
  by (simp add: wr_def)

lemma rd_None [mem_simps, simp]: "length m \<le> i \<Longrightarrow> rd m i = None"
  by (simp add: rd_def)

lemma wr_None [mem_simps, simp]: "length m \<le> i \<Longrightarrow> wr m i v = None"
  by (simp add: wr_def)

lemma rd_eq_Some: "rd m i = Some v \<longleftrightarrow> i < length m \<and> v = m ! i"
  by (auto simp: rd_def)

lemma wr_eq_Some: "wr m i v = Some m' \<longleftrightarrow> i < length m \<and> m' = m[i := v]"
  by (auto simp: wr_def)

lemma rd_wr_same: "wr m i v = Some m' \<Longrightarrow> rd m' i = Some v"
  by (auto simp: wr_eq_Some)

lemma rd_wr_other: "wr m i v = Some m' \<Longrightarrow> i \<noteq> j \<Longrightarrow> rd m' j = rd m j"
  by (auto simp: wr_eq_Some rd_def)

text \<open>\<open>blit d i bs\<close> is the object \<open>d\<close> with the block \<open>bs\<close> stored from offset \<open>i\<close> on.\<close>

definition blit :: "'a list \<Rightarrow> nat \<Rightarrow> 'a list \<Rightarrow> 'a list" where
  "blit d i bs = take i d @ bs @ drop (i + length bs) d"

lemma length_blit [simp]: "i + length bs \<le> length d \<Longrightarrow> length (blit d i bs) = length d"
  by (simp add: blit_def)

lemma blit_Nil [simp]: "blit d i [] = d"
  by (simp add: blit_def)

lemma nth_blit:
  assumes "i + length bs \<le> length d" and "k < length d"
  shows "blit d i bs ! k = (if i \<le> k \<and> k < i + length bs then bs ! (k - i) else d ! k)"
  using assms by (auto simp: blit_def nth_append min_def)

lemma blit_Cons:
  assumes "i + length (b # bs) \<le> length d"
  shows "blit d i (b # bs) = blit (d[i := b]) (Suc i) bs"
  using assms by (intro nth_equalityI) (auto simp: nth_blit nth_Cons' nth_list_update)

lemma blit_snoc:
  assumes "i + length (bs @ [b]) \<le> length d"
  shows "blit d i (bs @ [b]) = blit (d[i + length bs := b]) i bs"
  using assms by (intro nth_equalityI) (auto simp: nth_blit nth_append nth_list_update)

lemma blit_blit_next:
  "i + length xs + length ys \<le> length d \<Longrightarrow> blit (blit d i xs) (i + length xs) ys = blit d i (xs @ ys)"
  by (rule nth_equalityI) (auto simp: nth_blit nth_append)

lemma take_drop_blit [simp]:
  "i + length bs \<le> length d \<Longrightarrow> take (length bs) (drop i (blit d i bs)) = bs"
  by (simp add: blit_def)

lemma take_blit_before: "k \<le> i \<Longrightarrow> i + length bs \<le> length d \<Longrightarrow> take k (blit d i bs) = take k d"
  by (simp add: blit_def min_def)

lemma drop_blit_after:
  "i + length bs \<le> length d \<Longrightarrow> i + length bs \<le> k \<Longrightarrow> drop k (blit d i bs) = drop k d"
  by (simp add: blit_def)

section \<open>C strings\<close>

text \<open>The string a pointer denotes: the bytes up to the terminating NUL.\<close>

definition terminated :: "bytes \<Rightarrow> bool" where
  "terminated s \<longleftrightarrow> 0 \<in> set s"

definition cstr :: "bytes \<Rightarrow> bytes" where
  "cstr s = takeWhile (\<lambda>c. c \<noteq> 0) s"

definition lit :: "string \<Rightarrow> bytes" where
  "lit s = map of_char s"

abbreviation zlit :: "string \<Rightarrow> bytes" where
  "zlit s \<equiv> lit s @ [0]"

lemma terminated_Nil [str_simps, simp]: "\<not> terminated []"
  by (simp add: terminated_def)

lemma terminated_Cons [str_simps, simp]: "terminated (c # s) \<longleftrightarrow> c = 0 \<or> terminated s"
  by (auto simp: terminated_def)

lemma terminated_append [str_simps, simp]: "terminated (s @ t) \<longleftrightarrow> terminated s \<or> terminated t"
  by (auto simp: terminated_def)

lemma cstr_Nil [str_simps, simp]: "cstr [] = []"
  by (simp add: cstr_def)

lemma cstr_Cons [str_simps, simp]: "cstr (c # s) = (if c = 0 then [] else c # cstr s)"
  by (simp add: cstr_def)

lemma cstr_no_zero [simp]: "0 \<notin> set (cstr s)"
  by (auto simp: cstr_def dest: set_takeWhileD)

lemma cstr_id: "0 \<notin> set s \<Longrightarrow> cstr s = s"
  by (auto simp: cstr_def takeWhile_eq_all_conv)

lemma cstr_append_zero [str_simps, simp]: "0 \<notin> set s \<Longrightarrow> cstr (s @ 0 # t) = s"
  by (induction s) auto

lemma terminated_split:
  "terminated s \<Longrightarrow> \<exists>t. s = cstr s @ 0 # t"
proof (induction s)
  case Nil
  then show ?case by simp
next
  case (Cons c s)
  then show ?case by (cases "c = 0") auto
qed

lemma length_cstr_less: "terminated s \<Longrightarrow> length (cstr s) < length s"
  by (induction s) (auto split: if_splits)

lemma length_cstr_le: "length (cstr s) \<le> length s"
  by (simp add: cstr_def length_takeWhile_le)

lemma cstr_drop: "i \<le> length (cstr str) \<Longrightarrow> cstr (drop i str) = drop i (cstr str)"
proof (induction i arbitrary: str)
  case 0
  then show ?case by simp
next
  case (Suc i)
  then show ?case by (cases str) (auto split: if_splits)
qed

lemma terminated_drop: "terminated str \<Longrightarrow> i \<le> length (cstr str) \<Longrightarrow> terminated (drop i str)"
proof (induction i arbitrary: str)
  case 0
  then show ?case by simp
next
  case (Suc i)
  then show ?case by (cases str) (auto split: if_splits)
qed

lemma nth_length_cstr: "terminated s \<Longrightarrow> s ! length (cstr s) = 0"
  by (induction s) auto

lemma nth_cstr_nonzero: "i < length (cstr s) \<Longrightarrow> s ! i \<noteq> 0 \<and> cstr s ! i = s ! i"
proof (induction s arbitrary: i)
  case Nil
  then show ?case by simp
next
  case (Cons c s)
  then show ?case by (cases i) (auto split: if_splits)
qed

lemma length_lit [simp]: "length (lit s) = length s"
  by (simp add: lit_def)

section \<open>Option monad facts\<close>

lemmas bind_SomeE = Option.bind_eq_Some_conv [THEN iffD1, elim_format]

text \<open>The loop \<open>for (x in xs) s = f(x, s)\<close>, stopping where an access has no result.\<close>

fun iter :: "('a \<Rightarrow> 's \<Rightarrow> 's option) \<Rightarrow> 'a list \<Rightarrow> 's \<Rightarrow> 's option" where
  "iter f [] s = Some s"
| "iter f (x # xs) s = do { s1 \<leftarrow> f x s; iter f xs s1 }"

lemma iter_append: "iter f (xs @ ys) s = do { s1 \<leftarrow> iter f xs s; iter f ys s1 }"
  by (induction xs arbitrary: s) (auto split: Option.bind_splits)

text \<open>A loop whose body refines a step of an abstract state refines the fold of the steps.\<close>

lemma iter_refines:
  assumes "R s t" and "\<And>x s t. x \<in> set xs \<Longrightarrow> R s t \<Longrightarrow> \<exists>s'. f x s = Some s' \<and> R s' (g x t)"
  shows "\<exists>s'. iter f xs s = Some s' \<and> R s' (fold g xs t)"
  using assms
proof (induction xs arbitrary: s t)
  case Nil
  then show ?case by simp
next
  case (Cons x xs)
  obtain s1 where s1: "f x s = Some s1" "R s1 (g x t)" using Cons.prems by force
  then show ?case using Cons.IH [OF s1(2)] Cons.prems(2) by auto
qed

section \<open>Signed readings\<close>

lemma sint_inject [simp]: "sint (a :: 'a::len word) = sint b \<longleftrightarrow> a = b"
  using word_eq_iff_signed [where ?'a = int] by blast

lemma sint_0_iff [simp]: "sint (a :: 'a::len word) = 0 \<longleftrightarrow> a = 0" "0 = sint a \<longleftrightarrow> a = 0"
  using sint_inject [of a 0] by auto

section \<open>Bytes, half words and words: the little-endian layout of x86\<close>

definition get16 :: "bytes \<Rightarrow> nat \<Rightarrow> u16 option" where
  "get16 m i = do { a \<leftarrow> rd m i; b \<leftarrow> rd m (i + 1); Some (ucast a OR push_bit 8 (ucast b)) }"

definition put16 :: "bytes \<Rightarrow> nat \<Rightarrow> u16 \<Rightarrow> bytes option" where
  "put16 m i v = do { m1 \<leftarrow> wr m i (ucast v); wr m1 (i + 1) (ucast (drop_bit 8 v)) }"

definition get32 :: "bytes \<Rightarrow> nat \<Rightarrow> u32 option" where
  "get32 m i = do {
     a \<leftarrow> rd m i; b \<leftarrow> rd m (i + 1); c \<leftarrow> rd m (i + 2); d \<leftarrow> rd m (i + 3);
     Some (ucast a OR push_bit 8 (ucast b) OR push_bit 16 (ucast c) OR push_bit 24 (ucast d)) }"

definition put32 :: "bytes \<Rightarrow> nat \<Rightarrow> u32 \<Rightarrow> bytes option" where
  "put32 m i v = do {
     m1 \<leftarrow> wr m i (ucast v); m2 \<leftarrow> wr m1 (i + 1) (ucast (drop_bit 8 v));
     m3 \<leftarrow> wr m2 (i + 2) (ucast (drop_bit 16 v)); wr m3 (i + 3) (ucast (drop_bit 24 v)) }"

definition bytes16 :: "u16 \<Rightarrow> bytes" where
  "bytes16 v = [ucast v, ucast (drop_bit 8 v)]"

definition bytes32 :: "u32 \<Rightarrow> bytes" where
  "bytes32 v = [ucast v, ucast (drop_bit 8 v), ucast (drop_bit 16 v), ucast (drop_bit 24 v)]"

lemma length_bytes [simp]: "length (bytes16 v) = 2" "length (bytes32 w) = 4"
  by (simp_all add: bytes16_def bytes32_def)

lemma join16: "ucast (ucast v :: u8) OR push_bit 8 (ucast (ucast (drop_bit 8 v) :: u8)) = (v :: u16)"
  by (rule bit_word_eqI) (auto simp: bit_simps)

lemma join32:
  "ucast (ucast v :: u8) OR push_bit 8 (ucast (ucast (drop_bit 8 v) :: u8))
     OR push_bit 16 (ucast (ucast (drop_bit 16 v) :: u8))
     OR push_bit 24 (ucast (ucast (drop_bit 24 v) :: u8)) = (v :: u32)"
proof (rule bit_word_eqI)
  fix n assume n: "n < LENGTH(32)"
  then consider "n < 8" | "8 \<le> n" "n < 16" | "16 \<le> n" "n < 24" | "24 \<le> n" "n < 32"
    by fastforce
  then show "bit (ucast (ucast v :: u8) OR push_bit 8 (ucast (ucast (drop_bit 8 v) :: u8))
     OR push_bit 16 (ucast (ucast (drop_bit 16 v) :: u8))
     OR push_bit 24 (ucast (ucast (drop_bit 24 v) :: u8)) :: u32) n = bit v n"
    by cases (auto simp: bit_simps)
qed

lemma put16_blit: "i + 2 \<le> length m \<Longrightarrow> put16 m i v = Some (blit m i (bytes16 v))"
  by (simp add: put16_def bytes16_def blit_Cons)

lemma put32_blit: "i + 4 \<le> length m \<Longrightarrow> put32 m i v = Some (blit m i (bytes32 v))"
  by (simp add: put32_def bytes32_def blit_Cons numeral_eq_Suc)

lemma get16_put16: "put16 m i v = Some m' \<Longrightarrow> get16 m' i = Some v"
  by (auto simp: put16_def get16_def wr_eq_Some Option.bind_eq_Some_conv join16)

lemma get32_put32: "put32 m i v = Some m' \<Longrightarrow> get32 m' i = Some v"
  by (auto simp: put32_def get32_def wr_eq_Some Option.bind_eq_Some_conv join32)

lemma get16_defined: "i + 2 \<le> length m \<Longrightarrow> \<exists>v. get16 m i = Some v"
  by (simp add: get16_def)

lemma get32_defined: "i + 4 \<le> length m \<Longrightarrow> \<exists>v. get32 m i = Some v"
  by (simp add: get32_def)

lemma split16: "bytes16 (ucast a OR push_bit 8 (ucast b)) = [a, b]"
proof -
  have "ucast (ucast a OR push_bit 8 (ucast b) :: u16) = a" by (rule bit_word_eqI) (auto simp: bit_simps)
  moreover have "ucast (drop_bit 8 (ucast a OR push_bit 8 (ucast b) :: u16)) = b"
    by (rule bit_word_eqI) (auto simp: bit_simps dest: bit_imp_le_length)
  ultimately show ?thesis by (simp add: bytes16_def)
qed

section \<open>Masks of low bits\<close>

lemma low_masks:
  "0xFF = (mask 8 :: 'a::len word)" "0xFFF = (mask 12 :: 'a word)" "0xFFFF = (mask 16 :: 'a word)" "0x0F = (mask 4 :: 'a word)"
  "0x1FF = (mask 9 :: 'a word)" "0xFFFFFFFF = (mask 32 :: 'a word)"
  by (simp_all add: mask_eq_exp_minus_1)

end
