(* ===== verification/Cstring.thy ===== *)
theory Cstring
  imports Prelude
begin

text \<open>
  The kernel's C library, libc/string.c. Pointers that are only read are byte suffixes, pointers
  that are written are an object and an offset; every access outside its object is \<open>None\<close>.
  The lemmas give each routine's result on every terminated string or in-bounds block.
\<close>

section \<open>Signed arithmetic of C\<close>

definition cdiv :: "i32 \<Rightarrow> i32 \<Rightarrow> i32" where
  "cdiv a b = word_of_int (sint a sdiv sint b)"

definition cmod :: "i32 \<Rightarrow> i32 \<Rightarrow> i32" where
  "cmod a b = word_of_int (sint a smod sint b)"

section \<open>Blocks: memcpy, memset, memcmp, memmove\<close>

fun memcpy :: "bytes \<Rightarrow> nat \<Rightarrow> bytes \<Rightarrow> nat \<Rightarrow> bytes option" where
  "memcpy d i s 0 = Some d"
| "memcpy d i [] (Suc n) = None"
| "memcpy d i (c # s) (Suc n) = do { d1 \<leftarrow> wr d i c; memcpy d1 (Suc i) s n }"

fun memset :: "bytes \<Rightarrow> nat \<Rightarrow> i32 \<Rightarrow> nat \<Rightarrow> bytes option" where
  "memset p i c 0 = Some p"
| "memset p i c (Suc n) = do { p1 \<leftarrow> wr p i (ucast c); memset p1 (Suc i) c n }"

text \<open>
  \<open>if (*p1++ != *p2++) return *p1 - *p2\<close>: the pointers have moved on when the difference is
  taken.
\<close>

fun memcmp :: "bytes \<Rightarrow> bytes \<Rightarrow> nat \<Rightarrow> int option" where
  "memcmp p1 p2 0 = Some 0"
| "memcmp (a # p1) (b # p2) (Suc n) =
     (if a \<noteq> b then do { x \<leftarrow> rd p1 0; y \<leftarrow> rd p2 0; Some (sint x - sint y) }
      else memcmp p1 p2 n)"
| "memcmp _ _ (Suc n) = None"

fun memmove_up :: "bytes \<Rightarrow> nat \<Rightarrow> nat \<Rightarrow> nat \<Rightarrow> bytes option" where
  "memmove_up m d s 0 = Some m"
| "memmove_up m d s (Suc n) =
     do { c \<leftarrow> rd m s; m1 \<leftarrow> wr m d c; memmove_up m1 (Suc d) (Suc s) n }"

fun memmove_down :: "bytes \<Rightarrow> nat \<Rightarrow> nat \<Rightarrow> nat \<Rightarrow> bytes option" where
  "memmove_down m d s 0 = Some m"
| "memmove_down m d s (Suc n) =
     do { c \<leftarrow> rd m (s + n); m1 \<leftarrow> wr m (d + n) c; memmove_down m1 d s n }"

definition memmove :: "bytes \<Rightarrow> nat \<Rightarrow> nat \<Rightarrow> nat \<Rightarrow> bytes option" where
  "memmove m d s n =
     (if d < s then memmove_up m d s n
      else if d > s then memmove_down m d s n
      else Some m)"

section \<open>Characters and strings\<close>

definition toupper :: "i32 \<Rightarrow> i32" where
  "toupper c = (if 97 \<le> sint c \<and> sint c \<le> 122 then c - 97 + 65 else c)"

fun strlen :: "bytes \<Rightarrow> nat option" where
  "strlen [] = None"
| "strlen (c # s) = (if c = 0 then Some 0 else map_option Suc (strlen s))"

fun strcmp :: "bytes \<Rightarrow> bytes \<Rightarrow> int option" where
  "strcmp (a # s1) (b # s2) =
     (if a \<noteq> 0 \<and> a = b then strcmp s1 s2 else Some (sint a - sint b))"
| "strcmp _ _ = None"

fun strcpy :: "bytes \<Rightarrow> nat \<Rightarrow> bytes \<Rightarrow> bytes option" where
  "strcpy d i [] = None"
| "strcpy d i (c # s) =
     (if c = 0 then wr d i 0 else do { d1 \<leftarrow> wr d i c; strcpy d1 (Suc i) s })"

fun strncpy :: "bytes \<Rightarrow> nat \<Rightarrow> bytes \<Rightarrow> nat \<Rightarrow> bytes option" where
  "strncpy d i s 0 = wr d i 0"
| "strncpy d i [] (Suc n) = None"
| "strncpy d i (c # s) (Suc n) =
     (if c = 0 then wr d i 0 else do { d1 \<leftarrow> wr d i c; strncpy d1 (Suc i) s n })"

fun strchr :: "bytes \<Rightarrow> i32 \<Rightarrow> nat option option" where
  "strchr [] c = None"
| "strchr (x # s) c =
     (if x = 0 then Some (if c = 0 then Some 0 else None)
      else if x = ucast c then Some (Some 0)
      else map_option (map_option Suc) (strchr s c))"

fun strstr_match :: "bytes \<Rightarrow> bytes \<Rightarrow> bytes option" where
  "strstr_match (h # hs) (n # ns) =
     (if h \<noteq> 0 \<and> n \<noteq> 0 \<and> h = n then strstr_match hs ns else Some (n # ns))"
| "strstr_match _ _ = None"

fun strstr_loop :: "bytes \<Rightarrow> bytes \<Rightarrow> nat option option" where
  "strstr_loop [] needle = None"
| "strstr_loop (c # h) needle =
     (if c = 0 then Some None
      else do {
        n \<leftarrow> strstr_match (c # h) needle;
        x \<leftarrow> rd n 0;
        if x = 0 then Some (Some 0) else map_option (map_option Suc) (strstr_loop h needle) })"

definition strstr :: "bytes \<Rightarrow> bytes \<Rightarrow> nat option option" where
  "strstr haystack needle =
     do { x \<leftarrow> rd needle 0; if x = 0 then Some (Some 0) else strstr_loop haystack needle }"

section \<open>Numbers: itoa, atoi\<close>

fun itoa_loop :: "bytes \<Rightarrow> nat \<Rightarrow> i32 \<Rightarrow> (bytes \<times> nat) option" where
  "itoa_loop buf 0 num = Some (buf, 0)"
| "itoa_loop buf (Suc i) num =
     (if num = 0 then Some (buf, Suc i)
      else do { b1 \<leftarrow> wr buf (Suc i) (ucast (cmod num 10 + 48)); itoa_loop b1 i (cdiv num 10) })"

text \<open>The static buffer \<open>buf[12]\<close> goes in and comes out with the offset of the returned pointer.\<close>

definition itoa :: "bytes \<Rightarrow> i32 \<Rightarrow> (bytes \<times> nat) option" where
  "itoa buf num = do {
     b0 \<leftarrow> wr buf 11 0;
     if num = 0 then do { b1 \<leftarrow> wr b0 10 48; Some (b1, 10) }
     else do {
       let is_negative = sint num < 0;
       (b1, i) \<leftarrow> itoa_loop b0 10 (if is_negative then - num else num);
       if is_negative then do { b2 \<leftarrow> wr b1 i 45; Some (b2, i) }
       else Some (b1, i + 1) } }"

fun atoi_skip :: "bytes \<Rightarrow> bytes option" where
  "atoi_skip [] = None"
| "atoi_skip (c # s) = (if c = 32 \<or> c = 9 \<or> c = 10 then atoi_skip s else Some (c # s))"

fun atoi_digits :: "bytes \<Rightarrow> i32 \<Rightarrow> i32 option" where
  "atoi_digits [] result = None"
| "atoi_digits (c # s) result =
     (if 48 \<le> sint c \<and> sint c \<le> 57 then atoi_digits s (result * 10 + (scast c - 48))
      else Some result)"

definition atoi :: "bytes \<Rightarrow> i32 option" where
  "atoi str = do {
     s \<leftarrow> atoi_skip str;
     c \<leftarrow> rd s 0;
     if c = 45 then map_option (\<lambda>r. - 1 * r) (atoi_digits (tl s) 0)
     else if c = 43 then atoi_digits (tl s) 0
     else atoi_digits s 0 }"

section \<open>trim, split, strtok\<close>

fun skip_spaces :: "bytes \<Rightarrow> nat option" where
  "skip_spaces [] = None"
| "skip_spaces (c # s) = (if c = 32 then map_option Suc (skip_spaces s) else Some 0)"

fun trim_tail :: "bytes \<Rightarrow> nat \<Rightarrow> bytes option" where
  "trim_tail s 0 = Some s"
| "trim_tail s (Suc n) =
     do { c \<leftarrow> rd s n; if c = 32 then do { s1 \<leftarrow> wr s n 0; trim_tail s1 n } else Some s }"

definition trim :: "bytes \<Rightarrow> bytes option" where
  "trim s = do {
     len \<leftarrow> strlen s;
     start \<leftarrow> skip_spaces s;
     s1 \<leftarrow> (if start > 0 then memmove s 0 start (len - start + 1) else Some s);
     len1 \<leftarrow> strlen s1;
     trim_tail s1 len1 }"

fun split_skip :: "u8 \<Rightarrow> bytes \<Rightarrow> bytes option" where
  "split_skip d [] = None"
| "split_skip d (c # s) = (if c = d then split_skip d s else Some (c # s))"

fun split_word :: "u8 \<Rightarrow> nat \<Rightarrow> bytes \<Rightarrow> (bytes \<times> bytes) option" where
  "split_word d room [] = None"
| "split_word d room (c # s) =
     (if c \<noteq> 0 \<and> c \<noteq> d \<and> room > 0
      then do { (w, r) \<leftarrow> split_word d (room - 1) s; Some (c # w, r) }
      else Some ([], c # s))"

text \<open>
  \<open>split\<close> fills \<open>words_buf\<close>; the result is the list of its first \<open>count\<close> rows, each up to and
  including its NUL. The first argument is \<open>64 - n\<close>, the rows left.
\<close>

fun split_loop :: "nat \<Rightarrow> u8 \<Rightarrow> bytes \<Rightarrow> bytes list option" where
  "split_loop 0 d p = do { _ \<leftarrow> rd p 0; Some [] }"
| "split_loop (Suc k) d p = do {
     c \<leftarrow> rd p 0;
     if c = 0 then Some []
     else do {
       p1 \<leftarrow> split_skip d p;
       c1 \<leftarrow> rd p1 0;
       if c1 = 0 then Some []
       else do {
         (w, p2) \<leftarrow> split_word d 63 p1;
         ws \<leftarrow> split_loop k d p2;
         Some ((w @ [0]) # ws) } } }"

definition c_split :: "bytes \<Rightarrow> u8 \<Rightarrow> bytes list option" where
  "c_split str delimiter = split_loop 64 delimiter str"

text \<open>
  \<open>strtok\<close> keeps \<open>static char *last\<close>: here the bytes from \<open>last\<close> to the end of its object, or
  \<open>None\<close> for NULL. The token is returned with the NUL the routine writes behind it.
\<close>

fun strtok_skip :: "bytes \<Rightarrow> bytes \<Rightarrow> bytes option" where
  "strtok_skip delim [] = None"
| "strtok_skip delim (c # s) =
     (if c = 0 then Some (c # s)
      else do { r \<leftarrow> strchr delim (scast c);
                if r \<noteq> None then strtok_skip delim s else Some (c # s) })"

fun strtok_scan :: "bytes \<Rightarrow> bytes \<Rightarrow> (bytes \<times> bytes) option" where
  "strtok_scan delim [] = None"
| "strtok_scan delim (c # s) =
     (if c = 0 then Some ([], c # s)
      else do { r \<leftarrow> strchr delim (scast c);
                if r = None then do { (t, q) \<leftarrow> strtok_scan delim s; Some (c # t, q) }
                else Some ([], c # s) })"

definition strtok :: "bytes option \<Rightarrow> bytes \<Rightarrow> bytes option \<Rightarrow> (bytes option \<times> bytes option) option" where
  "strtok str delim last_tok =
     (case (if str \<noteq> None then str else last_tok) of
        None \<Rightarrow> Some (None, None)
      | Some p \<Rightarrow> do {
          p1 \<leftarrow> strtok_skip delim p;
          c \<leftarrow> rd p1 0;
          if c = 0 then Some (None, None)
          else do {
            (token, p2) \<leftarrow> strtok_scan delim p1;
            c2 \<leftarrow> rd p2 0;
            Some (Some (token @ [0]), if c2 \<noteq> 0 then Some (tl p2) else None) } })"

section \<open>What the block routines do\<close>

lemma memcpy_blit:
  "i + n \<le> length d \<Longrightarrow> n \<le> length s \<Longrightarrow> memcpy d i s n = Some (blit d i (take n s))"
  by (induction d i s n rule: memcpy.induct) (auto simp: blit_Cons)

lemma memset_blit:
  "i + n \<le> length p \<Longrightarrow> memset p i c n = Some (blit p i (replicate n (ucast c)))"
  by (induction p i c n rule: memset.induct) (auto simp: blit_Cons)

lemma memset_eq_Some:
  "memset p i c n = Some q \<Longrightarrow> length q = length p"
  by (induction p i c n arbitrary: q rule: memset.induct) (auto simp: Option.bind_eq_Some_conv wr_eq_Some)

lemma memmove_up_blit:
  "d \<le> s \<Longrightarrow> s + n \<le> length m \<Longrightarrow> memmove_up m d s n = Some (blit m d (take n (drop s m)))"
proof (induction m d s n rule: memmove_up.induct)
  case (1 m d s)
  then show ?case by simp
next
  case (2 m d s n)
  then have s: "s < length m" "d < length m" by simp_all
  then have "take (Suc n) (drop s m) = m ! s # take n (drop (Suc s) (m[d := m ! s]))"
    using \<open>d \<le> s\<close> by (simp add: Cons_nth_drop_Suc [symmetric])
  with 2 s show ?case by (simp add: blit_Cons)
qed

lemma memmove_down_blit:
  "s \<le> d \<Longrightarrow> d + n \<le> length m \<Longrightarrow> memmove_down m d s n = Some (blit m d (take n (drop s m)))"
proof (induction m d s n rule: memmove_down.induct)
  case (1 m d s)
  then show ?case by simp
next
  case (2 m d s n)
  then have b: "s + n < length m" "d + n < length m" by simp_all
  then have "take (Suc n) (drop s m) = take n (drop s (m[d + n := m ! (s + n)])) @ [m ! (s + n)]"
    using \<open>s \<le> d\<close> by (simp add: take_Suc_conv_app_nth drop_update_swap)
  with 2 b show ?case by (simp add: blit_snoc)
qed

lemma blit_self: "s + n \<le> length m \<Longrightarrow> blit m s (take n (drop s m)) = m"
  by (intro nth_equalityI) (auto simp: nth_blit)

text \<open>
  \<open>memmove\<close> leaves in the destination the \<open>n\<close> bytes the source held before the call, and changes
  no other byte of the object, whatever the overlap of the two ranges and whichever is first.
\<close>

theorem memmove_overlap:
  assumes "d + n \<le> length m" and "s + n \<le> length m"
  shows "memmove m d s n = Some (blit m d (take n (drop s m)))"
  using assms by (simp add: memmove_def memmove_up_blit memmove_down_blit blit_self)

theorem memmove_overlap_witness:
  "memmove [1, 2, 3, 4, 5] 1 0 4 = Some [1, 1, 2, 3, 4]"
  using memmove_overlap [of 1 4 "[1, 2, 3, 4, 5]" 0] by (simp add: blit_def)

lemma memcmp_equal: "n \<le> length p \<Longrightarrow> n \<le> length q \<Longrightarrow> take n p = take n q \<Longrightarrow> memcmp p q n = Some 0"
  by (induction p q n rule: memcmp.induct) auto

lemma memcmp_differ:
  assumes "i < n" and "Suc i < length p" and "Suc i < length q"
    and "take i p = take i q" and "p ! i \<noteq> q ! i"
  shows "memcmp p q n = Some (sint (p ! Suc i) - sint (q ! Suc i))"
  using assms
proof (induction i arbitrary: p q n)
  case 0
  then obtain a b p1 q1 m where "p = a # p1" "q = b # q1" "n = Suc m" "a \<noteq> b"
    by (cases p; cases q; cases n) auto
  with 0 show ?case by simp
next
  case (Suc i)
  then obtain a p1 q1 m where "p = a # p1" "q = a # q1" "n = Suc m"
    by (cases p; cases q; cases n) auto
  with Suc show ?case by simp
qed

lemma first_difference:
  "take n p \<noteq> take n q \<Longrightarrow> n \<le> length p \<Longrightarrow> n \<le> length q \<Longrightarrow>
     \<exists>i<n. take i p = take i q \<and> p ! i \<noteq> q ! i"
proof (induction n arbitrary: p q)
  case 0
  then show ?case by simp
next
  case (Suc n)
  show ?case
  proof (cases "take n p = take n q")
    case True
    with Suc.prems have "p ! n \<noteq> q ! n"
      by (auto simp: take_Suc_conv_app_nth)
    with True show ?thesis by blast
  next
    case False
    with Suc obtain i where "i < n" "take i p = take i q" "p ! i \<noteq> q ! i"
      using Suc_leD by blast
    then show ?thesis using less_SucI by blast
  qed
qed

text \<open>
  \<open>memcmp\<close> returns 0 exactly when the two blocks are equal or, at the first byte where they
  differ, the bytes after it agree: blocks that differ can compare equal. Every use in the shell
  tests the result against 0.
\<close>

theorem memcmp_zero_iff:
  assumes "n < length p" and "n < length q"
  shows "memcmp p q n = Some 0 \<longleftrightarrow>
    take n p = take n q \<or>
    (\<exists>i<n. take i p = take i q \<and> p ! i \<noteq> q ! i \<and> p ! Suc i = q ! Suc i)"
proof (cases "take n p = take n q")
  case True
  with assms show ?thesis by (simp add: memcmp_equal)
next
  case False
  with assms obtain i where i: "i < n" "take i p = take i q" "p ! i \<noteq> q ! i"
    using first_difference [of n p q] by auto
  have lt: "\<not> j < k" if "take k p = take k q" "p ! j \<noteq> q ! j" for j k
  proof
    assume "j < k"
    then have "p ! j = take k p ! j" "q ! j = take k q ! j" by simp_all
    with that show False by simp
  qed
  have uniq: "j = i" if "take j p = take j q" "p ! j \<noteq> q ! j" for j
    using lt [OF that(1) i(3)] lt [OF i(2) that(2)] by simp
  have "memcmp p q n = Some (sint (p ! Suc i) - sint (q ! Suc i))"
    using memcmp_differ [of i n p q] i assms by simp
  then have "memcmp p q n = Some 0 \<longleftrightarrow> p ! Suc i = q ! Suc i" by simp
  also have "\<dots> \<longleftrightarrow> (\<exists>j<n. take j p = take j q \<and> p ! j \<noteq> q ! j \<and> p ! Suc j = q ! Suc j)"
    using i uniq by blast
  finally show ?thesis using False by blast
qed

theorem memcmp_zero_iff_witness:
  "memcmp (lit ''AOO     TXT'' @ [0]) (lit ''BOO     TXT'' @ [0]) 11 = Some 0"
proof -
  let ?p = "lit ''AOO     TXT'' @ [0]" and ?q = "lit ''BOO     TXT'' @ [0]"
  have "\<exists>i<11. take i ?p = take i ?q \<and> ?p ! i \<noteq> ?q ! i \<and> ?p ! Suc i = ?q ! Suc i"
    by (rule exI [of _ 0]) (simp add: lit_def)
  then show ?thesis
    using memcmp_zero_iff [of 11 ?p ?q] by (simp add: lit_def)
qed

section \<open>What the string routines do\<close>

lemma strlen_cstr [str_simps]: "terminated s \<Longrightarrow> strlen s = Some (length (cstr s))"
  by (induction s) auto

lemma strcmp_zero [str_simps]:
  "terminated s \<Longrightarrow> terminated t \<Longrightarrow> strcmp s t = Some 0 \<longleftrightarrow> cstr s = cstr t"
  by (induction s t rule: strcmp.induct) auto

lemma strcmp_defined: "terminated s \<Longrightarrow> terminated t \<Longrightarrow> \<exists>r. strcmp s t = Some r"
  by (induction s t rule: strcmp.induct) auto

lemma strcpy_blit [str_simps]:
  "terminated s \<Longrightarrow> i + length (cstr s) < length d \<Longrightarrow> strcpy d i s = Some (blit d i (cstr s @ [0]))"
  by (induction d i s rule: strcpy.induct) (auto simp: blit_Cons)

lemma strncpy_blit [str_simps]:
  "terminated s \<Longrightarrow> i + min n (length (cstr s)) < length d \<Longrightarrow>
   strncpy d i s n = Some (blit d i (take n (cstr s) @ [0]))"
  by (induction d i s n rule: strncpy.induct) (auto simp: blit_Cons)

lemma strncpy_overrun:
  "terminated s \<Longrightarrow> i + min n (length (cstr s)) \<ge> length d \<Longrightarrow> strncpy d i s n = None"
  by (induction d i s n rule: strncpy.induct)
     (auto simp: wr_def Option.bind_eq_None_conv split: if_splits)

lemma ucast_scast8 [simp]: "ucast (scast (c :: u8) :: i32) = c"
  by (rule bit_word_eqI) (auto simp: bit_simps)

lemma scast8_eq_0 [simp]: "(scast (c :: u8) :: i32) = 0 \<longleftrightarrow> c = 0"
  by (metis ucast_scast8 scast_0 ucast_0)

lemma strchr_char:
  "terminated s \<Longrightarrow> c \<noteq> 0 \<Longrightarrow>
   \<exists>r. strchr s (scast (c :: u8)) = Some r \<and> (r = None \<longleftrightarrow> c \<notin> set (cstr s))"
proof (induction s)
  case Nil
  then show ?case by simp
next
  case (Cons x s)
  then show ?case by auto
qed

section \<open>Decimal numbers\<close>

text \<open>The decimal digits of a number, none for 0, and its decimal numeral.\<close>

fun decz :: "nat \<Rightarrow> bytes" where
  "decz n = (if n = 0 then [] else decz (n div 10) @ [48 + of_nat (n mod 10)])"

declare decz.simps [simp del]

definition dec :: "nat \<Rightarrow> bytes" where
  "dec n = (if n = 0 then [48] else decz n)"

lemma decz_0 [simp]: "decz 0 = []"
  by (simp add: decz.simps)

lemma decz_Suc: "0 < n \<Longrightarrow> decz n = decz (n div 10) @ [48 + of_nat (n mod 10)]"
  by (simp add: decz.simps [of n])

lemma length_decz: "n < 10 ^ k \<Longrightarrow> length (decz n) \<le> k"
proof (induction k arbitrary: n)
  case 0
  then show ?case by simp
next
  case (Suc k)
  show ?case
  proof (cases "n = 0")
    case False
    have "n div 10 < 10 ^ k" using Suc.prems by (simp add: less_mult_imp_div_less mult.commute)
    with Suc.IH False show ?thesis by (simp add: decz_Suc)
  qed simp
qed

lemma sint_word_of_nat32: "m < 2 ^ 31 \<Longrightarrow> sint (word_of_nat m :: i32) = int m"
  by (simp add: signed_of_nat signed_take_bit_int_eq_self)

lemma digit_byte:
  assumes "d < 10"
  shows "ucast (word_of_nat d + 48 :: i32) = (48 + of_nat d :: u8)"
    and "sint (48 + of_nat d :: u8) = 48 + int d"
    and "(scast (48 + of_nat d :: u8) :: i32) - 48 = of_nat d"
proof -
  have "d \<in> set [0,1,2,3,4,5,6,7,8,9]" using assms by auto
  then show "ucast (word_of_nat d + 48 :: i32) = (48 + of_nat d :: u8)"
    and "sint (48 + of_nat d :: u8) = 48 + int d"
    and "(scast (48 + of_nat d :: u8) :: i32) - 48 = of_nat d" by auto
qed

lemma int_sdivmod_nat: "int m sdiv 10 = int (m div 10)" "int m smod 10 = int (m mod 10)"
  by (cases "m = 0"; simp add: signed_divide_int_def signed_modulo_int_def zdiv_int zmod_int)+

lemma cdivmod_nat:
  assumes "m < 2 ^ 31"
  shows "cdiv (word_of_nat m) 10 = word_of_nat (m div 10)"
    and "cmod (word_of_nat m) 10 = word_of_nat (m mod 10)"
proof -
  have m: "sint (word_of_nat m :: i32) = int m" by (rule sint_word_of_nat32 [OF assms])
  have ten: "sint (10 :: i32) = 10" by simp
  show "cdiv (word_of_nat m) 10 = word_of_nat (m div 10)"
    unfolding cdiv_def m ten int_sdivmod_nat by (rule of_int_of_nat_eq)
  show "cmod (word_of_nat m) 10 = word_of_nat (m mod 10)"
    unfolding cmod_def m ten int_sdivmod_nat by (rule of_int_of_nat_eq)
qed

lemma itoa_loop_decz:
  assumes "length buf = 12" and "i \<le> 10" and "m < 2 ^ 31" and "length (decz m) \<le> i"
  shows "itoa_loop buf i (word_of_nat m) =
    Some (blit buf (Suc i - length (decz m)) (decz m), i - length (decz m))"
  using assms
proof (induction m arbitrary: buf i rule: less_induct)
  case (less m)
  show ?case
  proof (cases "m = 0")
    case True
    then show ?thesis by (cases i) simp_all
  next
    case False
    then obtain j where j: "i = Suc j" using less.prems by (cases i) (simp_all add: decz_Suc)
    have nz: "(word_of_nat m :: i32) \<noteq> 0"
      using False less.prems sint_word_of_nat32 [of m] by (metis of_nat_0_eq_iff signed_0)
    let ?b = "buf[i := 48 + of_nat (m mod 10)]"
    have len: "length (decz (m div 10)) \<le> j"
      using less.prems False j by (simp add: decz_Suc)
    have "itoa_loop ?b j (word_of_nat (m div 10)) =
      Some (blit ?b (i - length (decz (m div 10))) (decz (m div 10)), j - length (decz (m div 10)))"
      using less.IH [of "m div 10" ?b j] less.prems False j len by simp
    moreover have "blit ?b (i - length (decz (m div 10))) (decz (m div 10)) =
      blit buf (i - length (decz (m div 10))) (decz m)"
      using less.prems False j len by (simp add: decz_Suc blit_snoc)
    ultimately show ?thesis
      using less.prems nz False j
      by (simp add: cdivmod_nat digit_byte decz_Suc Suc_diff_le len)
  qed
qed

lemma atoi_digits_decz:
  "atoi_digits (decz m @ r) acc = atoi_digits r (acc * 10 ^ length (decz m) + of_nat m)"
proof (induction m arbitrary: acc r rule: less_induct)
  case (less m)
  show ?case
  proof (cases "m = 0")
    case False
    have d: "m mod 10 \<le> 9" using mod_less_divisor [of 10 m] by simp
    have m: "of_nat m = 10 * of_nat (m div 10) + (of_nat (m mod 10) :: i32)"
      by (metis mult_div_mod_eq of_nat_add of_nat_mult of_nat_numeral)
    show ?thesis
      using False less.IH [of "m div 10"] d
      by (simp add: decz_Suc digit_byte m algebra_simps)
  qed simp
qed

lemma dec_neq_Nil [simp]: "dec n \<noteq> []"
  by (simp add: dec_def decz_Suc)

lemma hd_decz: "0 < n \<Longrightarrow> \<exists>d<10. \<exists>t. decz n = (48 + of_nat d) # t"
proof (induction n rule: less_induct)
  case (less n)
  show ?case
  proof (cases "n < 10")
    case True
    with less.prems show ?thesis by (intro exI [of _ n]) (simp add: decz_Suc)
  next
    case False
    then have "n div 10 < n" "0 < n div 10" by (auto simp: div_greater_zero_iff)
    with less.IH obtain d t where "d < 10" "decz (n div 10) = (48 + of_nat d) # t"
      by blast
    with less.prems show ?thesis by (intro exI [of _ d]) (simp add: decz_Suc)
  qed
qed

lemma digit_char:
  assumes "d < 10"
  shows "(48 + of_nat d :: u8) \<noteq> 0" "(48 + of_nat d :: u8) \<noteq> 32" "(48 + of_nat d :: u8) \<noteq> 9"
    "(48 + of_nat d :: u8) \<noteq> 10" "(48 + of_nat d :: u8) \<noteq> 45" "(48 + of_nat d :: u8) \<noteq> 43"
proof -
  have "d \<in> set [0,1,2,3,4,5,6,7,8,9]" using assms by auto
  then show "(48 + of_nat d :: u8) \<noteq> 0" "(48 + of_nat d :: u8) \<noteq> 32" "(48 + of_nat d :: u8) \<noteq> 9"
    "(48 + of_nat d :: u8) \<noteq> 10" "(48 + of_nat d :: u8) \<noteq> 45" "(48 + of_nat d :: u8) \<noteq> 43"
    by auto
qed

lemma decz_no_zero: "0 \<notin> set (decz n)"
proof (induction n rule: less_induct)
  case (less n)
  then show ?case
    by (cases "n = 0") (auto simp: decz_Suc digit_char simp del: of_nat_mod)
qed

lemma atoi_dec: "atoi (dec n @ 0 # r) = Some (of_nat n)"
proof (cases "n = 0")
  case True
  then show ?thesis by (simp add: atoi_def dec_def)
next
  case False
  then obtain d t where d: "d < 10" "decz n = (48 + of_nat d) # t" using hd_decz by blast
  have "atoi (decz n @ 0 # r) = atoi_digits (decz n @ 0 # r) 0"
    using d by (simp add: atoi_def digit_char)
  also have "\<dots> = Some (of_nat n)" by (simp add: atoi_digits_decz)
  finally show ?thesis using False by (simp add: dec_def)
qed

lemma atoi_minus_dec: "0 < n \<Longrightarrow> atoi (45 # decz n @ 0 # r) = Some (- of_nat n)"
  by (simp add: atoi_def atoi_digits_decz)

text \<open>The numeral \<open>itoa\<close> is meant to print: a minus sign where needed and the decimal digits.\<close>

definition numeral_of :: "i32 \<Rightarrow> bytes" where
  "numeral_of num = (if sint num < 0 then 45 # decz (nat (- sint num)) else dec (nat (sint num)))"

lemma word_of_nat_neg: "sint num < 0 \<Longrightarrow> word_of_nat (nat (- sint num)) = - (num :: i32)"
  by simp

lemma itoa_numeral:
  assumes "length buf = 12" and "num \<noteq> 0x80000000"
  shows "\<exists>b i. itoa buf num = Some (b, i) \<and> length b = 12 \<and> drop i b = numeral_of num @ [0]"
proof (cases "num = 0")
  case True
  then show ?thesis
    using assms by (simp add: itoa_def numeral_of_def dec_def Cons_nth_drop_Suc [symmetric])
next
  case nz: False
  let ?neg = "sint num < 0"
  define m where "m = nat \<bar>sint num\<bar>"
  have range: "- (2 ^ 31) \<le> sint num" "sint num < 2 ^ 31"
    using sint_range_size [of num] by (simp_all add: word_size)
  have "sint num \<noteq> - (2 ^ 31)"
  proof
    assume "sint num = - (2 ^ 31)"
    then have "sint num = sint (0x80000000 :: i32)" by simp
    then show False unfolding sint_inject using assms(2) by simp
  qed
  then have m31: "m < 2 ^ 31" using range by (simp add: m_def)
  have m0: "0 < m" using nz by (simp add: m_def)
  have arg: "(if ?neg then - num else num) = word_of_nat m"
    by (simp add: m_def)
  have len: "length (decz m) \<le> 10" using m31 by (intro length_decz) simp
  let ?L = "length (decz m)"
  have L0: "0 < ?L" using m0 by (simp add: decz_Suc)
  let ?buf = "buf[11 := 0]"
  have loop: "itoa_loop ?buf 10 (word_of_nat m) = Some (blit ?buf (11 - ?L) (decz m), 10 - ?L)"
    using itoa_loop_decz [of ?buf 10 m] assms len m31 by simp
  have tail: "drop (11 - ?L) (blit ?buf (11 - ?L) (decz m)) = decz m @ [0]"
    using assms len by (simp add: blit_def Cons_nth_drop_Suc [symmetric])
  show ?thesis
  proof (cases ?neg)
    case True
    let ?c = "(blit ?buf (11 - ?L) (decz m))[10 - ?L := 45]"
    have i: "10 - ?L < length ?c" "Suc (10 - ?L) = 11 - ?L" using assms len by simp_all
    have "drop (10 - ?L) ?c = ?c ! (10 - ?L) # drop (Suc (10 - ?L)) ?c"
      using i(1) by (rule Cons_nth_drop_Suc [symmetric])
    then have "drop (10 - ?L) ?c = 45 # drop (11 - ?L) (blit ?buf (11 - ?L) (decz m))"
      using i by (simp add: drop_update_cancel)
    then show ?thesis
      using True assms nz arg loop len L0 tail by (simp add: itoa_def numeral_of_def m_def)
  next
    case False
    moreover have "Suc (10 - ?L) = 11 - ?L" using len by simp
    ultimately show ?thesis
      using assms nz arg loop len L0 tail
      by (simp add: itoa_def numeral_of_def m_def dec_def)
  qed
qed

text \<open>
  What a decimal numeral is, without reference to how it is computed: one or more of the characters
  \<open>0\<close> to \<open>9\<close>, no zero in front unless it is the only one, and the value read from the left.
\<close>

definition digits_value :: "bytes \<Rightarrow> nat" where
  "digits_value ds = foldl (\<lambda>v d. 10 * v + (unat d - 48)) 0 ds"

definition decimal :: "nat \<Rightarrow> bytes \<Rightarrow> bool" where
  "decimal n ds \<longleftrightarrow> ds \<noteq> [] \<and> set ds \<subseteq> {48..57} \<and> (hd ds = 48 \<longrightarrow> ds = [48]) \<and> digits_value ds = n"

lemma digit_range:
  assumes "d < 10"
  shows "(48 + of_nat d :: u8) \<in> {48..57}" "unat (48 + of_nat d :: u8) = 48 + d"
    "((48 + of_nat d :: u8) = 48) = (d = 0)"
proof -
  have "d \<in> set [0,1,2,3,4,5,6,7,8,9]" using assms by auto
  then show "(48 + of_nat d :: u8) \<in> {48..57}" "unat (48 + of_nat d :: u8) = 48 + d"
    "((48 + of_nat d :: u8) = 48) = (d = 0)" by auto
qed

lemma decz_digits: "set (decz n) \<subseteq> {48..57} \<and> digits_value (decz n) = n"
proof (induction n rule: less_induct)
  case (less n)
  show ?case
  proof (cases "n = 0")
    case False
    have d: "n mod 10 < 10" by simp
    have "set (decz (n div 10)) \<subseteq> {48..57}" "digits_value (decz (n div 10)) = n div 10"
      using less.IH [of "n div 10"] False by simp_all
    moreover have "digits_value (decz n) = 10 * digits_value (decz (n div 10)) + n mod 10"
      using False digit_range(2) [OF d] by (simp add: decz_Suc digits_value_def del: of_nat_mod)
    ultimately show ?thesis
      using False digit_range(1) [OF d] by (simp add: decz_Suc del: of_nat_mod)
  qed (simp add: digits_value_def)
qed

lemma hd_decz_pos: "0 < n \<Longrightarrow> hd (decz n) \<noteq> 48"
proof (induction n rule: less_induct)
  case (less n)
  show ?case
  proof (cases "n < 10")
    case True
    with less.prems digit_range(3) [OF True] show ?thesis by (simp add: decz_Suc)
  next
    case False
    then have "n div 10 < n" "0 < n div 10" by (auto simp: div_greater_zero_iff)
    moreover from this have "decz (n div 10) \<noteq> []" by (simp add: decz_Suc)
    ultimately show ?thesis using less by (simp add: decz_Suc [of n])
  qed
qed

lemma decimal_dec: "decimal n (dec n)"
  using decz_digits [of n] hd_decz_pos [of n]
  by (cases "n = 0") (auto simp: decimal_def dec_def digits_value_def decz_Suc)

lemma numeral_of_decimal:
  "\<exists>ds. numeral_of num = (if sint num < 0 then 45 # ds else ds) \<and> decimal (nat \<bar>sint num\<bar>) ds"
  using decimal_dec [of "nat \<bar>sint num\<bar>"] by (auto simp: numeral_of_def dec_def split: if_splits)

lemma atoi_numeral: "atoi (numeral_of num @ [0]) = Some num"
  using atoi_minus_dec [of "nat (- sint num)" "[]"] atoi_dec [of "nat (sint num)" "[]"]
  by (auto simp: numeral_of_def)

text \<open>
  C40. For every \<open>int\<close> but \<open>INT_MIN\<close>, \<open>itoa\<close> stays inside its 12-byte buffer and returns a pointer \<open>i\<close> into
  it, behind which stand exactly a minus sign for a negative number, the decimal numeral of its absolute
  value (digits only, no leading zero) and the terminator; and \<open>atoi\<close> reads that text back to the same
  \<open>int\<close>.
\<close>

theorem atoi_itoa:
  assumes "length buf = 12" and "num \<noteq> 0x80000000"
  shows "\<exists>b i ds. itoa buf num = Some (b, i) \<and> length b = 12 \<and> i < 12
    \<and> drop i b = (if sint num < 0 then [45] else []) @ ds @ [0] \<and> decimal (nat \<bar>sint num\<bar>) ds
    \<and> atoi (drop i b) = Some num"
proof -
  obtain b i where b: "itoa buf num = Some (b, i)" "length b = 12" "drop i b = numeral_of num @ [0]"
    using itoa_numeral [OF assms] by blast
  have "drop i b \<noteq> []" using b(3) by simp
  then have "i < 12" unfolding drop_eq_Nil b(2) by simp
  with b atoi_numeral [of num] numeral_of_decimal [of num] show ?thesis by auto
qed

theorem atoi_itoa_witness:
  "\<exists>b i ds. itoa (replicate 12 0) (- 2047) = Some (b, i) \<and> length b = 12 \<and> i < 12
     \<and> drop i b = 45 # ds @ [0] \<and> decimal 2047 ds \<and> atoi (drop i b) = Some (- 2047)"
  using atoi_itoa [of "replicate 12 0" "- 2047"] by simp

section \<open>Trimming\<close>

definition lstrip :: "bytes \<Rightarrow> bytes" where
  "lstrip s = dropWhile (\<lambda>c. c = 32) s"

definition rstrip :: "bytes \<Rightarrow> bytes" where
  "rstrip s = rev (dropWhile (\<lambda>c. c = 32) (rev s))"

lemma skip_spaces_cstr:
  "terminated s \<Longrightarrow> skip_spaces s = Some (length (takeWhile (\<lambda>c. c = 32) (cstr s)))"
  by (induction s) auto

lemma cstr_cut: "n \<le> length (cstr s) \<Longrightarrow> n < length s \<Longrightarrow> cstr (s[n := 0]) = take n (cstr s)"
proof (induction s arbitrary: n)
  case Nil
  then show ?case by simp
next
  case (Cons c s)
  then show ?case by (cases n) (auto split: if_splits)
qed

lemma terminated_cut: "n < length s \<Longrightarrow> terminated (s[n := 0])"
  unfolding terminated_def by (rule set_update_memI)

lemma trim_tail_rstrip:
  "terminated s \<Longrightarrow> \<exists>s'. trim_tail s (length (cstr s)) = Some s' \<and> terminated s'
     \<and> length s' = length s \<and> cstr s' = rstrip (cstr s)"
proof (induction "length (cstr s)" arbitrary: s)
  case 0
  then show ?case by (simp add: rstrip_def)
next
  case (Suc n)
  then have n: "n < length (cstr s)" "n < length s" and len: "length (cstr s) = Suc n"
    using length_cstr_le [of s] by simp_all
  then have c: "s ! n = cstr s ! n" and split: "cstr s = take n (cstr s) @ [cstr s ! n]"
    using nth_cstr_nonzero [of n s] take_Suc_conv_app_nth [of n "cstr s"] by simp_all
  show ?case
  proof (cases "s ! n = 32")
    case True
    let ?s = "s[n := 0]"
    have cs: "cstr ?s = take n (cstr s)" using n by (simp add: cstr_cut)
    with n obtain s' where s': "trim_tail ?s n = Some s'" "terminated s'" "length s' = length s"
      "cstr s' = rstrip (take n (cstr s))"
      using Suc.hyps(1) [of ?s] terminated_cut [of n s] by auto
    moreover have "rstrip (cstr s) = rstrip (take n (cstr s))"
      using True c by (subst split) (simp add: rstrip_def)
    ultimately show ?thesis using True n len by simp
  next
    case False
    then have "rstrip (cstr s) = cstr s"
      using c by (subst split, subst (2) split) (simp add: rstrip_def)
    then show ?thesis using False n len Suc.prems by simp
  qed
qed

lemma trim_spec:
  assumes "terminated s"
  shows "\<exists>s'. trim s = Some s' \<and> length s' = length s \<and> terminated s'
    \<and> cstr s' = rstrip (lstrip (cstr s))"
proof -
  let ?k = "length (takeWhile (\<lambda>c. c = 32) (cstr s))"
  let ?n = "length (cstr s)"
  have k: "?k \<le> ?n" by (rule length_takeWhile_le)
  have strip: "drop ?k (cstr s) = lstrip (cstr s)"
    by (simp add: lstrip_def dropWhile_eq_drop)
  have n: "?n < length s" using assms by (rule length_cstr_less)
  obtain t where t: "s = cstr s @ 0 # t" using terminated_split [OF assms] by blast
  have "take (Suc ?n - ?k) (drop ?k (cstr s @ 0 # t)) = lstrip (cstr s) @ [0]"
    using k by (simp add: strip [symmetric] Suc_diff_le)
  then have "take (Suc ?n - ?k) (drop ?k s) = lstrip (cstr s) @ [0]"
    unfolding t [symmetric] .
  then have mv: "(if ?k > 0 then memmove s 0 ?k (?n - ?k + 1) else Some s) =
      Some (blit s 0 (lstrip (cstr s) @ [0]))"
    using k n memmove_overlap [of 0 "?n - ?k + 1" s ?k] blit_self [of 0 "Suc ?n" s]
    by (auto simp: Suc_diff_le)
  let ?s1 = "blit s 0 (lstrip (cstr s) @ [0])"
  have nz: "0 \<notin> set (lstrip (cstr s))"
    unfolding lstrip_def using cstr_no_zero [of s] by (metis set_dropWhileD)
  have s1: "cstr ?s1 = lstrip (cstr s)" "terminated ?s1"
    using nz by (simp_all add: blit_def)
  have len1: "length ?s1 = length s"
    using k n by (simp add: strip [symmetric])
  obtain s' where "trim_tail ?s1 (length (cstr ?s1)) = Some s'" "terminated s'"
    "length s' = length ?s1" "cstr s' = rstrip (cstr ?s1)"
    using trim_tail_rstrip [OF s1(2)] by blast
  then show ?thesis
    using assms mv s1 len1 by (simp add: trim_def strlen_cstr skip_spaces_cstr)
qed

text \<open>
  \<open>trim\<close> works in place on any terminated string and leaves the string without its leading and
  trailing spaces; the buffer keeps its size.
\<close>

theorem trim_strips:
  assumes "terminated s"
  shows "\<exists>s'. trim s = Some s' \<and> length s' = length s \<and> terminated s'
    \<and> cstr s' = rstrip (lstrip (cstr s))"
  using assms by (rule trim_spec)

theorem trim_strips_witness:
  "\<exists>s'. trim (zlit ''  QEMU DISK  '') = Some s' \<and> length s' = 14 \<and> terminated s'
     \<and> cstr s' = lit ''QEMU DISK''"
proof -
  have l: "length (zlit ''  QEMU DISK  '') = 14" "terminated (zlit ''  QEMU DISK  '')" by simp_all
  have "cstr (zlit ''  QEMU DISK  '') = lit ''  QEMU DISK  ''" by (simp add: lit_def)
  moreover have "rstrip (lstrip (lit ''  QEMU DISK  '')) = lit ''QEMU DISK''"
    by (simp add: lit_def rstrip_def lstrip_def)
  ultimately show ?thesis using trim_strips [OF l(2)] unfolding l(1) by simp
qed

section \<open>Splitting into words and tokens\<close>

text \<open>The maximal runs of characters that are not delimiters.\<close>

function fields :: "('a \<Rightarrow> bool) \<Rightarrow> 'a list \<Rightarrow> 'a list list" where
  "fields P s =
     (let p = dropWhile P s
      in if p = [] then [] else takeWhile (\<lambda>c. \<not> P c) p # fields P (dropWhile (\<lambda>c. \<not> P c) p))"
  by pat_completeness auto
termination
proof (relation "measure (\<lambda>(P, s). length s)")
  fix P :: "'a \<Rightarrow> bool" and s p
  assume p: "p = dropWhile P s" "p \<noteq> []"
  then have "\<not> P (hd p)" by (metis hd_dropWhile)
  then have "length (dropWhile (\<lambda>c. \<not> P c) p) < length p"
    using p(2) by (cases p) (auto simp: length_dropWhile_le le_imp_less_Suc)
  also have "\<dots> \<le> length s" using p(1) by (simp add: length_dropWhile_le)
  finally show "((P, dropWhile (\<lambda>c. \<not> P c) p), P, s) \<in> measure (\<lambda>(P, s). length s)" by simp
qed simp

declare fields.simps [simp del]

lemma fields_none: "dropWhile P s = [] \<Longrightarrow> fields P s = []"
  by (simp add: fields.simps)

lemma fields_some:
  "dropWhile P s = p \<Longrightarrow> p \<noteq> [] \<Longrightarrow>
   fields P s = takeWhile (\<lambda>c. \<not> P c) p # fields P (dropWhile (\<lambda>c. \<not> P c) p)"
  by (subst fields.simps) (simp add: Let_def)

lemma fields_members: "w \<in> set (fields P s) \<Longrightarrow> w \<noteq> [] \<and> (\<forall>c\<in>set w. \<not> P c \<and> c \<in> set s)"
proof (induction P s rule: fields.induct)
  case (1 P s)
  let ?p = "dropWhile P s"
  show ?case
  proof (cases "?p = []")
    case True
    with 1 show ?thesis by (simp add: fields_none)
  next
    case False
    then have hd: "\<not> P (hd ?p)" by (rule hd_dropWhile)
    let ?w = "takeWhile (\<lambda>c. \<not> P c) ?p" and ?r = "dropWhile (\<lambda>c. \<not> P c) ?p"
    have ne: "?w \<noteq> []" using False hd by (cases ?p) auto
    from "1.prems" False consider "w = ?w" | "w \<in> set (fields P ?r)"
      by (auto simp: fields_some [OF refl False])
    then show ?thesis
    proof cases
      case 1
      with ne show ?thesis by (auto dest: set_takeWhileD set_dropWhileD)
    next
      case 2
      with "1.IH" [OF refl False] show ?thesis by (blast dest: set_dropWhileD)
    qed
  qed
qed

text \<open>The scanning loops of \<open>split\<close> and \<open>strtok\<close> stop at the NUL at the latest.\<close>

lemma split_skip_dropWhile:
  "terminated p \<Longrightarrow> d \<noteq> 0 \<Longrightarrow>
   \<exists>q. split_skip d p = Some q \<and> terminated q \<and> cstr q = dropWhile (\<lambda>c. c = d) (cstr p)"
  by (induction p) auto

lemma split_word_takeWhile:
  "terminated p \<Longrightarrow> length (takeWhile (\<lambda>c. c \<noteq> d) (cstr p)) \<le> room \<Longrightarrow>
   \<exists>q. split_word d room p = Some (takeWhile (\<lambda>c. c \<noteq> d) (cstr p), q) \<and> terminated q
     \<and> cstr q = dropWhile (\<lambda>c. c \<noteq> d) (cstr p)"
proof (induction p arbitrary: room)
  case Nil
  then show ?case by simp
next
  case (Cons c p)
  show ?case
  proof (cases "c \<noteq> 0 \<and> c \<noteq> d")
    case True
    with Cons.prems obtain k where "room = Suc k" by (cases room) auto
    with True Cons show ?thesis by fastforce
  next
    case False
    with Cons.prems show ?thesis by auto
  qed
qed

lemma rd_0_cstr: "terminated p \<Longrightarrow> \<exists>c. rd p 0 = Some c \<and> (c = 0 \<longleftrightarrow> cstr p = [])"
  by (cases p) auto

lemma split_loop_fields:
  assumes "terminated p" and "d \<noteq> 0"
    and "length (fields (\<lambda>c. c = d) (cstr p)) \<le> k"
    and "\<forall>w\<in>set (fields (\<lambda>c. c = d) (cstr p)). length w \<le> 63"
  shows "split_loop k d p = Some (map (\<lambda>w. w @ [0]) (fields (\<lambda>c. c = d) (cstr p)))"
  using assms
proof (induction k arbitrary: p)
  case 0
  then show ?case using rd_0_cstr [of p] by auto
next
  case (Suc k)
  obtain q where q: "split_skip d p = Some q" "terminated q"
    "cstr q = dropWhile (\<lambda>c. c = d) (cstr p)"
    using split_skip_dropWhile [OF Suc.prems(1,2)] by blast
  obtain c where c: "rd p 0 = Some c" "c = 0 \<longleftrightarrow> cstr p = []"
    using rd_0_cstr [OF Suc.prems(1)] by blast
  obtain e where e: "rd q 0 = Some e" "e = 0 \<longleftrightarrow> cstr q = []"
    using rd_0_cstr [OF q(2)] by blast
  show ?case
  proof (cases "cstr q = []")
    case True
    then have "fields (\<lambda>c. c = d) (cstr p) = []" using q(3) by (simp add: fields_none)
    then show ?thesis using True q c e by simp
  next
    case False
    let ?w = "takeWhile (\<lambda>c. c \<noteq> d) (cstr q)" and ?r = "dropWhile (\<lambda>c. c \<noteq> d) (cstr q)"
    have f: "fields (\<lambda>c. c = d) (cstr p) = ?w # fields (\<lambda>c. c = d) ?r"
      using fields_some [OF q(3) [symmetric] False] by simp
    have "length ?w \<le> 63" using Suc.prems(4) f by simp
    with q(2) obtain r where r: "split_word d 63 q = Some (?w, r)" "terminated r" "cstr r = ?r"
      using split_word_takeWhile by blast
    have "split_loop k d r = Some (map (\<lambda>w. w @ [0]) (fields (\<lambda>c. c = d) (cstr r)))"
      using Suc.prems f r by (intro Suc.IH) simp_all
    then show ?thesis
      using False q c e r f by auto
  qed
qed

text \<open>
  C39. On a command line of at most 64 words of at most 63 characters, \<open>split\<close> returns exactly the
  maximal delimiter-free runs of the string, in order, each terminated.
\<close>

theorem split_fields:
  assumes "terminated s" and "d \<noteq> 0"
    and "length (fields (\<lambda>c. c = d) (cstr s)) \<le> 64"
    and "\<forall>w\<in>set (fields (\<lambda>c. c = d) (cstr s)). length w \<le> 63"
  shows "c_split s d = Some (map (\<lambda>w. w @ [0]) (fields (\<lambda>c. c = d) (cstr s)))"
  unfolding c_split_def using assms by (rule split_loop_fields)

theorem split_fields_witness:
  "c_split (zlit ''  ls  -l'') 32 = Some [zlit ''ls'', zlit ''-l'']"
proof -
  have f: "fields (\<lambda>c. c = 32) (cstr (zlit ''  ls  -l'')) = [lit ''ls'', lit ''-l'']"
    by (simp add: lit_def fields.simps)
  show ?thesis using split_fields [of "zlit ''  ls  -l''" 32] unfolding f by simp
qed

lemma strtok_skip_dropWhile:
  "terminated delim \<Longrightarrow> terminated p \<Longrightarrow>
   \<exists>q. strtok_skip delim p = Some q \<and> terminated q
     \<and> cstr q = dropWhile (\<lambda>c. c \<in> set (cstr delim)) (cstr p)"
proof (induction p)
  case Nil
  then show ?case by simp
next
  case (Cons c p)
  show ?case
  proof (cases "c = 0")
    case False
    then obtain r where "strchr delim (scast c) = Some r" "r = None \<longleftrightarrow> c \<notin> set (cstr delim)"
      using strchr_char [OF Cons.prems(1)] by blast
    with False Cons show ?thesis by auto
  qed auto
qed

lemma strtok_scan_takeWhile:
  "terminated delim \<Longrightarrow> terminated p \<Longrightarrow>
   \<exists>q. strtok_scan delim p = Some (takeWhile (\<lambda>c. c \<notin> set (cstr delim)) (cstr p), q)
     \<and> terminated q \<and> cstr q = dropWhile (\<lambda>c. c \<notin> set (cstr delim)) (cstr p)"
proof (induction p)
  case Nil
  then show ?case by simp
next
  case (Cons c p)
  show ?case
  proof (cases "c = 0")
    case False
    then obtain r where "strchr delim (scast c) = Some r" "r = None \<longleftrightarrow> c \<notin> set (cstr delim)"
      using strchr_char [OF Cons.prems(1)] by blast
    with False Cons show ?thesis by auto
  qed auto
qed

text \<open>The text \<open>strtok\<close> has still to scan, from its static pointer.\<close>

definition tok_rest :: "bytes option \<Rightarrow> bytes" where
  "tok_rest l = (case l of None \<Rightarrow> [] | Some p \<Rightarrow> cstr p)"

lemma fields_Cons_delim: "P c \<Longrightarrow> fields P (c # s) = fields P s"
  by (subst (1 2) fields.simps) simp

lemma strtok_fields:
  assumes "terminated delim" and "terminated p" and "str = Some p \<or> str = None \<and> l = Some p"
  shows "case fields (\<lambda>c. c \<in> set (cstr delim)) (cstr p) of
      [] \<Rightarrow> strtok str delim l = Some (None, None)
    | w # ws \<Rightarrow> \<exists>l'. strtok str delim l = Some (Some (w @ [0]), l')
        \<and> (\<forall>q. l' = Some q \<longrightarrow> terminated q)
        \<and> fields (\<lambda>c. c \<in> set (cstr delim)) (tok_rest l') = ws"
proof -
  let ?P = "\<lambda>c. c \<in> set (cstr delim)"
  have sel: "(if str \<noteq> None then str else l) = Some p" using assms(3) by auto
  obtain q where q: "strtok_skip delim p = Some q" "terminated q" "cstr q = dropWhile ?P (cstr p)"
    using strtok_skip_dropWhile [OF assms(1,2)] by blast
  obtain e where e: "rd q 0 = Some e" "e = 0 \<longleftrightarrow> cstr q = []"
    using rd_0_cstr [OF q(2)] by blast
  show ?thesis
  proof (cases "cstr q = []")
    case True
    then show ?thesis using q e sel by (simp add: strtok_def fields_none)
  next
    case False
    let ?w = "takeWhile (\<lambda>c. \<not> ?P c) (cstr q)" and ?r = "dropWhile (\<lambda>c. \<not> ?P c) (cstr q)"
    have f: "fields ?P (cstr p) = ?w # fields ?P ?r"
      using fields_some [OF q(3) [symmetric] False] .
    obtain r where r: "strtok_scan delim q = Some (?w, r)" "terminated r" "cstr r = ?r"
      using strtok_scan_takeWhile [OF assms(1) q(2)] by blast
    obtain c r1 where cr: "r = c # r1" using r(2) by (cases r) auto
    have hd: "?P c" if "c \<noteq> 0"
    proof -
      have eq: "?r = c # cstr r1" using that cr r(3) by simp
      then have "?r \<noteq> []" by simp
      from hd_dropWhile [OF this] have "\<not> \<not> ?P (hd ?r)" by blast
      then show ?thesis unfolding eq by simp
    qed
    have "fields ?P ?r = fields ?P (tok_rest (if c \<noteq> 0 then Some r1 else None))"
    proof (cases "c = 0")
      case True
      then show ?thesis using cr r(3) by (simp add: tok_rest_def)
    next
      case False
      then have r1: "?r = c # cstr r1" using cr r(3) by simp
      have "fields ?P (c # cstr r1) = fields ?P (cstr r1)"
        using hd [OF False] by (rule fields_Cons_delim)
      then show ?thesis unfolding r1 using False by (simp add: tok_rest_def)
    qed
    then show ?thesis
      using False q e r sel f cr by (auto simp: strtok_def)
  qed
qed

end
