(* ===== verification/Heap.thy ===== *)
theory Heap
  imports Prelude
begin

text \<open>
  The kernel heap, mem/heap.c. Block headers are a typed store: \<open>blk s a\<close> is the header last
  written at address \<open>a\<close>, \<open>None\<close> where none was. Payload bytes are the store \<open>hmem\<close>. A header that a
  merge absorbs stays in the store, as it stays in memory. The walks over the list are partial
  functions, \<open>None\<close> when a pointer leads to no header or the list does not end.

  The abstract heap is the list of the blocks' payload sizes and free flags in address order;
  \<open>heap_ok s B L\<close> says the store holds exactly these blocks, laid end to end from \<open>B\<close>. The
  operations are shown to be first fit, split and merge on that list.
\<close>

section \<open>State and operations\<close>

record heap_block =
  hb_size :: u64
  hb_free :: bool
  hb_next :: u64
  hb_prev :: u64

record heap_state =
  heap_head :: u64
  heap_base :: u64
  heap_total_size :: u64
  blk :: "u64 \<Rightarrow> heap_block option"
  hmem :: "u64 \<Rightarrow> u8"

definition align16 :: "u64 \<Rightarrow> u64" where
  "align16 x = push_bit 4 (drop_bit 4 (x - 1)) + 16"

definition BLOCK_SIZE :: u64 where
  "BLOCK_SIZE = align16 32"

definition heap_init :: "u64 \<Rightarrow> u64 \<Rightarrow> heap_state \<Rightarrow> heap_state" where
  "heap_init heap_start heap_size s =
     s\<lparr>heap_base := heap_start, heap_total_size := heap_size, heap_head := heap_start,
       blk := (blk s)(heap_start \<mapsto>
         \<lparr>hb_size = heap_size - BLOCK_SIZE, hb_free = True, hb_next = 0, hb_prev = 0\<rparr>)\<rparr>"

text \<open>A write to one field of the header at an address.\<close>

definition upd_blk :: "u64 \<Rightarrow> (heap_block \<Rightarrow> heap_block) \<Rightarrow> heap_state \<Rightarrow> heap_state option" where
  "upd_blk a f s = do { b \<leftarrow> blk s a; Some (s\<lparr>blk := (blk s)(a \<mapsto> f b)\<rparr>) }"

definition split_block :: "u64 \<Rightarrow> u64 \<Rightarrow> heap_state \<Rightarrow> heap_state option" where
  "split_block block sz s = do {
     b \<leftarrow> blk s block;
     if hb_size b > sz + BLOCK_SIZE then do {
       let new_block = block + BLOCK_SIZE + sz;
       let s1 = s\<lparr>blk := (blk s)(new_block \<mapsto>
         \<lparr>hb_size = hb_size b - sz - BLOCK_SIZE, hb_free = True, hb_next = hb_next b,
          hb_prev = block\<rparr>)\<rparr>;
       s2 \<leftarrow> (if hb_next b \<noteq> 0 then upd_blk (hb_next b) (\<lambda>c. c\<lparr>hb_prev := new_block\<rparr>) s1 else Some s1);
       s3 \<leftarrow> upd_blk block (\<lambda>c. c\<lparr>hb_size := sz\<rparr>) s2;
       upd_blk block (\<lambda>c. c\<lparr>hb_next := new_block\<rparr>) s3 }
     else Some s }"

partial_function (option) find_fit :: "(u64 \<Rightarrow> heap_block option) \<Rightarrow> u64 \<Rightarrow> u64 \<Rightarrow> u64 option" where
  "find_fit h sz cur =
     (if cur = 0 then Some 0
      else do { b \<leftarrow> h cur;
                if hb_free b \<and> sz \<le> hb_size b then Some cur else find_fit h sz (hb_next b) })"

definition kmalloc :: "u64 \<Rightarrow> heap_state \<Rightarrow> (u64 \<times> heap_state) option" where
  "kmalloc sz0 s = do {
     let sz = align16 sz0;
     cur \<leftarrow> find_fit (blk s) sz (heap_head s);
     if cur = 0 then Some (0, s)
     else do {
       s1 \<leftarrow> split_block cur sz s;
       s2 \<leftarrow> upd_blk cur (\<lambda>b. b\<lparr>hb_free := False\<rparr>) s1;
       Some (cur + BLOCK_SIZE, s2) } }"

definition kfree :: "u64 \<Rightarrow> heap_state \<Rightarrow> heap_state option" where
  "kfree ptr s =
     (if ptr = 0 then Some s
      else do {
        let block = ptr - BLOCK_SIZE;
        s1 \<leftarrow> upd_blk block (\<lambda>b. b\<lparr>hb_free := True\<rparr>) s;
        b \<leftarrow> blk s1 block;
        s2 \<leftarrow> (if hb_next b \<noteq> 0 then do {
                 n \<leftarrow> blk s1 (hb_next b);
                 if hb_free n then do {
                   t1 \<leftarrow> upd_blk block (\<lambda>c. c\<lparr>hb_size := hb_size c + (BLOCK_SIZE + hb_size n)\<rparr>) s1;
                   t2 \<leftarrow> upd_blk block (\<lambda>c. c\<lparr>hb_next := hb_next n\<rparr>) t1;
                   c \<leftarrow> blk t2 block;
                   if hb_next c \<noteq> 0 then upd_blk (hb_next c) (\<lambda>c. c\<lparr>hb_prev := block\<rparr>) t2
                   else Some t2 }
                 else Some s1 }
               else Some s1);
        b2 \<leftarrow> blk s2 block;
        if hb_prev b2 \<noteq> 0 then do {
          p \<leftarrow> blk s2 (hb_prev b2);
          if hb_free p then do {
            u1 \<leftarrow> upd_blk (hb_prev b2) (\<lambda>c. c\<lparr>hb_size := hb_size c + (BLOCK_SIZE + hb_size b2)\<rparr>) s2;
            u2 \<leftarrow> upd_blk (hb_prev b2) (\<lambda>c. c\<lparr>hb_next := hb_next b2\<rparr>) u1;
            if hb_next b2 \<noteq> 0 then upd_blk (hb_next b2) (\<lambda>c. c\<lparr>hb_prev := hb_prev b2\<rparr>) u2
            else Some u2 }
          else Some s2 }
        else Some s2 })"

text \<open>The byte loops of \<open>krealloc\<close> and \<open>kcalloc\<close>, by the number of bytes left.\<close>

fun copy_bytes :: "nat \<Rightarrow> u64 \<Rightarrow> u64 \<Rightarrow> (u64 \<Rightarrow> u8) \<Rightarrow> (u64 \<Rightarrow> u8)" where
  "copy_bytes 0 dst src m = m"
| "copy_bytes (Suc n) dst src m = copy_bytes n (dst + 1) (src + 1) (m(dst := m src))"

fun zero_bytes :: "nat \<Rightarrow> u64 \<Rightarrow> (u64 \<Rightarrow> u8) \<Rightarrow> (u64 \<Rightarrow> u8)" where
  "zero_bytes 0 dst m = m"
| "zero_bytes (Suc n) dst m = zero_bytes n (dst + 1) (m(dst := 0))"

definition krealloc :: "u64 \<Rightarrow> u64 \<Rightarrow> heap_state \<Rightarrow> (u64 \<times> heap_state) option" where
  "krealloc ptr sz s =
     (if ptr = 0 then kmalloc sz s
      else do {
        b \<leftarrow> blk s (ptr - BLOCK_SIZE);
        if sz \<le> hb_size b then Some (ptr, s)
        else do {
          (newptr, s1) \<leftarrow> kmalloc sz s;
          if newptr = 0 then Some (0, s1)
          else do {
            b1 \<leftarrow> blk s1 (ptr - BLOCK_SIZE);
            let s2 = s1\<lparr>hmem := copy_bytes (unat (hb_size b1)) newptr ptr (hmem s1)\<rparr>;
            s3 \<leftarrow> kfree ptr s2;
            Some (newptr, s3) } } })"

definition kcalloc :: "u64 \<Rightarrow> u64 \<Rightarrow> heap_state \<Rightarrow> (u64 \<times> heap_state) option" where
  "kcalloc nmemb sz s = do {
     let total = nmemb * sz;
     (ptr, s1) \<leftarrow> kmalloc total s;
     if ptr = 0 then Some (0, s1)
     else Some (ptr, s1\<lparr>hmem := zero_bytes (unat total) ptr (hmem s1)\<rparr>) }"

definition heap_total :: "heap_state \<Rightarrow> u64" where
  "heap_total s = heap_total_size s"

partial_function (option) sum_blocks ::
    "bool \<Rightarrow> (u64 \<Rightarrow> heap_block option) \<Rightarrow> u64 \<Rightarrow> u64 \<Rightarrow> u64 option" where
  "sum_blocks f h acc cur =
     (if cur = 0 then Some acc
      else do { b \<leftarrow> h cur;
                sum_blocks f h (if hb_free b = f then acc + hb_size b else acc) (hb_next b) })"

definition heap_used :: "heap_state \<Rightarrow> u64 option" where
  "heap_used s = sum_blocks False (blk s) 0 (heap_head s)"

definition heap_free :: "heap_state \<Rightarrow> u64 option" where
  "heap_free s = sum_blocks True (blk s) 0 (heap_head s)"

section \<open>The abstract heap\<close>

type_synonym seg = "nat \<times> bool"

text \<open>An address or size given as a number. It is kept folded in the proofs.\<close>

definition ad :: "nat \<Rightarrow> u64" where
  "ad x = of_nat x"

definition span :: "seg list \<Rightarrow> nat" where
  "span L = sum_list (map (\<lambda>(n, f). n + 32) L)"

fun starts :: "nat \<Rightarrow> seg list \<Rightarrow> nat list" where
  "starts a [] = []"
| "starts a ((n, f) # L) = a # starts (a + 32 + n) L"

fun chain :: "(u64 \<Rightarrow> heap_block option) \<Rightarrow> u64 \<Rightarrow> nat \<Rightarrow> seg list \<Rightarrow> u64 \<Rightarrow> bool" where
  "chain h p a [] e = True"
| "chain h p a ((n, f) # L) e =
     (h (ad a) = Some \<lparr>hb_size = ad n, hb_free = f,
        hb_next = (if L = [] then e else ad (a + 32 + n)), hb_prev = p\<rparr>
      \<and> chain h (ad a) (a + 32 + n) L e)"

text \<open>No two neighbouring blocks are both free.\<close>

definition coalesced :: "seg list \<Rightarrow> bool" where
  "coalesced L = successively (\<lambda>x y. \<not> (snd x \<and> snd y)) L"

definition heap_ok :: "heap_state \<Rightarrow> nat \<Rightarrow> seg list \<Rightarrow> bool" where
  "heap_ok s B L \<longleftrightarrow>
     heap_head s = ad B \<and> heap_base s = ad B \<and> heap_total_size s = ad (span L)
     \<and> 0 < B \<and> 16 dvd B \<and> L \<noteq> [] \<and> B + span L < 2 ^ 64
     \<and> list_all (\<lambda>x. 16 dvd fst x) L \<and> coalesced L \<and> chain (blk s) 0 B L 0"

definition fits :: "nat \<Rightarrow> seg \<Rightarrow> bool" where
  "fits k = (\<lambda>(n, f). f \<and> k \<le> n)"

text \<open>First fit: the first free block large enough is split when more than a header is left over.\<close>

definition carve :: "nat \<Rightarrow> nat \<Rightarrow> seg list" where
  "carve k n = (if k + 32 < n then [(k, False), (n - k - 32, True)] else [(n, False)])"

definition first_fit :: "nat \<Rightarrow> seg list \<Rightarrow> (seg list \<times> nat \<times> seg list) option" where
  "first_fit k L =
     (case dropWhile (\<lambda>x. \<not> fits k x) L of [] \<Rightarrow> None
      | (n, f) # post \<Rightarrow> Some (takeWhile (\<lambda>x. \<not> fits k x) L, n, post))"

text \<open>Freeing: merge with the next block, then with the one before.\<close>

definition merge_next :: "nat \<Rightarrow> seg list \<Rightarrow> nat \<times> seg list" where
  "merge_next n post =
     (case post of (m, True) # post' \<Rightarrow> (n + 32 + m, post') | _ \<Rightarrow> (n, post))"

definition release :: "seg list \<Rightarrow> nat \<Rightarrow> seg list \<Rightarrow> seg list" where
  "release pre n post =
     (let (n1, post1) = merge_next n post
      in if pre \<noteq> [] \<and> snd (last pre)
         then butlast pre @ (fst (last pre) + 32 + n1, True) # post1
         else pre @ (n1, True) # post1)"

section \<open>Alignment\<close>

lemma BLOCK_SIZE_32 [simp]: "BLOCK_SIZE = 32"
  by (simp add: BLOCK_SIZE_def align16_def)

definition round16 :: "nat \<Rightarrow> nat" where
  "round16 k = (k + 15) div 16 * 16"

lemma round16_ge: "k \<le> round16 k" and round16_less: "round16 k < k + 16"
  unfolding round16_def by linarith+

lemma round16_dvd [simp]: "16 dvd round16 k"
  by (simp add: round16_def)

lemma align16_0: "align16 0 = 0"
  by (simp add: align16_def push_bit_eq_mult mask_eq_decr_exp)

lemma unat_align16:
  assumes "unat x \<le> 2 ^ 64 - 16"
  shows "unat (align16 x) = round16 (unat x)"
proof (cases "x = 0")
  case True
  then show ?thesis by (simp add: align16_0 round16_def)
next
  case False
  then have "0 < unat x" by (simp add: unat_gt_0)
  then obtain v where v: "unat x = Suc v" by (cases "unat x") simp_all
  have "unat (x - 1) = v" using unat_minus_one [OF False] v by simp
  moreover have "(16 + v) div 16 = Suc (v div 16)" by simp
  ultimately show ?thesis
    using assms v
    by (simp add: align16_def round16_def unat_word_ariths push_bit_eq_mult drop_bit_eq_div
        unat_div)
qed

section \<open>Chains of blocks\<close>

lemma ad_inject: "x < 2 ^ 64 \<Longrightarrow> y < 2 ^ 64 \<Longrightarrow> ad x = ad y \<longleftrightarrow> x = y"
  by (simp add: ad_def word_of_nat_eq_iff take_bit_nat_eq_self)

lemma ad_0: "x < 2 ^ 64 \<Longrightarrow> ad x = 0 \<longleftrightarrow> x = 0"
  using ad_inject [of x 0] by (simp add: ad_def)

lemma unat_ad: "x < 2 ^ 64 \<Longrightarrow> unat (ad x) = x"
  by (simp add: ad_def unsigned_of_nat take_bit_nat_eq_self)

lemma ad_unat [simp]: "ad (unat w) = w"
  by (simp add: ad_def)

lemma ad_le: "x < 2 ^ 64 \<Longrightarrow> y < 2 ^ 64 \<Longrightarrow> ad x \<le> ad y \<longleftrightarrow> x \<le> y"
  by (simp add: word_le_nat_alt unat_ad)

lemma ad_less: "x < 2 ^ 64 \<Longrightarrow> y < 2 ^ 64 \<Longrightarrow> ad x < ad y \<longleftrightarrow> x < y"
  by (simp add: word_less_nat_alt unat_ad)

lemmas ad64 = ad_inject ad_0 ad_le ad_less unat_ad

lemma ad_plus: "ad x + ad y = ad (x + y)"
  by (simp add: ad_def)

lemma ad_minus: "y \<le> x \<Longrightarrow> ad x - ad y = ad (x - y)"
  by (simp add: ad_def)

lemma ad_32: "32 = ad 32"
  by (simp add: ad_def)

lemma span_Nil [simp]: "span [] = 0"
  and span_Cons [simp]: "span ((n, f) # L) = n + 32 + span L"
  and span_append [simp]: "span (L1 @ L2) = span L1 + span L2"
  by (simp_all add: span_def)

lemma starts_bounds: "x \<in> set (starts a L) \<Longrightarrow> a \<le> x \<and> x + 32 \<le> a + span L"
  by (induction a L rule: starts.induct) fastforce+

lemma starts_append: "starts a (L1 @ L2) = starts a L1 @ starts (a + span L1) L2"
  by (induction a L1 rule: starts.induct) (simp_all add: add.assoc add.commute add.left_commute)

lemma chain_frame:
  "chain h p a L e \<Longrightarrow> (\<And>x. x \<in> set (starts a L) \<Longrightarrow> h' (ad x) = h (ad x)) \<Longrightarrow> chain h' p a L e"
  by (induction h p a L e rule: chain.induct) simp_all

lemma chain_upd_other:
  assumes "chain h p a L e" and "y < 2 ^ 64" and "a + span L \<le> 2 ^ 64"
    and "y \<notin> set (starts a L)"
  shows "chain (h(ad y \<mapsto> v)) p a L e"
proof (rule chain_frame [OF assms(1)])
  fix x assume "x \<in> set (starts a L)"
  with assms starts_bounds [of x a L] have "x < 2 ^ 64" "x \<noteq> y" by auto
  then show "(h(ad y \<mapsto> v)) (ad x) = h (ad x)"
    using assms(2) by (simp add: ad_inject)
qed

lemma not_start_before: "y < a \<Longrightarrow> y \<notin> set (starts a L)"
  and not_start_after: "a + span L < y + 32 \<Longrightarrow> y \<notin> set (starts a L)"
  using starts_bounds by (force, force)

text \<open>The last block of a chain, and the split of a chain at a point of the list.\<close>

definition last_of :: "u64 \<Rightarrow> nat \<Rightarrow> seg list \<Rightarrow> u64" where
  "last_of p a L = (if L = [] then p else ad (last (starts a L)))"

lemma starts_eq_Nil [simp]: "starts a L = [] \<longleftrightarrow> L = []"
  by (cases "(a, L)" rule: starts.cases) simp_all

lemma last_of_Cons: "last_of p a ((n, f) # L) = last_of (ad a) (a + 32 + n) L"
  by (simp add: last_of_def)

lemma last_of_Nil [simp]: "last_of p a [] = p"
  by (simp add: last_of_def)

lemma chain_append:
  "chain h p a (L1 @ L2) e \<longleftrightarrow>
     chain h p a L1 (if L2 = [] then e else ad (a + span L1))
     \<and> chain h (last_of p a L1) (a + span L1) L2 e"
proof (induction L1 arbitrary: p a)
  case Nil
  then show ?case by simp
next
  case (Cons x L1)
  obtain n f where x: "x = (n, f)" by (cases x)
  have "a + 32 + n + span L1 = a + span (x # L1)" by (simp add: x)
  then show ?case
    unfolding x append_Cons chain.simps last_of_Cons Cons.IH by (simp add: ac_simps)
qed

lemma chain_end: "chain h p a (L @ [x]) e \<Longrightarrow> \<exists>b. h (last_of p a (L @ [x])) = Some b"
  by (cases x) (auto simp: chain_append last_of_def starts_append)

text \<open>Changing where a chain comes from changes one header, the one at its first address.\<close>

lemma chain_relink:
  assumes "chain h p a ((m, g) # L) e" and "a + span ((m, g) # L) \<le> 2 ^ 64"
  shows "\<exists>b. h (ad a) = Some b \<and> chain (h(ad a \<mapsto> b\<lparr>hb_prev := q\<rparr>)) q a ((m, g) # L) e"
proof -
  have "chain (h(ad a \<mapsto> v)) (ad a) (a + 32 + m) L e" for v
    using assms by (intro chain_upd_other) (simp_all add: not_start_before)
  with assms(1) show ?thesis by simp
qed

text \<open>A chain whose end is redirected differs in the header of its last block only.\<close>

lemma chain_redirect:
  assumes "chain h p a (L @ [(m, g)]) e" and "a + span (L @ [(m, g)]) \<le> 2 ^ 64"
  shows "\<exists>b. h (ad (a + span L)) = Some b \<and> hb_size b = ad m \<and> hb_free b = g
    \<and> hb_prev b = last_of p a L \<and> hb_next b = e
    \<and> chain (h(ad (a + span L) \<mapsto>
        \<lparr>hb_size = ad m', hb_free = g, hb_next = e', hb_prev = last_of p a L\<rparr>))
        p a (L @ [(m', g)]) e'"
proof -
  have c: "chain h p a L (ad (a + span L))"
    and b: "h (ad (a + span L)) = Some \<lparr>hb_size = ad m, hb_free = g, hb_next = e,
      hb_prev = last_of p a L\<rparr>"
    using assms(1) by (simp_all add: chain_append)
  have "chain (h(ad (a + span L) \<mapsto> v)) p a L (ad (a + span L))" for v
    using c assms(2) by (intro chain_upd_other) (simp_all add: not_start_after)
  with b show ?thesis by (simp add: chain_append)
qed

section \<open>First fit\<close>

lemma find_fit_chain:
  assumes "chain h p a L 0" and "0 < a" and "a + span L < 2 ^ 64" and "k < 2 ^ 64"
  shows "find_fit h (ad k) (if L = [] then 0 else ad a) =
    Some (case first_fit k L of None \<Rightarrow> 0 | Some (pre, n, post) \<Rightarrow> ad (a + span pre))"
  using assms
proof (induction L arbitrary: p a)
  case Nil
  then show ?case by (simp add: find_fit.simps first_fit_def)
next
  case (Cons x L)
  obtain n f where x: "x = (n, f)" by (cases x)
  have a: "ad a \<noteq> 0" and n: "n < 2 ^ 64" using Cons.prems x by (simp_all add: ad64)
  show ?case
  proof (cases "fits k x")
    case True
    then have "first_fit k (x # L) = Some ([], n, L)" by (simp add: first_fit_def x)
    then show ?thesis
      using True Cons.prems a n by (simp add: find_fit.simps [of h _ "ad a"] x fits_def ad64)
  next
    case False
    have IH: "find_fit h (ad k) (if L = [] then 0 else ad (a + 32 + n)) =
      Some (case first_fit k L of None \<Rightarrow> 0
        | Some (pre, n', post) \<Rightarrow> ad (a + 32 + n + span pre))"
      using Cons.prems x by (intro Cons.IH [where p = "ad a"]) (simp_all add: ac_simps)
    have ff: "first_fit k (x # L) =
      (case first_fit k L of None \<Rightarrow> None | Some (pre, r) \<Rightarrow> Some (x # pre, r))"
      using False by (cases "dropWhile (\<lambda>x. \<not> fits k x) L") (auto simp: first_fit_def simp del: dropWhile_eq_Nil_conv)
    have "find_fit h (ad k) (ad a) =
        find_fit h (ad k) (if L = [] then 0 else ad (a + 32 + n))"
      using False Cons.prems a n
      by (subst find_fit.simps) (auto simp: x fits_def ad64)
    then show ?thesis
      unfolding IH ff by (auto split: option.splits simp: x ac_simps)
  qed
qed

lemma first_fit_Some:
  assumes "first_fit k L = Some (pre, n, post)"
  shows "L = pre @ (n, True) # post \<and> k \<le> n \<and> (\<forall>x\<in>set pre. \<not> fits k x)"
proof -
  obtain f where d: "dropWhile (\<lambda>x. \<not> fits k x) L = (n, f) # post"
    and pre: "pre = takeWhile (\<lambda>x. \<not> fits k x) L"
    using assms by (auto simp: first_fit_def split: list.splits)
  then have "fits k (n, f)" using hd_dropWhile [of "\<lambda>x. \<not> fits k x" L] by auto
  moreover have "L = pre @ (n, f) # post"
    unfolding pre d [symmetric] by simp
  ultimately show ?thesis using pre by (auto simp: fits_def dest: set_takeWhileD)
qed

lemma first_fit_None: "first_fit k L = None \<longleftrightarrow> (\<forall>x\<in>set L. \<not> fits k x)"
proof -
  have "first_fit k L = None \<longleftrightarrow> dropWhile (\<lambda>x. \<not> fits k x) L = []"
    by (cases "dropWhile (\<lambda>x. \<not> fits k x) L") (auto simp: first_fit_def simp del: dropWhile_eq_Nil_conv)
  then show ?thesis unfolding dropWhile_eq_Nil_conv by blast
qed

section \<open>Splitting and flagging a block of a chain\<close>

lemma chain_at:
  assumes "chain h p a (pre @ (n, f) # post) e"
  shows "chain h p a pre (ad (a + span pre))"
    and "h (ad (a + span pre)) = Some \<lparr>hb_size = ad n, hb_free = f,
      hb_next = (if post = [] then e else ad (a + span pre + 32 + n)), hb_prev = last_of p a pre\<rparr>"
    and "chain h (ad (a + span pre)) (a + span pre + 32 + n) post e"
  using assms by (simp_all add: chain_append)

lemma chain_atI:
  assumes "chain h p a pre (ad (a + span pre))"
    and "h (ad (a + span pre)) = Some \<lparr>hb_size = ad n, hb_free = f,
      hb_next = (if post = [] then e else ad (a + span pre + 32 + n)), hb_prev = last_of p a pre\<rparr>"
    and "chain h (ad (a + span pre)) (a + span pre + 32 + n) post e"
  shows "chain h p a (pre @ (n, f) # post) e"
  using assms by (simp add: chain_append)

lemma set_flag_chain:
  assumes "chain (blk s) p a (pre @ (n, f) # post) e" and "a + span (pre @ (n, f) # post) \<le> 2 ^ 64"
  shows "\<exists>h'. upd_blk (ad (a + span pre)) (\<lambda>b. b\<lparr>hb_free := g\<rparr>) s = Some (s\<lparr>blk := h'\<rparr>)
    \<and> chain h' p a (pre @ (n, g) # post) e"
proof -
  let ?A = "a + span pre"
  let ?v = "\<lparr>hb_size = ad n, hb_free = g,
      hb_next = (if post = [] then e else ad (?A + 32 + n)), hb_prev = last_of p a pre\<rparr>"
  have "upd_blk (ad ?A) (\<lambda>b. b\<lparr>hb_free := g\<rparr>) s = Some (s\<lparr>blk := (blk s)(ad ?A \<mapsto> ?v)\<rparr>)"
    by (simp add: upd_blk_def chain_at(2) [OF assms(1)])
  moreover have "chain ((blk s)(ad ?A \<mapsto> ?v)) p a (pre @ (n, g) # post) e"
    using assms(2) chain_at(1,3) [OF assms(1)]
    by (intro chain_atI chain_upd_other) (simp_all add: not_start_before not_start_after)
  ultimately show ?thesis by blast
qed

lemma split_block_chain:
  assumes c: "chain (blk s) p a (pre @ (n, f) # post) 0" and "0 < a"
    and bound: "a + span (pre @ (n, f) # post) < 2 ^ 64" and k: "k + 32 < n"
  shows "\<exists>h'. split_block (ad (a + span pre)) (ad k) s = Some (s\<lparr>blk := h'\<rparr>)
    \<and> chain h' p a (pre @ (k, f) # (n - k - 32, True) # post) 0"
proof -
  let ?A = "a + span pre" and ?N = "a + span pre + 32 + k" and ?P = "a + span pre + 32 + n"
  let ?nx = "if post = [] then 0 else ad ?P"
  define nb where "nb = \<lparr>hb_size = ad (n - k - 32), hb_free = True, hb_next = ?nx, hb_prev = ad ?A\<rparr>"
  define va where "va = \<lparr>hb_size = ad k, hb_free = f, hb_next = ad ?N, hb_prev = last_of p a pre\<rparr>"
  define h1 where "h1 = (blk s)(ad ?N \<mapsto> nb)"
  note hA = chain_at(2) [OF c] and at = chain_at(1,3) [OF c]
  have lt: "?A < 2 ^ 64" "?N < 2 ^ 64" "?P < 2 ^ 64 \<or> post = []" "n < 2 ^ 64" "k < 2 ^ 64" "k + 32 < 2 ^ 64"
    using bound k by simp_all
  have cond: "ad k + 32 < ad n" using lt k by (simp add: ad_32 ad_plus ad64)
  have new: "ad ?A + 32 + ad k = ad ?N" by (simp add: ad_32 ad_plus)
  have sz: "ad n - ad k - 32 = ad (n - k - 32)" using k by (simp add: ad_32 ad_minus)
  have neq: "ad ?A \<noteq> ad ?N" using lt by (simp add: ad64)
  have h1A: "h1 (ad ?A) = blk s (ad ?A)" using neq by (simp add: h1_def)
  have c1: "chain h1 (ad ?A) ?P post 0"
    unfolding h1_def using at(2) bound k by (intro chain_upd_other not_start_before) simp_all
  have "\<exists>h2. (if ?nx \<noteq> 0 then upd_blk ?nx (\<lambda>c. c\<lparr>hb_prev := ad ?N\<rparr>) (s\<lparr>blk := h1\<rparr>)
        else Some (s\<lparr>blk := h1\<rparr>)) = Some (s\<lparr>blk := h2\<rparr>)
      \<and> chain h2 (ad ?N) ?P post 0 \<and> (\<forall>x<?P. h2 (ad x) = h1 (ad x))"
  proof (cases post)
    case Nil
    then show ?thesis by (intro exI [of _ h1]) simp
  next
    case (Cons x post')
    obtain m g where x: "x = (m, g)" by (cases x)
    have P: "?P < 2 ^ 64" using lt Cons by simp
    obtain b where b: "h1 (ad ?P) = Some b"
      and r: "chain (h1(ad ?P \<mapsto> b\<lparr>hb_prev := ad ?N\<rparr>)) (ad ?N) ?P post 0"
      using chain_relink [of h1 "ad ?A" ?P m g post' 0 "ad ?N"] c1 bound Cons x by auto
    have "ad ?P \<noteq> 0" using P \<open>0 < a\<close> by (simp add: ad64)
    moreover have "\<forall>x<?P. (h1(ad ?P \<mapsto> b\<lparr>hb_prev := ad ?N\<rparr>)) (ad x) = h1 (ad x)"
      using P by (auto simp: ad64)
    ultimately show ?thesis using r b Cons
      by (intro exI [of _ "h1(ad ?P \<mapsto> b\<lparr>hb_prev := ad ?N\<rparr>)"]) (simp add: upd_blk_def)
  qed
  then obtain h2 where
    s2: "(if ?nx \<noteq> 0 then upd_blk ?nx (\<lambda>c. c\<lparr>hb_prev := ad ?N\<rparr>) (s\<lparr>blk := h1\<rparr>)
        else Some (s\<lparr>blk := h1\<rparr>)) = Some (s\<lparr>blk := h2\<rparr>)"
    and c2: "chain h2 (ad ?N) ?P post 0" and same: "\<And>x. x < ?P \<Longrightarrow> h2 (ad x) = h1 (ad x)"
    by blast
  have h2A: "h2 (ad ?A) = blk s (ad ?A)" using same [of ?A] h1A by simp
  let ?h = "h2(ad ?A \<mapsto> va)"
  have "split_block (ad ?A) (ad k) s = Some (s\<lparr>blk := ?h\<rparr>)"
    unfolding split_block_def hA BLOCK_SIZE_32
    using cond s2 h2A by (simp add: hA new sz upd_blk_def va_def nb_def h1_def cong: if_cong)
  moreover have "chain ?h p a (pre @ (k, f) # (n - k - 32, True) # post) 0"
  proof (rule chain_atI)
    have "chain h2 p a pre (ad ?A)"
    proof (rule chain_frame [OF at(1)])
      fix x assume "x \<in> set (starts a pre)"
      then have "x < ?A" using starts_bounds [of x a pre] by auto
      then show "h2 (ad x) = blk s (ad x)"
        using same [of x] lt by (simp add: h1_def ad64)
    qed
    then show "chain ?h p a pre (ad ?A)"
      using lt by (intro chain_upd_other not_start_after) simp_all
    show "?h (ad ?A) = Some \<lparr>hb_size = ad k, hb_free = f,
        hb_next = (if (n - k - 32, True) # post = [] then 0 else ad (?A + 32 + k)),
        hb_prev = last_of p a pre\<rparr>"
      by (simp add: va_def)
    have P: "?A + 32 + k + 32 + (n - k - 32) = ?P" using k by simp
    have "?h (ad ?N) = Some nb" using same [of ?N] neq k by (simp add: h1_def)
    moreover have "chain ?h (ad ?N) ?P post 0"
      using c2 bound lt by (intro chain_upd_other not_start_before) simp_all
    ultimately show "chain ?h (ad ?A) (?A + 32 + k) ((n - k - 32, True) # post) 0"
      by (simp only: chain.simps P nb_def)
  qed
  ultimately show ?thesis by blast
qed

section \<open>kmalloc refines first fit\<close>

lemmas coalesced_simps = coalesced_def successively_append_iff successively_Cons

lemma coalesced_carve:
  "coalesced (pre @ (n, True) # post) \<Longrightarrow> coalesced (pre @ carve k n @ post)"
  by (auto simp: carve_def coalesced_simps)

lemma span_carve: "k \<le> n \<Longrightarrow> span (carve k n) = n + 32"
  by (simp add: carve_def)

lemma kmalloc_first_fit:
  assumes ok: "heap_ok s B L" and sz: "unat sz0 \<le> 2 ^ 64 - 32"
  shows "case first_fit (round16 (unat sz0)) L of
      None \<Rightarrow> kmalloc sz0 s = Some (0, s)
    | Some (pre, n, post) \<Rightarrow> \<exists>s'. kmalloc sz0 s = Some (ad (B + span pre + 32), s')
        \<and> heap_ok s' B (pre @ carve (round16 (unat sz0)) n @ post) \<and> hmem s' = hmem s"
proof -
  let ?k = "round16 (unat sz0)"
  have k: "?k < 2 ^ 64" using round16_less [of "unat sz0"] sz by simp
  have al: "align16 sz0 = ad ?k"
  proof -
    have "unat (align16 sz0) = ?k" using sz by (intro unat_align16) simp
    then show ?thesis by (metis ad_unat)
  qed
  have L: "L \<noteq> []" "heap_head s = ad B" "chain (blk s) 0 B L 0" "0 < B" "B + span L < 2 ^ 64"
    using ok by (simp_all add: heap_ok_def ad_def)
  have find: "find_fit (blk s) (ad ?k) (heap_head s) =
    Some (case first_fit ?k L of None \<Rightarrow> 0 | Some (pre, n, post) \<Rightarrow> ad (B + span pre))"
    using find_fit_chain [OF L(3,4,5) k] L(1,2) by simp
  show ?thesis
  proof (cases "first_fit ?k L")
    case None
    then show ?thesis using find by (simp add: kmalloc_def al)
  next
    case (Some t)
    then obtain pre n post where ff: "first_fit ?k L = Some (pre, n, post)" by (cases t) auto
    then have LL: "L = pre @ (n, True) # post" and kn: "?k \<le> n" by (auto dest: first_fit_Some)
    let ?A = "B + span pre"
    have lt: "?A < 2 ^ 64" "n < 2 ^ 64" "0 < ?A" using L(4,5) LL by simp_all
    have "\<exists>h. split_block (ad ?A) (ad ?k) s = Some (s\<lparr>blk := h\<rparr>)
      \<and> chain h 0 B (if ?k + 32 < n then pre @ (?k, True) # (n - ?k - 32, True) # post
          else pre @ (n, True) # post) 0"
    proof (cases "?k + 32 < n")
      case True
      then show ?thesis using split_block_chain [of s 0 B pre n True post ?k] L LL by simp
    next
      case False
      have "\<not> ad ?k + 32 < ad n \<or> 2 ^ 64 \<le> ?k + 32"
        using False lt by (cases "?k + 32 < 2 ^ 64") (simp_all add: ad_32 ad_plus ad64)
      moreover have "?k + 32 < 2 ^ 64" using kn L(5) LL by simp
      ultimately show ?thesis
        using False chain_at(2) [of "blk s" 0 B pre n True post 0] L LL
        by (intro exI [of _ "blk s"]) (simp add: split_block_def)
    qed
    then obtain h where h: "split_block (ad ?A) (ad ?k) s = Some (s\<lparr>blk := h\<rparr>)"
      "chain h 0 B (if ?k + 32 < n then pre @ (?k, True) # (n - ?k - 32, True) # post
          else pre @ (n, True) # post) 0" by blast
    have sp: "B + span (pre @ (?k, True) # (n - ?k - 32, True) # post) = B + span L" if "?k + 32 < n"
      using that LL by simp
    obtain h' where h': "upd_blk (ad ?A) (\<lambda>b. b\<lparr>hb_free := False\<rparr>) (s\<lparr>blk := h\<rparr>) = Some (s\<lparr>blk := h'\<rparr>)"
      "chain h' 0 B (pre @ carve ?k n @ post) 0"
      using set_flag_chain [of "s\<lparr>blk := h\<rparr>" 0 B pre ?k True "(n - ?k - 32, True) # post" 0 False]
        set_flag_chain [of "s\<lparr>blk := h\<rparr>" 0 B pre n True post 0 False] h(2) sp L(5) LL
      by (cases "?k + 32 < n") (auto simp: carve_def)
    have "kmalloc sz0 s = Some (ad (?A + 32), s\<lparr>blk := h'\<rparr>)"
      using find ff h h' lt by (simp add: kmalloc_def al ad64 ad_32 ad_plus)
    moreover have "heap_ok (s\<lparr>blk := h'\<rparr>) B (pre @ carve ?k n @ post)"
    proof -
      have "list_all (\<lambda>x. 16 dvd fst x) (carve ?k n)"
        using ok LL kn by (auto simp: heap_ok_def carve_def diff_diff_left intro!: dvd_diff_nat)
      then show ?thesis
        using ok h'(2) kn coalesced_carve [of pre n post ?k] LL
        by (simp add: heap_ok_def span_carve) (simp add: carve_def)
    qed
    ultimately show ?thesis using ff by auto
  qed
qed

section \<open>kfree refines release\<close>

text \<open>The three stores by which a block takes over the one after it.\<close>

definition absorb :: "u64 \<Rightarrow> u64 \<Rightarrow> u64 \<Rightarrow> heap_state \<Rightarrow> heap_state option" where
  "absorb a sz nx s = do {
     t1 \<leftarrow> upd_blk a (\<lambda>c. c\<lparr>hb_size := hb_size c + (BLOCK_SIZE + sz)\<rparr>) s;
     t2 \<leftarrow> upd_blk a (\<lambda>c. c\<lparr>hb_next := nx\<rparr>) t1;
     if nx \<noteq> 0 then upd_blk nx (\<lambda>c. c\<lparr>hb_prev := a\<rparr>) t2 else Some t2 }"

lemma absorb_chain:
  assumes c: "chain (blk s) p a (pre @ (n, f) # (m, g) # post) 0" and "0 < a"
    and bound: "a + span (pre @ (n, f) # (m, g) # post) < 2 ^ 64"
  defines "nx \<equiv> (if post = [] then 0 else ad (a + span pre + 32 + n + 32 + m))"
  shows "\<exists>h'. absorb (ad (a + span pre)) (ad m) nx s = Some (s\<lparr>blk := h'\<rparr>)
    \<and> chain h' p a (pre @ (n + 32 + m, f) # post) 0"
proof -
  let ?A = "a + span pre" and ?P = "a + span pre + 32 + n + 32 + m"
  define v where "v = \<lparr>hb_size = ad (n + 32 + m), hb_free = f, hb_next = nx, hb_prev = last_of p a pre\<rparr>"
  define h1 where "h1 = (blk s)(ad ?A \<mapsto> v)"
  note hA = chain_at(2) [OF c] and at = chain_at(1,3) [OF c]
  have lt: "?A < 2 ^ 64" "n < 2 ^ 64" "m < 2 ^ 64" using bound by simp_all
  have post: "chain (blk s) (ad (?A + 32 + n)) ?P post 0" using at(2) by simp
  have c1: "chain h1 (ad (?A + 32 + n)) ?P post 0"
    unfolding h1_def using post bound by (intro chain_upd_other not_start_before) simp_all
  have pre1: "chain h1 p a pre (ad ?A)"
    unfolding h1_def using at(1) lt by (intro chain_upd_other not_start_after) simp_all
  have sz: "ad n + (32 + ad m) = ad (n + 32 + m)" by (simp add: ad_32 ad_plus add.assoc)
  have "\<exists>h2. (if nx \<noteq> 0 then upd_blk nx (\<lambda>c. c\<lparr>hb_prev := ad ?A\<rparr>) (s\<lparr>blk := h1\<rparr>)
        else Some (s\<lparr>blk := h1\<rparr>)) = Some (s\<lparr>blk := h2\<rparr>)
      \<and> chain h2 (ad ?A) ?P post 0 \<and> (\<forall>x<?P. h2 (ad x) = h1 (ad x))"
  proof (cases post)
    case Nil
    then show ?thesis by (intro exI [of _ h1]) (simp add: nx_def)
  next
    case (Cons x post')
    obtain k l where x: "x = (k, l)" by (cases x)
    have P: "?P < 2 ^ 64" using bound Cons by simp
    obtain b where b: "h1 (ad ?P) = Some b"
      and r: "chain (h1(ad ?P \<mapsto> b\<lparr>hb_prev := ad ?A\<rparr>)) (ad ?A) ?P post 0"
      using chain_relink [of h1 "ad (?A + 32 + n)" ?P k l post' 0 "ad ?A"] c1 bound Cons x by auto
    have "ad ?P \<noteq> 0" using P \<open>0 < a\<close> by (simp add: ad64)
    moreover have "\<forall>x<?P. (h1(ad ?P \<mapsto> b\<lparr>hb_prev := ad ?A\<rparr>)) (ad x) = h1 (ad x)"
      using P by (auto simp: ad64)
    ultimately show ?thesis using r b Cons
      by (intro exI [of _ "h1(ad ?P \<mapsto> b\<lparr>hb_prev := ad ?A\<rparr>)"]) (simp add: upd_blk_def nx_def)
  qed
  then obtain h2 where
    s2: "(if nx \<noteq> 0 then upd_blk nx (\<lambda>c. c\<lparr>hb_prev := ad ?A\<rparr>) (s\<lparr>blk := h1\<rparr>)
        else Some (s\<lparr>blk := h1\<rparr>)) = Some (s\<lparr>blk := h2\<rparr>)"
    and c2: "chain h2 (ad ?A) ?P post 0" and same: "\<And>x. x < ?P \<Longrightarrow> h2 (ad x) = h1 (ad x)"
    by blast
  have "absorb (ad ?A) (ad m) nx s = Some (s\<lparr>blk := h2\<rparr>)"
    unfolding absorb_def using s2
    by (simp add: upd_blk_def hA sz v_def h1_def cong: if_cong)
  moreover have "chain h2 p a (pre @ (n + 32 + m, f) # post) 0"
  proof (rule chain_atI)
    show "chain h2 p a pre (ad ?A)"
    proof (rule chain_frame [OF pre1])
      fix x assume "x \<in> set (starts a pre)"
      then show "h2 (ad x) = h1 (ad x)" using starts_bounds [of x a pre] by (intro same) auto
    qed
    have P: "?A + 32 + (n + 32 + m) = ?P" by simp
    show "h2 (ad ?A) = Some \<lparr>hb_size = ad (n + 32 + m), hb_free = f,
        hb_next = (if post = [] then 0 else ad (?A + 32 + (n + 32 + m))),
        hb_prev = last_of p a pre\<rparr>"
      unfolding P using same [of ?A] by (simp add: h1_def v_def nx_def)
    show "chain h2 (ad ?A) (?A + 32 + (n + 32 + m)) post 0"
      unfolding P by (rule c2)
  qed
  ultimately show ?thesis by blast
qed

lemma last_of_snoc: "last_of p a (pre @ [(q, g)]) = ad (a + span pre)"
  by (simp add: last_of_def starts_append)

text \<open>The two halves of \<open>kfree\<close> after the block is flagged free.\<close>

definition kfree_next :: "u64 \<Rightarrow> heap_state \<Rightarrow> heap_state option" where
  "kfree_next block s1 = do {
     b \<leftarrow> blk s1 block;
     if hb_next b \<noteq> 0 then do {
       n \<leftarrow> blk s1 (hb_next b);
       if hb_free n then absorb block (hb_size n) (hb_next n) s1 else Some s1 }
     else Some s1 }"

definition kfree_prev :: "u64 \<Rightarrow> heap_state \<Rightarrow> heap_state option" where
  "kfree_prev block s2 = do {
     b2 \<leftarrow> blk s2 block;
     if hb_prev b2 \<noteq> 0 then do {
       p \<leftarrow> blk s2 (hb_prev b2);
       if hb_free p then absorb (hb_prev b2) (hb_size b2) (hb_next b2) s2 else Some s2 }
     else Some s2 }"

lemma upd_blk_reads: "upd_blk a f s = Some t \<Longrightarrow> \<exists>b. blk s a = Some b \<and> blk t a = Some (f b)"
  by (auto simp: upd_blk_def Option.bind_eq_Some_conv)

lemma absorb_reread:
  "do { t1 \<leftarrow> upd_blk a (\<lambda>c. c\<lparr>hb_size := hb_size c + (BLOCK_SIZE + sz)\<rparr>) s;
        t2 \<leftarrow> upd_blk a (\<lambda>c. c\<lparr>hb_next := nx\<rparr>) t1;
        c \<leftarrow> blk t2 a;
        if hb_next c \<noteq> 0 then upd_blk (hb_next c) (\<lambda>c. c\<lparr>hb_prev := a\<rparr>) t2 else Some t2 }
   = absorb a sz nx s"
  by (cases "blk s a") (simp_all add: absorb_def upd_blk_def)

lemma kfree_split:
  "ptr \<noteq> 0 \<Longrightarrow> kfree ptr s = do {
     s1 \<leftarrow> upd_blk (ptr - BLOCK_SIZE) (\<lambda>b. b\<lparr>hb_free := True\<rparr>) s;
     s2 \<leftarrow> kfree_next (ptr - BLOCK_SIZE) s1;
     kfree_prev (ptr - BLOCK_SIZE) s2 }"
  unfolding kfree_def kfree_next_def kfree_prev_def Let_def absorb_reread
  unfolding absorb_def by (simp cong: if_cong)

lemma kfree_next_chain:
  assumes c: "chain (blk s) p a (pre @ (n, True) # post) 0" and "0 < a"
    and bound: "a + span (pre @ (n, True) # post) < 2 ^ 64"
  shows "\<exists>h'. kfree_next (ad (a + span pre)) s = Some (s\<lparr>blk := h'\<rparr>)
    \<and> chain h' p a (pre @ (fst (merge_next n post), True) # snd (merge_next n post)) 0"
proof (cases post)
  case Nil
  then show ?thesis
    using c chain_at(2) [OF c] by (intro exI [of _ "blk s"]) (simp add: kfree_next_def merge_next_def)
next
  case (Cons x post')
  obtain m g where x: "x = (m, g)" by (cases x)
  let ?P = "a + span pre + 32 + n"
  have P: "ad ?P \<noteq> 0" using bound Cons x \<open>0 < a\<close> by (simp add: ad64)
  have hP: "blk s (ad ?P) = Some \<lparr>hb_size = ad m, hb_free = g,
      hb_next = (if post' = [] then 0 else ad (?P + 32 + m)), hb_prev = ad (a + span pre)\<rparr>"
    using chain_at(3) [OF c] Cons x by simp
  show ?thesis
  proof (cases g)
    case True
    obtain h where "absorb (ad (a + span pre)) (ad m) (if post' = [] then 0 else ad (?P + 32 + m)) s
        = Some (s\<lparr>blk := h\<rparr>)" "chain h p a (pre @ (n + 32 + m, True) # post') 0"
      using absorb_chain [of s p a pre n True m g post'] assms Cons x by auto
    then show ?thesis
      using chain_at(2) [OF c] P hP True Cons x
      by (intro exI [of _ h]) (simp add: kfree_next_def merge_next_def)
  next
    case False
    then show ?thesis
      using c chain_at(2) [OF c] P hP Cons x
      by (intro exI [of _ "blk s"]) (simp add: kfree_next_def merge_next_def)
  qed
qed

lemma kfree_prev_chain:
  assumes c: "chain (blk s) 0 a (pre @ (n, True) # post) 0" and "0 < a"
    and bound: "a + span (pre @ (n, True) # post) < 2 ^ 64"
  shows "\<exists>h'. kfree_prev (ad (a + span pre)) s = Some (s\<lparr>blk := h'\<rparr>)
    \<and> chain h' 0 a (if pre \<noteq> [] \<and> snd (last pre)
        then butlast pre @ (fst (last pre) + 32 + n, True) # post else pre @ (n, True) # post) 0"
proof (cases pre rule: rev_cases)
  case Nil
  then show ?thesis
    using c chain_at(2) [OF c] by (intro exI [of _ "blk s"]) (simp add: kfree_prev_def)
next
  case (snoc pre' x)
  obtain q g where x: "x = (q, g)" by (cases x)
  let ?Q = "a + span pre'"
  have Q: "ad ?Q \<noteq> 0" using bound snoc x \<open>0 < a\<close> by (simp add: ad64)
  have c': "chain (blk s) 0 a (pre' @ (q, g) # (n, True) # post) 0" using c snoc x by simp
  show ?thesis
  proof (cases g)
    case True
    obtain h where "absorb (ad ?Q) (ad n) (if post = [] then 0 else ad (?Q + 32 + q + 32 + n)) s
        = Some (s\<lparr>blk := h\<rparr>)" "chain h 0 a (pre' @ (q + 32 + n, True) # post) 0"
      using absorb_chain [of s 0 a pre' q True n True post] c' bound snoc x True \<open>0 < a\<close> by auto
    then show ?thesis
      using chain_at(2) [OF c] chain_at(2) [OF c'] Q snoc x True
      by (cases "post = []"; intro exI [of _ h]; simp add: kfree_prev_def last_of_snoc ac_simps)
  next
    case False
    then show ?thesis
      using c chain_at(2) [OF c] chain_at(2) [OF c'] Q snoc x
      by (intro exI [of _ "blk s"]) (simp add: kfree_prev_def last_of_snoc)
  qed
qed

lemma span_merge_next: "n + 32 + span post = fst (merge_next n post) + 32 + span (snd (merge_next n post))"
  by (auto simp: merge_next_def split: list.split prod.split bool.split)

lemma span_release: "span (release pre n post) = span (pre @ (n, f) # post)"
proof -
  obtain n1 post1 where m: "merge_next n post = (n1, post1)" by fastforce
  have sp: "n + 32 + span post = n1 + 32 + span post1" using span_merge_next [of n post] m by simp
  have "span (butlast pre) + (fst (last pre) + 32) = span pre" if "pre \<noteq> []"
  proof -
    have "span pre = span (butlast pre @ [last pre])" using that by simp
    then show ?thesis unfolding span_append by (cases "last pre") simp
  qed
  with sp show ?thesis by (auto simp: release_def m)
qed

lemma release_neq_Nil [simp]: "release pre n post \<noteq> []"
  by (simp add: release_def split: prod.split)

lemma merge_next_cases:
  obtains (merge) m post' where "post = (m, True) # post'" "merge_next n post = (n + 32 + m, post')"
  | (keep) "merge_next n post = (n, post)" "post = [] \<or> \<not> snd (hd post)"
proof (cases post)
  case Nil
  then show ?thesis using keep by (simp add: merge_next_def)
next
  case (Cons x post')
  then show ?thesis using merge keep by (cases x; cases "snd x") (auto simp: merge_next_def)
qed

lemma release_dvd:
  assumes "list_all (\<lambda>x. 16 dvd fst x) (pre @ (n, f) # post)"
  shows "list_all (\<lambda>x. 16 dvd fst x) (release pre n post)"
proof -
  have d: "list_all (\<lambda>x. 16 dvd fst x) pre" "16 dvd n" "list_all (\<lambda>x. 16 dvd fst x) post"
    using assms by simp_all
  obtain n1 post1 where m: "merge_next n post = (n1, post1)"
    and n1: "16 dvd n1" "list_all (\<lambda>x. 16 dvd fst x) post1"
  proof (cases rule: merge_next_cases [of post n])
    case (merge k post')
    then have "16 dvd n + 32 + k" using d by (intro dvd_add) simp_all
    with merge d show ?thesis by (intro that [of "n + 32 + k" post']) simp_all
  qed (use d in \<open>auto intro: that\<close>)
  show ?thesis
  proof (cases pre rule: rev_cases)
    case Nil
    then show ?thesis using n1 by (simp add: release_def m)
  next
    case (snoc pre' x)
    then have "16 dvd fst x + 32 + n1" using d n1 by (intro dvd_add) simp_all
    with snoc d n1 show ?thesis by (simp add: release_def m)
  qed
qed

lemma release_coalesced:
  assumes "coalesced (pre @ (n, f) # post)"
  shows "coalesced (release pre n post)"
proof -
  obtain n1 post1 where m: "merge_next n post = (n1, post1)"
    and c1: "coalesced ((k, True) # post1)" for k
  proof (cases rule: merge_next_cases [of post n])
    case (merge k post')
    with assms show ?thesis by (intro that [of "n + 32 + k" post']) (simp_all add: coalesced_simps)
  next
    case keep
    with assms show ?thesis by (intro that [of n post]) (auto simp: coalesced_simps)
  qed
  show ?thesis
  proof (cases pre rule: rev_cases)
    case Nil
    then show ?thesis using c1 by (simp add: release_def m)
  next
    case (snoc pre' x)
    then show ?thesis using c1 assms by (cases x) (auto simp: release_def m coalesced_simps)
  qed
qed

lemma kfree_release:
  assumes ok: "heap_ok s B (pre @ (n, f) # post)"
  shows "\<exists>s'. kfree (ad (B + span pre + 32)) s = Some s'
    \<and> heap_ok s' B (release pre n post) \<and> hmem s' = hmem s"
proof -
  let ?A = "B + span pre"
  obtain n1 post1 where m: "merge_next n post = (n1, post1)" by fastforce
  have sp: "n + 32 + span post = n1 + 32 + span post1" using span_merge_next [of n post] m by simp
  have B: "0 < B" "B + span (pre @ (n, f) # post) < 2 ^ 64"
    "chain (blk s) 0 B (pre @ (n, f) # post) 0" using ok by (simp_all add: heap_ok_def)
  have ptr: "ad (?A + 32) \<noteq> 0" "ad (?A + 32) - BLOCK_SIZE = ad ?A"
    using B by (simp_all add: ad64 ad_32 ad_minus)
  obtain h1 where h1: "upd_blk (ad ?A) (\<lambda>b. b\<lparr>hb_free := True\<rparr>) s = Some (s\<lparr>blk := h1\<rparr>)"
    "chain h1 0 B (pre @ (n, True) # post) 0"
    using set_flag_chain [OF B(3)] B(2) by auto
  obtain h2 where h2: "kfree_next (ad ?A) (s\<lparr>blk := h1\<rparr>) = Some (s\<lparr>blk := h2\<rparr>)"
    "chain h2 0 B (pre @ (n1, True) # post1) 0"
    using kfree_next_chain [of "s\<lparr>blk := h1\<rparr>" 0 B pre n post] h1 B m by auto
  obtain h3 where h3: "kfree_prev (ad ?A) (s\<lparr>blk := h2\<rparr>) = Some (s\<lparr>blk := h3\<rparr>)"
    "chain h3 0 B (release pre n post) 0"
    using kfree_prev_chain [of "s\<lparr>blk := h2\<rparr>" B pre n1 post1] h2 B m sp by (auto simp: release_def)
  have free: "kfree (ad (?A + 32)) s = Some (s\<lparr>blk := h3\<rparr>)"
    using h1 h2 h3 unfolding kfree_split [OF ptr(1)] ptr(2) by simp
  moreover have "heap_ok (s\<lparr>blk := h3\<rparr>) B (release pre n post)"
    using ok h3(2) release_coalesced [of pre n f post] release_dvd [of pre n f post]
    by (simp add: heap_ok_def span_release [of pre n post f])
  ultimately show ?thesis by auto
qed

section \<open>Initialisation and the blocks in use\<close>

lemma heap_init_ok:
  assumes "0 < B" "16 dvd B" "16 dvd T" "32 \<le> T" "B + T < 2 ^ 64"
  shows "heap_ok (heap_init (ad B) (ad T) s) B [(T - 32, True)]"
proof -
  have "ad T - 32 = ad (T - 32)" using assms by (simp add: ad_32 ad_minus)
  moreover have "16 dvd T - 32" using assms by (intro dvd_diff_nat) simp_all
  ultimately show ?thesis
    using assms by (simp add: heap_ok_def heap_init_def coalesced_def)
qed

partial_function (option) walk :: "(u64 \<Rightarrow> heap_block option) \<Rightarrow> u64 \<Rightarrow> (u64 \<times> heap_block) list option" where
  "walk h a =
     (if a = 0 then Some []
      else do { b \<leftarrow> h a; r \<leftarrow> walk h (hb_next b); Some ((a, b) # r) })"

text \<open>The blocks of the list as address, payload size and free flag.\<close>

definition blocks :: "heap_state \<Rightarrow> (nat \<times> nat \<times> bool) list" where
  "blocks s = (case walk (blk s) (heap_head s) of None \<Rightarrow> []
     | Some l \<Rightarrow> map (\<lambda>(a, b). (unat a, unat (hb_size b), hb_free b)) l)"

fun lay :: "nat \<Rightarrow> seg list \<Rightarrow> (nat \<times> nat \<times> bool) list" where
  "lay a [] = []"
| "lay a ((n, f) # L) = (a, n, f) # lay (a + 32 + n) L"

text \<open>The payloads handed out: address and size.\<close>

definition live :: "heap_state \<Rightarrow> (nat \<times> nat) set" where
  "live s = set (map (\<lambda>(a, n, f). (a + 32, n)) (filter (\<lambda>(a, n, f). \<not> f) (blocks s)))"

lemma lay_append: "lay a (L1 @ L2) = lay a L1 @ lay (a + span L1) L2"
  by (induction a L1 rule: lay.induct) (simp_all add: ac_simps)

lemma lay_bounds: "(x, n, f) \<in> set (lay a L) \<Longrightarrow> a \<le> x \<and> x + 32 + n \<le> a + span L"
  by (induction a L rule: lay.induct) fastforce+

lemma lay_disjoint:
  "(x, n, f) \<in> set (lay a L) \<Longrightarrow> (y, m, g) \<in> set (lay a L) \<Longrightarrow>
   (x, n, f) = (y, m, g) \<or> x + 32 + n \<le> y \<or> y + 32 + m \<le> x"
proof (induction a L rule: lay.induct)
  case (1 a)
  then show ?case by simp
next
  case (2 a k h L)
  then show ?case
    using lay_bounds [of x n f "a + 32 + k" L] lay_bounds [of y m g "a + 32 + k" L] by auto
qed

lemma walk_chain:
  assumes "chain h p a L 0" and "0 < a" and "a + span L < 2 ^ 64"
  shows "\<exists>l. walk h (if L = [] then 0 else ad a) = Some l
    \<and> map (\<lambda>(a, b). (unat a, unat (hb_size b), hb_free b)) l = lay a L"
  using assms
proof (induction L arbitrary: p a)
  case Nil
  then show ?case by (simp add: walk.simps)
next
  case (Cons x L)
  obtain n f where x: "x = (n, f)" by (cases x)
  have a: "ad a \<noteq> 0" "unat (ad a) = a" "unat (ad n) = n" using Cons.prems x by (simp_all add: ad64)
  obtain l where "walk h (if L = [] then 0 else ad (a + 32 + n)) = Some l"
    "map (\<lambda>(a, b). (unat a, unat (hb_size b), hb_free b)) l = lay (a + 32 + n) L"
    using Cons.IH [of "ad a" "a + 32 + n"] Cons.prems x by (auto simp: ac_simps)
  then show ?case using Cons.prems a x by (subst walk.simps) simp
qed

lemma blocks_lay: "heap_ok s B L \<Longrightarrow> blocks s = lay B L"
  using walk_chain [of "blk s" 0 B L] by (auto simp: heap_ok_def blocks_def ad_def)

definition live_of :: "nat \<Rightarrow> seg list \<Rightarrow> (nat \<times> nat) set" where
  "live_of a L = set (map (\<lambda>(a, n, f). (a + 32, n)) (filter (\<lambda>(a, n, f). \<not> f) (lay a L)))"

lemma live_live_of: "heap_ok s B L \<Longrightarrow> live s = live_of B L"
  by (simp add: live_def live_of_def blocks_lay)

lemma live_of_simps [simp]:
  "live_of a [] = {}"
  "live_of a ((n, f) # L) = (if f then {} else {(a + 32, n)}) \<union> live_of (a + 32 + n) L"
  "live_of a (L1 @ L2) = live_of a L1 \<union> live_of (a + span L1) L2"
  by (simp_all add: live_of_def lay_append)

lemma live_of_mem: "(x, n) \<in> live_of a L \<longleftrightarrow> 32 \<le> x \<and> (x - 32, n, False) \<in> set (lay a L)"
  by (force simp: live_of_def)

lemma live_of_bounds: "(x, n) \<in> live_of a L \<Longrightarrow> a + 32 \<le> x \<and> x + n \<le> a + span L"
  using lay_bounds [of "x - 32" n False a L] by (auto simp: live_of_mem)

lemma live_of_disjoint:
  assumes "(x, n) \<in> live_of a L" and "(y, m) \<in> live_of a L"
  shows "(x, n) = (y, m) \<or> x + n + 32 \<le> y \<or> y + m + 32 \<le> x"
  using assms lay_disjoint [of "x - 32" n False a L "y - 32" m False]
  by (auto simp: live_of_mem)

lemma live_of_split:
  assumes "(x, n) \<in> live_of a L"
  obtains pre post where "L = pre @ (n, False) # post" "x = a + span pre + 32"
  using assms
proof (induction L arbitrary: a thesis)
  case Nil
  then show ?case by simp
next
  case (Cons y L)
  obtain k f where y: "y = (k, f)" by (cases y)
  from Cons.prems(2) consider "\<not> f" "x = a + 32" "n = k" | "(x, n) \<in> live_of (a + 32 + k) L"
    by (auto simp: y split: if_splits)
  then show ?case
  proof cases
    case 1
    then show ?thesis using Cons.prems(1) [of "[]" L] y by simp
  next
    case 2
    then obtain pre post where "L = pre @ (n, False) # post" "x = a + 32 + k + span pre + 32"
      using Cons.IH by blast
    then show ?thesis using Cons.prems(1) [of "y # pre" post] y by simp
  qed
qed

lemma live_of_release:
  "live_of B (release pre n post) = live_of B (pre @ (n, True) # post)"
proof -
  obtain n1 post1 where m: "merge_next n post = (n1, post1)"
    and n1: "live_of (a + n1) post1 = live_of (a + n) post" for a
  proof (cases rule: merge_next_cases [of post n])
    case (merge k post')
    then show ?thesis by (intro that [of "n + 32 + k" post']) (simp_all add: ac_simps)
  qed auto
  show ?thesis
  proof (cases pre rule: rev_cases)
    case Nil
    then show ?thesis using n1 [of "B + 32"] by (simp add: release_def m)
  next
    case (snoc pre' x)
    then show ?thesis
      using n1 [of "B + span pre' + 32 + fst x + 32"]
      by (cases x) (auto simp: release_def m ac_simps)
  qed
qed

section \<open>The allocator contract\<close>

text \<open>What a client of the heap relies on, and what follows for any client.\<close>

locale allocator =
  fixes alloc :: "u64 \<Rightarrow> 's \<Rightarrow> (u64 \<times> 's) option"
    and dealloc :: "u64 \<Rightarrow> 's \<Rightarrow> 's option"
    and ok :: "'s \<Rightarrow> bool"
    and inuse :: "'s \<Rightarrow> (nat \<times> nat) set"
  assumes alloc_total: "ok s \<Longrightarrow> unat k \<le> 2 ^ 64 - 32 \<Longrightarrow> \<exists>r s'. alloc k s = Some (r, s')"
    and alloc_ok: "ok s \<Longrightarrow> unat k \<le> 2 ^ 64 - 32 \<Longrightarrow> alloc k s = Some (r, s') \<Longrightarrow> ok s'"
    and alloc_null: "ok s \<Longrightarrow> unat k \<le> 2 ^ 64 - 32 \<Longrightarrow> alloc k s = Some (0, s') \<Longrightarrow> s' = s"
    and alloc_new: "ok s \<Longrightarrow> unat k \<le> 2 ^ 64 - 32 \<Longrightarrow> alloc k s = Some (r, s') \<Longrightarrow> r \<noteq> 0 \<Longrightarrow>
      \<exists>n. unat k \<le> n \<and> inuse s' = insert (unat r, n) (inuse s) \<and> unat r \<notin> fst ` inuse s"
    and inuse_disjoint: "ok s \<Longrightarrow> (a, n) \<in> inuse s \<Longrightarrow> (b, m) \<in> inuse s \<Longrightarrow>
      (a, n) = (b, m) \<or> a + n < b \<or> b + m < a"
    and dealloc_inuse: "ok s \<Longrightarrow> (unat p, n) \<in> inuse s \<Longrightarrow>
      \<exists>s'. dealloc p s = Some s' \<and> ok s' \<and> inuse s' = inuse s - {(unat p, n)}"
begin

lemma new_block_disjoint:
  assumes "ok s" and "unat k \<le> 2 ^ 64 - 32" and "alloc k s = Some (r, s')" and "r \<noteq> 0"
    and "(a, m) \<in> inuse s"
  shows "\<exists>n. unat k \<le> n \<and> (unat r, n) \<in> inuse s' \<and> (unat r + n < a \<or> a + m < unat r)"
proof -
  obtain n where n: "unat k \<le> n" "inuse s' = insert (unat r, n) (inuse s)" "unat r \<notin> fst ` inuse s"
    using alloc_new [OF assms(1-4)] by blast
  have "ok s'" using assms alloc_ok by blast
  moreover have "a \<noteq> unat r" using n(3) assms(5) by force
  ultimately show ?thesis using inuse_disjoint [of s' "unat r" n a m] n assms(5) by auto
qed

lemma alloc_dealloc:
  assumes "ok s" and "unat k \<le> 2 ^ 64 - 32" and "alloc k s = Some (r, s')" and "r \<noteq> 0"
  shows "\<exists>s''. dealloc r s' = Some s'' \<and> ok s'' \<and> inuse s'' = inuse s"
proof -
  obtain n where n: "inuse s' = insert (unat r, n) (inuse s)" "unat r \<notin> fst ` inuse s"
    using alloc_new [OF assms] by blast
  have "ok s'" using assms alloc_ok by blast
  then obtain s'' where "dealloc r s' = Some s''" "ok s''" "inuse s'' = inuse s' - {(unat r, n)}"
    using dealloc_inuse [of s' r n] n by auto
  moreover have "(unat r, n) \<notin> inuse s" using n(2) by force
  ultimately show ?thesis using n(1) by auto
qed

end

definition heap_inv :: "heap_state \<Rightarrow> bool" where
  "heap_inv s \<longleftrightarrow> (\<exists>B L. heap_ok s B L)"

lemma live_of_carve:
  "k \<le> n \<Longrightarrow> live_of a (carve k n) = {(a + 32, if k + 32 < n then k else n)}"
  by (simp add: carve_def)

lemma kmalloc_cases:
  assumes "heap_inv s" and "unat k \<le> 2 ^ 64 - 32"
  obtains (null) "kmalloc k s = Some (0, s)"
  | (block) r s' n where "kmalloc k s = Some (r, s')" "r \<noteq> 0" "heap_inv s'" "hmem s' = hmem s"
      "16 dvd unat r" "unat k \<le> n" "live s' = insert (unat r, n) (live s)"
      "unat r \<notin> fst ` live s" "unat r + n < 2 ^ 64"
proof -
  obtain B L where ok: "heap_ok s B L" using assms(1) by (auto simp: heap_inv_def)
  let ?k = "round16 (unat k)"
  note ff = kmalloc_first_fit [OF ok assms(2)]
  show ?thesis
  proof (cases "first_fit ?k L")
    case None
    with ff null show ?thesis by simp
  next
    case (Some t)
    then obtain pre n post where t: "first_fit ?k L = Some (pre, n, post)" by (cases t) auto
    then have L: "L = pre @ (n, True) # post" "?k \<le> n" by (auto dest: first_fit_Some)
    obtain s' where s': "kmalloc k s = Some (ad (B + span pre + 32), s')"
      "heap_ok s' B (pre @ carve ?k n @ post)" "hmem s' = hmem s"
      using ff t by auto
    let ?r = "B + span pre + 32" and ?n = "if ?k + 32 < n then ?k else n"
    have B: "0 < B" "16 dvd B" "B + span L < 2 ^ 64" "list_all (\<lambda>x. 16 dvd fst x) L"
      using ok by (simp_all add: heap_ok_def)
    have r: "?r + ?n < 2 ^ 64" "unat (ad ?r) = ?r" "ad ?r \<noteq> 0" using B L by (auto simp: ad64)
    have sp: "span (carve ?k n) = n + 32" using L(2) by (rule span_carve)
    have lv: "live s' = insert (?r, ?n) (live s)"
      using live_live_of [OF ok] live_live_of [OF s'(2)] L
      by (simp add: live_of_carve sp ac_simps)
    have "16 dvd span M" if "list_all (\<lambda>x. 16 dvd fst x) M" for M
      using that by (induction M) (auto intro!: dvd_add)
    then have "16 dvd ?r" using B L by (intro dvd_add) simp_all
    moreover have "?r \<notin> fst ` live s"
      using live_live_of [OF ok] L by (auto dest: live_of_bounds)
    moreover have "unat k \<le> ?n" using round16_ge [of "unat k"] L(2) by auto
    moreover have "heap_inv s'" using s'(2) by (auto simp: heap_inv_def)
    ultimately show ?thesis
      using block [of "ad ?r" s' ?n] s' r lv by simp
  qed
qed

lemma kfree_live:
  assumes "heap_inv s" and "(unat p, n) \<in> live s"
  shows "\<exists>s'. kfree p s = Some s' \<and> heap_inv s' \<and> live s' = live s - {(unat p, n)} \<and> hmem s' = hmem s"
proof -
  obtain B L where ok: "heap_ok s B L" using assms(1) by (auto simp: heap_inv_def)
  then have "(unat p, n) \<in> live_of B L" using assms(2) live_live_of by simp
  then obtain pre post where L: "L = pre @ (n, False) # post" "unat p = B + span pre + 32"
    by (rule live_of_split)
  then have p: "p = ad (B + span pre + 32)" by (metis ad_unat)
  obtain s' where s': "kfree p s = Some s'" "heap_ok s' B (release pre n post)" "hmem s' = hmem s"
    using kfree_release [of s B pre n False post] ok L p by auto
  have "(unat p, n) \<notin> live_of B (pre @ (n, True) # post)"
    using L(2) by (auto dest: live_of_bounds)
  then have "live s' = live s - {(unat p, n)}"
    using live_live_of [OF ok] live_live_of [OF s'(2)] live_of_release [of B pre n post] L by auto
  with s' show ?thesis by (auto simp: heap_inv_def)
qed

interpretation heap: allocator kmalloc kfree heap_inv live
proof
  fix s :: heap_state and k p r :: u64 and s' :: heap_state and a n b m :: nat
  assume ok: "heap_inv s"
  show "(a, n) = (b, m) \<or> a + n < b \<or> b + m < a" if "(a, n) \<in> live s" "(b, m) \<in> live s"
    using that ok live_of_disjoint live_live_of by (fastforce simp: heap_inv_def)
  show "\<exists>s'. kfree p s = Some s' \<and> heap_inv s' \<and> live s' = live s - {(unat p, n)}"
    if "(unat p, n) \<in> live s"
    using kfree_live [OF ok that] by blast
  assume k: "unat k \<le> 2 ^ 64 - 32"
  show "\<exists>r s'. kmalloc k s = Some (r, s')"
    by (rule kmalloc_cases [OF ok k]) auto
  show "heap_inv s'" if "kmalloc k s = Some (r, s')"
    by (rule kmalloc_cases [OF ok k]) (use that ok in auto)
  show "s' = s" if "kmalloc k s = Some (0, s')"
    by (rule kmalloc_cases [OF ok k]) (use that in auto)
  show "\<exists>n. unat k \<le> n \<and> live s' = insert (unat r, n) (live s) \<and> unat r \<notin> fst ` live s"
    if "kmalloc k s = Some (r, s')" "r \<noteq> 0"
    by (rule kmalloc_cases [OF ok k]) (use that in auto)
qed

section \<open>Contents: kcalloc and krealloc\<close>

lemma zero_bytes_ad:
  "d + n \<le> 2 ^ 64 \<Longrightarrow> x < 2 ^ 64 \<Longrightarrow>
   zero_bytes n (ad d) m (ad x) = (if d \<le> x \<and> x < d + n then 0 else m (ad x))"
proof (induction n arbitrary: d m)
  case 0
  then show ?case by auto
next
  case (Suc n)
  let ?m = "m(ad d := 0)"
  have one: "ad d + 1 = ad (d + 1)" by (simp add: ad_def)
  have IH: "zero_bytes n (ad (d + 1)) ?m (ad x) =
      (if d + 1 \<le> x \<and> x < d + 1 + n then 0 else ?m (ad x))"
    using Suc.prems by (intro Suc.IH) auto
  have dx: "ad x = ad d \<longleftrightarrow> x = d" using Suc.prems by (intro ad_inject) simp_all
  show ?case unfolding zero_bytes.simps one IH using dx by auto
qed

lemma copy_bytes_ad:
  "d + n \<le> 2 ^ 64 \<Longrightarrow> s + n \<le> 2 ^ 64 \<Longrightarrow> x < 2 ^ 64 \<Longrightarrow> d + n \<le> s \<or> s + n \<le> d \<Longrightarrow>
   copy_bytes n (ad d) (ad s) m (ad x) =
     (if d \<le> x \<and> x < d + n then m (ad (s + (x - d))) else m (ad x))"
proof (induction n arbitrary: d s m)
  case 0
  then show ?case by auto
next
  case (Suc n)
  let ?m = "m(ad d := m (ad s))"
  have one: "ad d + 1 = ad (d + 1)" "ad s + 1 = ad (s + 1)" by (simp_all add: ad_def)
  have IH: "copy_bytes n (ad (d + 1)) (ad (s + 1)) ?m (ad x) =
     (if d + 1 \<le> x \<and> x < d + 1 + n then ?m (ad (s + 1 + (x - (d + 1)))) else ?m (ad x))"
    using Suc.prems by (intro Suc.IH) auto
  consider "x < d" | "x = d" | "d + 1 \<le> x" "x < d + 1 + n" | "d + 1 + n \<le> x" by linarith
  then show ?case
  proof cases
    case 3
    then have "s + 1 + (x - (d + 1)) = s + (x - d)" "s + (x - d) \<noteq> d" "s + (x - d) < 2 ^ 64"
      using Suc.prems by auto
    then show ?thesis using 3 IH one Suc.prems by (simp add: ad_inject)
  qed (use IH one Suc.prems in \<open>auto simp: ad_inject\<close>)
qed

lemma heap_inv_hmem [simp]: "heap_inv (s\<lparr>hmem := m\<rparr>) = heap_inv s" "live (s\<lparr>hmem := m\<rparr>) = live s"
  by (simp_all add: heap_inv_def heap_ok_def live_def blocks_def)

lemma kmalloc_hmem: "kmalloc k (s\<lparr>hmem := m\<rparr>) = map_option (\<lambda>(r, t). (r, t\<lparr>hmem := m\<rparr>)) (kmalloc k s)"
  by (auto simp: kmalloc_def split_block_def upd_blk_def Let_def split: Option.bind_split)

lemma live_bound:
  assumes "heap_inv s" and "(a, n) \<in> live s"
  shows "0 < a \<and> a + n < 2 ^ 64 \<and> blk s (ad a - 32) \<noteq> None
    \<and> (\<forall>b. blk s (ad a - 32) = Some b \<longrightarrow> hb_size b = ad n)"
proof -
  obtain B L where ok: "heap_ok s B L" using assms(1) by (auto simp: heap_inv_def)
  then have "(a, n) \<in> live_of B L" using assms(2) live_live_of by simp
  then obtain pre post where L: "L = pre @ (n, False) # post" "a = B + span pre + 32"
    by (rule live_of_split)
  have "ad a - 32 = ad (B + span pre)" unfolding L(2) by (simp add: ad_32 ad_minus)
  then show ?thesis
    using ok L chain_at(2) [of "blk s" 0 B pre n False post 0] by (simp add: heap_ok_def)
qed

text \<open>The bytes of the heap's region.\<close>

definition in_region :: "heap_state \<Rightarrow> u64 \<Rightarrow> bool" where
  "in_region s a \<longleftrightarrow> unat (heap_base s) \<le> unat a \<and> unat a < unat (heap_base s) + unat (heap_total_size s)"

lemma upd_blk_region: "upd_blk a f s = Some s' \<Longrightarrow> in_region s' = in_region s"
  by (auto simp: upd_blk_def in_region_def Option.bind_eq_Some_conv fun_eq_iff)

lemma split_block_region: "split_block a k s = Some s' \<Longrightarrow> in_region s' = in_region s"
  by (auto simp: split_block_def Let_def Option.bind_eq_Some_conv in_region_def fun_eq_iff
      dest!: upd_blk_region split: if_splits)

lemma kmalloc_region: "kmalloc k s = Some (r, s') \<Longrightarrow> in_region s' = in_region s"
  by (auto simp: kmalloc_def Let_def Option.bind_eq_Some_conv
      dest!: upd_blk_region split_block_region split: if_splits)

lemma in_region_hmem [simp]: "in_region (s\<lparr>hmem := m\<rparr>) = in_region s"
  by (simp add: in_region_def fun_eq_iff)

lemma live_in_region:
  assumes "heap_inv s" and "(unat a, n) \<in> live s" and "0 < n"
  shows "in_region s a"
proof -
  obtain B L where ok: "heap_ok s B L" using assms(1) by (auto simp: heap_inv_def)
  then have m: "(unat a, n) \<in> live_of B L" using assms(2) live_live_of by simp
  then obtain pre post where L: "L = pre @ (n, False) # post" "unat a = B + span pre + 32"
    by (rule live_of_split)
  have "unat a < B + span L" using L assms(3) by auto
  then show ?thesis using ok L by (auto simp: heap_ok_def in_region_def ad64)
qed

section \<open>Properties\<close>

lemma kmalloc_new:
  assumes "heap_inv s" and "unat k \<le> 2 ^ 64 - 32" and "kmalloc k s = Some (r, s')" and "r \<noteq> 0"
  obtains n where "heap_inv s'" "16 dvd unat r" "hmem s' = hmem s" "unat k \<le> n"
    "live s' = insert (unat r, n) (live s)"
    "\<And>a m. (a, m) \<in> live s \<Longrightarrow> unat r + n < a \<or> a + m < unat r"
proof -
  obtain n where n: "unat k \<le> n" "live s' = insert (unat r, n) (live s)" "unat r \<notin> fst ` live s"
    using heap.alloc_new [OF assms] by blast
  have ok: "heap_inv s'" using heap.alloc_ok [OF assms(1-3)] .
  have "unat r + n < a \<or> a + m < unat r" if "(a, m) \<in> live s" for a m
    using heap.inuse_disjoint [OF ok, of "unat r" n a m] n that by force
  moreover have "16 dvd unat r \<and> hmem s' = hmem s"
    by (rule kmalloc_cases [OF assms(1,2)]) (use assms in auto)
  ultimately show ?thesis using that ok n by blast
qed

text \<open>The heap \<open>kernel_main\<close> sets up: 16 MB from 2 MB on.\<close>

definition boot_heap :: heap_state where
  "boot_heap = heap_init 0x200000 0x1000000
     \<lparr>heap_head = 0, heap_base = 0, heap_total_size = 0, blk = Map.empty, hmem = (\<lambda>_. 0)\<rparr>"

lemma boot_heap_ok: "heap_ok boot_heap 0x200000 [(0xFFFFE0, True)]"
  using heap_init_ok [of "0x200000" "0x1000000"
      "\<lparr>heap_head = 0, heap_base = 0, heap_total_size = 0, blk = Map.empty, hmem = (\<lambda>_. 0)\<rparr>"]
  by (simp add: boot_heap_def ad_def)

lemma boot_heap_inv: "heap_inv boot_heap"
  using boot_heap_ok by (auto simp: heap_inv_def)

lemma boot_heap_kmalloc:
  "\<exists>s'. kmalloc 100 boot_heap = Some (0x200020, s') \<and> heap_ok s' 0x200000 [(112, False), (0xFFFF50, True)]"
  using kmalloc_first_fit [OF boot_heap_ok, of 100]
  by (auto simp: first_fit_def fits_def round16_def carve_def ad_def)

text \<open>
  C8. \<open>kmalloc\<close> is first fit on the list of blocks: when no free block holds the request rounded up
  to 16 it returns NULL and changes nothing; otherwise it returns the payload of the first that does,
  and the new list is the old one with that block carved. Payload bytes are not touched.
\<close>

theorem kmalloc_refines:
  assumes "heap_ok s B L" and "unat sz0 \<le> 2 ^ 64 - 32"
  shows "case first_fit (round16 (unat sz0)) L of
      None \<Rightarrow> kmalloc sz0 s = Some (0, s)
    | Some (pre, n, post) \<Rightarrow> \<exists>s'. kmalloc sz0 s = Some (ad (B + span pre + 32), s')
        \<and> heap_ok s' B (pre @ carve (round16 (unat sz0)) n @ post) \<and> hmem s' = hmem s"
  using assms by (rule kmalloc_first_fit)

theorem kmalloc_refines_witness:
  "\<exists>s'. kmalloc 5000 boot_heap = Some (0x200020, s')
     \<and> heap_ok s' 0x200000 [(5008, False), (0xFFEC30, True)] \<and> hmem s' = hmem boot_heap"
  using kmalloc_refines [OF boot_heap_ok, of 5000]
  by (auto simp: first_fit_def fits_def round16_def carve_def ad_def)

text \<open>
  C9. \<open>kfree\<close> of any block's payload flags the block free and merges it with a free block after it and
  a free block before it, so that no two neighbours are free; no other block and no payload changes.
\<close>

theorem kfree_refines:
  assumes "heap_ok s B (pre @ (n, f) # post)"
  shows "\<exists>s'. kfree (ad (B + span pre + 32)) s = Some s'
    \<and> heap_ok s' B (release pre n post) \<and> hmem s' = hmem s"
  using assms by (rule kfree_release)

theorem kfree_refines_witness:
  "\<exists>s s'. kmalloc 100 boot_heap = Some (0x200020, s) \<and> kfree 0x200020 s = Some s'
     \<and> heap_ok s' 0x200000 [(0xFFFFE0, True)]"
proof -
  obtain s where s: "kmalloc 100 boot_heap = Some (0x200020, s)"
    "heap_ok s 0x200000 ([] @ (112, False) # [(0xFFFF50, True)])" using boot_heap_kmalloc by auto
  show ?thesis
    using kfree_refines [OF s(2)] s(1) by (auto simp: release_def merge_next_def ad_def)
qed

text \<open>
  C10. A successful \<open>kmalloc\<close> returns a 16-byte aligned payload of at least the size asked for that
  touches no payload already handed out, keeps the heap's invariant and changes no payload byte.
\<close>

theorem kmalloc_fresh:
  assumes "heap_inv s" and "unat k \<le> 2 ^ 64 - 32" and "kmalloc k s = Some (r, s')" and "r \<noteq> 0"
  shows "heap_inv s' \<and> 16 dvd unat r \<and> hmem s' = hmem s
    \<and> (\<exists>n. unat k \<le> n \<and> live s' = insert (unat r, n) (live s)
        \<and> (\<forall>(a, m) \<in> live s. unat r + n < a \<or> a + m < unat r))"
  by (rule kmalloc_new [OF assms]) auto

theorem kmalloc_fresh_witness:
  "\<exists>s' n. kmalloc 100 boot_heap = Some (0x200020, s') \<and> 100 \<le> n
     \<and> live s' = insert (0x200020, n) (live boot_heap)"
  using boot_heap_kmalloc kmalloc_fresh [OF boot_heap_inv, of 100 "0x200020"] by auto

text \<open>
  \<open>kfree\<close> of what \<open>kmalloc\<close> just returned brings back the same list of blocks: the split is undone
  and nothing is lost.
\<close>

theorem kmalloc_kfree_restores:
  assumes "heap_ok s B L" and "unat k \<le> 2 ^ 64 - 32" and "kmalloc k s = Some (r, s1)" and "r \<noteq> 0"
  shows "\<exists>s2. kfree r s1 = Some s2 \<and> heap_ok s2 B L"
proof -
  let ?k = "round16 (unat k)"
  note ff = kmalloc_first_fit [OF assms(1,2)]
  obtain pre n post where t: "first_fit ?k L = Some (pre, n, post)"
    using ff assms(3,4) by (cases "first_fit ?k L") auto
  then have L: "L = pre @ (n, True) # post" "?k \<le> n" by (auto dest: first_fit_Some)
  have r: "r = ad (B + span pre + 32)" "heap_ok s1 B (pre @ carve ?k n @ post)"
    using ff assms(3) t by auto
  have co: "coalesced (pre @ (n, True) # post)" using assms(1) L by (simp add: heap_ok_def)
  then have pre: "\<not> (pre \<noteq> [] \<and> snd (last pre))" and post: "post = [] \<or> \<not> snd (hd post)"
    by (auto simp: coalesced_simps)
  show ?thesis
  proof (cases "?k + 32 < n")
    case True
    then have "?k + 32 + (n - ?k - 32) = n" by simp
    then have "release pre ?k ((n - ?k - 32, True) # post) = L"
      using pre L by (auto simp: release_def merge_next_def)
    then show ?thesis
      using kfree_release [of s1 B pre ?k False "(n - ?k - 32, True) # post"] r True
      by (auto simp: carve_def)
  next
    case False
    have "merge_next n post = (n, post)"
      using post by (cases rule: merge_next_cases [of post n]) auto
    then have "release pre n post = L" using pre L by (auto simp: release_def)
    then show ?thesis
      using kfree_release [of s1 B pre n False post] r False by (auto simp: carve_def)
  qed
qed

theorem kmalloc_kfree_restores_witness:
  "\<exists>s1 s2. kmalloc 100 boot_heap = Some (0x200020, s1) \<and> kfree 0x200020 s1 = Some s2
     \<and> heap_ok s2 0x200000 [(0xFFFFE0, True)]"
  using boot_heap_kmalloc kmalloc_kfree_restores [OF boot_heap_ok, of 100 "0x200020"] by auto

text \<open>
  A request within 16 bytes of the top of \<open>size_t\<close> is served as a request for no bytes: the
  rounding wraps around to 0, so such a \<open>kmalloc\<close> returns a block instead of NULL.
\<close>

theorem kmalloc_wraps:
  assumes "2 ^ 64 - 16 < unat k"
  shows "kmalloc k s = kmalloc 0 s"
proof -
  have "unat (k - 1) = unat k - 1" using assms by (intro unat_minus_one) auto
  moreover have "unat k < 2 ^ 64" using unsigned_less [of k] by simp
  ultimately have "unat (k - 1) div 16 = 2 ^ 60 - 1" using assms by simp
  then have "unat (drop_bit 4 (k - 1)) = unat (0xFFFFFFFFFFFFFFF :: u64)"
    by (simp add: drop_bit_eq_div unat_div)
  then have "drop_bit 4 (k - 1) = 0xFFFFFFFFFFFFFFF" by (rule unsigned_word_eqI)
  then have "align16 k = align16 0"
    unfolding align16_0 by (simp add: align16_def push_bit_eq_mult)
  then show ?thesis by (simp add: kmalloc_def)
qed

theorem kmalloc_wraps_witness: "kmalloc 0xFFFFFFFFFFFFFFF8 boot_heap = kmalloc 0 boot_heap"
  using kmalloc_wraps [of "0xFFFFFFFFFFFFFFF8" boot_heap] by simp

definition total_of :: "bool \<Rightarrow> seg list \<Rightarrow> nat" where
  "total_of f L = sum_list (map fst (filter (\<lambda>x. snd x = f) L))"

lemma total_of_simps [simp]:
  "total_of f [] = 0"
  "total_of f ((n, g) # L) = (if g = f then n else 0) + total_of f L"
  by (simp_all add: total_of_def)

lemma total_of_le: "total_of f L \<le> span L"
proof (induction L)
  case (Cons x L)
  then show ?case by (cases x) auto
qed simp

lemma span_total: "span L = total_of False L + total_of True L + 32 * length L"
proof (induction L)
  case (Cons x L)
  then show ?case by (cases x) auto
qed simp

lemma sum_blocks_chain:
  assumes "chain h p a L 0" and "0 < a" and "a + span L < 2 ^ 64"
  shows "sum_blocks f h acc (if L = [] then 0 else ad a) = Some (acc + ad (total_of f L))"
  using assms
proof (induction L arbitrary: p a acc)
  case Nil
  then show ?case by (simp add: sum_blocks.simps ad_def)
next
  case (Cons x L)
  obtain n g where x: "x = (n, g)" by (cases x)
  have a: "ad a \<noteq> 0" using Cons.prems x by (simp add: ad64)
  let ?acc = "if g = f then acc + ad n else acc"
  have "sum_blocks f h ?acc (if L = [] then 0 else ad (a + 32 + n)) = Some (?acc + ad (total_of f L))"
    using Cons.IH [of "ad a" "a + 32 + n"] Cons.prems x by (simp add: ac_simps)
  moreover have "ad n + ad (total_of f L) = ad (n + total_of f L)" by (rule ad_plus)
  then have "acc + ad n + ad (total_of f L) = acc + ad (n + total_of f L)" by (simp add: add.assoc)
  ultimately show ?case
    using Cons.prems a x by (subst sum_blocks.simps) (cases "g = f"; cases "L = []"; simp)
qed

lemma length_lay [simp]: "length (lay a L) = length L"
  by (induction a L rule: lay.induct) simp_all

text \<open>
  \<open>heap_used\<close> and \<open>heap_free\<close> account for every byte of the region: with 32 bytes of header for each
  block of the list they add up to \<open>heap_total\<close>.
\<close>

theorem heap_accounting:
  assumes "heap_inv s"
  shows "\<exists>u f. heap_used s = Some u \<and> heap_free s = Some f
    \<and> unat u + unat f + 32 * length (blocks s) = unat (heap_total s)"
proof -
  obtain B L where ok: "heap_ok s B L" using assms by (auto simp: heap_inv_def)
  then have h: "chain (blk s) 0 B L 0" "0 < B" "B + span L < 2 ^ 64" "L \<noteq> []" "heap_head s = ad B"
    "heap_total_size s = ad (span L)" by (simp_all add: heap_ok_def ad_def)
  have t: "sum_blocks f (blk s) 0 (heap_head s) = Some (ad (total_of f L))" for f
    using sum_blocks_chain [OF h(1-3), of f 0] h(4,5) by simp
  have u: "unat (ad (total_of f L)) = total_of f L" for f
    using total_of_le [of f L] h(3) by (intro unat_ad) simp
  have "unat (heap_total s) = span L" using h(3,6) by (simp add: heap_total_def ad64)
  then show ?thesis
    using t u span_total [of L] blocks_lay [OF ok] by (simp add: heap_used_def heap_free_def)
qed

theorem heap_accounting_witness:
  "\<exists>u f. heap_used boot_heap = Some u \<and> heap_free boot_heap = Some f
     \<and> unat u + unat f + 32 * length (blocks boot_heap) = 0x1000000"
  using heap_accounting [OF boot_heap_inv] by (simp add: heap_total_def boot_heap_def heap_init_def)

text \<open>
  When the product does not overflow, a successful \<open>kcalloc\<close> returns a payload whose
  \<open>nmemb * size\<close> bytes are 0 and leaves every byte of the payloads in use as it was.
\<close>

theorem kcalloc_zeroed:
  assumes "heap_inv s" and "unat nmemb * unat sz \<le> 2 ^ 64 - 32"
    and "kcalloc nmemb sz s = Some (r, s')" and "r \<noteq> 0"
  shows "heap_inv s' \<and> (\<forall>i < unat nmemb * unat sz. hmem s' (r + of_nat i) = 0)
    \<and> (\<forall>(a, m) \<in> live s. \<forall>i < m. hmem s' (of_nat (a + i)) = hmem s (of_nat (a + i)))"
proof -
  let ?t = "unat nmemb * unat sz"
  have t: "unat (nmemb * sz) = ?t" using assms(2) by (simp add: unat_word_ariths)
  obtain s1 where s1: "kmalloc (nmemb * sz) s = Some (r, s1)"
    "s' = s1\<lparr>hmem := zero_bytes ?t r (hmem s1)\<rparr>"
    using assms(3,4) t by (auto simp: kcalloc_def Let_def Option.bind_eq_Some_conv split: if_splits)
  have k: "unat (nmemb * sz) \<le> 2 ^ 64 - 32" using t assms(2) by simp
  obtain n where n: "heap_inv s1" "hmem s1 = hmem s" "?t \<le> n" "live s1 = insert (unat r, n) (live s)"
    and sep: "\<And>a m. (a, m) \<in> live s \<Longrightarrow> unat r + n < a \<or> a + m < unat r"
    using kmalloc_new [OF assms(1) k s1(1) assms(4)] t by metis
  have r: "unat r + n < 2 ^ 64" using live_bound [OF n(1), of "unat r" n] n(4) by simp
  have z: "hmem s' (ad x) = (if unat r \<le> x \<and> x < unat r + ?t then 0 else hmem s (ad x))"
    if "x < 2 ^ 64" for x
    using zero_bytes_ad [of "unat r" ?t x "hmem s"] that r n(2,3) s1(2) by simp
  have "hmem s' (r + of_nat i) = 0" if "i < ?t" for i
  proof -
    have "r + of_nat i = ad (unat r + i)" by (simp add: ad_def)
    then show ?thesis using z [of "unat r + i"] that r n(3) by simp
  qed
  moreover have "hmem s' (of_nat (a + i)) = hmem s (of_nat (a + i))" if "(a, m) \<in> live s" "i < m" for a m i
    using z [of "a + i"] sep [OF that(1)] live_bound [OF assms(1) that(1)] that(2) n(3)
    by (auto simp: ad_def)
  ultimately show ?thesis using n(1) s1(2) by auto
qed

theorem kcalloc_zeroed_witness:
  "\<exists>s'. kcalloc 25 4 boot_heap = Some (0x200020, s') \<and> (\<forall>i < 100. hmem s' (0x200020 + of_nat i) = 0)"
proof -
  obtain s' where s': "kcalloc 25 4 boot_heap = Some (0x200020, s')"
    using boot_heap_kmalloc by (auto simp: kcalloc_def)
  show ?thesis using kcalloc_zeroed [OF boot_heap_inv _ s'] s' by simp
qed

text \<open>A block that has to grow moves to a new one, its bytes with it.\<close>

lemma krealloc_moves:
  assumes "heap_inv s" and "(unat p, n) \<in> live s" and "unat k \<le> 2 ^ 64 - 32" and "n < unat k"
    and "kmalloc k s = Some (r, s1)" and "r \<noteq> 0"
  shows "\<exists>s' m. krealloc p k s = Some (r, s') \<and> heap_inv s' \<and> unat k \<le> m \<and> live s' = insert (unat r, m) (live s - {(unat p, n)})
    \<and> (\<forall>i < n. hmem s' (r + of_nat i) = hmem s (p + of_nat i))
    \<and> (\<forall>(a, m') \<in> live s. \<forall>i < m'. hmem s' (of_nat (a + i)) = hmem s (of_nat (a + i)))"
proof -
  have lb: "0 < unat p" "unat p + n < 2 ^ 64" and p0: "p \<noteq> 0" using live_bound [OF assms(1,2)] by auto
  obtain b where b: "blk s (p - 32) = Some b" "hb_size b = ad n" using live_bound [OF assms(1,2)] by auto
  have n: "n < 2 ^ 64" and kn: "\<not> k \<le> ad n" using lb assms(4) by (simp_all add: word_le_nat_alt ad64)
  obtain m where m: "heap_inv s1" "hmem s1 = hmem s" "unat k \<le> m" "live s1 = insert (unat r, m) (live s)"
    and sep: "\<And>a m'. (a, m') \<in> live s \<Longrightarrow> unat r + m < a \<or> a + m' < unat r"
    using kmalloc_new [OF assms(1,3,5,6)] by metis
  have lp: "(unat p, n) \<in> live s1" using m(4) assms(2) by simp
  obtain b1 where b1: "blk s1 (p - 32) = Some b1" "hb_size b1 = ad n" using live_bound [OF m(1) lp] by auto
  let ?h = "copy_bytes n r p (hmem s)"
  obtain s' where s': "kfree p (s1\<lparr>hmem := ?h\<rparr>) = Some s'" "heap_inv s'" "live s' = live s1 - {(unat p, n)}" "hmem s' = ?h"
    using kfree_live [of "s1\<lparr>hmem := ?h\<rparr>" p n] m(1) lp by auto
  have rm: "unat r + m < 2 ^ 64" using live_bound [OF m(1), of "unat r" m] m(4) by simp
  have c: "?h (ad x) = (if unat r \<le> x \<and> x < unat r + n then hmem s (ad (unat p + (x - unat r))) else hmem s (ad x))"
    if "x < 2 ^ 64" for x
    using copy_bytes_ad [of "unat r" n "unat p" x "hmem s"] that rm lb assms(4) m(3) sep [OF assms(2)] by auto
  have run: "krealloc p k s = Some (r, s')"
    using b b1 p0 kn assms(5,6) s'(1) m(2) n by (simp add: krealloc_def ad64)
  have new: "hmem s' (r + of_nat i) = hmem s (p + of_nat i)" if "i < n" for i
  proof -
    have "r + of_nat i = ad (unat r + i)" "p + of_nat i = ad (unat p + i)" by (simp_all add: ad_def)
    then show ?thesis using c [of "unat r + i"] s'(4) that rm assms(4) m(3) by simp
  qed
  have old: "hmem s' (of_nat (a + i)) = hmem s (of_nat (a + i))" if "(a, m') \<in> live s" "i < m'" for a m' i
    using c [of "a + i"] sep [OF that(1)] live_bound [OF assms(1) that(1)] that(2) s'(4) m(3) assms(4)
    by (auto simp: ad_def)
  have "live s' = insert (unat r, m) (live s - {(unat p, n)})" using s'(3) m(4) sep [OF assms(2)] by auto
  then show ?thesis using run new old s'(2) m(3) by (intro exI [of _ s'] exI [of _ m]) auto
qed

text \<open>
  C11. \<open>krealloc\<close> of a block in use that succeeds returns a block of at least the size asked for that
  starts with the old block's contents; every other block in use stays in use with its bytes. A request
  that fits in place returns the same pointer; a failed one returns NULL and changes nothing.
\<close>

theorem krealloc_keeps:
  assumes "heap_inv s" and "(unat p, n) \<in> live s" and "unat k \<le> 2 ^ 64 - 32"
  shows "\<exists>r s'. krealloc p k s = Some (r, s') \<and> heap_inv s' \<and> (r = 0 \<longrightarrow> s' = s) \<and> (unat k \<le> n \<longrightarrow> r = p)
    \<and> (r \<noteq> 0 \<longrightarrow> (\<exists>m. unat k \<le> m \<and> live s' = insert (unat r, m) (live s - {(unat p, n)}))
      \<and> (\<forall>i < n. hmem s' (r + of_nat i) = hmem s (p + of_nat i))
      \<and> (\<forall>(a, m) \<in> live s - {(unat p, n)}. \<forall>i < m. hmem s' (of_nat (a + i)) = hmem s (of_nat (a + i))))"
proof (cases "unat k \<le> n")
  case True
  have lb: "unat p + n < 2 ^ 64" and p0: "p \<noteq> 0" using live_bound [OF assms(1,2)] by auto
  obtain b where b: "blk s (p - 32) = Some b" "hb_size b = ad n" using live_bound [OF assms(1,2)] by auto
  have "k \<le> ad n" using True lb by (simp add: word_le_nat_alt ad64)
  then have "krealloc p k s = Some (p, s)" using b p0 by (simp add: krealloc_def)
  then show ?thesis using True p0 assms(1,2) by (auto intro!: exI [of _ n])
next
  case False
  have lb: "unat p + n < 2 ^ 64" and p0: "p \<noteq> 0" using live_bound [OF assms(1,2)] by auto
  obtain b where b: "blk s (p - 32) = Some b" "hb_size b = ad n" using live_bound [OF assms(1,2)] by auto
  have kn: "\<not> k \<le> ad n" using False lb by (simp add: word_le_nat_alt ad64)
  show ?thesis
  proof (rule kmalloc_cases [OF assms(1,3)])
    assume "kmalloc k s = Some (0, s)"
    then show ?thesis using b p0 kn False assms(1) by (simp add: krealloc_def)
  next
    fix r s1 m
    assume r: "kmalloc k s = Some (r, s1)" "r \<noteq> 0"
    have "n < unat k" using False by simp
    from krealloc_moves [OF assms(1-3) this r] obtain s' m where "krealloc p k s = Some (r, s')" "heap_inv s'" "unat k \<le> m"
      "live s' = insert (unat r, m) (live s - {(unat p, n)})" "\<forall>i < n. hmem s' (r + of_nat i) = hmem s (p + of_nat i)"
      "\<forall>(a, m') \<in> live s. \<forall>i < m'. hmem s' (of_nat (a + i)) = hmem s (of_nat (a + i))" by blast
    then show ?thesis using r(2) False by auto
  qed
qed

theorem krealloc_keeps_witness:
  "\<exists>s r s'. kmalloc 100 boot_heap = Some (0x200020, s) \<and> krealloc 0x200020 200 s = Some (r, s') \<and> heap_inv s'"
proof -
  obtain s where s: "kmalloc 100 boot_heap = Some (0x200020, s)"
    "heap_ok s 0x200000 [(112, False), (0xFFFF50, True)]" using boot_heap_kmalloc by auto
  have "heap_inv s" "(unat (0x200020 :: u64), 112) \<in> live s"
    using s(2) live_live_of [OF s(2)] by (auto simp: heap_inv_def)
  then show ?thesis using krealloc_keeps [of s "0x200020" 112 200] s(1) by fastforce
qed

end
