(* ===== verification/Thread.thy ===== *)
theory Thread
  imports Cstring Heap
begin

text \<open>
  The threads of kernel/thread.c and the register switch of kernel/context_switch.S. The array
  \<open>threads[32]\<close> holds pointers; \<open>tobj\<close> is the store of the \<open>thread_t\<close> objects, the static
  \<open>main_thread\<close> and the payloads \<open>kmalloc\<close> returned. The kernel's output (\<open>kdbg\<close>) is left out.

  The abstract scheduler is the list of the thread objects in the order of the array. The lemmas show
  that every operation is an update of that list, and that the schedule is round robin on it.
\<close>

section \<open>State\<close>

datatype thread_state =
  THREAD_READY | THREAD_RUNNING | THREAD_BLOCKED | THREAD_TERMINATED | THREAD_SLEEPING

text \<open>The value of the C enumeration constant.\<close>

fun state_code :: "thread_state \<Rightarrow> i32" where
  "state_code THREAD_READY = 0"
| "state_code THREAD_RUNNING = 1"
| "state_code THREAD_BLOCKED = 2"
| "state_code THREAD_TERMINATED = 3"
| "state_code THREAD_SLEEPING = 4"

lemma state_code_inject [simp]: "state_code a = state_code b \<longleftrightarrow> a = b"
  by (cases a; cases b) simp_all

instantiation thread_state :: linorder
begin

definition less_eq_thread_state :: "thread_state \<Rightarrow> thread_state \<Rightarrow> bool" where
  "less_eq_thread_state a b = (state_code a \<le> state_code b)"

definition less_thread_state :: "thread_state \<Rightarrow> thread_state \<Rightarrow> bool" where
  "less_thread_state a b = (state_code a < state_code b)"

instance
proof
  fix a b c :: thread_state
  show "(a < b) = (a \<le> b \<and> \<not> b \<le> a)"
    by (simp only: less_eq_thread_state_def less_thread_state_def less_le_not_le)
  show "a \<le> a" by (simp add: less_eq_thread_state_def)
  show "a \<le> b \<Longrightarrow> b \<le> c \<Longrightarrow> a \<le> c" by (auto simp: less_eq_thread_state_def)
  show "a \<le> b \<Longrightarrow> b \<le> a \<Longrightarrow> a = b"
    unfolding less_eq_thread_state_def by (drule (1) order.antisym) simp
  show "a \<le> b \<or> b \<le> a" by (auto simp: less_eq_thread_state_def)
qed

end

record context_t =
  c_r15 :: u64  c_r14 :: u64  c_r13 :: u64  c_r12 :: u64
  c_r11 :: u64  c_r10 :: u64  c_r9 :: u64  c_r8 :: u64
  c_rsi :: u64  c_rdi :: u64  c_rbp :: u64  c_rdx :: u64
  c_rcx :: u64  c_rbx :: u64  c_rax :: u64
  c_rip :: u64  c_rsp :: u64  c_rflags :: u64

record thread =
  t_context :: context_t
  kernel_stack :: u64
  user_stack :: u64
  user_rip :: u64
  ring :: u8
  t_state :: thread_state
  t_next :: u64
  t_tid :: u64
  t_name :: bytes
  sleep_until :: u32

record sched =
  threads :: "u64 list"
  thread_count :: nat
  current :: u64
  tobj :: "u64 \<Rightarrow> thread option"
  kheap :: heap_state
  timer_ticks :: u32
  cpu :: context_t

definition zero_context :: context_t where
  "zero_context = \<lparr>c_r15 = 0, c_r14 = 0, c_r13 = 0, c_r12 = 0, c_r11 = 0, c_r10 = 0, c_r9 = 0,
     c_r8 = 0, c_rsi = 0, c_rdi = 0, c_rbp = 0, c_rdx = 0, c_rcx = 0, c_rbx = 0, c_rax = 0,
     c_rip = 0, c_rsp = 0, c_rflags = 0\<rparr>"

text \<open>A \<open>thread_t\<close> after \<open>memset(t, 0, sizeof *t)\<close>.\<close>

definition zero_thread :: thread where
  "zero_thread = \<lparr>t_context = zero_context, kernel_stack = 0, user_stack = 0, user_rip = 0,
     ring = 0, t_state = THREAD_READY, t_next = 0, t_tid = 0, t_name = replicate 32 0,
     sleep_until = 0\<rparr>"

definition upd_thread :: "u64 \<Rightarrow> (thread \<Rightarrow> thread) \<Rightarrow> sched \<Rightarrow> sched option" where
  "upd_thread p f k = do { t \<leftarrow> tobj k p; Some (k\<lparr>tobj := (tobj k)(p \<mapsto> f t)\<rparr>) }"

text \<open>
  The end of a \<open>thread_t\<close> from \<open>name\<close> on: 32 bytes of name, the 4 bytes of \<open>sleep_until\<close> and 4 bytes
  of padding that \<open>memset\<close> cleared. \<open>strncpy\<close> with \<open>n = 32\<close> may write 33 bytes.
\<close>

definition name_bytes :: "thread \<Rightarrow> bytes" where
  "name_bytes t = t_name t @ bytes32 (sleep_until t) @ [0, 0, 0, 0]"

definition set_name :: "bytes \<Rightarrow> thread \<Rightarrow> thread option" where
  "set_name name t = do {
     m \<leftarrow> strncpy (name_bytes t) 0 name 32;
     su \<leftarrow> get32 m 32;
     Some (t\<lparr>t_name := take 32 m, sleep_until := su\<rparr>) }"

section \<open>Operations\<close>

definition thread_init :: "u64 \<Rightarrow> sched \<Rightarrow> sched option" where
  "thread_init main_thread k = do {
     let t0 = zero_thread\<lparr>t_state := THREAD_RUNNING, t_tid := 0, sleep_until := 0\<rparr>;
     ts \<leftarrow> wr (threads k) 0 main_thread;
     t \<leftarrow> set_name (zlit ''idle'') t0;
     Some (k\<lparr>current := main_thread, threads := ts, thread_count := 1,
             tobj := (tobj k)(main_thread \<mapsto> t)\<rparr>) }"

text \<open>A store of 8 bytes to memory, little endian.\<close>

fun store_bytes :: "u64 \<Rightarrow> bytes \<Rightarrow> (u64 \<Rightarrow> u8) \<Rightarrow> (u64 \<Rightarrow> u8)" where
  "store_bytes a [] m = m"
| "store_bytes a (b # bs) m = store_bytes (a + 1) bs (m(a := b))"

definition store64 :: "u64 \<Rightarrow> u64 \<Rightarrow> (u64 \<Rightarrow> u8) \<Rightarrow> (u64 \<Rightarrow> u8)" where
  "store64 a v = store_bytes a (bytes32 (ucast v) @ bytes32 (ucast (drop_bit 32 v)))"

definition thread_create :: "u64 \<Rightarrow> u64 \<Rightarrow> bytes \<Rightarrow> sched \<Rightarrow> (u64 \<times> sched) option" where
  "thread_create thread_trampoline entry name k =
     (if thread_count k \<ge> 32 then Some (0, k)
      else do {
        (t, h1) \<leftarrow> kmalloc 232 (kheap k);
        if t = 0 then Some (0, k\<lparr>kheap := h1\<rparr>)
        else do {
          (stk, h2) \<leftarrow> kmalloc (8192 + 16) h1;
          let stack = stk + 8192;
          let h3 = h2\<lparr>hmem := store64 (stack - 8) thread_trampoline (hmem h2)\<rparr>;
          let o1 = zero_thread\<lparr>kernel_stack := stack,
            t_context := zero_context\<lparr>c_rsp := stack - 8, c_r12 := entry, c_rflags := 0x202\<rparr>,
            t_state := THREAD_READY, sleep_until := 0, t_tid := of_nat (thread_count k)\<rparr>;
          o2 \<leftarrow> set_name name o1;
          ts \<leftarrow> wr (threads k) (thread_count k) t;
          Some (t, k\<lparr>kheap := h3, threads := ts, thread_count := thread_count k + 1,
                     tobj := (tobj k)(t \<mapsto> o2)\<rparr>) } })"

text \<open>
  The loops \<open>for (i = 0; i < thread_count; ++i) if (threads[i] && P(threads[i])) ...\<close>: the first
  pointer that passes, over the indices left.
\<close>

fun find_thread :: "(thread \<Rightarrow> bool) \<Rightarrow> sched \<Rightarrow> nat list \<Rightarrow> u64 option option" where
  "find_thread P k [] = Some None"
| "find_thread P k (i # is) = do {
     p \<leftarrow> rd (threads k) i;
     if p = 0 then find_thread P k is
     else do { t \<leftarrow> tobj k p; if P t then Some (Some p) else find_thread P k is } }"

definition for_thread :: "(thread \<Rightarrow> bool) \<Rightarrow> (thread \<Rightarrow> thread) \<Rightarrow> sched \<Rightarrow> sched option" where
  "for_thread P f k = do {
     r \<leftarrow> find_thread P k [0..<thread_count k];
     case r of None \<Rightarrow> Some k | Some p \<Rightarrow> upd_thread p f k }"

definition thread_stop :: "i32 \<Rightarrow> sched \<Rightarrow> sched option" where
  "thread_stop pid = for_thread (\<lambda>t. t_tid t = scast pid \<and> t_state t \<noteq> THREAD_TERMINATED)
     (\<lambda>t. t\<lparr>t_state := THREAD_TERMINATED\<rparr>)"

definition thread_block :: "i32 \<Rightarrow> sched \<Rightarrow> sched option" where
  "thread_block pid = for_thread (\<lambda>t. t_tid t = scast pid \<and> t_state t \<noteq> THREAD_BLOCKED)
     (\<lambda>t. t\<lparr>t_state := THREAD_BLOCKED\<rparr>)"

definition thread_unblock :: "i32 \<Rightarrow> sched \<Rightarrow> sched option" where
  "thread_unblock pid = for_thread (\<lambda>t. t_tid t = scast pid \<and> t_state t = THREAD_BLOCKED)
     (\<lambda>t. t\<lparr>t_state := THREAD_READY\<rparr>)"

definition thread_get :: "i32 \<Rightarrow> sched \<Rightarrow> u64 option" where
  "thread_get pid k = do {
     r \<leftarrow> find_thread (\<lambda>t. t_tid t = scast pid) k [0..<thread_count k];
     Some (case r of None \<Rightarrow> 0 | Some p \<Rightarrow> p) }"

definition thread_get_state :: "i32 \<Rightarrow> sched \<Rightarrow> i32 option" where
  "thread_get_state pid k = do {
     r \<leftarrow> find_thread (\<lambda>t. t_tid t = scast pid) k [0..<thread_count k];
     case r of None \<Rightarrow> Some (- 1) | Some p \<Rightarrow> do { t \<leftarrow> tobj k p; Some (state_code (t_state t)) } }"

definition thread_get_pid :: "bytes \<Rightarrow> sched \<Rightarrow> i32 option" where
  "thread_get_pid name k = do {
     r \<leftarrow> find_thread (\<lambda>t. strcmp (name_bytes t) name = Some 0) k [0..<thread_count k];
     case r of None \<Rightarrow> Some (- 1) | Some p \<Rightarrow> do { t \<leftarrow> tobj k p; Some (ucast (t_tid t)) } }"

definition thread_get_count :: "sched \<Rightarrow> nat" where
  "thread_get_count k = thread_count k"

definition thread_current :: "sched \<Rightarrow> u64" where
  "thread_current k = current k"

text \<open>
  \<open>context_switch\<close> up to its final \<open>ret\<close>: the callee-saved registers, \<open>rsp\<close> and the flags go to the
  old context (the flags through \<open>rax\<close>) and come from the new one.
\<close>

definition save_regs :: "context_t \<Rightarrow> context_t \<Rightarrow> context_t" where
  "save_regs r c = c\<lparr>c_rbx := c_rbx r, c_rbp := c_rbp r, c_r12 := c_r12 r, c_r13 := c_r13 r,
     c_r14 := c_r14 r, c_r15 := c_r15 r, c_rsp := c_rsp r, c_rflags := c_rflags r\<rparr>"

definition load_regs :: "context_t \<Rightarrow> context_t \<Rightarrow> context_t" where
  "load_regs c r = r\<lparr>c_rax := c_rflags r, c_rbx := c_rbx c, c_rbp := c_rbp c, c_r12 := c_r12 c,
     c_r13 := c_r13 c, c_r14 := c_r14 c, c_r15 := c_r15 c, c_rsp := c_rsp c,
     c_rflags := c_rflags c\<rparr>"

definition context_switch :: "u64 \<Rightarrow> u64 \<Rightarrow> sched \<Rightarrow> sched option" where
  "context_switch old_ctx new_ctx k = do {
     k1 \<leftarrow> upd_thread old_ctx (\<lambda>t. t\<lparr>t_context := save_regs (cpu k) (t_context t)\<rparr>) k;
     n \<leftarrow> tobj k1 new_ctx;
     Some (k1\<lparr>cpu := load_regs (t_context n) (cpu k1)\<rparr>) }"

fun wake_sleepers :: "nat list \<Rightarrow> sched \<Rightarrow> sched option" where
  "wake_sleepers [] k = Some k"
| "wake_sleepers (i # is) k = do {
     p \<leftarrow> rd (threads k) i;
     if p = 0 then wake_sleepers is k
     else do {
       t \<leftarrow> tobj k p;
       k1 \<leftarrow> (if t_state t = THREAD_SLEEPING \<and> timer_ticks k \<ge> sleep_until t
              then upd_thread p (\<lambda>t. t\<lparr>t_state := THREAD_READY\<rparr>) k else Some k);
       wake_sleepers is k1 } }"

text \<open>
  The switch to the thread at \<open>p\<close>. The last statement runs when the thread switched to comes back
  from its own call of \<open>context_switch\<close>; a thread switched to for the first time starts in the
  trampoline instead, with the same state.
\<close>

definition switch_to :: "u64 \<Rightarrow> sched \<Rightarrow> sched option" where
  "switch_to p k = do {
     let prev = current k;
     k1 \<leftarrow> upd_thread p (\<lambda>t. t\<lparr>t_state := THREAD_RUNNING\<rparr>) (k\<lparr>current := p\<rparr>);
     q \<leftarrow> tobj k1 prev;
     k2 \<leftarrow> (if t_state q \<noteq> THREAD_SLEEPING
            then upd_thread prev (\<lambda>t. t\<lparr>t_state := THREAD_READY\<rparr>) k1 else Some k1);
     k3 \<leftarrow> context_switch prev p k2;
     upd_thread (current k3) (\<lambda>t. t\<lparr>t_state := THREAD_RUNNING\<rparr>) k3 }"

fun schedule_from :: "nat \<Rightarrow> nat list \<Rightarrow> sched \<Rightarrow> sched option" where
  "schedule_from nxt [] k = Some k"
| "schedule_from nxt (i # is) k = do {
     p \<leftarrow> rd (threads k) ((nxt + i) mod thread_count k);
     t \<leftarrow> tobj k p;
     if t_state t = THREAD_READY then switch_to p k else schedule_from nxt is k }"

definition thread_schedule :: "sched \<Rightarrow> sched option" where
  "thread_schedule k = do {
     k1 \<leftarrow> wake_sleepers [0..<thread_count k] k;
     c \<leftarrow> tobj k1 (current k1);
     if thread_count k1 = 0 then None
     else schedule_from (unat ((t_tid c + 1) mod of_nat (thread_count k1))) [0..<thread_count k1] k1 }"

definition thread_yield :: "sched \<Rightarrow> sched option" where
  "thread_yield k = thread_schedule k"

definition thread_sleep :: "u32 \<Rightarrow> sched \<Rightarrow> sched option" where
  "thread_sleep ms k =
     (if ms = 0 then Some k
      else do {
        k1 \<leftarrow> upd_thread (current k) (\<lambda>t. t\<lparr>sleep_until := timer_ticks k + ms\<rparr>) k;
        k2 \<leftarrow> upd_thread (current k1) (\<lambda>t. t\<lparr>t_state := THREAD_SLEEPING\<rparr>) k1;
        thread_yield k2 })"

section \<open>The table of threads\<close>

definition thr :: "sched \<Rightarrow> nat \<Rightarrow> thread" where
  "thr k i = the (tobj k (threads k ! i))"

definition view :: "sched \<Rightarrow> thread list" where
  "view k = map (thr k) [0..<thread_count k]"

definition cur :: "sched \<Rightarrow> nat" where
  "cur k = unat (t_tid (the (tobj k (current k))))"

text \<open>Every slot below the count holds the object whose \<open>tid\<close> is the slot's index.\<close>

definition table_ok :: "sched \<Rightarrow> bool" where
  "table_ok k \<longleftrightarrow>
     length (threads k) = 32 \<and> 0 < thread_count k \<and> thread_count k \<le> 32
     \<and> distinct (take (thread_count k) (threads k))
     \<and> (\<forall>i < thread_count k. threads k ! i \<noteq> 0
          \<and> (\<exists>t. tobj k (threads k ! i) = Some t \<and> t_tid t = of_nat i \<and> length (t_name t) = 32))
     \<and> (\<exists>c < thread_count k. current k = threads k ! c)"

definition quiet :: "thread list \<Rightarrow> nat \<Rightarrow> bool" where
  "quiet ts c \<longleftrightarrow> (\<forall>i < length ts. i \<noteq> c \<longrightarrow> t_state (ts ! i) \<noteq> THREAD_RUNNING)"

text \<open>
  The objects are the idle thread, outside the heap's region, and payloads in use; no thread but the
  current one is running.
\<close>

definition thread_inv :: "sched \<Rightarrow> bool" where
  "thread_inv k \<longleftrightarrow> table_ok k \<and> heap_inv (kheap k)
     \<and> (\<forall>i < thread_count k. 0 < i \<longrightarrow> (\<exists>n \<ge> 232. (unat (threads k ! i), n) \<in> live (kheap k)))
     \<and> \<not> in_region (kheap k) (threads k ! 0)
     \<and> quiet (view k) (cur k)"

lemma length_view [simp]: "length (view k) = thread_count k"
  by (simp add: view_def)

lemma view_nth: "i < thread_count k \<Longrightarrow> view k ! i = thr k i"
  by (simp add: view_def)

lemma table_thr:
  assumes "table_ok k" and "i < thread_count k"
  shows "tobj k (threads k ! i) = Some (view k ! i)" "threads k ! i \<noteq> 0"
    "t_tid (view k ! i) = of_nat i" "length (t_name (view k ! i)) = 32"
    "rd (threads k) i = Some (threads k ! i)"
proof -
  obtain t where t: "tobj k (threads k ! i) = Some t" "t_tid t = of_nat i" "length (t_name t) = 32"
    "threads k ! i \<noteq> 0"
    using assms by (auto simp: table_ok_def)
  then show "tobj k (threads k ! i) = Some (view k ! i)" "threads k ! i \<noteq> 0"
    "t_tid (view k ! i) = of_nat i" "length (t_name (view k ! i)) = 32"
    using assms(2) by (simp_all add: view_nth thr_def)
  show "rd (threads k) i = Some (threads k ! i)"
    using assms by (simp add: table_ok_def)
qed

lemma table_inject:
  assumes "table_ok k" and "i < thread_count k" and "j < thread_count k"
  shows "threads k ! i = threads k ! j \<longleftrightarrow> i = j"
  using assms nth_eq_iff_index_eq [of "take (thread_count k) (threads k)" i j]
  by (simp add: table_ok_def)

lemma unat_index: "i < 32 \<Longrightarrow> unat (of_nat i :: u64) = i"
  by (simp add: unsigned_of_nat take_bit_nat_eq_self)

lemma table_cur:
  assumes "table_ok k"
  shows "cur k < thread_count k" "current k = threads k ! cur k"
proof -
  obtain c where c: "c < thread_count k" "current k = threads k ! c"
    using assms by (auto simp: table_ok_def)
  moreover have "cur k = c"
    using c table_thr(1,3) [OF assms c(1)] assms by (simp add: cur_def table_ok_def unat_index)
  ultimately show "cur k < thread_count k" "current k = threads k ! cur k" by simp_all
qed

text \<open>What an operation that only touches thread objects leaves alone.\<close>

definition kept :: "sched \<Rightarrow> sched \<Rightarrow> bool" where
  "kept k k' \<longleftrightarrow> threads k' = threads k \<and> thread_count k' = thread_count k \<and> kheap k' = kheap k
     \<and> timer_ticks k' = timer_ticks k"

lemma kept_refl [simp]: "kept k k"
  and kept_trans: "kept k k1 \<Longrightarrow> kept k1 k2 \<Longrightarrow> kept k k2"
  by (simp_all add: kept_def)

text \<open>\<open>k'\<close> is \<open>k\<close> with the list of threads \<open>L\<close> and thread \<open>c\<close> current.\<close>

definition becomes :: "sched \<Rightarrow> sched \<Rightarrow> thread list \<Rightarrow> nat \<Rightarrow> bool" where
  "becomes k k' L c \<longleftrightarrow> table_ok k' \<and> kept k k' \<and> view k' = L \<and> cur k' = c"

lemma becomes_refl: "table_ok k \<Longrightarrow> becomes k k (view k) (cur k)"
  by (simp add: becomes_def)

lemma becomes_trans: "becomes k k1 L c \<Longrightarrow> becomes k1 k2 L' c' \<Longrightarrow> becomes k k2 L' c'"
  using kept_trans by (auto simp: becomes_def)

text \<open>Updates that keep a thread's number and the size of its name.\<close>

definition tame :: "(thread \<Rightarrow> thread) \<Rightarrow> bool" where
  "tame f \<longleftrightarrow> (\<forall>t. t_tid (f t) = t_tid t \<and> length (t_name (f t)) = length (t_name t))"

lemma upd_thread_view:
  assumes "table_ok k" and i: "i < thread_count k" and "tame f"
  shows "\<exists>k'. upd_thread (threads k ! i) f k = Some k' \<and> becomes k k' ((view k)[i := f (view k ! i)]) (cur k)
    \<and> current k' = current k \<and> cpu k' = cpu k"
proof -
  let ?k = "k\<lparr>tobj := (tobj k)(threads k ! i \<mapsto> f (view k ! i))\<rparr>"
  have obj: "tobj ?k (threads k ! j) = Some (if j = i then f (view k ! i) else view k ! j)"
    if "j < thread_count k" for j
    using table_thr(1) [OF assms(1) that] table_inject [OF assms(1) that i] by simp
  have f: "t_tid (f (view k ! i)) = of_nat i" "length (t_name (f (view k ! i))) = 32"
    using assms(3) table_thr [OF assms(1) i] by (simp_all add: tame_def)
  have ok: "table_ok ?k"
  proof -
    have "\<exists>t. tobj ?k (threads k ! j) = Some t \<and> t_tid t = of_nat j \<and> length (t_name t) = 32"
      if "j < thread_count k" for j
      using obj [OF that] f table_thr(3,4) [OF assms(1) that] by auto
    then show ?thesis using assms(1) by (simp add: table_ok_def)
  qed
  moreover have "view ?k = (view k)[i := f (view k ! i)]"
    using obj by (intro nth_equalityI) (auto simp: view_nth thr_def nth_list_update)
  moreover have "cur ?k = cur k"
  proof -
    obtain d where d: "d = cur k" "d < thread_count k" "current k = threads k ! d"
      using table_cur [OF assms(1)] by blast
    have "the (tobj ?k (current k)) = (if d = i then f (view k ! i) else view k ! d)"
      unfolding d(3) obj [OF d(2)] by simp
    then have "t_tid (the (tobj ?k (current k))) = t_tid (view k ! d)"
      using assms(3) by (simp add: tame_def)
    moreover have "cur k = unat (t_tid (view k ! d))"
      unfolding cur_def d(3) using table_thr(1) [OF assms(1) d(2)] by simp
    moreover have "cur ?k = unat (t_tid (the (tobj ?k (current k))))" by (simp add: cur_def)
    ultimately show ?thesis by simp
  qed
  ultimately show ?thesis
    using table_thr(1) [OF assms(1) i] by (simp add: upd_thread_def becomes_def kept_def)
qed

lemma find_thread_view:
  "table_ok k \<Longrightarrow> set is \<subseteq> {..<thread_count k} \<Longrightarrow>
   find_thread P k is = Some (map_option (\<lambda>i. threads k ! i) (find (\<lambda>i. P (view k ! i)) is))"
  by (induction "is") (simp_all add: table_thr)

lemma for_thread_view:
  assumes "table_ok k" and "tame f"
  shows "\<exists>k'. for_thread P f k = Some k' \<and> becomes k k'
    (case find (\<lambda>i. P (view k ! i)) [0..<thread_count k] of None \<Rightarrow> view k
     | Some i \<Rightarrow> (view k)[i := f (view k ! i)]) (cur k)"
proof (cases "find (\<lambda>i. P (view k ! i)) [0..<thread_count k]")
  case None
  then show ?thesis
    using assms by (simp add: for_thread_def find_thread_view subset_iff becomes_refl)
next
  case (Some i)
  then have "i < thread_count k" by (auto simp: find_Some_iff)
  then show ?thesis
    using upd_thread_view [OF assms(1) _ assms(2), of i] Some assms(1)
    by (auto simp: for_thread_def find_thread_view subset_iff)
qed

text \<open>With \<open>tid\<close> the index of the slot, a search by \<open>tid\<close> finds that slot.\<close>

lemma find_tid:
  assumes "table_ok k"
  shows "find (\<lambda>i. t_tid (view k ! i) = w \<and> Q (view k ! i)) [0..<thread_count k] =
    (if unat w < thread_count k \<and> Q (view k ! unat w) then Some (unat w) else None)"
proof -
  have n: "thread_count k \<le> 32" using assms by (simp add: table_ok_def)
  have tid: "t_tid (view k ! i) = w \<longleftrightarrow> i = unat w" if "i < thread_count k" for i
    using table_thr(3) [OF assms that] that n unat_index [of i]
    by auto
  show ?thesis
  proof (cases "unat w < thread_count k \<and> Q (view k ! unat w)")
    case True
    then have "find (\<lambda>i. t_tid (view k ! i) = w \<and> Q (view k ! i)) [0..<thread_count k] = Some (unat w)"
      unfolding find_Some_iff using tid by (intro exI [of _ "unat w"]) auto
    then show ?thesis using True by simp
  next
    case False
    then have "\<not> (t_tid (view k ! i) = w \<and> Q (view k ! i))" if "i < thread_count k" for i
      using tid [OF that] that by auto
    then show ?thesis using False by (auto simp: find_None_iff)
  qed
qed

section \<open>The schedule is round robin\<close>

definition wake :: "u32 \<Rightarrow> thread \<Rightarrow> thread" where
  "wake now t = (if t_state t = THREAD_SLEEPING \<and> sleep_until t \<le> now
     then t\<lparr>t_state := THREAD_READY\<rparr> else t)"

text \<open>The hand-over from thread \<open>c\<close> to thread \<open>i\<close> with the processor's registers \<open>r\<close>.\<close>

definition hand_over :: "context_t \<Rightarrow> nat \<Rightarrow> nat \<Rightarrow> thread list \<Rightarrow> thread list" where
  "hand_over r c i ts =
     (ts[c := (ts ! c)\<lparr>t_context := save_regs r (t_context (ts ! c)),
          t_state := if t_state (ts ! c) = THREAD_SLEEPING then THREAD_SLEEPING else THREAD_READY\<rparr>])
     [i := (if i = c then (ts ! c)\<lparr>t_context := save_regs r (t_context (ts ! c))\<rparr> else ts ! i)
          \<lparr>t_state := THREAD_RUNNING\<rparr>]"

definition next_ready :: "nat \<Rightarrow> thread list \<Rightarrow> nat option" where
  "next_ready c ts = map_option (\<lambda>d. (c + 1 + d) mod length ts)
     (find (\<lambda>d. t_state (ts ! ((c + 1 + d) mod length ts)) = THREAD_READY) [0..<length ts])"

definition round_robin :: "u32 \<Rightarrow> context_t \<Rightarrow> nat \<Rightarrow> thread list \<Rightarrow> thread list \<times> nat" where
  "round_robin now r c ts = (let ws = map (wake now) ts in
     case next_ready c ws of None \<Rightarrow> (ws, c) | Some i \<Rightarrow> (hand_over r c i ws, i))"

lemma tame_simps [simp]:
  "tame (\<lambda>t. t\<lparr>t_state := x\<rparr>)" "tame (\<lambda>t. t\<lparr>t_context := g t\<rparr>)" "tame (\<lambda>t. t\<lparr>sleep_until := u\<rparr>)"
  by (simp_all add: tame_def)

lemma wake_sleepers_view:
  assumes "table_ok k" and "distinct is" and "set is \<subseteq> {..<thread_count k}"
  shows "\<exists>k'. wake_sleepers is k = Some k' \<and> cpu k' = cpu k \<and> becomes k k'
    (map (\<lambda>i. if i \<in> set is then wake (timer_ticks k) (view k ! i) else view k ! i) [0..<thread_count k])
    (cur k)"
  using assms
proof (induction "is" arbitrary: k)
  case Nil
  have "map (\<lambda>i. view k ! i) [0..<thread_count k] = view k"
    using map_nth [of "view k"] by simp
  then show ?case using Nil by (simp add: becomes_refl)
next
  case (Cons i "is")
  have i: "i < thread_count k" "i \<notin> set is" using Cons.prems by auto
  let ?wakes = "t_state (view k ! i) = THREAD_SLEEPING \<and> sleep_until (view k ! i) \<le> timer_ticks k"
  obtain k1 where k1: "(if ?wakes then upd_thread (threads k ! i) (\<lambda>t. t\<lparr>t_state := THREAD_READY\<rparr>) k
      else Some k) = Some k1" "cpu k1 = cpu k"
    "becomes k k1 ((view k)[i := wake (timer_ticks k) (view k ! i)]) (cur k)"
  proof (cases ?wakes)
    case True
    then show ?thesis
      using upd_thread_view [OF Cons.prems(1) i(1), of "\<lambda>t. t\<lparr>t_state := THREAD_READY\<rparr>"] that
      by (auto simp: wake_def)
  next
    case False
    then have "wake (timer_ticks k) (view k ! i) = view k ! i" by (simp add: wake_def)
    then show ?thesis using that [of k] False becomes_refl [OF Cons.prems(1)] by simp
  qed
  have n: "thread_count k1 = thread_count k" "timer_ticks k1 = timer_ticks k" "table_ok k1"
    "view k1 = (view k)[i := wake (timer_ticks k) (view k ! i)]" "cur k1 = cur k"
    using k1(3) by (simp_all add: becomes_def kept_def)
  obtain k2 where k2: "wake_sleepers is k1 = Some k2" "cpu k2 = cpu k1"
    "becomes k1 k2 (map (\<lambda>j. if j \<in> set is then wake (timer_ticks k1) (view k1 ! j) else view k1 ! j)
      [0..<thread_count k1]) (cur k1)"
    using Cons.IH [OF n(3)] Cons.prems n(1) by auto
  have "wake_sleepers (i # is) k = Some k2"
    using k1(1) k2(1) table_thr [OF Cons.prems(1) i(1)] by simp
  moreover have "map (\<lambda>j. if j \<in> set is then wake (timer_ticks k1) (view k1 ! j) else view k1 ! j)
      [0..<thread_count k1]
    = map (\<lambda>j. if j \<in> set (i # is) then wake (timer_ticks k) (view k ! j) else view k ! j)
      [0..<thread_count k]"
    using i n by (auto simp: nth_list_update)
  ultimately show ?case using becomes_trans [OF k1(3) k2(3)] k1(2) k2(2) n(5) by auto
qed

lemma becomes_current:
  assumes "becomes k k' L c"
  shows "table_ok k'" "view k' = L" "current k' = threads k ! c" "threads k' = threads k"
    "thread_count k' = thread_count k" "cur k' = c"
  using assms table_cur(2) [of k'] by (simp_all add: becomes_def kept_def)

lemma set_current:
  assumes "table_ok k" and "i < thread_count k"
  shows "becomes k (k\<lparr>current := threads k ! i\<rparr>) (view k) i"
proof -
  let ?k = "k\<lparr>current := threads k ! i\<rparr>"
  have "table_ok ?k" using assms by (auto simp: table_ok_def)
  moreover have "view ?k = view k" by (simp add: view_def thr_def)
  moreover have "cur ?k = i"
    using table_thr(1,3) [OF assms] assms unat_index [of i] by (simp add: cur_def table_ok_def)
  ultimately show ?thesis by (simp add: becomes_def kept_def)
qed

lemma set_cpu: "becomes k k' L c \<Longrightarrow> becomes k (k'\<lparr>cpu := r\<rparr>) L c"
  by (auto simp: becomes_def table_ok_def kept_def view_def thr_def cur_def)

lemma upd_becomes:
  assumes "becomes k k1 L c" and "i < thread_count k" and "tame f"
  shows "\<exists>k'. upd_thread (threads k ! i) f k1 = Some k' \<and> becomes k k' (L[i := f (L ! i)]) c
    \<and> cpu k' = cpu k1"
  using upd_thread_view [of k1 i f] becomes_current [OF assms(1)] assms becomes_trans by fastforce

lemma becomes_obj: "becomes k k1 L c \<Longrightarrow> i < thread_count k \<Longrightarrow> tobj k1 (threads k ! i) = Some (L ! i)"
  using table_thr(1) [of k1 i] becomes_current [of k k1 L c] by simp

lemma switch_to_view:
  assumes "table_ok k" and i: "i < thread_count k"
  shows "\<exists>k'. switch_to (threads k ! i) k = Some k'
    \<and> becomes k k' (hand_over (cpu k) (cur k) i (view k)) i
    \<and> cpu k' = load_regs (t_context (hand_over (cpu k) (cur k) i (view k) ! i)) (cpu k)"
proof -
  let ?L = "view k" and ?c = "cur k" and ?r = "cpu k"
  let ?run = "\<lambda>t. t\<lparr>t_state := THREAD_RUNNING\<rparr>" and ?ready = "\<lambda>t. t\<lparr>t_state := THREAD_READY\<rparr>"
  let ?save = "\<lambda>t. t\<lparr>t_context := save_regs ?r (t_context t)\<rparr>"
  have c: "?c < thread_count k" "current k = threads k ! ?c" using table_cur [OF assms(1)] by simp_all
  let ?L1 = "?L[i := ?run (?L ! i)]"
  obtain k1 where k1: "upd_thread (threads k ! i) ?run (k\<lparr>current := threads k ! i\<rparr>) = Some k1"
    "becomes k k1 ?L1 i" "cpu k1 = ?r"
    using upd_becomes [OF set_current [OF assms] i, of ?run] by auto
  let ?L2 = "if t_state (?L1 ! ?c) \<noteq> THREAD_SLEEPING then ?L1[?c := ?ready (?L1 ! ?c)] else ?L1"
  obtain k2 where k2: "(if t_state (?L1 ! ?c) \<noteq> THREAD_SLEEPING
      then upd_thread (threads k ! ?c) ?ready k1 else Some k1) = Some k2"
    "becomes k k2 ?L2 i" "cpu k2 = ?r"
    using upd_becomes [OF k1(2) c(1), of ?ready] k1(2,3) by (cases "t_state (?L1 ! ?c) \<noteq> THREAD_SLEEPING") auto
  let ?L3 = "?L2[?c := ?save (?L2 ! ?c)]"
  obtain k3 where k3: "upd_thread (threads k ! ?c) ?save k2 = Some k3"
    "becomes k k3 ?L3 i" "cpu k3 = ?r"
    using upd_becomes [OF k2(2) c(1), of ?save] k2(3) by auto
  let ?cpu = "load_regs (t_context (?L3 ! i)) ?r"
  obtain k4 where k4: "upd_thread (threads k ! i) ?run (k3\<lparr>cpu := ?cpu\<rparr>) = Some k4"
    "becomes k k4 (?L3[i := ?run (?L3 ! i)]) i" "cpu k4 = ?cpu"
    using upd_becomes [OF set_cpu [OF k3(2)] i, of ?run ?cpu] by auto
  have "context_switch (threads k ! ?c) (threads k ! i) k2 = Some (k3\<lparr>cpu := ?cpu\<rparr>)"
    using k3 k2(3) becomes_obj [OF k3(2) i] by (simp add: context_switch_def)
  then have "switch_to (threads k ! i) k = Some k4"
    using k1(1) k2(1) k4(1) c(2) becomes_obj [OF k1(2) c(1)] becomes_current(3) [OF k3(2)]
    by (simp add: switch_to_def)
  moreover have "?L3[i := ?run (?L3 ! i)] = hand_over ?r ?c i ?L"
    using c(1) i by (intro nth_equalityI) (auto simp: hand_over_def nth_list_update)
  moreover have "t_context (?L3 ! i) = t_context (?L3[i := ?run (?L3 ! i)] ! i)"
    using c(1) i by (simp add: nth_list_update)
  ultimately show ?thesis using k4 by auto
qed

lemma schedule_from_view:
  assumes "table_ok k" and "n = thread_count k"
  shows "\<exists>k'. schedule_from nxt is k = Some k' \<and>
    (case find (\<lambda>d. t_state (view k ! ((nxt + d) mod n)) = THREAD_READY) is of
       None \<Rightarrow> k' = k
     | Some d \<Rightarrow> let i = (nxt + d) mod n in becomes k k' (hand_over (cpu k) (cur k) i (view k)) i
         \<and> cpu k' = load_regs (t_context (hand_over (cpu k) (cur k) i (view k) ! i)) (cpu k))"
proof (induction "is")
  case Nil
  then show ?case by simp
next
  case (Cons d "is")
  have i: "(nxt + d) mod n < thread_count k" using assms by (simp add: table_ok_def)
  show ?case
    using Cons.IH switch_to_view [OF assms(1) i] table_thr [OF assms(1) i] assms(2)
    by (cases "t_state (view k ! ((nxt + d) mod n)) = THREAD_READY") (auto simp: Let_def)
qed

lemma inv_becomes:
  assumes "thread_inv k" and "becomes k k' L c" and "quiet L c"
  shows "thread_inv k'"
  using assms by (auto simp: thread_inv_def becomes_def kept_def)

lemma inv_table: "thread_inv k \<Longrightarrow> table_ok k"
  by (simp add: thread_inv_def)

lemma next_ready_less: "next_ready c ts = Some i \<Longrightarrow> i < length ts"
  by (cases "ts = []") (auto simp: next_ready_def)

lemma next_ready_state: "next_ready c ts = Some i \<Longrightarrow> t_state (ts ! i) = THREAD_READY"
  by (auto simp: next_ready_def find_Some_iff)

lemma quiet_wake: "quiet ts c \<Longrightarrow> quiet (map (wake now) ts) c"
  by (simp add: quiet_def wake_def)

lemma quiet_hand_over: "quiet ts c \<Longrightarrow> i < length ts \<Longrightarrow> quiet (hand_over r c i ts) i"
  by (cases "c < length ts") (auto simp: quiet_def hand_over_def nth_list_update)

lemma map_cond_upt: "map (\<lambda>i. if i \<in> set [0..<length xs] then f (xs ! i) else xs ! i) [0..<length xs] = map f xs"
  by (intro nth_equalityI) simp_all

text \<open>The effect of \<open>thread_schedule\<close>, with the registers it loads.\<close>

lemma thread_schedule_view:
  assumes "thread_inv k"
  shows "\<exists>k' L c. round_robin (timer_ticks k) (cpu k) (cur k) (view k) = (L, c)
    \<and> thread_schedule k = Some k' \<and> becomes k k' L c \<and> quiet L c
    \<and> (\<forall>i. next_ready (cur k) (map (wake (timer_ticks k)) (view k)) = Some i \<longrightarrow>
        cpu k' = load_regs (t_context (L ! i)) (cpu k))"
proof -
  note ok = inv_table [OF assms]
  let ?ws = "map (wake (timer_ticks k)) (view k)" and ?n = "thread_count k"
  obtain k1 where k1: "wake_sleepers [0..<?n] k = Some k1" "cpu k1 = cpu k" "becomes k k1 ?ws (cur k)"
    using wake_sleepers_view [OF ok, of "[0..<?n]"] map_cond_upt [where f = "wake (timer_ticks k)" and xs = "view k"]
    by (auto simp: atLeast0LessThan)
  have q: "quiet ?ws (cur k)" using assms quiet_wake by (simp add: thread_inv_def)
  have b: "table_ok k1" "view k1 = ?ws" "thread_count k1 = ?n" "cur k1 = cur k"
    "current k1 = threads k1 ! cur k" using becomes_current [OF k1(3)] by simp_all
  have c: "cur k < ?n" using table_cur(1) [OF ok] .
  have n: "0 < ?n" "?n \<le> 32" using ok by (simp_all add: table_ok_def)
  have obj: "tobj k1 (current k1) = Some (?ws ! cur k)" "t_tid (?ws ! cur k) = of_nat (cur k)"
    using table_thr(1,3) [OF b(1), of "cur k"] b c by simp_all
  have nxt: "unat ((t_tid (?ws ! cur k) + 1) mod of_nat ?n) = (cur k + 1) mod ?n"
  proof -
    have "t_tid (?ws ! cur k) + 1 = of_nat (cur k + 1)" unfolding obj(2) by simp
    then show ?thesis using c n unat_index [of "?n - 1"]
      by (simp add: unat_mod unsigned_of_nat take_bit_nat_eq_self del: of_nat_Suc)
  qed
  have d: "((cur k + 1) mod ?n + d) mod ?n = (cur k + 1 + d) mod ?n" for d
    by (simp add: mod_add_left_eq)
  obtain k' where k': "schedule_from ((cur k + 1) mod ?n) [0..<?n] k1 = Some k'"
    "case next_ready (cur k) ?ws of None \<Rightarrow> k' = k1
      | Some i \<Rightarrow> becomes k1 k' (hand_over (cpu k) (cur k) i ?ws) i
          \<and> cpu k' = load_regs (t_context (hand_over (cpu k) (cur k) i ?ws ! i)) (cpu k)"
  proof -
    obtain k' where k': "schedule_from ((cur k + 1) mod ?n) [0..<?n] k1 = Some k'"
      "case find (\<lambda>d. t_state (?ws ! (((cur k + 1) mod ?n + d) mod ?n)) = THREAD_READY) [0..<?n] of
         None \<Rightarrow> k' = k1
       | Some d \<Rightarrow> let i = ((cur k + 1) mod ?n + d) mod ?n in
           becomes k1 k' (hand_over (cpu k) (cur k) i ?ws) i
           \<and> cpu k' = load_regs (t_context (hand_over (cpu k) (cur k) i ?ws ! i)) (cpu k)"
      using schedule_from_view [OF b(1) b(3) [symmetric], of "(cur k + 1) mod ?n" "[0..<?n]"]
      unfolding b(2,4) k1(2) by blast
    have "length ?ws = ?n" by simp
    then show ?thesis
      using that [OF k'(1)] k'(2) unfolding next_ready_def d \<open>length ?ws = ?n\<close>
      by (auto split: option.splits simp: Let_def)
  qed
  have run: "thread_schedule k = Some k'"
    using k1(1) k'(1) obj(1) nxt b(3) n(1) by (simp add: thread_schedule_def)
  show ?thesis
  proof (cases "next_ready (cur k) ?ws")
    case None
    then show ?thesis using run k' k1(3) q by (auto simp: round_robin_def Let_def)
  next
    case (Some i)
    then have "quiet (hand_over (cpu k) (cur k) i ?ws) i"
      using next_ready_less by (intro quiet_hand_over [OF q]) fastforce
    then show ?thesis
      using Some run k' becomes_trans [OF k1(3)] by (auto simp: round_robin_def Let_def)
  qed
qed

text \<open>How many slots after the next one thread \<open>i\<close> comes when thread \<open>c\<close> is current.\<close>

definition turns :: "nat \<Rightarrow> nat \<Rightarrow> nat \<Rightarrow> nat" where
  "turns n c i = (if c < i then i - c - 1 else i + n - c - 1)"

lemma turns_bounds:
  assumes "c < n" and "i < n"
  shows "turns n c i < n \<and> (c + 1 + turns n c i) mod n = i"
proof (cases "c < i")
  case True
  then show ?thesis using assms by (simp add: turns_def)
next
  case False
  then have "c + 1 + turns n c i = i + n" "turns n c i < n" using assms by (simp_all add: turns_def)
  then show ?thesis using assms(2) by simp
qed

lemma mod_once: "m < 2 * n \<Longrightarrow> m mod n = (if m < n then m else m - (n :: nat))"
  by (simp add: le_mod_geq)

lemma turns_step:
  assumes "c < n" and "i < n" and "d < turns n c i"
  shows "turns n ((c + 1 + d) mod n) i < turns n c i"
proof -
  have "(c + 1 + d) mod n = (if c + 1 + d < n then c + 1 + d else c + 1 + d - n)"
    using assms by (intro mod_once) (auto simp: turns_def split: if_splits)
  then show ?thesis using assms by (auto simp: turns_def split: if_splits)
qed

lemma next_ready_turns:
  assumes "i < length ts" and "c < length ts" and "t_state (ts ! i) = THREAD_READY"
  shows "\<exists>j. next_ready c ts = Some j \<and> (j = i \<or> turns (length ts) j i < turns (length ts) c i)"
proof -
  let ?n = "length ts" and ?D = "turns (length ts) c i"
  let ?P = "\<lambda>d. t_state (ts ! ((c + 1 + d) mod length ts)) = THREAD_READY"
  have D: "?D < ?n" "?P ?D" using turns_bounds [OF assms(2,1)] assms(3) by simp_all
  obtain d where f: "find ?P [0..<?n] = Some d"
    using D by (cases "find ?P [0..<?n]") (auto simp: find_None_iff)
  then have "d < ?n" "\<forall>e < d. \<not> ?P e" by (auto simp: find_Some_iff)
  then have "d \<le> ?D" using D(2) not_less by blast
  then consider "d = ?D" | "d < ?D" by linarith
  then show ?thesis
    using f turns_bounds [OF assms(2,1)] turns_step [OF assms(2,1), of d]
    by cases (auto simp: next_ready_def)
qed

text \<open>\<open>n\<close> schedules in a row.\<close>

fun schedules :: "nat \<Rightarrow> sched \<Rightarrow> sched option" where
  "schedules 0 k = Some k"
| "schedules (Suc n) k = do { k1 \<leftarrow> thread_schedule k; schedules n k1 }"

lemma schedules_reach:
  assumes "thread_inv k" and "i < thread_count k" and "t_state (view k ! i) = THREAD_READY"
  shows "\<exists>n k'. n \<le> Suc (turns (thread_count k) (cur k) i) \<and> schedules n k = Some k' \<and> thread_inv k'
    \<and> cur k' = i \<and> t_state (view k' ! i) = THREAD_RUNNING"
  using assms
proof (induction "turns (thread_count k) (cur k) i" arbitrary: k rule: less_induct)
  case less
  let ?ws = "map (wake (timer_ticks k)) (view k)"
  have c: "cur k < thread_count k" using table_cur(1) inv_table less.prems(1) by blast
  obtain k' L c' where k': "round_robin (timer_ticks k) (cpu k) (cur k) (view k) = (L, c')"
    "thread_schedule k = Some k'" "becomes k k' L c'" "quiet L c'"
    using thread_schedule_view [OF less.prems(1)] by blast
  have inv: "thread_inv k'" using inv_becomes [OF less.prems(1) k'(3,4)] .
  have wi: "t_state (?ws ! i) = THREAD_READY" using less.prems by (simp add: wake_def)
  obtain j where j: "next_ready (cur k) ?ws = Some j"
    "j = i \<or> turns (thread_count k) j i < turns (thread_count k) (cur k) i"
    using next_ready_turns [of i ?ws "cur k"] wi less.prems(2) c by auto
  have L: "L = hand_over (cpu k) (cur k) j ?ws" "c' = j" using k'(1) j(1) by (auto simp: round_robin_def)
  have b: "view k' = L" "cur k' = j" "thread_count k' = thread_count k"
    using becomes_current [OF k'(3)] L(2) by simp_all
  show ?case
  proof (cases "j = i")
    case True
    then have "t_state (L ! i) = THREAD_RUNNING" using less.prems(2) L by (simp add: hand_over_def)
    then show ?thesis
      using True k'(2) inv b by (intro exI [of _ "Suc 0"] exI [of _ k']) simp
  next
    case False
    then have "t_state (L ! i) = THREAD_READY"
      using less.prems(2) L wi c by (auto simp: hand_over_def nth_list_update)
    moreover have lt: "turns (thread_count k') (cur k') i < turns (thread_count k) (cur k) i"
      using j(2) False b by simp
    ultimately obtain n k2 where "n \<le> Suc (turns (thread_count k') (cur k') i)" "schedules n k' = Some k2"
      "thread_inv k2" "cur k2 = i" "t_state (view k2 ! i) = THREAD_RUNNING"
      using less.hyps [OF _ inv] less.prems(2) b by auto
    then show ?thesis using k'(2) lt by (intro exI [of _ "Suc n"] exI [of _ k2]) simp
  qed
qed

section \<open>The other operations\<close>

lemma quiet_upd: "quiet ts c \<Longrightarrow> t_state (f (ts ! i)) \<noteq> THREAD_RUNNING \<Longrightarrow> quiet (ts[i := f (ts ! i)]) c"
  by (cases "i < length ts") (auto simp: quiet_def nth_list_update)

text \<open>An operation on the thread with a given number.\<close>

lemma for_tid_view:
  assumes inv: "thread_inv k" and "tame f" and "\<And>t. t_state (f t) \<noteq> THREAD_RUNNING"
  shows "\<exists>k'. for_thread (\<lambda>t. t_tid t = scast (pid :: i32) \<and> Q t) f k = Some k' \<and> thread_inv k'
    \<and> becomes k k' (if unat (scast pid :: u64) < thread_count k \<and> Q (view k ! unat (scast pid :: u64))
        then (view k)[unat (scast pid :: u64) := f (view k ! unat (scast pid :: u64))] else view k) (cur k)"
proof -
  let ?i = "unat (scast pid :: u64)"
  let ?L = "if ?i < thread_count k \<and> Q (view k ! ?i) then (view k)[?i := f (view k ! ?i)] else view k"
  note ok = inv_table [OF inv]
  have fi: "(case find (\<lambda>i. t_tid (view k ! i) = scast pid \<and> Q (view k ! i)) [0..<thread_count k] of
      None \<Rightarrow> view k | Some i \<Rightarrow> (view k)[i := f (view k ! i)]) = ?L"
    unfolding find_tid [OF ok] by simp
  obtain k' where k': "for_thread (\<lambda>t. t_tid t = scast pid \<and> Q t) f k = Some k'" "becomes k k' ?L (cur k)"
    using for_thread_view [OF ok assms(2), of "\<lambda>t. t_tid t = scast pid \<and> Q t"] unfolding fi by blast
  have "quiet ?L (cur k)" using inv assms(3) quiet_upd by (simp add: thread_inv_def)
  then show ?thesis using k' inv_becomes [OF inv k'(2)] by blast
qed

lemma thread_sleep_view:
  assumes inv: "thread_inv k" and "ms \<noteq> 0"
  shows "\<exists>k' L c. round_robin (timer_ticks k) (cpu k) (cur k) ((view k)[cur k := (view k ! cur k)
        \<lparr>sleep_until := timer_ticks k + ms, t_state := THREAD_SLEEPING\<rparr>]) = (L, c)
    \<and> thread_sleep ms k = Some k' \<and> becomes k k' L c \<and> thread_inv k'"
proof -
  let ?c = "cur k"
  let ?f = "\<lambda>t. t\<lparr>sleep_until := timer_ticks k + ms\<rparr>" and ?g = "\<lambda>t. t\<lparr>t_state := THREAD_SLEEPING\<rparr>"
  note ok = inv_table [OF inv]
  have c: "?c < thread_count k" "current k = threads k ! ?c" using table_cur [OF ok] by simp_all
  obtain k1 where k1: "upd_thread (current k) ?f k = Some k1" "becomes k k1 ((view k)[?c := ?f (view k ! ?c)]) ?c"
    "cpu k1 = cpu k"
    using upd_thread_view [OF ok c(1), of ?f] c by auto
  let ?L = "(view k)[?c := ?g (?f (view k ! ?c))]"
  obtain k2 where k2: "upd_thread (threads k ! ?c) ?g k1 = Some k2" "becomes k k2 ?L ?c" "cpu k2 = cpu k"
    using upd_becomes [OF k1(2) c(1), of ?g] c(1) k1(3) by auto
  have cr: "current k1 = threads k ! ?c" using becomes_current(3) [OF k1(2)] .
  have "quiet ?L ?c" using inv by (auto simp: thread_inv_def quiet_def nth_list_update)
  then have i2: "thread_inv k2" using inv_becomes [OF inv k2(2)] by simp
  have b: "view k2 = ?L" "cur k2 = ?c" "timer_ticks k2 = timer_ticks k"
    using k2(2) by (simp_all add: becomes_def kept_def)
  obtain k' L c' where k': "round_robin (timer_ticks k2) (cpu k2) (cur k2) (view k2) = (L, c')"
    "thread_schedule k2 = Some k'" "becomes k2 k' L c'" "quiet L c'"
    using thread_schedule_view [OF i2] by blast
  have "thread_sleep ms k = Some k'"
    using assms(2) k1(1) k2(1) cr k'(2) by (simp add: thread_sleep_def thread_yield_def)
  then show ?thesis
    using k'(1) b k2(3) becomes_trans [OF k2(2) k'(3)] inv_becomes [OF i2 k'(3,4)] by auto
qed

section \<open>Creation and lookup\<close>

text \<open>
  \<open>strncpy\<close> with \<open>n = 32\<close> puts its terminator behind a name of 32 or more characters: into the low byte
  of \<open>sleep_until\<close>, which is 0 already when a thread is made.
\<close>

lemma set_name_new:
  assumes "terminated name" and "length (t_name t) = 32" and "sleep_until t = 0"
  shows "\<exists>t'. set_name name t = Some t' \<and> t' = t\<lparr>t_name := t_name t'\<rparr> \<and> length (t_name t') = 32
    \<and> cstr (name_bytes t') = take 32 (cstr name)"
proof -
  let ?c = "take 32 (cstr name)"
  have z: "bytes32 0 = [0, 0, 0, 0]" by (simp add: bytes32_def)
  have nb: "name_bytes t = t_name t @ replicate 8 0"
    using assms(3) by (simp add: name_bytes_def z numeral_eq_Suc)
  have len: "length (name_bytes t) = 40" "length ?c \<le> 32" using assms(2) nb by simp_all
  obtain m where m: "strncpy (name_bytes t) 0 name 32 = Some m" "m = blit (name_bytes t) 0 (?c @ [0])"
    using strncpy_blit [OF assms(1), of 0 32 "name_bytes t"] len by simp
  have lm: "length m = 40" using m(2) len by simp
  have tail: "m ! j = 0" if "32 \<le> j" "j < 40" for j
  proof (cases "j = length ?c")
    case True
    then show ?thesis using m(2) len that by (simp add: nth_blit nth_append)
  next
    case False
    then have "\<not> j < Suc (length ?c)" using len(2) that by linarith
    then show ?thesis using m(2) len that assms(2) by (simp add: nth_blit nb nth_append)
  qed
  have "get32 m 32 = Some 0" using tail lm by (simp add: get32_def)
  then have s: "set_name name t = Some (t\<lparr>t_name := take 32 m\<rparr>)"
    using m(1) assms(3) by (simp add: set_name_def)
  have "drop 32 m = replicate 8 0" using tail lm by (intro nth_equalityI) auto
  then have "name_bytes (t\<lparr>t_name := take 32 m\<rparr>) = m"
    using assms(3) append_take_drop_id [of 32 m] by (simp add: name_bytes_def z numeral_eq_Suc)
  moreover have "cstr m = ?c"
  proof -
    have "m = ?c @ 0 # drop (Suc (length ?c)) (name_bytes t)" using m(2) by (simp add: blit_def)
    moreover have "0 \<notin> set ?c" using set_take_subset [of 32 "cstr name"] cstr_no_zero by blast
    ultimately show ?thesis by (metis cstr_append_zero)
  qed
  ultimately show ?thesis using s lm by auto
qed

lemma append_thread:
  assumes "table_ok k" and n: "thread_count k < 32" and "p \<noteq> 0"
    and "p \<notin> set (take (thread_count k) (threads k))" and "t_tid t = of_nat (thread_count k)"
    and "length (t_name t) = 32"
    and k': "k' = k\<lparr>kheap := h, threads := (threads k)[thread_count k := p],
      thread_count := thread_count k + 1, tobj := (tobj k)(p \<mapsto> t)\<rparr>"
  shows "table_ok k' \<and> view k' = view k @ [t] \<and> cur k' = cur k"
proof -
  let ?n = "thread_count k"
  have l: "length (threads k) = 32" using assms(1) by (simp add: table_ok_def)
  have f: "threads k' = (threads k)[?n := p]" "thread_count k' = Suc ?n" "tobj k' = (tobj k)(p \<mapsto> t)"
    "current k' = current k" using k' by simp_all
  have neq: "threads k ! j \<noteq> p" if "j < ?n" for j
    using assms(4) that l n nth_mem [of j "take ?n (threads k)"] by auto
  have obj: "tobj k' (threads k' ! j) = Some (if j = ?n then t else view k ! j)"
    "threads k' ! j \<noteq> 0" if j: "j < Suc ?n" for j
  proof -
    have "tobj k' (threads k' ! j) = Some (if j = ?n then t else view k ! j) \<and> threads k' ! j \<noteq> 0"
    proof (cases "j = ?n")
      case True
      then show ?thesis using f l n assms(3) by simp
    next
      case False
      then have "j < ?n" using j by simp
      then show ?thesis using f table_thr(1,2) [OF assms(1), of j] neq [of j] False by simp
    qed
    then show "tobj k' (threads k' ! j) = Some (if j = ?n then t else view k ! j)"
      "threads k' ! j \<noteq> 0" by simp_all
  qed
  have d: "distinct (take (Suc ?n) ((threads k)[?n := p]))"
    using assms(1,4) l n by (simp add: take_Suc_conv_app_nth table_ok_def)
  have c: "cur k < ?n" "current k = threads k ! cur k" using table_cur [OF assms(1)] by simp_all
  have c': "current k' = threads k' ! cur k" using c f by simp
  have pt: "\<exists>x. tobj k' (threads k' ! j) = Some x \<and> t_tid x = of_nat j \<and> length (t_name x) = 32"
    if "j < Suc ?n" for j
    using obj(1) [OF that] assms(5,6) table_thr(3,4) [OF assms(1), of j] that
    by (cases "j = ?n") auto
  have ok: "table_ok k'"
    unfolding table_ok_def
  proof (intro conjI allI impI)
    show "\<exists>c < thread_count k'. current k' = threads k' ! c"
      using c(1) c' f(2) by (intro exI [of _ "cur k"]) simp
  qed (use f(1,2) l n d pt obj(2) in \<open>simp_all\<close>)
  moreover have "view k' = view k @ [t]"
    using obj(1) f(2) by (intro nth_equalityI) (auto simp: view_nth thr_def nth_append)
  moreover have "cur k' = cur k"
  proof -
    have "tobj k' (current k') = Some (view k ! cur k)" using obj(1) [of "cur k"] c(1) c' by simp
    moreover have "tobj k (current k) = Some (view k ! cur k)"
      using table_thr(1) [OF assms(1) c(1)] c(2) by simp
    ultimately show ?thesis unfolding cur_def by simp
  qed
  ultimately show ?thesis by simp
qed

text \<open>The thread object \<open>thread_create\<close> makes.\<close>

definition new_thread :: "u64 \<Rightarrow> bytes \<Rightarrow> nat \<Rightarrow> thread \<Rightarrow> bool" where
  "new_thread entry name n t \<longleftrightarrow> t_tid t = of_nat n \<and> t_state t = THREAD_READY \<and> sleep_until t = 0
     \<and> c_r12 (t_context t) = entry \<and> c_rsp (t_context t) = kernel_stack t - 8
     \<and> c_rflags (t_context t) = 0x202 \<and> cstr (name_bytes t) = take 32 (cstr name)"

lemma kmalloc_grow:
  assumes "heap_inv h" and "unat k \<le> 2 ^ 64 - 32"
  obtains r h' where "kmalloc k h = Some (r, h')" "heap_inv h'" "live h \<subseteq> live h'" "in_region h' = in_region h"
proof (rule kmalloc_cases [OF assms])
  assume "kmalloc k h = Some (0, h)"
  then show thesis using that assms(1) by blast
next
  fix r s' n
  assume "kmalloc k h = Some (r, s')" "heap_inv s'" "live s' = insert (unat r, n) (live h)"
  then show thesis using that kmalloc_region by blast
qed

lemma thread_create_cases:
  assumes inv: "thread_inv k" and "terminated name" and n: "thread_count k < 32"
  shows "thread_create tramp entry name k = Some (0, k)
    \<or> (\<exists>p k' t. thread_create tramp entry name k = Some (p, k') \<and> p \<noteq> 0 \<and> p = threads k' ! thread_count k
        \<and> thread_inv k' \<and> thread_count k' = thread_count k + 1 \<and> view k' = view k @ [t] \<and> cur k' = cur k
        \<and> new_thread entry name (thread_count k) t)"
proof -
  note ok = inv_table [OF inv]
  have h: "heap_inv (kheap k)" using inv by (simp add: thread_inv_def)
  show ?thesis
  proof (rule kmalloc_cases [OF h, of 232])
    show "unat (232 :: u64) \<le> 2 ^ 64 - 32" by simp
    assume "kmalloc 232 (kheap k) = Some (0, kheap k)"
    then show ?thesis using n by (simp add: thread_create_def)
  next
    fix p h1 m
    assume a: "kmalloc 232 (kheap k) = Some (p, h1)" "p \<noteq> 0" "heap_inv h1" "unat (232 :: u64) \<le> m"
      "live h1 = insert (unat p, m) (live (kheap k))" "unat p \<notin> fst ` live (kheap k)"
    have reg: "in_region h1 = in_region (kheap k)" using a(1) by (rule kmalloc_region)
    have mp: "(unat p, m) \<in> live h1" "232 \<le> m" using a(4,5) by simp_all
    obtain stk h2 where h2: "kmalloc 8208 h1 = Some (stk, h2)" "heap_inv h2" "live h1 \<subseteq> live h2"
      "in_region h2 = in_region h1"
      using kmalloc_grow [OF a(3), of 8208] by auto
    let ?o = "zero_thread\<lparr>kernel_stack := stk + 8192,
      t_context := zero_context\<lparr>c_rsp := stk + 8192 - 8, c_r12 := entry, c_rflags := 0x202\<rparr>,
      t_state := THREAD_READY, sleep_until := 0, t_tid := of_nat (thread_count k)\<rparr>"
    obtain t where t: "set_name name ?o = Some t" "t = ?o\<lparr>t_name := t_name t\<rparr>" "length (t_name t) = 32"
      "cstr (name_bytes t) = take 32 (cstr name)"
      using set_name_new [OF assms(2), of ?o] by (auto simp: zero_thread_def)
    let ?h = "h2\<lparr>hmem := store64 (stk + 8192 - 8) tramp (hmem h2)\<rparr>"
    let ?k = "k\<lparr>kheap := ?h, threads := (threads k)[thread_count k := p],
      thread_count := thread_count k + 1, tobj := (tobj k)(p \<mapsto> t)\<rparr>"
    have tid: "t_tid t = of_nat (thread_count k)" by (subst t(2)) simp
    have st: "t_state t = THREAD_READY" by (subst t(2)) simp
    have len: "length (threads k) = 32" using ok by (simp add: table_ok_def)
    have create: "thread_create tramp entry name k = Some (p, ?k)"
      using a(1,2) h2(1) t(1) n len by (simp add: thread_create_def Let_def)
    have "p \<noteq> threads k ! j" if "j < thread_count k" for j
    proof (cases "j = 0")
      case True
      then show ?thesis using live_in_region [OF a(3) mp(1)] mp(2) reg inv by (auto simp: thread_inv_def)
    next
      case False
      then show ?thesis using inv that a(6) by (force simp: thread_inv_def)
    qed
    then have "p \<notin> set (take (thread_count k) (threads k))" using len n by (auto simp: in_set_conv_nth)
    then have tab: "table_ok ?k" "view ?k = view k @ [t]" "cur ?k = cur k"
      using append_thread [OF ok n a(2) _ tid t(3) refl] by simp_all
    have q: "quiet (view k @ [t]) (cur k)"
      using inv st by (auto simp: thread_inv_def quiet_def nth_append less_Suc_eq)
    have "\<exists>x \<ge> 232. (unat (threads ?k ! j), x) \<in> live h2" if jn: "j < Suc (thread_count k)" "0 < j" for j
    proof (cases "j = thread_count k")
      case True
      then show ?thesis using mp h2(3) len n by auto
    next
      case False
      then obtain x where "232 \<le> x" "(unat (threads k ! j), x) \<in> live (kheap k)"
        using jn inv by (auto simp: thread_inv_def less_Suc_eq)
      then show ?thesis using False a(5) h2(3) by auto
    qed
    moreover have "threads ?k ! 0 = threads k ! 0" using ok by (simp add: table_ok_def)
    ultimately have "thread_inv ?k"
      using tab q h2(2,4) reg inv unfolding thread_inv_def by simp
    moreover have "new_thread entry name (thread_count k) t"
    proof -
      obtain nm where nm: "t = ?o\<lparr>t_name := nm\<rparr>" using t(2) by blast
      have "sleep_until t = 0" "c_r12 (t_context t) = entry" "c_rsp (t_context t) = kernel_stack t - 8"
        "c_rflags (t_context t) = 0x202" by (simp_all add: nm)
      then show ?thesis unfolding new_thread_def using t(4) tid st by blast
    qed
    ultimately show ?thesis using create tab a(2) len n by auto
  qed
qed

lemma thread_init_inv:
  assumes "length (threads k) = 32" and "heap_inv (kheap k)" and "\<not> in_region (kheap k) mt" and "mt \<noteq> 0"
  shows "\<exists>k' t. thread_init mt k = Some k' \<and> thread_inv k' \<and> kheap k' = kheap k \<and> view k' = [t] \<and> cur k' = 0
    \<and> t_state t = THREAD_RUNNING \<and> cstr (name_bytes t) = lit ''idle'' \<and> timer_ticks k' = timer_ticks k"
proof -
  let ?o = "zero_thread\<lparr>t_state := THREAD_RUNNING, t_tid := 0, sleep_until := 0\<rparr>"
  have idle: "terminated (zlit ''idle'')" "take 32 (cstr (zlit ''idle'')) = lit ''idle''"
    by (simp_all add: lit_def)
  obtain t where t: "set_name (zlit ''idle'') ?o = Some t" "t = ?o\<lparr>t_name := t_name t\<rparr>" "length (t_name t) = 32"
    "cstr (name_bytes t) = lit ''idle''"
    using set_name_new [OF idle(1), of ?o] idle(2) by (auto simp: zero_thread_def)
  have f: "t_tid t = 0" "t_state t = THREAD_RUNNING" by (subst t(2), simp)+
  let ?k = "k\<lparr>current := mt, threads := (threads k)[0 := mt], thread_count := 1,
      tobj := (tobj k)(mt \<mapsto> t)\<rparr>"
  have "thread_init mt k = Some ?k" using assms(1) t(1) by (simp add: thread_init_def)
  moreover have "view ?k = [t]" "cur ?k = 0"
    using assms(1) f(1) by (simp_all add: view_def thr_def cur_def)
  moreover have "table_ok ?k"
    using assms(1,4) f(1) t(3) by (cases "threads k") (auto simp: table_ok_def)
  moreover have "quiet [t] 0" by (simp add: quiet_def)
  ultimately show ?thesis
    using assms f t(4) by (auto simp: thread_inv_def intro!: exI [of _ ?k] exI [of _ t])
qed

section \<open>Every reachable state\<close>

text \<open>The calls of the kernel and the timer interrupt, in any order.\<close>

inductive kstep :: "u64 \<Rightarrow> sched \<Rightarrow> sched \<Rightarrow> bool" for tramp where
  create: "thread_count k < 32 \<Longrightarrow> terminated name \<Longrightarrow> thread_create tramp entry name k = Some (p, k') \<Longrightarrow>
    kstep tramp k k'"
| stop: "thread_stop pid k = Some k' \<Longrightarrow> kstep tramp k k'"
| block: "thread_block pid k = Some k' \<Longrightarrow> kstep tramp k k'"
| unblock: "thread_unblock pid k = Some k' \<Longrightarrow> kstep tramp k k'"
| sleep: "thread_sleep ms k = Some k' \<Longrightarrow> kstep tramp k k'"
| yield: "thread_yield k = Some k' \<Longrightarrow> kstep tramp k k'"
| tick: "kstep tramp k (k\<lparr>timer_ticks := timer_ticks k + 1\<rparr>)"

inductive_cases kstepE: "kstep tramp k k'"

inductive reach :: "u64 \<Rightarrow> sched \<Rightarrow> sched \<Rightarrow> bool" for tramp k0 where
  start: "reach tramp k0 k0"
| step: "reach tramp k0 k \<Longrightarrow> kstep tramp k k' \<Longrightarrow> reach tramp k0 k'"

lemma inv_tick: "thread_inv k \<Longrightarrow> thread_inv (k\<lparr>timer_ticks := n\<rparr>)"
  by (simp add: thread_inv_def table_ok_def view_def thr_def [abs_def] cur_def)

lemma for_tid_inv:
  assumes "thread_inv k" and "for_thread (\<lambda>t. t_tid t = scast (pid :: i32) \<and> Q t) f k = Some k'"
    and "tame f" and "\<And>t. t_state (f t) \<noteq> THREAD_RUNNING"
  shows "thread_inv k'"
  using for_tid_view [OF assms(1,3), of pid Q] assms(2,4) by auto

lemma kstep_inv:
  assumes "kstep tramp k k'" and "thread_inv k"
  shows "thread_inv k'"
  using assms
proof (induction rule: kstep.induct)
  case (create k name entry p k')
  then show ?case using thread_create_cases [of k name tramp entry] by auto
next
  case (stop pid k k')
  then show ?case unfolding thread_stop_def by (elim for_tid_inv [rotated]) simp_all
next
  case (block pid k k')
  then show ?case unfolding thread_block_def by (elim for_tid_inv [rotated]) simp_all
next
  case (unblock pid k k')
  then show ?case unfolding thread_unblock_def by (elim for_tid_inv [rotated]) simp_all
next
  case (sleep ms k k')
  then show ?case using thread_sleep_view [of k ms] by (cases "ms = 0") (auto simp: thread_sleep_def)
next
  case (yield k k')
  then show ?case using thread_schedule_view [of k] inv_becomes by (fastforce simp: thread_yield_def)
next
  case (tick k)
  then show ?case by (rule inv_tick)
qed

lemma reach_thread_inv: "reach tramp k0 k \<Longrightarrow> thread_inv k0 \<Longrightarrow> thread_inv k"
  by (induction rule: reach.induct) (auto intro: kstep_inv)

text \<open>The table after \<open>thread_init\<close> and one \<open>thread_create\<close> on the heap of \<open>kernel_main\<close>.\<close>

definition boot_sched :: sched where
  "boot_sched = \<lparr>threads = replicate 32 0, thread_count = 0, current = 0, tobj = Map.empty,
     kheap = boot_heap, timer_ticks = 0, cpu = zero_context\<rparr>"

definition idle_sched :: sched where
  "idle_sched = the (thread_init 0x110000 boot_sched)"

definition two_sched :: sched where
  "two_sched = snd (the (thread_create 0x100500 0x100600 (zlit ''shell'') idle_sched))"

lemma idle_sched_facts:
  "thread_init 0x110000 boot_sched = Some idle_sched" "thread_inv idle_sched" "kheap idle_sched = boot_heap"
  "thread_count idle_sched = 1" "cur idle_sched = 0" "timer_ticks idle_sched = 0"
  "t_state (view idle_sched ! 0) = THREAD_RUNNING" "cstr (name_bytes (view idle_sched ! 0)) = lit ''idle''"
proof -
  have "\<not> in_region boot_heap 0x110000"
    by (simp add: in_region_def boot_heap_def heap_init_def)
  then obtain k' t where k: "thread_init 0x110000 boot_sched = Some k'" "thread_inv k'" "kheap k' = boot_heap"
    "view k' = [t]" "cur k' = 0" "t_state t = THREAD_RUNNING" "cstr (name_bytes t) = lit ''idle''"
    "timer_ticks k' = 0"
    using thread_init_inv [of boot_sched "0x110000"] boot_heap_inv by (auto simp: boot_sched_def)
  then have e: "idle_sched = k'" by (simp add: idle_sched_def)
  have "thread_count k' = 1" using length_view [of k'] k(4) by simp
  then show "thread_init 0x110000 boot_sched = Some idle_sched" "thread_inv idle_sched"
    "kheap idle_sched = boot_heap" "thread_count idle_sched = 1" "cur idle_sched = 0" "timer_ticks idle_sched = 0"
    "t_state (view idle_sched ! 0) = THREAD_RUNNING" "cstr (name_bytes (view idle_sched ! 0)) = lit ''idle''"
    using k by (simp_all add: e)
qed

lemma two_sched_facts:
  "\<exists>p. thread_create 0x100500 0x100600 (zlit ''shell'') idle_sched = Some (p, two_sched)"
  "thread_inv two_sched" "thread_count two_sched = 2" "cur two_sched = 0"
  "t_state (view two_sched ! 0) = THREAD_RUNNING" "t_state (view two_sched ! 1) = THREAD_READY"
  "t_tid (view two_sched ! 0) = 0"
proof -
  let ?c = "thread_create 0x100500 0x100600 (zlit ''shell'') idle_sched"
  have "\<exists>s'. kmalloc 232 boot_heap = Some (0x200020, s')"
    using kmalloc_first_fit [OF boot_heap_ok, of 232]
    by (auto simp: first_fit_def fits_def round16_def carve_def ad_def)
  then have "?c \<noteq> Some (0, idle_sched)"
    using idle_sched_facts(3,4)
    by (auto simp: thread_create_def Let_def Option.bind_eq_Some_conv)
  moreover have "terminated (zlit ''shell'')" by (simp add: lit_def)
  ultimately obtain p k' t where k: "?c = Some (p, k')" "thread_inv k'" "thread_count k' = 2"
    "view k' = view idle_sched @ [t]" "cur k' = 0" "new_thread 0x100600 (zlit ''shell'') 1 t"
    using thread_create_cases [OF idle_sched_facts(2), of "zlit ''shell''" "0x100500" "0x100600"]
      idle_sched_facts(4,5) by auto
  then have e: "two_sched = k'" by (simp add: two_sched_def)
  show "\<exists>p. ?c = Some (p, two_sched)" "thread_inv two_sched" "thread_count two_sched = 2" "cur two_sched = 0"
    "t_state (view two_sched ! 0) = THREAD_RUNNING" "t_state (view two_sched ! 1) = THREAD_READY"
    using k idle_sched_facts(4,7) by (simp_all add: e nth_append new_thread_def)
  show "t_tid (view two_sched ! 0) = 0"
    using table_thr(3) [OF inv_table [OF k(2)], of 0] k(3) by (simp add: e)
qed

section \<open>Properties\<close>

text \<open>
  C1. In a well-formed table \<open>thread_schedule\<close> always returns, and it is round robin: the sleepers whose
  time has come become ready, then the first ready thread after the current one in the order of the
  table, wrapping around, becomes the running one; the thread it replaces is ready again unless it
  sleeps, with its callee-saved registers in its context. With no ready thread nothing else changes.
\<close>

theorem schedule_round_robin:
  assumes "thread_inv k"
  shows "\<exists>k'. thread_schedule k = Some k' \<and> thread_inv k' \<and> kept k k'
    \<and> (view k', cur k') = round_robin (timer_ticks k) (cpu k) (cur k) (view k)"
  using thread_schedule_view [OF assms] inv_becomes [OF assms] by (fastforce simp: becomes_def)

theorem schedule_round_robin_witness:
  "\<exists>k'. thread_schedule two_sched = Some k'
     \<and> (view k', cur k') = round_robin (timer_ticks two_sched) (cpu two_sched) 0 (view two_sched)"
  using schedule_round_robin [OF two_sched_facts(2)] two_sched_facts(4) by auto

text \<open>
  C3. No ready thread waits for ever: within at most as many schedules as there are threads, a ready
  thread is the current, running one.
\<close>

theorem ready_runs:
  assumes "thread_inv k" and "i < thread_count k" and "t_state (view k ! i) = THREAD_READY"
  shows "\<exists>n k'. n \<le> thread_count k \<and> schedules n k = Some k' \<and> cur k' = i
    \<and> t_state (view k' ! i) = THREAD_RUNNING"
proof -
  have "turns (thread_count k) (cur k) i < thread_count k"
    using turns_bounds table_cur(1) [OF inv_table [OF assms(1)]] assms(2) by blast
  moreover obtain n k' where "n \<le> Suc (turns (thread_count k) (cur k) i)" "schedules n k = Some k'"
    "cur k' = i" "t_state (view k' ! i) = THREAD_RUNNING"
    using schedules_reach [OF assms] by blast
  ultimately show ?thesis by (intro exI [of _ n] exI [of _ k']) simp
qed

theorem ready_runs_witness:
  "\<exists>n k'. n \<le> 2 \<and> schedules n two_sched = Some k' \<and> cur k' = 1 \<and> t_state (view k' ! 1) = THREAD_RUNNING"
  using ready_runs [OF two_sched_facts(2), of 1] two_sched_facts(3,6) by simp

text \<open>
  The schedule never runs a thread that is blocked, terminated or asleep before its time: a thread
  other than the current one in such a state is not picked and its object is left as it was.
\<close>

theorem schedule_skips:
  assumes "thread_inv k" and "i < thread_count k" and "i \<noteq> cur k"
    and "t_state (view k ! i) \<in> {THREAD_BLOCKED, THREAD_TERMINATED}
      \<or> t_state (view k ! i) = THREAD_SLEEPING \<and> timer_ticks k < sleep_until (view k ! i)"
  shows "\<exists>k'. thread_schedule k = Some k' \<and> cur k' \<noteq> i \<and> view k' ! i = view k ! i"
proof -
  let ?ws = "map (wake (timer_ticks k)) (view k)"
  obtain k' L c where k': "round_robin (timer_ticks k) (cpu k) (cur k) (view k) = (L, c)"
    "thread_schedule k = Some k'" "becomes k k' L c"
    using thread_schedule_view [OF assms(1)] by blast
  have w: "?ws ! i = view k ! i" using assms by (auto simp: wake_def)
  then have "next_ready (cur k) ?ws \<noteq> Some i" using next_ready_state [of "cur k" ?ws i] assms(4) by auto
  then have "c \<noteq> i \<and> L ! i = view k ! i"
    using k'(1) w assms(2,3)
    by (auto simp: round_robin_def Let_def hand_over_def split: option.splits)
  then show ?thesis using k' by (auto simp: becomes_def)
qed

theorem schedule_skips_witness:
  "\<exists>k k'. thread_block 1 two_sched = Some k \<and> thread_schedule k = Some k' \<and> cur k' \<noteq> 1
     \<and> t_state (view k' ! 1) = THREAD_BLOCKED"
proof -
  obtain k where k: "thread_block 1 two_sched = Some k" "thread_inv k"
    "becomes two_sched k ((view two_sched)[1 := (view two_sched ! 1)\<lparr>t_state := THREAD_BLOCKED\<rparr>]) 0"
    using for_tid_view [OF two_sched_facts(2), of "\<lambda>t. t\<lparr>t_state := THREAD_BLOCKED\<rparr>" 1
        "\<lambda>t. t_state t \<noteq> THREAD_BLOCKED"] two_sched_facts(3,4,6)
    by (auto simp: thread_block_def)
  then have "t_state (view k ! 1) = THREAD_BLOCKED" "cur k = 0" "thread_count k = 2"
    using becomes_current [OF k(3)] two_sched_facts(3) by simp_all
  then show ?thesis using schedule_skips [OF k(2), of 1] k(1) by fastforce
qed

text \<open>
  C2. Whatever calls and timer interrupts happen after \<open>thread_init\<close>, in whatever order, the table stays
  well formed (every slot holds the thread numbered by it, all objects distinct, in the heap and in
  use), no thread but the current one is running, and the scheduler is never stuck.
\<close>

theorem reachable_inv:
  assumes "length (threads k) = 32" and "heap_inv (kheap k)" and "\<not> in_region (kheap k) mt" and "mt \<noteq> 0"
    and "thread_init mt k = Some k0" and "reach tramp k0 k'"
  shows "thread_inv k' \<and> (\<exists>k''. thread_schedule k' = Some k'')"
proof -
  have "thread_inv k0" using thread_init_inv [OF assms(1-4)] assms(5) by auto
  then have "thread_inv k'" using assms(6) reach_thread_inv by blast
  then show ?thesis using thread_schedule_view [of k'] by blast
qed

theorem reachable_inv_witness:
  "thread_inv (two_sched\<lparr>timer_ticks := timer_ticks two_sched + 1\<rparr>)"
proof -
  have z: "terminated (zlit ''shell'')" by (simp add: lit_def)
  obtain p where "thread_create 0x100500 0x100600 (zlit ''shell'') idle_sched = Some (p, two_sched)"
    using two_sched_facts(1) by blast
  then have "kstep 0x100500 idle_sched two_sched" using idle_sched_facts(4) z by (intro kstep.create) auto
  then have r: "reach 0x100500 idle_sched (two_sched\<lparr>timer_ticks := timer_ticks two_sched + 1\<rparr>)"
    by (intro reach.step [OF _ kstep.tick] reach.step [OF reach.start])
  have "\<not> in_region boot_heap 0x110000" by (simp add: in_region_def boot_heap_def heap_init_def)
  then show ?thesis
    using reachable_inv [of boot_sched "0x110000" idle_sched, OF _ _ _ _ idle_sched_facts(1) r] boot_heap_inv
    by (simp add: boot_sched_def)
qed

text \<open>
  \<open>thread_create\<close> either finds no room for the object, returns NULL and changes nothing, or appends one
  ready thread whose number is its slot, whose stack and registers lead to the trampoline and the entry,
  and whose name is the first 32 characters of the name given: the 33rd byte \<open>strncpy\<close> writes falls on
  \<open>sleep_until\<close>, which is 0. The threads there already are unchanged.
\<close>

theorem create_appends:
  assumes "thread_inv k" and "terminated name" and "thread_count k < 32"
  shows "thread_create tramp entry name k = Some (0, k)
    \<or> (\<exists>p k' t. thread_create tramp entry name k = Some (p, k') \<and> p \<noteq> 0 \<and> p = threads k' ! thread_count k
        \<and> thread_inv k' \<and> view k' = view k @ [t] \<and> cur k' = cur k
        \<and> new_thread entry name (thread_count k) t)"
  using thread_create_cases [OF assms, of tramp entry] by auto

theorem create_appends_witness:
  "\<exists>p t. thread_create 0x100500 0x100600 (zlit ''shell'') idle_sched = Some (p, two_sched)
     \<and> (p = 0 \<or> view two_sched = view idle_sched @ [t] \<and> new_thread 0x100600 (zlit ''shell'') 1 t)"
proof -
  have z: "terminated (zlit ''shell'')" by (simp add: lit_def)
  show ?thesis
    using create_appends [OF idle_sched_facts(2) z, of "0x100500" "0x100600"] idle_sched_facts(4)
      two_sched_facts(1) by auto
qed

text \<open>A change of state of one slot under a condition.\<close>

definition slot_upd :: "nat \<Rightarrow> (thread \<Rightarrow> bool) \<Rightarrow> thread_state \<Rightarrow> thread list \<Rightarrow> thread list" where
  "slot_upd i Q x ts = (if i < length ts \<and> Q (ts ! i) then ts[i := (ts ! i)\<lparr>t_state := x\<rparr>] else ts)"

text \<open>
  C4. \<open>thread_stop\<close>, \<open>thread_block\<close> and \<open>thread_unblock\<close> change the state of exactly the thread in the slot
  of the number given, \<open>thread_unblock\<close> only when it is blocked; a number of no thread, negative ones
  included, changes nothing. \<open>thread_get\<close> and \<open>thread_get_state\<close> read that slot, NULL and -1 when there
  is none.
\<close>

theorem control_by_tid:
  assumes inv: "thread_inv k"
  shows "(\<exists>k'. thread_stop pid k = Some k' \<and> thread_inv k' \<and> cur k' = cur k
        \<and> view k' = slot_upd (unat (scast pid :: u64)) (\<lambda>t. True) THREAD_TERMINATED (view k))
    \<and> (\<exists>k'. thread_block pid k = Some k' \<and> thread_inv k' \<and> cur k' = cur k
        \<and> view k' = slot_upd (unat (scast pid :: u64)) (\<lambda>t. True) THREAD_BLOCKED (view k))
    \<and> (\<exists>k'. thread_unblock pid k = Some k' \<and> thread_inv k' \<and> cur k' = cur k
        \<and> view k' = slot_upd (unat (scast pid :: u64)) (\<lambda>t. t_state t = THREAD_BLOCKED) THREAD_READY (view k))
    \<and> thread_get pid k = Some (if unat (scast pid :: u64) < thread_count k
        then threads k ! unat (scast pid :: u64) else 0)
    \<and> thread_get_state pid k = Some (if unat (scast pid :: u64) < thread_count k
        then state_code (t_state (view k ! unat (scast pid :: u64))) else - 1)"
proof -
  let ?i = "unat (scast pid :: u64)"
  note ok = inv_table [OF inv]
  have same: "(view k)[?i := (view k ! ?i)\<lparr>t_state := x\<rparr>] = view k"
    if "t_state (view k ! ?i) = x" for x
  proof -
    have "(view k ! ?i)\<lparr>t_state := x\<rparr> = view k ! ?i" using that by simp
    then show ?thesis by simp
  qed
  have ctl: "\<exists>k'. for_thread (\<lambda>t. t_tid t = scast pid \<and> Q t) (\<lambda>t. t\<lparr>t_state := x\<rparr>) k = Some k'
      \<and> thread_inv k' \<and> cur k' = cur k \<and> view k' = slot_upd ?i Q x (view k)"
    if "x \<noteq> THREAD_RUNNING" for Q x
    using for_tid_view [OF inv, of "\<lambda>t. t\<lparr>t_state := x\<rparr>" pid Q] that
    by (auto simp: becomes_def slot_upd_def)
  have all: "slot_upd ?i (\<lambda>t. t_state t \<noteq> x) x (view k) = slot_upd ?i (\<lambda>t. True) x (view k)" for x
    using same by (auto simp: slot_upd_def)
  have f: "find_thread (\<lambda>t. t_tid t = scast pid) k [0..<thread_count k] =
      Some (if ?i < thread_count k then Some (threads k ! ?i) else None)"
    using find_tid [OF ok, of "scast pid" "\<lambda>t. True"] find_thread_view [OF ok, of "[0..<thread_count k]"]
    by (auto simp: subset_iff)
  show ?thesis
    using ctl [of THREAD_TERMINATED "\<lambda>t. t_state t \<noteq> THREAD_TERMINATED"]
      ctl [of THREAD_BLOCKED "\<lambda>t. t_state t \<noteq> THREAD_BLOCKED"]
      ctl [of THREAD_READY "\<lambda>t. t_state t = THREAD_BLOCKED"] f table_thr(1) [OF ok, of ?i]
    by (simp add: thread_stop_def thread_block_def thread_unblock_def thread_get_def thread_get_state_def all)
qed

theorem control_by_tid_witness:
  "thread_get_state 1 two_sched = Some (state_code THREAD_READY) \<and> thread_get (- 1) two_sched = Some 0"
proof -
  have "unat (scast (- 1 :: i32) :: u64) = 2 ^ 64 - 1"
    by (simp add: unsigned_minus_1_eq_mask mask_eq_exp_minus_1)
  then show ?thesis
    using control_by_tid [OF two_sched_facts(2), of 1] control_by_tid [OF two_sched_facts(2), of "- 1"]
      two_sched_facts(3,6) by simp
qed

text \<open>
  C5. A thread that stops itself does not stay stopped: when another thread is ready, the next schedule
  hands over to it and writes \<open>THREAD_READY\<close> over the terminated state.
\<close>

theorem stopped_current_revives:
  assumes inv: "thread_inv k" and pid: "scast pid = t_tid (view k ! cur k)"
    and i: "i < thread_count k" "i \<noteq> cur k" "t_state (view k ! i) = THREAD_READY"
  shows "\<exists>k1 k2. thread_stop pid k = Some k1 \<and> t_state (view k1 ! cur k) = THREAD_TERMINATED
    \<and> thread_schedule k1 = Some k2 \<and> cur k2 \<noteq> cur k \<and> t_state (view k2 ! cur k) = THREAD_READY"
proof -
  let ?c = "cur k"
  note ok = inv_table [OF inv]
  have c: "?c < thread_count k" "?c < 32" using table_cur(1) [OF ok] ok by (auto simp: table_ok_def)
  have u: "unat (scast pid :: u64) = ?c"
    unfolding pid using table_thr(3) [OF ok c(1)] c(2) unat_index by simp
  let ?L = "if t_state (view k ! ?c) \<noteq> THREAD_TERMINATED
    then (view k)[?c := (view k ! ?c)\<lparr>t_state := THREAD_TERMINATED\<rparr>] else view k"
  obtain k1 where k1: "thread_stop pid k = Some k1" "thread_inv k1" "becomes k k1 ?L ?c"
    using for_tid_view [OF inv, of "\<lambda>t. t\<lparr>t_state := THREAD_TERMINATED\<rparr>" pid
        "\<lambda>t. t_state t \<noteq> THREAD_TERMINATED"] c(1)
    unfolding u by (auto simp: thread_stop_def)
  have b: "view k1 = ?L" "cur k1 = ?c" "thread_count k1 = thread_count k"
    using becomes_current [OF k1(3)] by simp_all
  have st: "t_state (view k1 ! ?c) = THREAD_TERMINATED" "t_state (view k1 ! i) = THREAD_READY"
    using b(1) c i by auto
  let ?ws = "map (wake (timer_ticks k1)) (view k1)"
  obtain k2 L c' where k2: "round_robin (timer_ticks k1) (cpu k1) (cur k1) (view k1) = (L, c')"
    "thread_schedule k1 = Some k2" "becomes k1 k2 L c'"
    using thread_schedule_view [OF k1(2)] by blast
  have w: "t_state (?ws ! i) = THREAD_READY" "t_state (?ws ! ?c) = THREAD_TERMINATED"
    using st b(3) i(1) c(1) by (simp_all add: wake_def)
  obtain j where j: "next_ready ?c ?ws = Some j"
    using next_ready_turns [of i ?ws ?c] w(1) i(1) c(1) b(3) by auto
  then have "j \<noteq> ?c" using next_ready_state [OF j] w(2) by auto
  moreover have L: "c' = j" "L = hand_over (cpu k1) ?c j ?ws"
    using k2(1) j unfolding b(2) round_robin_def Let_def by auto
  ultimately have "t_state (L ! ?c) = THREAD_READY"
    using w(2) c(1) b(3) unfolding L(2) by (simp add: hand_over_def)
  then show ?thesis using k1(1) st(1) k2(2,3) L(1) \<open>j \<noteq> ?c\<close> by (auto simp: becomes_def)
qed

theorem stopped_current_revives_witness:
  "\<exists>k1 k2. thread_stop 0 two_sched = Some k1 \<and> t_state (view k1 ! 0) = THREAD_TERMINATED
     \<and> thread_schedule k1 = Some k2 \<and> cur k2 \<noteq> 0 \<and> t_state (view k2 ! 0) = THREAD_READY"
  using stopped_current_revives [OF two_sched_facts(2), of 0 1] two_sched_facts(3,4,6,7) by simp

text \<open>
  \<open>thread_sleep\<close> of a non-zero time marks the caller asleep until the timer is that much further and
  schedules; when another thread is ready it runs instead of the caller, which stays asleep. With no other
  thread to run the call returns at once, the caller still current.
\<close>

theorem sleep_hands_over:
  assumes "thread_inv k" and "ms \<noteq> 0" and "timer_ticks k < timer_ticks k + ms"
  shows "\<exists>k'. thread_sleep ms k = Some k' \<and> thread_inv k'
    \<and> ((\<exists>i < thread_count k. i \<noteq> cur k \<and> t_state (view k ! i) = THREAD_READY) \<longrightarrow> cur k' \<noteq> cur k)
    \<and> t_state (view k' ! cur k) = THREAD_SLEEPING
    \<and> sleep_until (view k' ! cur k) = timer_ticks k + ms"
proof -
  let ?c = "cur k" and ?u = "timer_ticks k + ms"
  let ?ts = "(view k)[?c := (view k ! ?c)\<lparr>sleep_until := ?u, t_state := THREAD_SLEEPING\<rparr>]"
  let ?ws = "map (wake (timer_ticks k)) ?ts"
  have c: "?c < thread_count k" using table_cur(1) [OF inv_table [OF assms(1)]] .
  obtain k' L c' where k': "round_robin (timer_ticks k) (cpu k) ?c ?ts = (L, c')"
    "thread_sleep ms k = Some k'" "becomes k k' L c'" "thread_inv k'"
    using thread_sleep_view [OF assms(1,2)] by blast
  have w: "t_state (?ws ! ?c) = THREAD_SLEEPING" "sleep_until (?ws ! ?c) = ?u"
    using c assms(3) by (simp_all add: wake_def not_le)
  have nc: "next_ready ?c ?ws \<noteq> Some ?c" using next_ready_state [of ?c ?ws ?c] w(1) by auto
  have L: "t_state (L ! ?c) = THREAD_SLEEPING" "sleep_until (L ! ?c) = ?u"
    using k'(1) w nc c by (auto simp: round_robin_def Let_def hand_over_def split: option.splits)
  have "c' \<noteq> ?c" if i: "i < thread_count k" "i \<noteq> ?c" "t_state (view k ! i) = THREAD_READY" for i
  proof -
    have "t_state (?ws ! i) = THREAD_READY" using i by (simp add: wake_def)
    then obtain j where "next_ready ?c ?ws = Some j" using next_ready_turns [of i ?ws ?c] i c by auto
    then show ?thesis using k'(1) nc by (auto simp: round_robin_def)
  qed
  then show ?thesis using k' L by (auto simp: becomes_def)
qed

theorem sleep_hands_over_witness:
  "\<exists>k'. thread_sleep 50 (two_sched\<lparr>timer_ticks := 7\<rparr>) = Some k' \<and> cur k' \<noteq> 0
     \<and> t_state (view k' ! 0) = THREAD_SLEEPING \<and> sleep_until (view k' ! 0) = 57"
proof -
  let ?k = "two_sched\<lparr>timer_ticks := 7\<rparr>"
  have f: "thread_inv ?k" "cur ?k = 0" "view ?k = view two_sched" "thread_count ?k = 2"
    using two_sched_facts(2-4) inv_tick by (simp_all add: cur_def view_def thr_def [abs_def])
  show ?thesis
  proof -
    have r: "(1 :: nat) < thread_count ?k \<and> 1 \<noteq> cur ?k \<and> t_state (view ?k ! 1) = THREAD_READY"
      using f two_sched_facts(6) by simp
    have t: "timer_ticks ?k < timer_ticks ?k + 50" "timer_ticks ?k + 50 = 57" "(50 :: u32) \<noteq> 0" by simp_all
    show ?thesis
      using sleep_hands_over [OF f(1) t(3,1)] r unfolding t(2) f(2) by blast
  qed
qed

text \<open>
  \<open>thread_get_pid\<close> returns the least number of a thread whose name, cut to 32 characters, is the string
  given, and -1 when there is none. It always returns: a name of 32 characters has no terminator of its
  own, and the comparison ends in the zero padding of the object at the latest.
\<close>

theorem get_pid_least:
  assumes "thread_inv k" and "terminated name"
  shows "thread_get_pid name k = Some
    (case find (\<lambda>i. cstr (name_bytes (view k ! i)) = cstr name) [0..<thread_count k] of
       None \<Rightarrow> - 1 | Some i \<Rightarrow> of_nat i)"
proof -
  note ok = inv_table [OF assms(1)]
  have "strcmp (name_bytes t) name = Some 0 \<longleftrightarrow> cstr (name_bytes t) = cstr name" for t
    by (intro strcmp_zero assms(2)) (simp add: name_bytes_def)
  then have f: "find_thread (\<lambda>t. strcmp (name_bytes t) name = Some 0) k [0..<thread_count k] = Some
      (map_option (\<lambda>i. threads k ! i) (find (\<lambda>i. cstr (name_bytes (view k ! i)) = cstr name) [0..<thread_count k]))"
    using find_thread_view [OF ok, of "[0..<thread_count k]"] by (simp add: subset_iff)
  show ?thesis
  proof (cases "find (\<lambda>i. cstr (name_bytes (view k ! i)) = cstr name) [0..<thread_count k]")
    case None
    then show ?thesis using f by (simp add: thread_get_pid_def)
  next
    case (Some i)
    then have i: "i < thread_count k" by (auto simp: find_Some_iff)
    have "ucast (of_nat i :: u64) = (of_nat i :: i32)"
    proof -
      have "i < 32" using i ok by (simp add: table_ok_def)
      then show ?thesis by (simp add: unsigned_of_nat take_bit_nat_eq_self)
    qed
    then show ?thesis using f Some table_thr(1,3) [OF ok i] by (simp add: thread_get_pid_def)
  qed
qed

theorem get_pid_least_witness: "thread_get_pid (zlit ''idle'') idle_sched = Some 0"
proof -
  have "terminated (zlit ''idle'')" "cstr (zlit ''idle'') = lit ''idle''" by (simp_all add: lit_def)
  then show ?thesis
    using get_pid_least [OF idle_sched_facts(2), of "zlit ''idle''"] idle_sched_facts(4,8) by simp
qed

end
