(* ===== verification/Keyboard.thy ===== *)
theory Keyboard
  imports Cstring
begin

text \<open>
  The PS/2 keyboard driver, drivers/in/ps2.c: the ring buffer between the interrupt handler and the
  readers, the scancode translation with its shift and caps-lock state, and the line editor \<open>kgets\<close>.
  What the controller's port 0x60 delivers is the argument of the handler.

  The ring buffer is shown to be a FIFO queue of 127 characters that drops what does not fit, as an
  interpretation of the contract \<open>bounded_fifo\<close>; what follows for every interleaving of key presses
  and reads is proved once in that locale.
\<close>

section \<open>State and operations\<close>

record keyboard =
  kb_buf :: bytes
  kb_head :: u32
  kb_tail :: u32
  shift_pressed :: i32
  caps_lock :: i32

definition keyboard_buffer_push :: "u8 \<Rightarrow> keyboard \<Rightarrow> keyboard option" where
  "keyboard_buffer_push c k = do {
     let nxt = (kb_head k + 1) mod 128;
     if nxt \<noteq> kb_tail k then do {
       b \<leftarrow> wr (kb_buf k) (unat (kb_head k)) c;
       Some (k\<lparr>kb_buf := b, kb_head := nxt\<rparr>) }
     else Some k }"

text \<open>The result 0 is \<open>None\<close> as the popped character, the result 1 is the character stored.\<close>

definition keyboard_buffer_pop :: "keyboard \<Rightarrow> (u8 option \<times> keyboard) option" where
  "keyboard_buffer_pop k =
     (if kb_head k = kb_tail k then Some (None, k)
      else do {
        c \<leftarrow> rd (kb_buf k) (unat (kb_tail k));
        Some (Some c, k\<lparr>kb_tail := (kb_tail k + 1) mod 128\<rparr>) })"

definition scancode_ascii :: bytes where
  "scancode_ascii = take 128 ([0, 27] @ lit ''1234567890-='' @ [8, 9] @ lit ''qwertyuiop[]'' @ [10, 0]
     @ lit ''asdfghjkl;'' @ [39] @ lit ''`'' @ [0, 92] @ lit ''zxcvbnm,./'' @ [0] @ lit ''*'' @ [0, 32]
     @ replicate 128 0)"

definition scancode_ascii_shift :: bytes where
  "scancode_ascii_shift = take 128 ([0, 27] @ lit ''!@#$%^&*()_+'' @ [8, 9] @ lit ''QWERTYUIOP{}'' @ [10, 0]
     @ lit ''ASDFGHJKL:'' @ [34] @ lit ''~'' @ [0] @ lit ''|ZXCVBNM<>?'' @ [0] @ lit ''*'' @ [0, 32]
     @ replicate 128 0)"

definition keyboard_handler :: "u8 \<Rightarrow> keyboard \<Rightarrow> keyboard option" where
  "keyboard_handler scancode k =
     (if scancode = 42 \<or> scancode = 54 then Some (k\<lparr>shift_pressed := 1\<rparr>)
      else if scancode = (42 OR 0x80) \<or> scancode = (54 OR 0x80) then Some (k\<lparr>shift_pressed := 0\<rparr>)
      else if scancode = 58 then Some (k\<lparr>caps_lock := (if caps_lock k = 0 then 1 else 0)\<rparr>)
      else if scancode < 128 then do {
        c \<leftarrow> rd scancode_ascii (unat scancode);
        c_shift \<leftarrow> rd scancode_ascii_shift (unat scancode);
        let c1 = (if 97 \<le> sint c \<and> sint c \<le> 122
                  then (if (shift_pressed k XOR caps_lock k) \<noteq> 0 then c - 97 + 65 else c)
                  else if 65 \<le> sint c \<and> sint c \<le> 90
                  then (if (shift_pressed k XOR caps_lock k) = 0 then c - 65 + 97 else c)
                  else if shift_pressed k \<noteq> 0 \<and> c_shift \<noteq> 0 then c_shift
                  else c);
        if c1 \<noteq> 0 then keyboard_buffer_push c1 k else Some k }
      else Some k)"

text \<open>
  One round of the loop of \<open>kgetch\<close>: a character, or \<open>None\<close> where the loop yields and tries again.
\<close>

definition kgetch_poll :: "keyboard \<Rightarrow> (u8 option \<times> keyboard) option" where
  "kgetch_poll k = keyboard_buffer_pop k"

text \<open>
  \<open>kgets\<close> over the characters \<open>kgetch\<close> returns one after the other; \<open>None\<close> where they end before the
  line does, so that the call still waits. The result is the buffer, the characters not read and the
  output printed.
\<close>

fun kgets_loop :: "bytes \<Rightarrow> nat \<Rightarrow> bytes \<Rightarrow> bytes \<Rightarrow> (bytes \<times> bytes \<times> bytes) option" where
  "kgets_loop buf pos [] out = None"
| "kgets_loop buf pos (c # cs) out =
     (if c = 10 \<or> c = 13 then do { b \<leftarrow> wr buf pos 0; Some (b, cs, out @ [10]) }
      else if (c = 8 \<or> c = 127) \<and> pos > 0 then kgets_loop buf (pos - 1) cs (out @ [8, 32, 8])
      else if 32 \<le> sint c \<and> sint c < 127 \<and> pos < 255
      then do { b \<leftarrow> wr buf pos c; kgets_loop b (pos + 1) cs (out @ [c]) }
      else kgets_loop buf pos cs out)"

definition kgets :: "bytes \<Rightarrow> bytes \<Rightarrow> (bytes \<times> bytes \<times> bytes) option" where
  "kgets buf chars = kgets_loop buf 0 chars []"

section \<open>A bounded FIFO queue\<close>

datatype 'a ev = Push 'a | Pop

text \<open>The queue on lists: a push beyond the capacity is dropped.\<close>

fun spec_run :: "nat \<Rightarrow> 'a ev list \<Rightarrow> 'a list \<Rightarrow> 'a list \<times> 'a list" where
  "spec_run n [] q = ([], q)"
| "spec_run n (Push x # es) q = spec_run n es (if length q < n then q @ [x] else q)"
| "spec_run n (Pop # es) q =
     (case q of [] \<Rightarrow> spec_run n es []
      | x # q' \<Rightarrow> (let (out, r) = spec_run n es q' in (x # out, r)))"

fun fits_run :: "nat \<Rightarrow> 'a ev list \<Rightarrow> nat \<Rightarrow> bool" where
  "fits_run n [] m = True"
| "fits_run n (Push x # es) m = (m < n \<and> fits_run n es (m + 1))"
| "fits_run n (Pop # es) m = fits_run n es (m - 1)"

definition pushed :: "'a ev list \<Rightarrow> 'a list" where
  "pushed es = List.map_filter (\<lambda>e. case e of Push x \<Rightarrow> Some x | Pop \<Rightarrow> None) es"

lemma pushed_simps [simp]:
  "pushed [] = []" "pushed (Push x # es) = x # pushed es" "pushed (Pop # es) = pushed es"
  by (simp_all add: pushed_def map_filter_simps)

text \<open>The same run on an implementation.\<close>

fun fifo_run :: "('a \<Rightarrow> 's \<Rightarrow> 's option) \<Rightarrow> ('s \<Rightarrow> ('a option \<times> 's) option) \<Rightarrow> 'a ev list \<Rightarrow> 's
    \<Rightarrow> ('a list \<times> 's) option" where
  "fifo_run push pop [] s = Some ([], s)"
| "fifo_run push pop (Push x # es) s = do { s1 \<leftarrow> push x s; fifo_run push pop es s1 }"
| "fifo_run push pop (Pop # es) s = do {
     (r, s1) \<leftarrow> pop s; (out, s2) \<leftarrow> fifo_run push pop es s1;
     Some (case r of None \<Rightarrow> out | Some x \<Rightarrow> x # out, s2) }"

locale bounded_fifo =
  fixes push :: "'a \<Rightarrow> 's \<Rightarrow> 's option" and pop :: "'s \<Rightarrow> ('a option \<times> 's) option"
    and ok :: "'s \<Rightarrow> bool" and items :: "'s \<Rightarrow> 'a list" and cap :: nat
  assumes push_items: "ok s \<Longrightarrow> \<exists>s'. push x s = Some s' \<and> ok s'
      \<and> items s' = (if length (items s) < cap then items s @ [x] else items s)"
    and pop_empty: "ok s \<Longrightarrow> items s = [] \<Longrightarrow> pop s = Some (None, s)"
    and pop_items: "ok s \<Longrightarrow> items s = x # xs \<Longrightarrow> \<exists>s'. pop s = Some (Some x, s') \<and> ok s' \<and> items s' = xs"
    and items_cap: "ok s \<Longrightarrow> length (items s) \<le> cap"
begin

lemma run_spec:
  "ok s \<Longrightarrow> \<exists>out s'. fifo_run push pop es s = Some (out, s') \<and> ok s' \<and> spec_run cap es (items s) = (out, items s')"
proof (induction es arbitrary: s)
  case Nil
  then show ?case by simp
next
  case (Cons e es)
  show ?case
  proof (cases e)
    case (Push x)
    obtain s1 where s1: "push x s = Some s1" "ok s1"
      "items s1 = (if length (items s) < cap then items s @ [x] else items s)"
      using push_items [OF Cons.prems] by blast
    then show ?thesis using Push Cons.IH [OF s1(2)] by auto
  next
    case Pop
    show ?thesis
    proof (cases "items s")
      case Nil
      then show ?thesis using Pop pop_empty [OF Cons.prems Nil] Cons.IH [OF Cons.prems] by auto
    next
      case (Cons x xs)
      obtain s1 where s1: "pop s = Some (Some x, s1)" "ok s1" "items s1 = xs"
        using pop_items [OF \<open>ok s\<close> Cons] by blast
      then show ?thesis using Pop Cons Cons.IH [OF s1(2)] by auto
    qed
  qed
qed

lemma no_loss:
  "fits_run cap es (length q) \<Longrightarrow> (case spec_run cap es q of (out, r) \<Rightarrow> out @ r = q @ pushed es)"
proof (induction es arbitrary: q)
  case Nil
  then show ?case by simp
next
  case (Cons e es)
  show ?case
  proof (cases e)
    case (Push x)
    then show ?thesis using Cons.IH [of "q @ [x]"] Cons.prems by simp
  next
    case Pop
    then show ?thesis using Cons.IH [of "tl q"] Cons.prems by (cases q) (auto split: prod.splits)
  qed
qed

end

section \<open>The ring buffer is such a queue\<close>

definition count :: "keyboard \<Rightarrow> nat" where
  "count k = (unat (kb_head k) + 128 - unat (kb_tail k)) mod 128"

definition queued :: "keyboard \<Rightarrow> bytes" where
  "queued k = map (\<lambda>i. kb_buf k ! ((unat (kb_tail k) + i) mod 128)) [0..<count k]"

definition keyboard_ok :: "keyboard \<Rightarrow> bool" where
  "keyboard_ok k \<longleftrightarrow> length (kb_buf k) = 128 \<and> unat (kb_head k) < 128 \<and> unat (kb_tail k) < 128
     \<and> shift_pressed k \<in> {0, 1} \<and> caps_lock k \<in> {0, 1}"

lemma length_queued [simp]: "length (queued k) = count k"
  by (simp add: queued_def)

lemma count_less: "count k < 128"
  by (simp add: count_def)

lemma unat_next: "unat (x :: u32) < 128 \<Longrightarrow> unat ((x + 1) mod 128) = (unat x + 1) mod 128"
  by (simp add: unat_mod unat_word_ariths)

lemma mod_128: "m < 256 \<Longrightarrow> m mod 128 = (if m < 128 then m else m - (128 :: nat))"
  by (simp add: le_mod_geq)

lemma mod_inject: "t < 128 \<Longrightarrow> i < 128 \<Longrightarrow> j < 128 \<Longrightarrow> (t + i) mod 128 = (t + j) mod 128 \<longleftrightarrow> i = (j :: nat)"
  by (auto simp: mod_128 split: if_splits)

lemma head_tail: "keyboard_ok k \<Longrightarrow> unat (kb_head k) = (unat (kb_tail k) + count k) mod 128"
  by (auto simp: keyboard_ok_def count_def mod_128 split: if_splits)

lemma push_queued:
  assumes ok: "keyboard_ok k"
  shows "\<exists>k'. keyboard_buffer_push c k = Some k' \<and> keyboard_ok k'
    \<and> shift_pressed k' = shift_pressed k \<and> caps_lock k' = caps_lock k
    \<and> queued k' = (if length (queued k) < 127 then queued k @ [c] else queued k)"
proof -
  let ?h = "unat (kb_head k)" and ?t = "unat (kb_tail k)" and ?n = "(kb_head k + 1) mod 128"
  have b: "length (kb_buf k) = 128" "?h < 128" "?t < 128" using ok by (simp_all add: keyboard_ok_def)
  have n: "unat ?n = (?h + 1) mod 128" using unat_next [OF b(2)] .
  have full: "?n = kb_tail k \<longleftrightarrow> count k = 127"
  proof -
    have "?n = kb_tail k \<longleftrightarrow> (?h + 1) mod 128 = ?t"
      using n unsigned_word_eqI [of ?n "kb_tail k"] by auto
    then show ?thesis using b by (auto simp: count_def mod_128 split: if_splits)
  qed
  show ?thesis
  proof (cases "count k = 127")
    case True
    then show ?thesis using full ok by (simp add: keyboard_buffer_push_def)
  next
    case False
    let ?k = "k\<lparr>kb_buf := (kb_buf k)[?h := c], kb_head := ?n\<rparr>"
    have push: "keyboard_buffer_push c k = Some ?k"
      using False full b by (simp add: keyboard_buffer_push_def)
    have ok': "keyboard_ok ?k" using ok n by (simp add: keyboard_ok_def)
    have cnt: "count ?k = Suc (count k)"
      using False n b by (auto simp: count_def mod_128 split: if_splits)
    have "queued ?k = queued k @ [c]"
    proof (rule nth_equalityI)
      fix i assume "i < length (queued ?k)"
      then have i: "i < Suc (count k)" using cnt by simp
      have "(?t + i) mod 128 = ?h \<longleftrightarrow> i = count k"
        using head_tail [OF ok] mod_inject [of ?t i "count k"] i count_less [of k] b(3) by simp
      then show "queued ?k ! i = (queued k @ [c]) ! i"
        using i cnt b by (auto simp: queued_def nth_append nth_list_update less_Suc_eq)
    qed (simp add: cnt)
    then show ?thesis using push ok' False count_less [of k] by auto
  qed
qed

lemma pop_queued:
  assumes ok: "keyboard_ok k"
  shows "queued k = [] \<Longrightarrow> kgetch_poll k = Some (None, k)"
    and "queued k = c # cs \<Longrightarrow> \<exists>k'. kgetch_poll k = Some (Some c, k') \<and> keyboard_ok k'
      \<and> queued k' = cs \<and> shift_pressed k' = shift_pressed k \<and> caps_lock k' = caps_lock k"
proof -
  let ?h = "unat (kb_head k)" and ?t = "unat (kb_tail k)"
  have b: "length (kb_buf k) = 128" "?h < 128" "?t < 128" using ok by (simp_all add: keyboard_ok_def)
  have empty: "kb_head k = kb_tail k \<longleftrightarrow> count k = 0"
  proof -
    have "kb_head k = kb_tail k \<longleftrightarrow> ?h = ?t" using unsigned_word_eqI [of "kb_head k" "kb_tail k"] by auto
    then show ?thesis using b by (auto simp: count_def mod_128 split: if_splits)
  qed
  show "kgetch_poll k = Some (None, k)" if "queued k = []"
    using that empty length_queued [of k] by (simp add: kgetch_poll_def keyboard_buffer_pop_def)
  show "\<exists>k'. kgetch_poll k = Some (Some c, k') \<and> keyboard_ok k'
      \<and> queued k' = cs \<and> shift_pressed k' = shift_pressed k \<and> caps_lock k' = caps_lock k"
    if q: "queued k = c # cs"
  proof -
    have n: "unat ((kb_tail k + 1) mod 128) = (?t + 1) mod 128" using unat_next [OF b(3)] .
    let ?k = "k\<lparr>kb_tail := (kb_tail k + 1) mod 128\<rparr>"
    have pos: "count k = Suc (length cs)" using q length_queued [of k] by simp
    have c: "c = kb_buf k ! ?t"
      using q b(3) pos by (simp add: queued_def upt_conv_Cons del: upt_Suc)
    have pop: "kgetch_poll k = Some (Some c, ?k)"
      using empty pos b c by (simp add: kgetch_poll_def keyboard_buffer_pop_def)
    have cnt: "count ?k = length cs" using n b pos by (auto simp: count_def mod_128 split: if_splits)
    have "queued ?k = tl (queued k)"
    proof (rule nth_equalityI)
      fix i assume "i < length (queued ?k)"
      then have i: "i < length cs" using cnt by simp
      have "((?t + 1) mod 128 + i) mod 128 = (?t + Suc i) mod 128" by (simp add: mod_add_left_eq)
      then show "queued ?k ! i = tl (queued k) ! i"
        using i cnt pos n by (simp add: queued_def nth_tl del: upt_Suc)
    qed (simp add: cnt pos)
    moreover have "keyboard_ok ?k" using ok n by (simp add: keyboard_ok_def)
    ultimately show ?thesis using pop q by auto
  qed
qed

interpretation kb: bounded_fifo keyboard_buffer_push kgetch_poll keyboard_ok queued 127
proof
  fix k :: keyboard and c :: u8 and cs :: bytes
  assume ok: "keyboard_ok k"
  show "\<exists>k'. keyboard_buffer_push c k = Some k' \<and> keyboard_ok k'
      \<and> queued k' = (if length (queued k) < 127 then queued k @ [c] else queued k)"
    using push_queued [OF ok, of c] by blast
  show "kgetch_poll k = Some (None, k)" if "queued k = []"
    using pop_queued(1) [OF ok that] .
  show "\<exists>k'. kgetch_poll k = Some (Some c, k') \<and> keyboard_ok k' \<and> queued k' = cs" if "queued k = c # cs"
    using pop_queued(2) [OF ok that] by blast
  show "length (queued k) \<le> 127" using count_less [of k] by simp
qed

section \<open>Scancodes\<close>

text \<open>
  The character of a key: letters are upper case when exactly one of shift and caps lock is on, the
  other keys have a second character under shift.
\<close>

definition key_char :: "bool \<Rightarrow> bool \<Rightarrow> nat \<Rightarrow> u8 option" where
  "key_char shift caps sc =
     (let c = scancode_ascii ! sc; s = scancode_ascii_shift ! sc;
          r = (if 97 \<le> sint c \<and> sint c \<le> 122 then (if shift \<noteq> caps then c - 32 else c)
               else if shift \<and> s \<noteq> 0 then s else c)
      in if r = 0 then None else Some r)"

text \<open>The modifiers after a scancode, and the character it types.\<close>

definition decode :: "bool \<times> bool \<Rightarrow> u8 \<Rightarrow> (bool \<times> bool) \<times> u8 option" where
  "decode m sc = (case m of (shift, caps) \<Rightarrow>
     if sc = 42 \<or> sc = 54 then ((True, caps), None)
     else if sc = 170 \<or> sc = 182 then ((False, caps), None)
     else if sc = 58 then ((shift, \<not> caps), None)
     else if sc < 128 then (m, key_char shift caps (unat sc))
     else (m, None))"

definition mods :: "keyboard \<Rightarrow> bool \<times> bool" where
  "mods k = (shift_pressed k \<noteq> 0, caps_lock k \<noteq> 0)"

lemma length_scancodes [simp]: "length scancode_ascii = 128" "length scancode_ascii_shift = 128"
  by (simp_all add: scancode_ascii_def scancode_ascii_shift_def)

lemma scancode_no_upper: "i < 128 \<Longrightarrow> \<not> (65 \<le> sint (scancode_ascii ! i) \<and> sint (scancode_ascii ! i) \<le> 90)"
proof -
  have "list_all (\<lambda>c. \<not> (65 \<le> sint c \<and> sint c \<le> 90)) scancode_ascii"
    by (simp add: scancode_ascii_def lit_def numeral_eq_Suc)
  then show "i < 128 \<Longrightarrow> ?thesis" by (simp add: list_all_length)
qed

lemma handler_queued:
  assumes ok: "keyboard_ok k"
  shows "\<exists>k'. keyboard_handler sc k = Some k' \<and> keyboard_ok k' \<and> mods k' = fst (decode (mods k) sc)
    \<and> (case snd (decode (mods k) sc) of None \<Rightarrow> queued k' = queued k \<and> k' = k\<lparr>shift_pressed := shift_pressed k', caps_lock := caps_lock k'\<rparr>
       | Some c \<Rightarrow> keyboard_buffer_push c k = Some k')"
proof -
  have or: "(42 OR 0x80 :: u8) = 170" "(54 OR 0x80 :: u8) = 182" by simp_all
  have s: "(shift_pressed k XOR caps_lock k) = 0 \<longleftrightarrow> (shift_pressed k \<noteq> 0) = (caps_lock k \<noteq> 0)"
    using ok by (auto simp: keyboard_ok_def)
  consider "sc = 42 \<or> sc = 54" | "sc = 170 \<or> sc = 182" | "sc = 58"
    | "sc \<notin> {42, 54, 170, 182, 58}" "sc < 128" | "sc \<notin> {42, 54, 170, 182, 58}" "\<not> sc < 128" by auto
  then show ?thesis
  proof cases
    case 4
    then have "unat sc < 128" by (simp add: word_less_nat_alt)
    then obtain c s where u: "rd scancode_ascii (unat sc) = Some c" "rd scancode_ascii_shift (unat sc) = Some s"
      "c = scancode_ascii ! unat sc" "s = scancode_ascii_shift ! unat sc"
      and no: "sint c < 65 \<or> 90 < sint c"
      using scancode_no_upper [of "unat sc"] by fastforce
    have h: "keyboard_handler sc k = (case key_char (shift_pressed k \<noteq> 0) (caps_lock k \<noteq> 0) (unat sc) of
        None \<Rightarrow> Some k | Some c \<Rightarrow> keyboard_buffer_push c k)"
      unfolding key_char_def u(3,4) [symmetric] Let_def keyboard_handler_def or u(1,2)
      using 4 s no by (cases "97 \<le> sint c \<and> sint c \<le> 122") auto
    have d: "decode (mods k) sc = (mods k, key_char (shift_pressed k \<noteq> 0) (caps_lock k \<noteq> 0) (unat sc))"
      using 4 by (simp add: decode_def mods_def)
    show ?thesis
      using h d push_queued [OF ok] ok
      by (cases "key_char (shift_pressed k \<noteq> 0) (caps_lock k \<noteq> 0) (unat sc)") (fastforce simp: mods_def)+
  qed (use ok in \<open>auto simp: keyboard_handler_def or decode_def mods_def keyboard_ok_def queued_def count_def\<close>)
qed

section \<open>Interrupts and readers interleaved\<close>

text \<open>A key event handled by the interrupt, or one poll of the buffer by a reader.\<close>

datatype kb_event = Key u8 | Read

fun kb_run :: "kb_event list \<Rightarrow> keyboard \<Rightarrow> (bytes \<times> keyboard) option" where
  "kb_run [] k = Some ([], k)"
| "kb_run (Key sc # es) k = do { k1 \<leftarrow> keyboard_handler sc k; kb_run es k1 }"
| "kb_run (Read # es) k = do {
     (r, k1) \<leftarrow> kgetch_poll k; (out, k2) \<leftarrow> kb_run es k1;
     Some (case r of None \<Rightarrow> out | Some c \<Rightarrow> c # out, k2) }"

fun typed :: "bool \<times> bool \<Rightarrow> kb_event list \<Rightarrow> u8 ev list" where
  "typed m [] = []"
| "typed m (Key sc # es) = (case snd (decode m sc) of None \<Rightarrow> [] | Some c \<Rightarrow> [Push c])
     @ typed (fst (decode m sc)) es"
| "typed m (Read # es) = Pop # typed m es"

lemma kb_run_spec:
  "keyboard_ok k \<Longrightarrow> \<exists>out k'. kb_run es k = Some (out, k') \<and> keyboard_ok k'
     \<and> spec_run 127 (typed (mods k) es) (queued k) = (out, queued k')"
proof (induction es arbitrary: k)
  case Nil
  then show ?case by simp
next
  case (Cons e es)
  show ?case
  proof (cases e)
    case (Key sc)
    obtain k1 where k1: "keyboard_handler sc k = Some k1" "keyboard_ok k1" "mods k1 = fst (decode (mods k) sc)"
      "case snd (decode (mods k) sc) of None \<Rightarrow> queued k1 = queued k
       | Some c \<Rightarrow> keyboard_buffer_push c k = Some k1"
      using handler_queued [OF Cons.prems, of sc] by (auto split: option.splits)
    show ?thesis
    proof (cases "snd (decode (mods k) sc)")
      case None
      then show ?thesis using Key k1 Cons.IH [OF k1(2)] by auto
    next
      case (Some c)
      then have "queued k1 = (if length (queued k) < 127 then queued k @ [c] else queued k)"
        using k1(4) kb.push_items [OF Cons.prems, of c] by auto
      then show ?thesis using Key Some k1(1,3) Cons.IH [OF k1(2)] by auto
    qed
  next
    case Read
    show ?thesis
    proof (cases "queued k")
      case Nil
      then show ?thesis using Read kb.pop_empty [OF Cons.prems Nil] Cons.IH [OF Cons.prems] by auto
    next
      case (Cons c cs)
      obtain k1 where k1: "kgetch_poll k = Some (Some c, k1)" "keyboard_ok k1" "queued k1 = cs" "mods k1 = mods k"
        using pop_queued(2) [OF \<open>keyboard_ok k\<close> Cons] by (auto simp: mods_def)
      then show ?thesis using Read Cons Cons.IH [OF k1(2)] by auto
    qed
  qed
qed

section \<open>Properties\<close>

text \<open>
  C12. For every interleaving of scancodes and reads the driver behaves as a FIFO queue of 127 characters:
  what the readers get and what stays queued is what the queue on lists gives for the typed characters.
  No access leaves the 128-byte buffer.
\<close>

theorem keyboard_refines_fifo:
  assumes "keyboard_ok k"
  shows "\<exists>out k'. kb_run es k = Some (out, k') \<and> keyboard_ok k'
    \<and> spec_run 127 (typed (mods k) es) (queued k) = (out, queued k')"
  using assms by (rule kb_run_spec)

definition boot_keyboard :: keyboard where
  "boot_keyboard = \<lparr>kb_buf = replicate 128 0, kb_head = 0, kb_tail = 0, shift_pressed = 0, caps_lock = 0\<rparr>"

lemma boot_keyboard_ok [simp]: "keyboard_ok boot_keyboard" "queued boot_keyboard = []" "mods boot_keyboard = (False, False)"
  by (simp_all add: boot_keyboard_def keyboard_ok_def queued_def count_def mods_def)

lemma demo_keys:
  "decode (False, False) 42 = ((True, False), None)" "decode (True, False) 170 = ((False, False), None)"
  "decode (True, False) 30 = ((True, False), Some 65)" "decode (False, False) 30 = ((False, False), Some 97)"
  "decode (False, False) 48 = ((False, False), Some 98)"
proof -
  have "scancode_ascii ! 30 = 97" "scancode_ascii_shift ! 30 = 65"
    "scancode_ascii ! 48 = 98" "scancode_ascii_shift ! 48 = 66"
    by (simp_all add: scancode_ascii_def scancode_ascii_shift_def lit_def)
  then show "decode (False, False) 42 = ((True, False), None)" "decode (True, False) 170 = ((False, False), None)"
    "decode (True, False) 30 = ((True, False), Some 65)" "decode (False, False) 30 = ((False, False), Some 97)"
    "decode (False, False) 48 = ((False, False), Some 98)"
    by (simp_all add: decode_def key_char_def Let_def)
qed

theorem keyboard_refines_fifo_witness:
  "\<exists>out k'. kb_run [Key 42, Key 30, Key 170, Read, Key 30, Read, Read] boot_keyboard = Some (out, k')
     \<and> out = lit ''Aa''"
  using keyboard_refines_fifo [OF boot_keyboard_ok(1), of "[Key 42, Key 30, Key 170, Read, Key 30, Read, Read]"]
  by (auto simp: demo_keys lit_def)

text \<open>
  As long as no more than 127 typed characters are waiting at a time none is lost, doubled or
  reordered: the characters read, followed by those still queued, are the ones that were queued followed
  by the ones typed.
\<close>

theorem keyboard_no_loss:
  assumes "keyboard_ok k" and "fits_run 127 (typed (mods k) es) (length (queued k))"
    and "kb_run es k = Some (out, k')"
  shows "out @ queued k' = queued k @ pushed (typed (mods k) es)"
  using kb_run_spec [OF assms(1), of es] kb.no_loss [OF assms(2)] assms(3) by auto

theorem keyboard_no_loss_witness:
  "\<exists>out k'. kb_run [Key 30, Key 48, Read] boot_keyboard = Some (out, k') \<and> out @ queued k' = lit ''ab''"
proof -
  obtain out k' where r: "kb_run [Key 30, Key 48, Read] boot_keyboard = Some (out, k')"
    using kb_run_spec [OF boot_keyboard_ok(1), of "[Key 30, Key 48, Read]"] by blast
  have t: "typed (False, False) [Key 30, Key 48, Read] = [Push 97, Push 98, Pop]"
    by (simp add: demo_keys)
  show ?thesis using keyboard_no_loss [OF boot_keyboard_ok(1) _ r] r t by (auto simp: lit_def demo_keys)
qed

text \<open>One key of the line editor: backspace and DEL erase, printable characters append up to 255.\<close>

definition edit :: "bytes \<Rightarrow> u8 \<Rightarrow> bytes" where
  "edit l c = (if (c = 8 \<or> c = 127) \<and> l \<noteq> [] then butlast l
     else if 32 \<le> sint c \<and> sint c < 127 \<and> length l < 255 then l @ [c] else l)"

lemma kgets_loop_edit:
  assumes "length buf = 256" and "pos \<le> 255" and "take pos buf = l" and "0 \<notin> set l"
  shows "case kgets_loop buf pos cs out of
      None \<Rightarrow> \<forall>c \<in> set cs. c \<noteq> 10 \<and> c \<noteq> 13
    | Some (b, rest, _) \<Rightarrow> \<exists>d nl. cs = d @ nl # rest \<and> (nl = 10 \<or> nl = 13) \<and> (\<forall>c \<in> set d. c \<noteq> 10 \<and> c \<noteq> 13)
        \<and> length b = 256 \<and> cstr b = foldl edit l d \<and> length (foldl edit l d) \<le> 255"
  using assms
proof (induction cs arbitrary: buf pos l out)
  case Nil
  then show ?case by simp
next
  case (Cons c cs)
  have len: "length l = pos" using Cons.prems by auto
  consider (nl) "c = 10 \<or> c = 13" | (erase) "c = 8 \<or> c = 127" "pos > 0"
    | (put) "32 \<le> sint c" "sint c < 127" "pos < 255"
    | (skip) "c \<noteq> 10" "c \<noteq> 13" "\<not> ((c = 8 \<or> c = 127) \<and> pos > 0)"
        "\<not> (32 \<le> sint c \<and> sint c < 127 \<and> pos < 255)" by metis
  then show ?case
  proof cases
    case nl
    have "buf[pos := 0] = l @ 0 # drop (Suc pos) buf"
      using Cons.prems by (simp add: upd_conv_take_nth_drop)
    then show ?thesis
      using nl Cons.prems len by (auto intro!: exI [of _ "[]"])
  next
    case erase
    have IH: "case kgets_loop buf (pos - 1) cs (out @ [8, 32, 8]) of
        None \<Rightarrow> \<forall>c \<in> set cs. c \<noteq> 10 \<and> c \<noteq> 13
      | Some (b, rest, _) \<Rightarrow> \<exists>d nl. cs = d @ nl # rest \<and> (nl = 10 \<or> nl = 13) \<and> (\<forall>c \<in> set d. c \<noteq> 10 \<and> c \<noteq> 13)
          \<and> length b = 256 \<and> cstr b = foldl edit (butlast l) d \<and> length (foldl edit (butlast l) d) \<le> 255"
      using Cons.prems erase by (intro Cons.IH) (auto simp: butlast_take dest: in_set_butlastD)
    have e: "edit l c = butlast l" using erase len by (auto simp: edit_def)
    have n: "c \<noteq> 10" "c \<noteq> 13" using erase by auto
    then have "kgets_loop buf pos (c # cs) out = kgets_loop buf (pos - 1) cs (out @ [8, 32, 8])"
      using erase by auto
    then show ?thesis using IH n e
      by (auto split: option.splits intro!: exI [of _ "c # _"])
  next
    case put
    have n: "c \<noteq> 10" "c \<noteq> 13" "c \<noteq> 8" "c \<noteq> 127" "c \<noteq> 0" using put by auto
    have e: "edit l c = l @ [c]" using put n len by (simp add: edit_def)
    have IH: "case kgets_loop (buf[pos := c]) (pos + 1) cs (out @ [c]) of
        None \<Rightarrow> \<forall>c \<in> set cs. c \<noteq> 10 \<and> c \<noteq> 13
      | Some (b, rest, _) \<Rightarrow> \<exists>d nl. cs = d @ nl # rest \<and> (nl = 10 \<or> nl = 13) \<and> (\<forall>c \<in> set d. c \<noteq> 10 \<and> c \<noteq> 13)
          \<and> length b = 256 \<and> cstr b = foldl edit (l @ [c]) d \<and> length (foldl edit (l @ [c]) d) \<le> 255"
      using Cons.prems put n by (intro Cons.IH) (auto simp: take_Suc_conv_app_nth)
    have "kgets_loop buf pos (c # cs) out = kgets_loop (buf[pos := c]) (pos + 1) cs (out @ [c])"
      using put n Cons.prems by simp
    then show ?thesis using IH n e
      by (auto split: option.splits intro!: exI [of _ "c # _"])
  next
    case skip
    have e: "edit l c = l" using skip len by (auto simp: edit_def)
    have "kgets_loop buf pos (c # cs) out = kgets_loop buf pos cs out"
      using skip by (simp only: kgets_loop.simps if_False simp_thms)
    then show ?thesis using Cons.IH [OF Cons.prems, of out] skip(1,2) e
      by (auto split: option.splits intro!: exI [of _ "c # _"])
  qed
qed

text \<open>
  C13. \<open>kgets\<close> returns exactly when a newline or a return has been typed; the string is then the line
  edited by the keys before it (printable characters append up to 255, backspace and DEL erase the last),
  the keys after it are left for the next call, and no write leaves the 256-byte buffer.
\<close>

theorem kgets_edits:
  assumes "length buf = 256"
  shows "(kgets buf chars = None \<longleftrightarrow> (\<forall>c \<in> set chars. c \<noteq> 10 \<and> c \<noteq> 13))
    \<and> (\<forall>b rest out. kgets buf chars = Some (b, rest, out) \<longrightarrow>
        rest = tl (dropWhile (\<lambda>c. c \<noteq> 10 \<and> c \<noteq> 13) chars) \<and> length b = 256
        \<and> cstr b = foldl edit [] (takeWhile (\<lambda>c. c \<noteq> 10 \<and> c \<noteq> 13) chars)
        \<and> length (cstr b) \<le> 255)"
proof (cases "kgets buf chars")
  case None
  then show ?thesis using kgets_loop_edit [of buf 0 "[]" chars "[]"] assms by (simp add: kgets_def)
next
  case (Some r)
  obtain b rest out where r: "r = (b, rest, out)" by (cases r)
  obtain d nl where d: "chars = d @ nl # rest" "nl = 10 \<or> nl = 13" "\<forall>c \<in> set d. c \<noteq> 10 \<and> c \<noteq> 13"
    "length b = 256" "cstr b = foldl edit [] d" "length (foldl edit [] d) \<le> 255"
    using kgets_loop_edit [of buf 0 "[]" chars "[]"] assms Some r by (auto simp: kgets_def)
  have "takeWhile (\<lambda>c. c \<noteq> 10 \<and> c \<noteq> 13) chars = d" "dropWhile (\<lambda>c. c \<noteq> 10 \<and> c \<noteq> 13) chars = nl # rest"
    using d(2,3) unfolding d(1) by (auto simp: takeWhile_append dropWhile_append)
  then show ?thesis using Some r d by auto
qed

theorem kgets_edits_witness:
  "\<exists>b out. kgets (replicate 256 0) (lit ''lx'' @ [8] @ lit ''s'' @ [10, 65]) = Some (b, [65], out)
     \<and> cstr b = lit ''ls''"
proof -
  have "kgets (replicate 256 0) (lit ''lx'' @ [8] @ lit ''s'' @ [10, 65]) \<noteq> None"
    using kgets_edits [of "replicate 256 0"] by auto
  then obtain b rest out where
    "kgets (replicate 256 0) (lit ''lx'' @ [8] @ lit ''s'' @ [10, 65]) = Some (b, rest, out)" by auto
  moreover from this have "rest = [65] \<and> cstr b = lit ''ls''"
    using kgets_edits [of "replicate 256 0" "lit ''lx'' @ [8] @ lit ''s'' @ [10, 65]"]
    by (simp add: lit_def edit_def)
  ultimately show ?thesis by blast
qed

end
