(* ===== verification/Ports.thy ===== *)
theory Ports
  imports Prelude
begin

text \<open>
  Port input and output, cpu/ports/port_based.c. The instructions themselves reach hardware that no
  code of the repository describes: it is the parameter \<open>bus\<close>, a record of what each access does to
  the state \<open>'d\<close> of the devices. Every routine that touches a port takes a bus; what it relies on is a
  named law of the bus in the theory that needs it.
\<close>

record 'd bus =
  port_outb :: "u16 \<Rightarrow> u8 \<Rightarrow> 'd \<Rightarrow> 'd"
  port_inb :: "u16 \<Rightarrow> 'd \<Rightarrow> u8 \<times> 'd"
  port_outw :: "u16 \<Rightarrow> u16 \<Rightarrow> 'd \<Rightarrow> 'd"
  port_inw :: "u16 \<Rightarrow> 'd \<Rightarrow> u16 \<times> 'd"
  port_outl :: "u16 \<Rightarrow> u32 \<Rightarrow> 'd \<Rightarrow> 'd"
  port_inl :: "u16 \<Rightarrow> 'd \<Rightarrow> u32 \<times> 'd"

definition inb :: "'d bus \<Rightarrow> u16 \<Rightarrow> 'd \<Rightarrow> u8 \<times> 'd" where
  "inb bus port d = port_inb bus port d"

definition outb :: "'d bus \<Rightarrow> u16 \<Rightarrow> u8 \<Rightarrow> 'd \<Rightarrow> 'd" where
  "outb bus port data d = port_outb bus port data d"

definition inw :: "'d bus \<Rightarrow> u16 \<Rightarrow> 'd \<Rightarrow> u16 \<times> 'd" where
  "inw bus port d = port_inw bus port d"

definition outw :: "'d bus \<Rightarrow> u16 \<Rightarrow> u16 \<Rightarrow> 'd \<Rightarrow> 'd" where
  "outw bus port data d = port_outw bus port data d"

definition inl :: "'d bus \<Rightarrow> u16 \<Rightarrow> 'd \<Rightarrow> u32 \<times> 'd" where
  "inl bus port d = port_inl bus port d"

definition outl :: "'d bus \<Rightarrow> u16 \<Rightarrow> u32 \<Rightarrow> 'd \<Rightarrow> 'd" where
  "outl bus port data d = port_outl bus port data d"

text \<open>\<open>rep insw\<close> and \<open>rep outsw\<close>: \<open>count\<close> words to and from a buffer, little endian.\<close>

fun insw :: "'d bus \<Rightarrow> u16 \<Rightarrow> bytes \<Rightarrow> nat \<Rightarrow> nat \<Rightarrow> 'd \<Rightarrow> (bytes \<times> 'd) option" where
  "insw bus port buf i 0 d = Some (buf, d)"
| "insw bus port buf i (Suc n) d = do {
     let (w, d1) = inw bus port d;
     b \<leftarrow> put16 buf i w;
     insw bus port b (i + 2) n d1 }"

fun outsw :: "'d bus \<Rightarrow> u16 \<Rightarrow> bytes \<Rightarrow> nat \<Rightarrow> nat \<Rightarrow> 'd \<Rightarrow> 'd option" where
  "outsw bus port buf i 0 d = Some d"
| "outsw bus port buf i (Suc n) d = do {
     w \<leftarrow> get16 buf i;
     outsw bus port buf (i + 2) n (outw bus port w d) }"

end
