(* ===== verification/Vga.thy ===== *)
theory Vga
  imports Ports
begin

text \<open>
  The text console, drivers/video/vga_default.c without its formatting routines. The video memory
  is the byte object \<open>vram\<close> of 32 KB from 0xB8000 on (a write outside that window is \<open>None\<close>); the
  cursor lives in registers 14 and 15 of the CRT controller behind ports 0x3D4 and 0x3D5. The lock
  \<open>vga_lock\<close> is left out: the routines are modelled between taking and releasing it.

  The abstract terminal is a list of 2000 cells and a cursor; the drawing routines are shown to
  implement it and to stay inside the 4000 bytes of the screen.
\<close>

section \<open>State and operations\<close>

record 'd console =
  vram :: bytes
  dev :: 'd
  color :: u8

definition get_cursor :: "'d bus \<Rightarrow> 'd console \<Rightarrow> u16 \<times> 'd console" where
  "get_cursor bus s = (
     let d1 = outb bus 0x3D4 14 (dev s); (high_byte, d2) = inb bus 0x3D5 d1;
         d3 = outb bus 0x3D4 15 d2; (low_byte, d4) = inb bus 0x3D5 d3
     in ((push_bit 8 (ucast high_byte) + ucast low_byte) * 2, s\<lparr>dev := d4\<rparr>))"

definition set_cursor :: "'d bus \<Rightarrow> u16 \<Rightarrow> 'd console \<Rightarrow> 'd console" where
  "set_cursor bus pos0 s = (
     let pos = pos0 div 2;
         d1 = outb bus 0x3D4 14 (dev s); d2 = outb bus 0x3D5 (ucast (drop_bit 8 pos)) d1;
         d3 = outb bus 0x3D4 15 d2; d4 = outb bus 0x3D5 (ucast (pos AND 0xFF)) d3
     in s\<lparr>dev := d4\<rparr>)"

definition write_cell :: "u8 \<Rightarrow> u8 \<Rightarrow> u16 \<Rightarrow> 'd console \<Rightarrow> 'd console option" where
  "write_cell character attribute_byte offset s = do {
     v1 \<leftarrow> wr (vram s) (unat offset) character;
     v2 \<leftarrow> wr v1 (unat offset + 1) attribute_byte;
     Some (s\<lparr>vram := v2\<rparr>) }"

definition scroll_cell :: "nat \<Rightarrow> nat \<Rightarrow> bytes \<Rightarrow> bytes option" where
  "scroll_cell row col v = do {
     let fr = (row * 80 + col) * 2;
     let to = ((row - 1) * 80 + col) * 2;
     a \<leftarrow> rd v fr; v1 \<leftarrow> wr v to a;
     b \<leftarrow> rd v1 (fr + 1); wr v1 (to + 1) b }"

definition blank_cell :: "nat \<Rightarrow> bytes \<Rightarrow> bytes option" where
  "blank_cell col v = do {
     let last_row = (25 - 1) * 80 * 2;
     v1 \<leftarrow> wr v (last_row + col * 2) 32;
     wr v1 (last_row + col * 2 + 1) 0x07 }"

definition scroll_line :: "'d bus \<Rightarrow> 'd console \<Rightarrow> 'd console option" where
  "scroll_line bus s = do {
     v1 \<leftarrow> iter (\<lambda>row. iter (scroll_cell row) [0..<80]) [1..<25] (vram s);
     v2 \<leftarrow> iter blank_cell [0..<80] v1;
     Some (set_cursor bus ((25 - 1) * 80 * 2) (s\<lparr>vram := v2\<rparr>)) }"

text \<open>The line feed both branches of \<open>putchar\<close> perform.\<close>

definition line_feed :: "'d bus \<Rightarrow> u16 \<Rightarrow> 'd console \<Rightarrow> 'd console option" where
  "line_feed bus offset s =
     (if offset div 2 div 80 = 25 - 1 then scroll_line bus s
      else Some (set_cursor bus ((offset - offset mod 160) + 160) s))"

text \<open>The branch of \<open>putchar\<close> for a character that is neither a newline nor a backspace.\<close>

definition put_glyph :: "'d bus \<Rightarrow> u8 \<Rightarrow> u8 \<Rightarrow> 'd console \<Rightarrow> 'd console option" where
  "put_glyph bus character attribute_byte s = do {
     let (offset, s1) = get_cursor bus s;
     (off, s2) \<leftarrow> (if (offset div 2) mod 80 \<ge> 79
                   then do { t \<leftarrow> line_feed bus offset s1; Some (get_cursor bus t) }
                   else Some (offset, s1));
     s3 \<leftarrow> (if off = 4000 then scroll_line bus s2 else Some s2);
     s4 \<leftarrow> write_cell character attribute_byte off s3;
     Some (set_cursor bus (off + 2) s4) }"

definition putchar :: "'d bus \<Rightarrow> u8 \<Rightarrow> u8 \<Rightarrow> 'd console \<Rightarrow> 'd console option" where
  "putchar bus character attribute_byte s =
     (if character = 10 then (let (offset, s1) = get_cursor bus s in line_feed bus offset s1)
      else if character = 8 then do {
        let (offset, s0) = get_cursor bus s;
        let (c1, s1) = get_cursor bus s0;
        s2 \<leftarrow> put_glyph bus 32 attribute_byte (set_cursor bus (c1 - 1) s1);
        let (c2, s3) = get_cursor bus s2;
        Some (set_cursor bus (c2 - 2) s3) }
      else put_glyph bus character attribute_byte s)"

definition kclear :: "'d bus \<Rightarrow> 'd console \<Rightarrow> 'd console option" where
  "kclear bus s = do {
     s1 \<leftarrow> iter (\<lambda>i. write_cell 0 0x07 (of_nat (2 * i))) [0..<2000] s;
     Some (set_cursor bus 0 s1) }"

definition get_cursor_x :: "'d bus \<Rightarrow> 'd console \<Rightarrow> u8 \<times> 'd console" where
  "get_cursor_x bus s = (let (pos, s1) = get_cursor bus s in (ucast ((pos div 2) mod 80), s1))"

definition get_cursor_y :: "'d bus \<Rightarrow> 'd console \<Rightarrow> u8 \<times> 'd console" where
  "get_cursor_y bus s = (let (pos, s1) = get_cursor bus s in (ucast ((pos div 2) div 80), s1))"

definition set_cursor_xy :: "'d bus \<Rightarrow> u8 \<Rightarrow> u8 \<Rightarrow> 'd console \<Rightarrow> 'd console" where
  "set_cursor_xy bus x0 y0 s = (
     let x = (if x0 \<ge> 80 then 79 else x0); y = (if y0 \<ge> 25 then 24 else y0)
     in set_cursor bus ((ucast y * 80 + ucast x) * 2) s)"

definition disable_cursor :: "'d bus \<Rightarrow> 'd console \<Rightarrow> 'd console" where
  "disable_cursor bus s = s\<lparr>dev := outb bus 0x3D5 0x20 (outb bus 0x3D4 0x0A (dev s))\<rparr>"

text \<open>
  The colour escape \<open><(XY)>\<close> of \<open>kprint\<close>, its conditions tested in the order of the \<open>&&\<close>. The result
  is the colour when the string starts with one.
\<close>

definition hex_digit :: "u8 \<Rightarrow> bool" where
  "hex_digit c \<longleftrightarrow> 48 \<le> c \<and> c \<le> 57 \<or> 65 \<le> c \<and> c \<le> 70"

definition hex_value :: "u8 \<Rightarrow> u8" where
  "hex_value c = (if c \<le> 57 then c - 48 else c - 65 + 10)"

definition color_escape :: "bytes \<Rightarrow> u8 option option" where
  "color_escape str = do {
     c0 \<leftarrow> rd str 0;
     if c0 \<noteq> 60 then Some None else do {
     c1 \<leftarrow> rd str 1;
     if c1 \<noteq> 40 then Some None else do {
     c2 \<leftarrow> rd str 2;
     if \<not> hex_digit c2 then Some None else do {
     c3 \<leftarrow> rd str 3;
     if \<not> hex_digit c3 then Some None else do {
     c4 \<leftarrow> rd str 4;
     if c4 \<noteq> 41 then Some None else do {
     c5 \<leftarrow> rd str 5;
     if c5 \<noteq> 62 then Some None
     else Some (Some (push_bit 4 (hex_value c2) OR hex_value c3)) } } } } } }"

fun kprint :: "'d bus \<Rightarrow> bytes \<Rightarrow> 'd console \<Rightarrow> 'd console option" where
  "kprint bus [] s = None"
| "kprint bus (c # str) s =
     (if c = 0 then Some s
      else do {
        e \<leftarrow> color_escape (c # str);
        case e of
          Some col \<Rightarrow> kprint bus (drop 5 str) (s\<lparr>color := col\<rparr>)
        | None \<Rightarrow> do { s1 \<leftarrow> putchar bus c (color s) s; kprint bus str s1 } })"

fun kprintc :: "'d bus \<Rightarrow> bytes \<Rightarrow> u8 \<Rightarrow> 'd console \<Rightarrow> 'd console option" where
  "kprintc bus [] attr s = None"
| "kprintc bus (c # str) attr s =
     (if c = 0 then Some s
      else if c = 8 then do {
        s1 \<leftarrow> putchar bus 32 attr s;
        let (p, s2) = get_cursor bus s1;
        kprintc bus str attr (set_cursor bus (p - 2) s2) }
      else do {
        s1 \<leftarrow> putchar bus c attr s;
        let (p, s2) = get_cursor bus s1;
        kprintc bus str attr (set_cursor bus (p + 1) s2) })"

fun draw_text_loop :: "bytes \<Rightarrow> i32 \<Rightarrow> u8 \<Rightarrow> 'd console \<Rightarrow> 'd console option" where
  "draw_text_loop [] offset col s = None"
| "draw_text_loop (c # str) offset col s =
     (if c = 0 then Some s
      else do { s1 \<leftarrow> write_cell c col (ucast offset) s; draw_text_loop str (offset + 2) col s1 })"

definition vga_draw_text :: "bytes \<Rightarrow> i32 \<Rightarrow> i32 \<Rightarrow> u8 \<Rightarrow> 'd console \<Rightarrow> 'd console option" where
  "vga_draw_text str x y col s = draw_text_loop str ((y * 80 + x) * 2) col s"

section \<open>The CRT controller\<close>

text \<open>
  What the routines rely on: port 0x3D4 selects a register, and port 0x3D5 writes and reads back the
  selected cursor register.
\<close>

definition crtc :: "'d bus \<Rightarrow> ('d \<Rightarrow> u8) \<Rightarrow> ('d \<Rightarrow> u8 \<Rightarrow> u8) \<Rightarrow> bool" where
  "crtc bus idx reg \<longleftrightarrow>
     (\<forall>d v. idx (outb bus 0x3D4 v d) = v \<and> reg (outb bus 0x3D4 v d) = reg d)
     \<and> (\<forall>d v. idx d = 14 \<or> idx d = 15 \<longrightarrow> reg (outb bus 0x3D5 v d) = (reg d)(idx d := v))
     \<and> (\<forall>d. idx d = 14 \<or> idx d = 15 \<longrightarrow>
          fst (inb bus 0x3D5 d) = reg d (idx d) \<and> reg (snd (inb bus 0x3D5 d)) = reg d)"

definition cursor_at :: "('d \<Rightarrow> u8 \<Rightarrow> u8) \<Rightarrow> 'd console \<Rightarrow> nat" where
  "cursor_at reg s = unat (reg (dev s) 14) * 256 + unat (reg (dev s) 15)"

lemma cursor_word: "(push_bit 8 (ucast (h :: u8)) + ucast (l :: u8)) * 2 = (of_nat (2 * (unat h * 256 + unat l)) :: u16)"
proof -
  have "ucast h = (of_nat (unat h) :: u16)" "ucast l = (of_nat (unat l) :: u16)" by simp_all
  then show ?thesis unfolding push_bit_eq_mult by (simp only: of_nat_mult of_nat_add) simp
qed

lemma get_cursor_crtc:
  assumes "crtc bus idx reg"
  shows "\<exists>d. get_cursor bus s = (of_nat (2 * cursor_at reg s), s\<lparr>dev := d\<rparr>) \<and> reg d = reg (dev s)"
proof -
  let ?d1 = "outb bus 0x3D4 14 (dev s)"
  obtain h d2 where h: "inb bus 0x3D5 ?d1 = (h, d2)" by fastforce
  let ?d3 = "outb bus 0x3D4 15 d2"
  obtain l d4 where l: "inb bus 0x3D5 ?d3 = (l, d4)" by fastforce
  have o: "idx (outb bus 0x3D4 v d) = v" "reg (outb bus 0x3D4 v d) = reg d" for v d
    using assms by (simp_all add: crtc_def)
  have i: "idx d = 14 \<or> idx d = 15 \<Longrightarrow> inb bus 0x3D5 d = (v, d') \<Longrightarrow> v = reg d (idx d) \<and> reg d' = reg d"
    for v d d'
    using assms unfolding crtc_def by (metis fst_conv snd_conv)
  have r: "h = reg (dev s) 14" "reg d2 = reg (dev s)" "l = reg (dev s) 15" "reg d4 = reg (dev s)"
    using i [OF _ h] i [OF _ l] o by simp_all
  have "get_cursor bus s = (of_nat (2 * cursor_at reg s), s\<lparr>dev := d4\<rparr>)"
    unfolding get_cursor_def Let_def h prod.case l cursor_word cursor_at_def r ..
  then show ?thesis using r(4) by blast
qed

lemma unat_high: "unat (ucast (drop_bit 8 (p :: u16)) :: u8) = unat p div 256"
proof -
  have "unat p < 65536" using unsigned_less [of p] by simp
  then show ?thesis by (simp add: drop_bit_eq_div unat_div unsigned_ucast_eq take_bit_eq_mod)
qed

lemma unat_low: "unat (ucast ((p :: u16) AND 0xFF) :: u8) = unat p mod 256"
proof -
  have "p AND 0xFF = take_bit 8 p" by (simp add: take_bit_eq_mask mask_eq_exp_minus_1)
  then show ?thesis by (simp add: unsigned_ucast_eq unsigned_take_bit_eq take_bit_eq_mod unat_mod)
qed

lemma set_cursor_crtc:
  assumes "crtc bus idx reg"
  shows "cursor_at reg (set_cursor bus pos s) = unat pos div 2"
    "vram (set_cursor bus pos s) = vram s" "color (set_cursor bus pos s) = color s"
proof -
  let ?p = "pos div 2"
  have "cursor_at reg (set_cursor bus pos s)
      = unat (ucast (drop_bit 8 ?p) :: u8) * 256 + unat (ucast (?p AND 0xFF) :: u8)"
    using assms by (simp add: set_cursor_def crtc_def cursor_at_def Let_def)
  also have "\<dots> = unat ?p" unfolding unat_high unat_low by simp
  finally show "cursor_at reg (set_cursor bus pos s) = unat pos div 2" by (simp add: unat_div)
qed (simp_all add: set_cursor_def Let_def)

section \<open>The abstract terminal\<close>

type_synonym cell = "u8 \<times> u8"

abbreviation blank :: cell where
  "blank \<equiv> (32, 7)"

definition term_feed :: "cell list \<times> nat \<Rightarrow> cell list \<times> nat" where
  "term_feed t = (case t of (cs, p) \<Rightarrow>
     if p div 80 = 24 then (drop 80 cs @ replicate 80 blank, 1920) else (cs, p - p mod 80 + 80))"

text \<open>The last column is never written: a character there starts the next line.\<close>

definition term_put :: "u8 \<Rightarrow> u8 \<Rightarrow> cell list \<times> nat \<Rightarrow> cell list \<times> nat" where
  "term_put c a t = (let (cs, p) = (if snd t mod 80 = 79 then term_feed t else t)
     in (cs[p := (c, a)], p + 1))"

definition term_char :: "u8 \<Rightarrow> u8 \<Rightarrow> cell list \<times> nat \<Rightarrow> cell list \<times> nat" where
  "term_char c a t =
     (if c = 10 then term_feed t
      else if c = 8 then (let (cs, p) = term_put 32 a (fst t, snd t - 1) in (cs, p - 1))
      else term_put c a t)"

definition cells :: "bytes \<Rightarrow> cell list" where
  "cells v = map (\<lambda>i. (v ! (2 * i), v ! (2 * i + 1))) [0..<2000]"

text \<open>The video memory shows the cells \<open>cs\<close>; the bytes behind the screen are \<open>rest\<close>.\<close>

definition holds :: "bytes \<Rightarrow> bytes \<Rightarrow> cell list \<Rightarrow> bool" where
  "holds rest v cs \<longleftrightarrow> 4000 \<le> length v \<and> cells v = cs \<and> drop 4000 v = rest"

definition screen :: "('d \<Rightarrow> u8 \<Rightarrow> u8) \<Rightarrow> bytes \<Rightarrow> 'd console \<Rightarrow> cell list \<times> nat \<Rightarrow> bool" where
  "screen reg rest s t \<longleftrightarrow> holds rest (vram s) (fst t) \<and> cursor_at reg s = snd t \<and> snd t < 2000"

lemma holds_length: "holds rest v cs \<Longrightarrow> length cs = 2000 \<and> 4000 \<le> length v"
  by (auto simp: holds_def cells_def)

lemma holds_nth: "holds rest v cs \<Longrightarrow> i < 2000 \<Longrightarrow> cs ! i = (v ! (2 * i), v ! (2 * i + 1))"
  by (auto simp: holds_def cells_def)

text \<open>Two writes to the bytes of a cell.\<close>

lemma holds_store:
  assumes "holds rest v cs" and "i < 2000"
  shows "wr v (2 * i) c = Some (v[2 * i := c]) \<and> wr (v[2 * i := c]) (2 * i + 1) a = Some (v[2 * i := c, 2 * i + 1 := a])
    \<and> holds rest (v[2 * i := c, 2 * i + 1 := a]) (cs[i := (c, a)])"
proof -
  have l: "2 * i + 1 < length v" using assms by (auto simp: holds_def)
  have "cells (v[2 * i := c, 2 * i + 1 := a]) = cs[i := (c, a)]"
  proof (rule nth_equalityI)
    show "length (cells (v[2 * i := c, 2 * i + 1 := a])) = length (cs[i := (c, a)])"
      using holds_length [OF assms(1)] by (simp add: cells_def)
    fix j assume "j < length (cells (v[2 * i := c, 2 * i + 1 := a]))"
    then have j: "j < 2000" by (simp add: cells_def)
    have "2 * j + 1 < length v" using j assms(1) by (auto simp: holds_def)
    moreover have "2 * i + 1 \<noteq> 2 * j" "2 * i \<noteq> 2 * j + 1" by presburger+
    ultimately show "cells (v[2 * i := c, 2 * i + 1 := a]) ! j = cs[i := (c, a)] ! j"
      using j l holds_nth [OF assms(1) j] holds_length [OF assms(1)]
      by (auto simp: cells_def nth_list_update)
  qed
  then show ?thesis using assms l by (simp add: holds_def)
qed

lemma scroll_cell_holds:
  assumes "holds rest v cs" and "row \<in> {1..<25}" and "col < 80"
  shows "\<exists>v'. scroll_cell row col v = Some v' \<and> holds rest v' (cs[(row - 1) * 80 + col := cs ! (row * 80 + col)])"
proof -
  let ?i = "(row - 1) * 80 + col" and ?j = "row * 80 + col"
  have b: "?i < 2000" "?j < 2000" "?i \<noteq> ?j" using assms by auto
  have l: "4000 \<le> length v" using assms(1) by (simp add: holds_def)
  have ne: "?j * 2 + 1 \<noteq> ?i * 2" using assms(2) by (cases row) (simp, presburger)
  have m: "?i * 2 = 2 * ?i" "?j * 2 = 2 * ?j" by simp_all
  have r: "rd v (2 * ?j) = Some (fst (cs ! ?j))"
    "rd (v[2 * ?i := fst (cs ! ?j)]) (2 * ?j + 1) = Some (snd (cs ! ?j))"
    using holds_nth [OF assms(1) b(2)] l b ne by (simp_all add: rd_def nth_list_update)
  show ?thesis
    using holds_store [OF assms(1) b(1), of "fst (cs ! ?j)" "snd (cs ! ?j)"] r
    unfolding scroll_cell_def Let_def m by simp
qed

lemma blank_cell_holds:
  assumes "holds rest v cs" and "col < 80"
  shows "\<exists>v'. blank_cell col v = Some v' \<and> holds rest v' (cs[1920 + col := blank])"
proof -
  have e: "(25 - 1) * 80 * 2 + col * 2 = 2 * (1920 + col)" by simp
  show ?thesis using holds_store [OF assms(1), of "1920 + col" 32 7] assms(2)
    unfolding blank_cell_def Let_def e by simp
qed

lemma shift_up:
  assumes "length cs = 2000" and "n \<le> 1920"
  shows "fold (\<lambda>j cs. cs[j := cs ! (j + 80)]) [0..<n] cs = take n (drop 80 cs) @ drop n cs"
  using assms(2)
proof (induction n)
  case 0
  then show ?case by simp
next
  case (Suc n)
  let ?l = "take n (drop 80 cs) @ drop n cs"
  have "fold (\<lambda>j cs. cs[j := cs ! (j + 80)]) [0..<Suc n] cs = ?l[n := ?l ! (n + 80)]"
    using Suc by simp
  also have "\<dots> = take (Suc n) (drop 80 cs) @ drop (Suc n) cs"
    using Suc.prems assms(1)
    by (intro nth_equalityI) (auto simp: nth_append nth_list_update less_Suc_eq add.commute)
  finally show ?case .
qed

lemma shift_rows:
  "fold (\<lambda>row. fold (\<lambda>col cs. cs[(row - 1) * 80 + col := cs ! (row * 80 + col)]) [0..<80]) [1..<Suc r] (cs :: cell list)
   = fold (\<lambda>j cs. cs[j := cs ! (j + 80)]) [0..<80 * r] cs"
proof (induction r)
  case 0
  then show ?case by simp
next
  case (Suc r)
  have "[80 * r..<80 * r + 80] = map (\<lambda>c. 80 * r + c) [0..<80]"
    using map_add_upt [of "80 * r" 80] by (simp add: add.commute)
  moreover have "[0..<80 * Suc r] = [0..<80 * r] @ [80 * r..<80 * r + 80]"
    using upt_add_eq_append [of 0 "80 * r" 80] by (simp add: add.commute)
  moreover have "(\<lambda>col cs. cs[(Suc r - 1) * 80 + col := cs ! (Suc r * 80 + col)])
      = (\<lambda>j cs :: cell list. cs[j := cs ! (j + 80)]) \<circ> (\<lambda>c. 80 * r + c)"
    by (intro ext) (simp add: ac_simps)
  moreover have "[1..<Suc (Suc r)] = [1..<Suc r] @ [Suc r]" by simp
  ultimately show ?case using Suc by (simp only: fold_append o_apply fold_map fold_simps)
qed

lemma blank_row:
  assumes "length cs = 2000" and "n \<le> 80"
  shows "fold (\<lambda>col cs. cs[1920 + col := b]) [0..<n] cs = take 1920 cs @ replicate n b @ drop (1920 + n) cs"
  using assms(2)
proof (induction n)
  case 0
  then show ?case by simp
next
  case (Suc n)
  have "drop (1920 + n) cs = cs ! (1920 + n) # drop (1920 + Suc n) cs"
    using Suc.prems assms(1) Cons_nth_drop_Suc [of "1920 + n" cs, symmetric] by simp
  then show ?case using Suc assms(1) by (simp add: list_update_append replicate_append_same)
qed

lemma scroll_holds:
  assumes "holds rest (vram s) cs"
  shows "\<exists>v. scroll_line bus s = Some (set_cursor bus 3840 (s\<lparr>vram := v\<rparr>))
    \<and> holds rest v (drop 80 cs @ replicate 80 blank)"
proof -
  have l: "length cs = 2000" using holds_length [OF assms] by simp
  let ?g = "\<lambda>row col cs. cs[(row - 1) * 80 + col := cs ! (row * 80 + col)]"
  have row: "\<exists>v'. iter (scroll_cell row) [0..<80] v = Some v' \<and> holds rest v' (fold (?g row) [0..<80] x)"
    if "row \<in> {1..<25}" "holds rest v x" for row v x
    using that scroll_cell_holds
    by (intro iter_refines [where R = "holds rest" and g = "?g row"]) auto
  obtain v1 where v1: "iter (\<lambda>row. iter (scroll_cell row) [0..<80]) [1..<25] (vram s) = Some v1"
    "holds rest v1 (fold (\<lambda>row. fold (?g row) [0..<80]) [1..<25] cs)"
    using iter_refines [where R = "holds rest" and g = "\<lambda>row. fold (?g row) [0..<80]"
        and f = "\<lambda>row. iter (scroll_cell row) [0..<80]" and xs = "[1..<25]", OF assms] row by fastforce
  obtain v2 where v2: "iter blank_cell [0..<80] v1 = Some v2"
    "holds rest v2 (fold (\<lambda>col cs. cs[1920 + col := blank]) [0..<80]
      (fold (\<lambda>row. fold (?g row) [0..<80]) [1..<25] cs))"
    using iter_refines [where R = "holds rest" and g = "\<lambda>col cs. cs[1920 + col := blank]"
        and f = blank_cell and xs = "[0..<80]", OF v1(2)] blank_cell_holds by fastforce
  have "[1..<25] = [1..<Suc 24]" by simp
  then have s: "fold (\<lambda>row. fold (?g row) [0..<80]) [1..<25] cs = take 1920 (drop 80 cs) @ drop 1920 cs"
    using shift_rows [of 24 cs] shift_up [OF l, of 1920] by (simp only:) simp
  have "fold (\<lambda>col cs. cs[1920 + col := blank]) [0..<80] (take 1920 (drop 80 cs) @ drop 1920 cs)
      = drop 80 cs @ replicate 80 blank"
    using blank_row [of "take 1920 (drop 80 cs) @ drop 1920 cs" 80 blank] l by simp
  then show ?thesis
    using v1(1) v2 unfolding s by (intro exI [of _ v2]) (simp add: scroll_line_def)
qed

lemma unat_ucast8 [simp]: "unat (ucast (z :: u8) :: u16) = unat z"
proof -
  have "unat z < 256" using unsigned_less [of z] by simp
  then show ?thesis by (simp add: unsigned_ucast_eq take_bit_nat_eq_self)
qed

lemma unat_offset: "p < 2 ^ 15 \<Longrightarrow> unat (of_nat (2 * p) :: u16) = 2 * p"
  by (simp add: unsigned_of_nat take_bit_nat_eq_self del: of_nat_mult)

lemma screen_cursor:
  assumes "crtc bus idx reg" and "screen reg rest s t"
  shows "\<exists>s'. get_cursor bus s = (of_nat (2 * snd t), s') \<and> screen reg rest s' t \<and> color s' = color s"
proof -
  obtain d where d: "get_cursor bus s = (of_nat (2 * cursor_at reg s), s\<lparr>dev := d\<rparr>)" "reg d = reg (dev s)"
    using get_cursor_crtc [OF assms(1)] by blast
  have c: "cursor_at reg s = snd t" using assms(2) by (simp add: screen_def)
  have "screen reg rest (s\<lparr>dev := d\<rparr>) t" using assms(2) d(2) by (simp add: screen_def cursor_at_def)
  then show ?thesis using d(1) unfolding c by auto
qed

lemma screen_set_cursor:
  assumes "crtc bus idx reg" and "holds rest (vram s) cs" and "q < 2000" and "unat pos div 2 = q"
  shows "screen reg rest (set_cursor bus pos s) (cs, q)"
  using set_cursor_crtc [OF assms(1)] assms(2-4) by (simp add: screen_def)

lemma line_feed_screen:
  assumes "crtc bus idx reg" and "screen reg rest s (cs, p)"
  shows "\<exists>s'. line_feed bus (of_nat (2 * p)) s = Some s' \<and> screen reg rest s' (term_feed (cs, p)) \<and> color s' = color s"
proof -
  let ?o = "of_nat (2 * p) :: u16"
  have p: "p < 2000" and h: "holds rest (vram s) cs" using assms(2) by (simp_all add: screen_def)
  have u: "unat ?o = 2 * p" using p by (intro unat_offset) simp
  have row: "?o div 2 div 80 = 25 - 1 \<longleftrightarrow> p div 80 = 24"
  proof -
    have "unat (?o div 2 div 80) = p div 80" unfolding unat_div u by simp
    then show ?thesis using unsigned_word_eqI [of "?o div 2 div 80" "24 :: u16"] by auto
  qed
  show ?thesis
  proof (cases "p div 80 = 24")
    case True
    obtain v where v: "scroll_line bus s = Some (set_cursor bus 3840 (s\<lparr>vram := v\<rparr>))"
      "holds rest v (drop 80 cs @ replicate 80 blank)"
      using scroll_holds [OF h] by blast
    then show ?thesis
      using True row screen_set_cursor [OF assms(1), of rest "s\<lparr>vram := v\<rparr>" _ 1920 3840]
        set_cursor_crtc(3) [OF assms(1)]
      by (simp add: line_feed_def term_feed_def)
  next
    case False
    have "unat (?o mod 160) = 2 * (p mod 80)" unfolding unat_mod u using mult_mod_right [of 2 p 80] by simp
    moreover have "?o mod 160 \<le> ?o" by (simp add: word_le_nat_alt unat_mod)
    ultimately have d: "unat (?o - ?o mod 160) = 2 * p - 2 * (p mod 80)" using u by (simp add: unat_sub)
    have "2 * p - 2 * (p mod 80) + 160 < 65536" using p by simp
    then have "unat ((?o - ?o mod 160) + 160) = 2 * (p - p mod 80 + 80)"
      using d by (simp add: unat_word_ariths)
    moreover have "p - p mod 80 + 80 < 2000"
    proof -
      have "p div 80 < 24" using False p by linarith
      then have "p div 80 * 80 + 80 < 2000" by linarith
      then show ?thesis by (simp add: minus_mod_eq_div_mult)
    qed
    ultimately show ?thesis
      using False row screen_set_cursor [OF assms(1) h, of "p - p mod 80 + 80" "(?o - ?o mod 160) + 160"]
        set_cursor_crtc(3) [OF assms(1)]
      by (simp add: line_feed_def term_feed_def)
  qed
qed

lemma term_feed_bounds: "p < 2000 \<Longrightarrow> term_feed (cs, p) = (cs', q) \<Longrightarrow> q mod 80 = 0 \<and> q < 2000"
proof -
  assume p: "p < 2000" and f: "term_feed (cs, p) = (cs', q)"
  show ?thesis
  proof (cases "p div 80 = 24")
    case True
    then show ?thesis using f by (auto simp: term_feed_def)
  next
    case False
    then have q: "q = p - p mod 80 + 80" using f by (simp add: term_feed_def)
    have e: "p - p mod 80 = p div 80 * 80" by (simp add: minus_mod_eq_div_mult)
    have "p div 80 < 24" using False p by linarith
    then show ?thesis unfolding q e by simp
  qed
qed

lemma write_screen:
  assumes "screen reg rest s (cs, p)" and "i < 2000"
  shows "\<exists>s'. write_cell c a (of_nat (2 * i)) s = Some s' \<and> holds rest (vram s') (cs[i := (c, a)])
    \<and> dev s' = dev s \<and> color s' = color s"
proof -
  have "unat (of_nat (2 * i) :: u16) = 2 * i" using assms(2) by (intro unat_offset) simp
  then show ?thesis
    using holds_store [of rest "vram s" cs i c a] assms by (simp add: write_cell_def screen_def)
qed

lemma put_glyph_screen:
  assumes cr: "crtc bus idx reg" and sc: "screen reg rest s t"
  shows "\<exists>s'. put_glyph bus c a s = Some s' \<and> screen reg rest s' (term_put c a t) \<and> color s' = color s"
proof -
  obtain cs p where t: "t = (cs, p)" by (cases t)
  have p: "p < 2000" using sc t by (simp add: screen_def)
  let ?o = "of_nat (2 * p) :: u16"
  have u: "unat ?o = 2 * p" using p by (intro unat_offset) simp
  obtain s1 where s1: "get_cursor bus s = (?o, s1)" "screen reg rest s1 (cs, p)" "color s1 = color s"
    using screen_cursor [OF cr sc] t by auto
  have col: "79 \<le> (?o div 2) mod 80 \<longleftrightarrow> p mod 80 = 79"
  proof -
    have "unat ((?o div 2) mod 80) = p mod 80" unfolding unat_div unat_mod u by simp
    then have "79 \<le> (?o div 2) mod 80 \<longleftrightarrow> 79 \<le> p mod 80" by (simp add: word_le_nat_alt)
    then show ?thesis by auto
  qed
  obtain s2 cs2 q where s2: "(if 79 \<le> (?o div 2) mod 80
      then do { t \<leftarrow> line_feed bus ?o s1; Some (get_cursor bus t) } else Some (?o, s1)) = Some (of_nat (2 * q), s2)"
    "screen reg rest s2 (cs2, q)" "color s2 = color s" "q mod 80 \<noteq> 79" "q < 2000"
    "(if p mod 80 = 79 then term_feed (cs, p) else (cs, p)) = (cs2, q)"
  proof (cases "p mod 80 = 79")
    case True
    obtain cs2 q where f: "term_feed (cs, p) = (cs2, q)" by fastforce
    obtain s' where s': "line_feed bus ?o s1 = Some s'" "screen reg rest s' (cs2, q)" "color s' = color s"
      using line_feed_screen [OF cr s1(2)] s1(3) f by auto
    obtain s2 where "get_cursor bus s' = (of_nat (2 * q), s2)" "screen reg rest s2 (cs2, q)" "color s2 = color s"
      using screen_cursor [OF cr s'(2)] s'(3) by auto
    then show ?thesis using that [of q s2 cs2] True col f s'(1) term_feed_bounds [OF p f] by simp
  next
    case False
    then show ?thesis using that [of p s1 cs] col s1 p by simp
  qed
  have q: "q + 1 < 2000"
  proof (rule ccontr)
    assume "\<not> q + 1 < 2000"
    then have "q = 1999" using s2(5) by simp
    then show False using s2(4) by simp
  qed
  have o: "unat (of_nat (2 * q) :: u16) = 2 * q" using s2(5) by (intro unat_offset) simp
  then have ne: "(of_nat (2 * q) :: u16) \<noteq> 4000" using s2(5) by (auto simp del: of_nat_mult)
  obtain s3 where s3: "write_cell c a (of_nat (2 * q)) s2 = Some s3" "holds rest (vram s3) (cs2[q := (c, a)])"
    "color s3 = color s"
    using write_screen [OF s2(2,5)] s2(3) by metis
  have "unat (of_nat (2 * q) + 2 :: u16) = 2 * q + 2" using o q by (simp add: unat_word_ariths del: of_nat_mult)
  then have "screen reg rest (set_cursor bus (of_nat (2 * q) + 2) s3) (cs2[q := (c, a)], q + 1)"
    using q by (intro screen_set_cursor [OF cr s3(2)]) simp_all
  moreover have "put_glyph bus c a s = Some (set_cursor bus (of_nat (2 * q) + 2) s3)"
    using s1(1) s2(1) s3(1) ne by (simp add: put_glyph_def del: of_nat_mult)
  moreover have "term_put c a t = (cs2[q := (c, a)], q + 1)"
    using s2(6) t by (auto simp: term_put_def Let_def)
  ultimately show ?thesis using set_cursor_crtc(3) [OF cr] s3(3) by simp
qed

lemma term_put_pos: "p < 2000 \<Longrightarrow> 0 < snd (term_put c a (cs, p))"
  by (simp add: term_put_def Let_def split: prod.splits)

lemma putchar_screen:
  assumes cr: "crtc bus idx reg" and sc: "screen reg rest s t" and b: "c = 8 \<Longrightarrow> 0 < snd t"
  shows "\<exists>s'. putchar bus c a s = Some s' \<and> screen reg rest s' (term_char c a t) \<and> color s' = color s"
proof -
  obtain cs p where t: "t = (cs, p)" by (cases t)
  have p: "p < 2000" using sc t by (simp add: screen_def)
  obtain s1 where s1: "get_cursor bus s = (of_nat (2 * p), s1)" "screen reg rest s1 (cs, p)" "color s1 = color s"
    using screen_cursor [OF cr sc] t by auto
  consider "c = 10" | "c = 8" | "c \<noteq> 10" "c \<noteq> 8" by blast
  then show ?thesis
  proof cases
    case 1
    then show ?thesis
      using s1 line_feed_screen [OF cr s1(2)] t by (auto simp: putchar_def term_char_def)
  next
    case 2
    then have p0: "0 < p" using b t by simp
    obtain s2 where s2: "get_cursor bus s1 = (of_nat (2 * p), s2)" "screen reg rest s2 (cs, p)" "color s2 = color s"
      using screen_cursor [OF cr s1(2)] s1(3) by auto
    have "unat (of_nat (2 * p) - 1 :: u16) = 2 * p - 1"
      using unat_offset [of p] p p0 by (subst unat_sub) (simp_all add: word_le_nat_alt del: of_nat_mult)
    then have "unat (of_nat (2 * p) - 1 :: u16) div 2 = p - 1" using p0 by simp
    then have s3: "screen reg rest (set_cursor bus (of_nat (2 * p) - 1) s2) (cs, p - 1)"
      using s2(2) p by (intro screen_set_cursor [OF cr]) (simp_all add: screen_def)
    obtain cs4 q where q: "term_put 32 a (cs, p - 1) = (cs4, q)" by fastforce
    obtain s4 where s4: "put_glyph bus 32 a (set_cursor bus (of_nat (2 * p) - 1) s2) = Some s4"
      "screen reg rest s4 (cs4, q)" "color s4 = color s"
      using put_glyph_screen [OF cr s3, of 32 a] set_cursor_crtc(3) [OF cr] s2(3) q by metis
    have q0: "0 < q" "q < 2000" using term_put_pos [of "p - 1" 32 a cs] q p s4(2) by (simp_all add: screen_def)
    obtain s5 where s5: "get_cursor bus s4 = (of_nat (2 * q), s5)" "screen reg rest s5 (cs4, q)" "color s5 = color s"
      using screen_cursor [OF cr s4(2)] s4(3) by auto
    have "unat (of_nat (2 * q) - 2 :: u16) = 2 * q - 2"
      using unat_offset [of q] q0 by (subst unat_sub) (simp_all add: word_le_nat_alt del: of_nat_mult)
    then have "unat (of_nat (2 * q) - 2 :: u16) div 2 = q - 1" by simp
    then have "screen reg rest (set_cursor bus (of_nat (2 * q) - 2) s5) (cs4, q - 1)"
      using s5(2) q0 by (intro screen_set_cursor [OF cr]) (simp_all add: screen_def)
    moreover have "putchar bus c a s = Some (set_cursor bus (of_nat (2 * q) - 2) s5)"
      using 2 s1(1) s2(1) s4(1) s5(1) by (simp add: putchar_def del: of_nat_mult)
    moreover have "term_char c a t = (cs4, q - 1)" using 2 q t by (simp add: term_char_def)
    ultimately show ?thesis using set_cursor_crtc(3) [OF cr] s5(3) by simp
  next
    case 3
    then show ?thesis using put_glyph_screen [OF cr sc, of c a] by (simp add: putchar_def term_char_def)
  qed
qed

section \<open>Strings with colour escapes\<close>

definition starts_escape :: "bytes \<Rightarrow> bool" where
  "starts_escape l \<longleftrightarrow> 6 \<le> length l \<and> l ! 0 = 60 \<and> l ! 1 = 40 \<and> hex_digit (l ! 2) \<and> hex_digit (l ! 3)
     \<and> l ! 4 = 41 \<and> l ! 5 = 62"

definition escape_color :: "bytes \<Rightarrow> u8" where
  "escape_color l = push_bit 4 (hex_value (l ! 2)) OR hex_value (l ! 3)"

text \<open>The characters a string prints, each with its colour, and the colour it leaves.\<close>

fun tokens :: "u8 \<Rightarrow> bytes \<Rightarrow> (u8 \<times> u8) list \<times> u8" where
  "tokens col [] = ([], col)"
| "tokens col (c # l) =
     (if starts_escape (c # l) then tokens (escape_color (c # l)) (drop 5 l)
      else (let (ts, col') = tokens col l in ((c, col) # ts, col')))"

definition show_tokens :: "(u8 \<times> u8) list \<Rightarrow> cell list \<times> nat \<Rightarrow> cell list \<times> nat" where
  "show_tokens ts t = fold (\<lambda>(c, a). term_char c a) ts t"

lemma inside_string:
  "terminated str \<Longrightarrow> (\<forall>j < i. str ! j \<noteq> 0) \<Longrightarrow> i < length str \<and> i \<le> length (cstr str)"
proof (induction str arbitrary: i)
  case Nil
  then show ?case by simp
next
  case (Cons c str)
  show ?case
  proof (cases i)
    case 0
    then show ?thesis by simp
  next
    case (Suc k)
    then have "c \<noteq> 0" using Cons.prems(2) by (metis nth_Cons_0 zero_less_Suc)
    moreover have "\<forall>j < k. str ! j \<noteq> 0" using Cons.prems(2) Suc by auto
    ultimately show ?thesis using Cons.IH [of k] Cons.prems(1) Suc by simp
  qed
qed

lemma cstr_nth: "i < length (cstr str) \<Longrightarrow> cstr str ! i = str ! i"
  using nth_cstr_nonzero by blast

lemma hex_digit_nonzero: "hex_digit c \<Longrightarrow> c \<noteq> 0"
  by (auto simp: hex_digit_def)

lemma color_escape_cstr:
  assumes "terminated str"
  shows "color_escape str = Some (if starts_escape (cstr str) then Some (escape_color (cstr str)) else None)"
proof (cases "starts_escape (cstr str)")
  case True
  then have l: "6 \<le> length (cstr str)" by (simp add: starts_escape_def)
  have e: "cstr str ! i = str ! i" "rd str i = Some (str ! i)" if "i < 6" for i
    using cstr_nth [of i str] that l length_cstr_le [of str] by simp_all
  show ?thesis
    using True e [of 0] e [of 1] e [of 2] e [of 3] e [of 4] e [of 5]
    by (simp add: color_escape_def starts_escape_def escape_color_def)
next
  case False
  note in_str = inside_string [OF assms]
  have r: "rd str i = Some (str ! i)" if "\<forall>j < i. str ! j \<noteq> 0" for i using in_str [OF that] by simp
  have eq: "cstr str ! i = str ! i" if "\<forall>j < 6. str ! j \<noteq> 0" "i < 6" for i
    using in_str [of 6] cstr_nth [of i str] that by simp
  have no: "\<not> (str ! 0 = 60 \<and> str ! 1 = 40 \<and> hex_digit (str ! 2) \<and> hex_digit (str ! 3) \<and> str ! 4 = 41 \<and> str ! 5 = 62)"
  proof
    assume a: "str ! 0 = 60 \<and> str ! 1 = 40 \<and> hex_digit (str ! 2) \<and> hex_digit (str ! 3) \<and> str ! 4 = 41 \<and> str ! 5 = 62"
    have nz: "\<forall>j < 6. str ! j \<noteq> 0"
    proof (intro allI impI)
      fix j :: nat assume "j < 6"
      then consider "j = 0" | "j = 1" | "j = 2" | "j = 3" | "j = 4" | "j = 5" by linarith
      then show "str ! j \<noteq> 0" using a hex_digit_nonzero by cases auto
    qed
    then have "6 \<le> length (cstr str)" using in_str [of 6] by blast
    then show False using False a eq [OF nz] by (simp add: starts_escape_def)
  qed
  have s: "rd str 1 = Some (str ! 1)" if "str ! 0 \<noteq> 0"
    using that by (intro r) simp
  have s2: "rd str 2 = Some (str ! 2)" if "str ! 0 \<noteq> 0" "str ! 1 \<noteq> 0"
    using that by (intro r) (auto simp: less_Suc_eq numeral_eq_Suc)
  have s3: "rd str 3 = Some (str ! 3)" if "str ! 0 \<noteq> 0" "str ! 1 \<noteq> 0" "str ! 2 \<noteq> 0"
    using that by (intro r) (auto simp: less_Suc_eq numeral_eq_Suc)
  have s4: "rd str 4 = Some (str ! 4)" if "str ! 0 \<noteq> 0" "str ! 1 \<noteq> 0" "str ! 2 \<noteq> 0" "str ! 3 \<noteq> 0"
    using that by (intro r) (auto simp: less_Suc_eq numeral_eq_Suc)
  have s5: "rd str 5 = Some (str ! 5)"
    if "str ! 0 \<noteq> 0" "str ! 1 \<noteq> 0" "str ! 2 \<noteq> 0" "str ! 3 \<noteq> 0" "str ! 4 \<noteq> 0"
    using that by (intro r) (auto simp: less_Suc_eq numeral_eq_Suc)
  have rs: "rd str 0 = Some (str ! 0)" "str ! 0 = 60 \<Longrightarrow> rd str 1 = Some (str ! 1)"
    "str ! 0 = 60 \<Longrightarrow> str ! 1 = 40 \<Longrightarrow> rd str 2 = Some (str ! 2)"
    "str ! 0 = 60 \<Longrightarrow> str ! 1 = 40 \<Longrightarrow> hex_digit (str ! 2) \<Longrightarrow> rd str 3 = Some (str ! 3)"
    "str ! 0 = 60 \<Longrightarrow> str ! 1 = 40 \<Longrightarrow> hex_digit (str ! 2) \<Longrightarrow> hex_digit (str ! 3) \<Longrightarrow> rd str 4 = Some (str ! 4)"
    "str ! 0 = 60 \<Longrightarrow> str ! 1 = 40 \<Longrightarrow> hex_digit (str ! 2) \<Longrightarrow> hex_digit (str ! 3) \<Longrightarrow> str ! 4 = 41
      \<Longrightarrow> rd str 5 = Some (str ! 5)"
    using r [of 0] s s2 s3 s4 s5 hex_digit_nonzero by simp_all
  show ?thesis
    using False no rs by (cases "str ! 0 = 60"; cases "str ! 1 = 40"; cases "hex_digit (str ! 2)";
        cases "hex_digit (str ! 3)"; cases "str ! 4 = 41"; simp add: color_escape_def)
qed

lemma kprint_screen:
  assumes cr: "crtc bus idx reg"
  shows "screen reg rest s t \<Longrightarrow> terminated str \<Longrightarrow> 8 \<notin> set (cstr str) \<Longrightarrow>
    \<exists>s'. kprint bus str s = Some s' \<and> screen reg rest s' (show_tokens (fst (tokens (color s) (cstr str))) t)
      \<and> color s' = snd (tokens (color s) (cstr str))"
proof (induction "length str" arbitrary: str s t rule: less_induct)
  case less
  obtain c l where str: "str = c # l" using less.prems(2) by (cases str) auto
  note esc = color_escape_cstr [OF less.prems(2)]
  show ?case
  proof (cases "c = 0")
    case True
    then show ?thesis using str less.prems(1) by (auto simp: show_tokens_def)
  next
    case c: False
    then have cs: "cstr str = c # cstr l" and tl: "terminated l" using str less.prems(2) by simp_all
    show ?thesis
    proof (cases "starts_escape (cstr str)")
      case True
      then have 5: "5 \<le> length (cstr l)" using cs by (simp add: starts_escape_def)
      have "set (cstr (drop 5 l)) \<subseteq> set (cstr str)"
        using cstr_drop [OF 5] cs set_drop_subset [of 5 "cstr l"] by auto
      moreover have "terminated (drop 5 l)" using terminated_drop [OF tl 5] .
      moreover have "screen reg rest (s\<lparr>color := escape_color (cstr str)\<rparr>) t"
        using less.prems(1) by (simp add: screen_def cursor_at_def)
      moreover have "length (drop 5 l) < length str" using str by simp
      ultimately obtain s' where "kprint bus (drop 5 l) (s\<lparr>color := escape_color (cstr str)\<rparr>) = Some s'"
        "screen reg rest s' (show_tokens (fst (tokens (escape_color (cstr str)) (cstr (drop 5 l)))) t)"
        "color s' = snd (tokens (escape_color (cstr str)) (cstr (drop 5 l)))"
        using less.hyps [of "drop 5 l" "s\<lparr>color := escape_color (cstr str)\<rparr>" t] less.prems(3) by auto
      then show ?thesis using True c str esc cs cstr_drop [OF 5] by simp
    next
      case False
      have "c \<noteq> 8" using less.prems(3) cs by auto
      then obtain s1 where s1: "putchar bus c (color s) s = Some s1"
        "screen reg rest s1 (term_char c (color s) t)" "color s1 = color s"
        using putchar_screen [OF cr less.prems(1), of c "color s"] by auto
      obtain ts col where tk: "tokens (color s) (cstr l) = (ts, col)" by fastforce
      obtain s' where "kprint bus l s1 = Some s'"
        "screen reg rest s' (show_tokens ts (term_char c (color s) t))" "color s' = col"
        using less.hyps [of l s1 "term_char c (color s) t"] str s1(2,3) tl less.prems(3) cs tk by auto
      then show ?thesis using False c str esc cs s1 tk by (simp add: show_tokens_def)
    qed
  qed
qed

section \<open>Properties\<close>

text \<open>A CRT controller: the index register and the register file.\<close>

definition crt_bus :: "(u8 \<times> (u8 \<Rightarrow> u8)) bus" where
  "crt_bus = \<lparr>port_outb = (\<lambda>p v (i, r). if p = 0x3D4 then (v, r) else if p = 0x3D5 then (i, r(i := v)) else (i, r)),
     port_inb = (\<lambda>p (i, r). (if p = 0x3D5 then r i else 0, (i, r))),
     port_outw = (\<lambda>p v d. d), port_inw = (\<lambda>p d. (0, d)), port_outl = (\<lambda>p v d. d), port_inl = (\<lambda>p d. (0, d))\<rparr>"

lemma crt_bus_crtc: "crtc crt_bus fst snd"
  by (auto simp: crtc_def crt_bus_def outb_def inb_def)

definition boot_console :: "(u8 \<times> (u8 \<Rightarrow> u8)) console" where
  "boot_console = \<lparr>vram = replicate 32768 0, dev = (0, \<lambda>_. 0), color = 7\<rparr>"

lemma boot_console_screen: "screen snd (replicate 28768 0) boot_console (replicate 2000 (0, 0), 0)"
proof -
  have "cells (replicate 32768 0) = replicate 2000 (0, 0)"
    by (intro nth_equalityI) (simp_all add: cells_def)
  then show ?thesis by (simp add: screen_def holds_def boot_console_def cursor_at_def)
qed

text \<open>
  A backspace at the top left corner leaves the screen: the cursor wraps around to position 32767 and
  the blank is written to offset 65534, outside the 32 KB text window.
\<close>

lemma putchar_home:
  assumes cr: "crtc bus idx reg" and sc: "screen reg rest s (cs, 0)" and len: "length (vram s) = 32768"
  shows "putchar bus 8 a s = None"
proof -
  obtain s1 where s1: "get_cursor bus s = (0, s1)" "vram s1 = vram s"
    using get_cursor_crtc [OF cr, of s] sc by (auto simp: screen_def)
  obtain s2 where s2: "get_cursor bus s1 = (0, s2)" "vram s2 = vram s"
    using get_cursor_crtc [OF cr, of s1] get_cursor_crtc [OF cr, of s] s1 sc
    by (auto simp: screen_def cursor_at_def)
  let ?s3 = "set_cursor bus (- 1) s2"
  have "unat (- 1 :: u16) = 65535" by (simp add: unsigned_minus_1_eq_mask mask_eq_exp_minus_1)
  then have "cursor_at reg ?s3 = 32767" "vram ?s3 = vram s"
    using set_cursor_crtc [OF cr, of "- 1" s2] s2(2) by simp_all
  then obtain s4 where s4: "get_cursor bus ?s3 = (0xFFFE, s4)" "vram s4 = vram s"
    using get_cursor_crtc [OF cr, of ?s3] by auto
  have "put_glyph bus 32 a ?s3 = None" using s4 len by (simp add: put_glyph_def write_cell_def)
  then show ?thesis using s1(1) s2(1) by (simp add: putchar_def)
qed

text \<open>
  C14. \<open>putchar\<close> for every character and cursor position. A backspace at the top left corner writes its
  blank outside the 32 KB text window (the cursor wraps around to position 32767). In every other case
  \<open>putchar\<close> implements the abstract terminal (line feed with scrolling by one line, a wrap before the last
  column, a backspace that blanks the cell before the cursor): it returns, the cursor stays on the screen,
  and no byte of video memory behind the 4000 of the screen is touched.
\<close>

theorem putchar_refines:
  assumes "crtc bus idx reg" and "screen reg rest s t"
  shows "if c = 8 \<and> snd t = 0 then length (vram s) = 32768 \<longrightarrow> putchar bus c a s = None
    else \<exists>s'. putchar bus c a s = Some s' \<and> screen reg rest s' (term_char c a t) \<and> color s' = color s"
  using putchar_screen [OF assms] putchar_home [OF assms(1)] assms(2) by (cases t) auto

theorem putchar_refines_witness:
  "(\<exists>s'. putchar crt_bus 65 7 boot_console = Some s'
     \<and> screen snd (replicate 28768 0) s' ((replicate 2000 (0, 0))[0 := (65, 7)], 1))
   \<and> putchar crt_bus 8 7 boot_console = None"
  using putchar_refines [OF crt_bus_crtc boot_console_screen, of 65 7]
    putchar_refines [OF crt_bus_crtc boot_console_screen, of 8 7]
  by (auto simp: term_char_def term_put_def boot_console_def)

text \<open>
  \<open>kprint\<close> of any string without backspaces returns; it shows the characters outside the colour
  escapes \<open><(XY)>\<close> on the terminal, each in the colour of the last escape before it, and keeps the last
  colour for the next call.
\<close>

theorem kprint_shows:
  assumes "crtc bus idx reg" and "screen reg rest s t" and "terminated str" and "8 \<notin> set (cstr str)"
  shows "\<exists>s'. kprint bus str s = Some s' \<and> screen reg rest s' (show_tokens (fst (tokens (color s) (cstr str))) t)
    \<and> color s' = snd (tokens (color s) (cstr str))"
  using kprint_screen [OF assms] .

theorem kprint_shows_witness:
  "\<exists>s'. kprint crt_bus (zlit ''<(0A)>hi'') boot_console = Some s' \<and> color s' = 10
     \<and> screen snd (replicate 28768 0) s' ((replicate 2000 (0, 0))[0 := (104, 10), 1 := (105, 10)], 2)"
proof -
  have z: "terminated (zlit ''<(0A)>hi'')" "8 \<notin> set (cstr (zlit ''<(0A)>hi''))" by (simp_all add: lit_def)
  have "tokens 7 (cstr (zlit ''<(0A)>hi'')) = ([(104, 10), (105, 10)], 10)"
    by (simp add: lit_def starts_escape_def escape_color_def hex_digit_def hex_value_def)
  moreover have "color boot_console = 7" by (simp add: boot_console_def)
  moreover have "show_tokens [(104, 10), (105, 10)] (replicate 2000 (0, 0), 0)
      = ((replicate 2000 (0, 0))[0 := (104, 10), 1 := (105, 10)], 2)"
    by (simp add: show_tokens_def term_char_def term_put_def)
  ultimately show ?thesis
    using kprint_shows [OF crt_bus_crtc boot_console_screen z] by (metis fst_conv snd_conv)
qed

text \<open>
  \<open>kclear\<close> returns, fills the whole screen with NUL cells in the default colour, puts the cursor at
  the top left corner and touches no byte behind the screen.
\<close>

theorem kclear_clears:
  assumes "crtc bus idx reg" and "holds rest (vram s) cs"
  shows "\<exists>s'. kclear bus s = Some s' \<and> screen reg rest s' (replicate 2000 (0, 7), 0)"
proof -
  let ?R = "\<lambda>s cs. holds rest (vram s) cs"
  have step: "\<exists>s'. write_cell 0 7 (of_nat (2 * i)) s = Some s' \<and> ?R s' (cs[i := (0, 7)])"
    if "i \<in> set [0..<2000]" "?R s cs" for i s cs
  proof -
    have "unat (of_nat (2 * i) :: u16) = 2 * i" using that(1) by (intro unat_offset) simp
    then show ?thesis using holds_store [OF that(2), of i 0 7] that(1) by (simp add: write_cell_def)
  qed
  have "\<exists>s'. iter (\<lambda>i. write_cell 0 7 (of_nat (2 * i))) [0..<2000] s = Some s'
      \<and> ?R s' (fold (\<lambda>i cs. cs[i := (0, 7)]) [0..<2000] cs)"
    by (rule iter_refines [where R = ?R]) (use assms(2) step in auto)
  then obtain s' where s': "iter (\<lambda>i. write_cell 0 7 (of_nat (2 * i))) [0..<2000] s = Some s'"
    "?R s' (fold (\<lambda>i cs. cs[i := (0, 7)]) [0..<2000] cs)" by blast
  have "fold (\<lambda>i cs. cs[i := (0, 7)]) [0..<n] cs = replicate n (0, 7) @ drop n cs" if "n \<le> 2000" for n
    using that
  proof (induction n)
    case (Suc n)
    have "drop n cs = cs ! n # drop (Suc n) cs"
      using Suc.prems holds_length [OF assms(2)] by (simp add: Cons_nth_drop_Suc)
    then show ?case using Suc by (simp add: list_update_append replicate_append_same)
  qed simp
  from this [of 2000] have "fold (\<lambda>i cs. cs[i := (0, 7)]) [0..<2000] cs = replicate 2000 (0, 7)"
    using holds_length [OF assms(2)] by simp
  then have "screen reg rest (set_cursor bus 0 s') (replicate 2000 (0, 7), 0)"
    using s'(2) by (intro screen_set_cursor [OF assms(1)]) simp_all
  then show ?thesis using s'(1) by (simp add: kclear_def)
qed

theorem kclear_clears_witness:
  "\<exists>s'. kclear crt_bus boot_console = Some s' \<and> screen snd (replicate 28768 0) s' (replicate 2000 (0, 7), 0)"
  using kclear_clears [OF crt_bus_crtc] boot_console_screen by (auto simp: screen_def)

text \<open>
  \<open>set_cursor_xy\<close> puts the cursor at the column and row given, each clamped to the screen, and
  \<open>get_cursor_x\<close> and \<open>get_cursor_y\<close> read them back.
\<close>

theorem cursor_xy:
  assumes cr: "crtc bus idx reg"
  shows "fst (get_cursor_x bus (set_cursor_xy bus x y s)) = (if x \<ge> 80 then 79 else x)
    \<and> fst (get_cursor_y bus (set_cursor_xy bus x y s)) = (if y \<ge> 25 then 24 else y)"
proof -
  obtain x1 y1 where x1: "x1 = (if x \<ge> 80 then 79 else x)" and y1: "y1 = (if y \<ge> 25 then 24 else y)"
    by blast
  have b: "unat x1 < 80" "unat y1 < 25" by (auto simp: word_le_nat_alt x1 y1)
  have w: "unat ((ucast y1 * 80 + ucast x1) * 2 :: u16) = (unat y1 * 80 + unat x1) * 2"
    using b by (simp add: unat_word_ariths)
  have "cursor_at reg (set_cursor_xy bus x y s) = unat y1 * 80 + unat x1"
    using set_cursor_crtc(1) [OF cr, of "(ucast y1 * 80 + ucast x1) * 2" s] w
    unfolding set_cursor_xy_def Let_def x1 y1 by simp
  then obtain d where g: "get_cursor bus (set_cursor_xy bus x y s)
      = (of_nat (2 * (unat y1 * 80 + unat x1)), d)"
    using get_cursor_crtc [OF cr, of "set_cursor_xy bus x y s"] by metis
  let ?o = "of_nat (2 * (unat y1 * 80 + unat x1)) :: u16"
  have o: "unat ?o = 2 * (unat y1 * 80 + unat x1)" using b by (intro unat_offset) simp
  have h: "2 * (unat y1 * 80 + unat x1) div 2 = unat y1 * 80 + unat x1" by simp
  have "unat (?o div 2 mod 80) = unat x1" "unat (?o div 2 div 80) = unat y1"
    unfolding unat_mod unat_div o using b h by simp_all
  then have "unat (ucast (?o div 2 mod 80) :: u8) = unat x1" "unat (ucast (?o div 2 div 80) :: u8) = unat y1"
    using b by (simp_all add: unsigned_ucast_eq take_bit_nat_eq_self)
  then have "ucast (?o div 2 mod 80) = x1" "ucast (?o div 2 div 80) = y1"
    using unsigned_word_eqI by blast+
  then show ?thesis unfolding get_cursor_x_def get_cursor_y_def g prod.case Let_def fst_conv x1 y1 by simp
qed

theorem cursor_xy_witness: "fst (get_cursor_x crt_bus (set_cursor_xy crt_bus 200 3 boot_console)) = 79"
  using cursor_xy [OF crt_bus_crtc, of 200 3 boot_console] by simp

end
