(* ===== verification/Format.thy ===== *)
theory Format
  imports Cstring Vga
begin

text \<open>
  The formatting routines of drivers/video/vga_default.c: \<open>snprintf\<close>, \<open>kprintf\<close>, \<open>kvprintf\<close>,
  \<open>int_to_str\<close> and \<open>kprint_hex\<close>. The variable arguments are a list of register values and of
  strings. All buffers are written from the front without gaps, so a buffer is the list of the bytes
  written so far together with its capacity; a write past the capacity is \<open>None\<close>, and so is reading
  past the end of the format string or taking an argument that is not there.

  The specification \<open>render\<close> says what a format means. \<open>snprintf\<close> is shown to be \<open>render\<close> cut to the
  size of the buffer, \<open>kprintf\<close> to print it when it fits its 256-byte buffer.
\<close>

section \<open>Arguments, buffers, digits\<close>

datatype varg = Num u64 | Str bytes

definition push :: "nat \<Rightarrow> bytes \<Rightarrow> u8 \<Rightarrow> bytes option" where
  "push cap b c = (if length b < cap then Some (b @ [c]) else None)"

text \<open>
  \<open>do { tmp[i++] = digit; n /= base; } while (n && more(i))\<close>; 32-bit values are widened.
\<close>

function dec_loop :: "nat \<Rightarrow> (nat \<Rightarrow> bool) \<Rightarrow> u64 \<Rightarrow> bytes \<Rightarrow> bytes option" where
  "dec_loop cap go n tmp = do {
     t \<leftarrow> push cap tmp (48 + ucast (n mod 10));
     if n div 10 \<noteq> 0 \<and> go (length t) then dec_loop cap go (n div 10) t else Some t }"
  by auto

lemma unat_div10_less: "n div 10 \<noteq> 0 \<Longrightarrow> unat (n div 10) < unat (n :: u64)"
proof -
  assume "n div 10 \<noteq> 0"
  then have "n \<noteq> 0" by auto
  then have "0 < unat n" by (simp add: unat_gt_0)
  then show ?thesis by (simp add: unat_div)
qed

termination dec_loop
  by (relation "measure (\<lambda>(cap, go, n, tmp). unat n)") (simp_all add: unat_div10_less)

definition hex_char :: "u8 \<Rightarrow> u64 \<Rightarrow> u8" where
  "hex_char a d = (if d < 10 then 48 + ucast d else a + ucast d - 10)"

function hex_loop :: "nat \<Rightarrow> (nat \<Rightarrow> bool) \<Rightarrow> u8 \<Rightarrow> u64 \<Rightarrow> bytes \<Rightarrow> bytes option" where
  "hex_loop cap go a n tmp = do {
     t \<leftarrow> push cap tmp (hex_char a (n AND 0xF));
     if drop_bit 4 n \<noteq> 0 \<and> go (length t) then hex_loop cap go a (drop_bit 4 n) t else Some t }"
  by auto

lemma unat_shift4_less: "drop_bit 4 n \<noteq> 0 \<Longrightarrow> unat (drop_bit 4 n) < unat (n :: u64)"
proof -
  assume "drop_bit 4 n \<noteq> 0"
  then have "n \<noteq> 0" by auto
  then have "0 < unat n" by (simp add: unat_gt_0)
  then show ?thesis by (simp add: drop_bit_eq_div unat_div)
qed

termination hex_loop
  by (relation "measure (\<lambda>(cap, go, a, n, tmp). unat n)") (simp_all add: unat_shift4_less)

section \<open>The flags of a directive\<close>

fun parse_width :: "i32 \<Rightarrow> bytes \<Rightarrow> (i32 \<times> bytes) option" where
  "parse_width w [] = None"
| "parse_width w (c # f) =
     (if 48 \<le> sint c \<and> sint c \<le> 57 then parse_width (w * 10 + (scast c - 48)) f else Some (w, c # f))"

datatype lmods = NoMods | LongLong | LongBoth

text \<open>0 is a plain directive, 1 has \<open>l\<close>, 2 has \<open>ll\<close>.\<close>

definition parse_len :: "lmods \<Rightarrow> bytes \<Rightarrow> (nat \<times> bytes) option" where
  "parse_len m f =
     (if m = NoMods then Some (0, f)
      else do {
        c \<leftarrow> rd f 0;
        if c = 108 then do {
          c1 \<leftarrow> rd f 1;
          if c1 = 108 then Some (2, drop 2 f)
          else if m = LongBoth then Some (1, tl f) else Some (0, f) }
        else Some (0, f) })"

definition parse_flags :: "lmods \<Rightarrow> bytes \<Rightarrow> ((u8 \<times> i32 \<times> nat) \<times> bytes) option" where
  "parse_flags m f = do {
     c \<leftarrow> rd f 0;
     let zero_pad = (if c = 48 then 48 else 32);
     (width, f1) \<leftarrow> parse_width 0 (if c = 48 then tl f else f);
     (lm, f2) \<leftarrow> parse_len m f1;
     Some ((zero_pad, width, lm), f2) }"

lemma parse_width_length: "parse_width w f = Some (w', f') \<Longrightarrow> length f' \<le> length f"
proof (induction w f rule: parse_width.induct)
  case (1 w)
  then show ?case by simp
next
  case (2 w c f)
  then show ?case by (cases "48 \<le> sint c \<and> sint c \<le> 57") force+
qed

lemma parse_len_length: "parse_len m f = Some (n, f') \<Longrightarrow> length f' \<le> length f"
  by (auto simp: parse_len_def Option.bind_eq_Some_conv split: if_splits)

lemma parse_flags_length: "parse_flags m f = Some (x, f') \<Longrightarrow> length f' \<le> length f"
  by (auto simp: parse_flags_def Option.bind_eq_Some_conv Let_def split: if_splits
      dest!: parse_width_length parse_len_length)

section \<open>snprintf\<close>

text \<open>\<open>while (n-- > 0 && len + 1 < size) buf[len++] = c\<close>, and the loops that copy a string and a number.\<close>

fun pad_loop :: "nat \<Rightarrow> nat \<Rightarrow> u8 \<Rightarrow> nat \<Rightarrow> bytes \<Rightarrow> bytes option" where
  "pad_loop cap sz c 0 buf = Some buf"
| "pad_loop cap sz c (Suc n) buf =
     (if length buf + 1 < sz then do { b \<leftarrow> push cap buf c; pad_loop cap sz c n b } else Some buf)"

fun str_loop :: "nat \<Rightarrow> nat \<Rightarrow> bytes \<Rightarrow> bytes \<Rightarrow> bytes option" where
  "str_loop cap sz [] buf = None"
| "str_loop cap sz (c # s) buf =
     (if c \<noteq> 0 \<and> length buf + 1 < sz then do { b \<leftarrow> push cap buf c; str_loop cap sz s b } else Some buf)"

fun num_loop :: "nat \<Rightarrow> nat \<Rightarrow> bytes \<Rightarrow> bytes \<Rightarrow> bytes option" where
  "num_loop cap sz [] buf = Some buf"
| "num_loop cap sz (c # ds) buf =
     (if length buf + 1 < sz then do { b \<leftarrow> push cap buf c; num_loop cap sz ds b } else Some buf)"

definition snprintf_directive ::
    "nat \<Rightarrow> nat \<Rightarrow> u8 \<times> i32 \<times> nat \<Rightarrow> u8 \<Rightarrow> varg list \<Rightarrow> bytes \<Rightarrow> (bytes \<times> varg list) option" where
  "snprintf_directive cap sz fl d args buf = (case fl of (zero_pad, width, _) \<Rightarrow>
     if d = 115 then (case args of Str s # as \<Rightarrow> do {
         slen \<leftarrow> strlen s;
         b \<leftarrow> pad_loop cap sz zero_pad (nat (sint (width - of_nat slen))) buf;
         b1 \<leftarrow> str_loop cap sz s b;
         Some (b1, as) } | _ \<Rightarrow> None)
     else if d = 100 then (case args of Num v # as \<Rightarrow> do {
         let n = (ucast v :: i32);
         let neg = sint n < 0;
         tmp \<leftarrow> dec_loop 16 (\<lambda>i. i < 15) (ucast (if neg then - n else n)) [];
         tmp1 \<leftarrow> (if neg \<and> length buf + 1 < sz then push 16 tmp 45 else Some tmp);
         b \<leftarrow> pad_loop cap sz zero_pad (nat (sint (width - of_nat (length tmp1)))) buf;
         b1 \<leftarrow> num_loop cap sz (rev tmp1) b;
         Some (b1, as) } | _ \<Rightarrow> None)
     else if d = 117 then (case args of Num v # as \<Rightarrow> do {
         tmp \<leftarrow> dec_loop 16 (\<lambda>i. i < 15) (ucast (ucast v :: u32)) [];
         b \<leftarrow> pad_loop cap sz zero_pad (nat (sint (width - of_nat (length tmp)))) buf;
         b1 \<leftarrow> num_loop cap sz (rev tmp) b;
         Some (b1, as) } | _ \<Rightarrow> None)
     else if d = 120 \<or> d = 88 then (case args of Num v # as \<Rightarrow> do {
         tmp \<leftarrow> hex_loop 16 (\<lambda>i. i < 15) (if d = 88 then 65 else 97) (ucast (ucast v :: u32)) [];
         b \<leftarrow> pad_loop cap sz zero_pad (nat (sint (width - of_nat (length tmp)))) buf;
         b1 \<leftarrow> num_loop cap sz (rev tmp) b;
         Some (b1, as) } | _ \<Rightarrow> None)
     else if d = 112 then (case args of Num v # as \<Rightarrow> do {
         b0 \<leftarrow> push cap buf 48;
         b1 \<leftarrow> (if length b0 + 1 < sz then push cap b0 120 else Some b0);
         tmp \<leftarrow> hex_loop 19 (\<lambda>i. i < 16) 97 v [];
         b2 \<leftarrow> pad_loop cap sz zero_pad (nat (sint (width - of_nat (length tmp) - 2))) b1;
         b3 \<leftarrow> num_loop cap sz (rev tmp) b2;
         Some (b3, as) } | _ \<Rightarrow> None)
     else if d = 99 then (case args of Num v # as \<Rightarrow> do {
         b \<leftarrow> push cap buf (ucast v); Some (b, as) } | _ \<Rightarrow> None)
     else if d = 37 then do { b \<leftarrow> push cap buf 37; Some (b, args) }
     else do {
       b \<leftarrow> push cap buf 37;
       b1 \<leftarrow> (if length b + 1 < sz then push cap b d else Some b);
       Some (b1, args) })"

function snprintf_loop :: "nat \<Rightarrow> nat \<Rightarrow> bytes \<Rightarrow> varg list \<Rightarrow> bytes \<Rightarrow> bytes option" where
  "snprintf_loop cap sz [] args buf = None"
| "snprintf_loop cap sz (c # f) args buf =
     (if c = 0 \<or> \<not> length buf + 1 < sz then Some buf
      else if c \<noteq> 37 then do { b \<leftarrow> push cap buf c; snprintf_loop cap sz f args b }
      else do {
        (fl, f1) \<leftarrow> parse_flags NoMods f;
        d \<leftarrow> rd f1 0;
        (b, as) \<leftarrow> snprintf_directive cap sz fl d args buf;
        snprintf_loop cap sz (tl f1) as b })"
  by pat_completeness auto
termination
  by (relation "measure (\<lambda>(cap, sz, f, args, buf). length f)")
     (auto dest!: parse_flags_length simp: less_Suc_eq_le)

text \<open>The bytes of the buffer from its start to the terminator; the value returned is their number less one.\<close>

definition snprintf :: "nat \<Rightarrow> nat \<Rightarrow> bytes \<Rightarrow> varg list \<Rightarrow> bytes option" where
  "snprintf cap sz fmt args = do { b \<leftarrow> snprintf_loop cap sz fmt args []; push cap b 0 }"

section \<open>kprintf and kvprintf\<close>

text \<open>The loops without a bound on \<open>len\<close>: only the buffer of 256 bytes limits them.\<close>

fun push_all :: "nat \<Rightarrow> bytes \<Rightarrow> bytes \<Rightarrow> bytes option" where
  "push_all cap buf [] = Some buf"
| "push_all cap buf (c # cs) = do { b \<leftarrow> push cap buf c; push_all cap b cs }"

definition kprintf_directive ::
    "u8 \<times> i32 \<times> nat \<Rightarrow> u8 \<Rightarrow> varg list \<Rightarrow> bytes \<Rightarrow> (bytes \<times> varg list) option" where
  "kprintf_directive fl d args buf = (case fl of (zero_pad, width, lm) \<Rightarrow>
     let padded = (\<lambda>num. push_all 32 num (replicate (nat (sint width) - length num) zero_pad)) in
     if d = 100 then (case args of Num v # as \<Rightarrow> do {
         let val = (ucast v :: i32);
         let is_neg = sint val < 0;
         num \<leftarrow> dec_loop 32 (\<lambda>i. True) (ucast (if is_neg then - val else val)) [];
         num1 \<leftarrow> (if is_neg then push 32 num 45 else Some num);
         num2 \<leftarrow> padded num1;
         b \<leftarrow> push_all 256 buf (rev num2);
         Some (b, as) } | _ \<Rightarrow> None)
     else if d = 117 then (case args of Num v # as \<Rightarrow> do {
         num \<leftarrow> dec_loop 32 (\<lambda>i. True) (ucast (ucast v :: u32)) [];
         num1 \<leftarrow> padded num;
         b \<leftarrow> push_all 256 buf (rev num1);
         Some (b, as) } | _ \<Rightarrow> None)
     else if d = 120 \<or> d = 88 then (case args of Num v # as \<Rightarrow> do {
         num \<leftarrow> hex_loop 32 (\<lambda>i. True) (if d = 120 then 97 else 65)
                  (if lm \<noteq> 0 then v else ucast (ucast v :: u32)) [];
         num1 \<leftarrow> padded num;
         b \<leftarrow> push_all 256 buf (rev num1);
         Some (b, as) } | _ \<Rightarrow> None)
     else if d = 112 then (case args of Num v # as \<Rightarrow> do {
         b \<leftarrow> push 256 buf 48;
         b1 \<leftarrow> push 256 b 120;
         num \<leftarrow> hex_loop 32 (\<lambda>i. True) 97 v [];
         b2 \<leftarrow> push_all 256 b1 (rev num);
         Some (b2, as) } | _ \<Rightarrow> None)
     else if d = 99 then (case args of Num v # as \<Rightarrow> do {
         b \<leftarrow> push 256 buf (ucast v); Some (b, as) } | _ \<Rightarrow> None)
     else if d = 115 then (case args of Str s # as \<Rightarrow> do {
         slen \<leftarrow> strlen s;
         b \<leftarrow> push_all 256 buf (replicate (nat (sint (width - of_nat slen))) zero_pad);
         b1 \<leftarrow> push_all 256 b (cstr s);
         Some (b1, as) } | _ \<Rightarrow> None)
     else if d = 37 then do { b \<leftarrow> push 256 buf 37; Some (b, args) }
     else do {
       b \<leftarrow> push 256 buf 37;
       b1 \<leftarrow> push 256 b d;
       Some (b1, args) })"

function format_loop :: "lmods \<Rightarrow> bytes \<Rightarrow> varg list \<Rightarrow> bytes \<Rightarrow> bytes option" where
  "format_loop m [] args buf = None"
| "format_loop m (c # f) args buf =
     (if c = 0 \<or> \<not> length buf < 255 then Some buf
      else if c \<noteq> 37 then do { b \<leftarrow> push 256 buf c; format_loop m f args b }
      else do {
        (fl, f1) \<leftarrow> parse_flags m f;
        d \<leftarrow> rd f1 0;
        (b, as) \<leftarrow> kprintf_directive fl d args buf;
        format_loop m (tl f1) as b })"
  by pat_completeness auto
termination
  by (relation "measure (\<lambda>(m, f, args, buf). length f)")
     (auto dest!: parse_flags_length simp: less_Suc_eq_le)

definition kprintf :: "'d bus \<Rightarrow> bytes \<Rightarrow> varg list \<Rightarrow> 'd console \<Rightarrow> 'd console option" where
  "kprintf bus fmt args s = do {
     buf \<leftarrow> format_loop LongBoth fmt args [];
     b \<leftarrow> push 256 buf 0;
     kprint bus b s }"

definition kvprintf :: "'d bus \<Rightarrow> bytes \<Rightarrow> varg list \<Rightarrow> 'd console \<Rightarrow> 'd console option" where
  "kvprintf bus fmt args s = do {
     buf \<leftarrow> format_loop LongLong fmt args [];
     b \<leftarrow> push 256 buf 0;
     kprint bus b s }"

declare dec_loop.simps [simp del] hex_loop.simps [simp del]

section \<open>Numerals\<close>

lemma push_Some [simp]: "length b < cap \<Longrightarrow> push cap b c = Some (b @ [c])"
  by (simp add: push_def)

lemma dec_loop_dec:
  assumes "unat n < 10 ^ k" and "0 < k" and "length tmp + k \<le> cap" and "\<And>i. i < length tmp + k \<Longrightarrow> go i"
  shows "dec_loop cap go n tmp = Some (tmp @ rev (dec (unat n)))"
  using assms
proof (induction k arbitrary: n tmp)
  case 0
  then show ?case by simp
next
  case (Suc k)
  let ?c = "48 + of_nat (unat n mod 10) :: u8"
  have c: "48 + ucast (n mod 10) = ?c"
  proof -
    have "ucast (n mod 10) = (of_nat (unat (n mod 10)) :: u8)" by simp
    then show ?thesis by (simp add: unat_mod)
  qed
  have d: "unat (n div 10) = unat n div 10" by (simp add: unat_div)
  have z: "n div 10 = 0 \<longleftrightarrow> unat n div 10 = 0"
    using d by (metis unsigned_0 unsigned_word_eqI)
  show ?case
  proof (cases "unat n div 10 = 0")
    case True
    then have "dec (unat n) = [?c]" by (cases "unat n = 0") (simp_all add: dec_def decz_Suc)
    then show ?thesis using True z c Suc.prems by (subst dec_loop.simps) simp
  next
    case False
    then have n10: "10 \<le> unat n" by linarith
    then have k: "0 < k" using Suc.prems(1) by (cases k) auto
    have "dec_loop cap go (n div 10) (tmp @ [?c]) = Some (tmp @ [?c] @ rev (dec (unat (n div 10))))"
      using Suc.IH [of "n div 10" "tmp @ [?c]"] Suc.prems k d by simp
    moreover have "dec (unat n) = dec (unat n div 10) @ [?c]"
      using False n10 by (simp add: dec_def decz_Suc [of "unat n"])
    ultimately show ?thesis using False z c d k Suc.prems by (subst dec_loop.simps) simp
  qed
qed

fun hex_numeral :: "u8 \<Rightarrow> nat \<Rightarrow> bytes" where
  "hex_numeral a n = (if n < 16 then [] else hex_numeral a (n div 16)) @ [hex_char a (of_nat (n mod 16))]"

declare hex_numeral.simps [simp del]

lemma hex_loop_hex:
  assumes "unat n < 16 ^ k" and "0 < k" and "length tmp + k \<le> cap" and "\<And>i. i < length tmp + k \<Longrightarrow> go i"
  shows "hex_loop cap go a n tmp = Some (tmp @ rev (hex_numeral a (unat n)))"
  using assms
proof (induction k arbitrary: n tmp)
  case 0
  then show ?case by simp
next
  case (Suc k)
  let ?c = "hex_char a (of_nat (unat n mod 16))"
  have c: "n AND 0xF = of_nat (unat n mod 16)"
  proof -
    have "n AND 0xF = n mod 16" using take_bit_eq_mask [of 4 n] by (simp add: take_bit_eq_mod mask_eq_exp_minus_1)
    moreover have "n mod 16 = of_nat (unat (n mod 16))" by simp
    moreover have "unat (n mod 16) = unat n mod 16" by (simp add: unat_mod)
    ultimately show ?thesis by simp
  qed
  have d: "unat (drop_bit 4 n) = unat n div 16" by (simp add: drop_bit_eq_div unat_div)
  have z: "drop_bit 4 n = 0 \<longleftrightarrow> unat n div 16 = 0"
    using d by (metis unsigned_0 unsigned_word_eqI)
  show ?case
  proof (cases "unat n div 16 = 0")
    case True
    then have "hex_numeral a (unat n) = [?c]" by (subst hex_numeral.simps) auto
    then show ?thesis using True z c Suc.prems by (subst hex_loop.simps) simp
  next
    case False
    then have n16: "16 \<le> unat n" by linarith
    then have k: "0 < k" using Suc.prems(1) by (cases k) auto
    have "hex_loop cap go a (drop_bit 4 n) (tmp @ [?c]) = Some (tmp @ [?c] @ rev (hex_numeral a (unat (drop_bit 4 n))))"
      using Suc.IH [of "drop_bit 4 n" "tmp @ [?c]"] Suc.prems k d by simp
    moreover have "hex_numeral a (unat n) = hex_numeral a (unat n div 16) @ [?c]"
      using n16 by (subst hex_numeral.simps) simp
    ultimately show ?thesis using False z c d k Suc.prems by (subst hex_loop.simps) simp
  qed
qed

lemma unat_ucast32 [simp]: "unat (ucast (w :: u32) :: u64) = unat w"
proof -
  have "unat w < 2 ^ 32" using unsigned_less [of w] by simp
  then show ?thesis by (simp add: unsigned_ucast_eq take_bit_nat_eq_self)
qed

lemma unat32_less: "unat (w :: u32) < 2 ^ 32" and unat64_less: "unat (v :: u64) < 2 ^ 64"
  using unsigned_less [of w] unsigned_less [of v] by simp_all

lemma dec_loop_32: "10 \<le> cap \<Longrightarrow> (\<And>i. i < 10 \<Longrightarrow> go i) \<Longrightarrow>
    dec_loop cap go (ucast (w :: u32)) [] = Some (rev (dec (unat w)))"
  using dec_loop_dec [of "ucast w" 10 "[]" cap go] unat32_less [of w] by simp

lemma hex_loop_32: "8 \<le> cap \<Longrightarrow> (\<And>i. i < 8 \<Longrightarrow> go i) \<Longrightarrow>
    hex_loop cap go a (ucast (w :: u32)) [] = Some (rev (hex_numeral a (unat w)))"
  using hex_loop_hex [of "ucast w" 8 "[]" cap go a] unat32_less [of w] by simp

lemma hex_loop_64: "16 \<le> cap \<Longrightarrow> (\<And>i. i < 16 \<Longrightarrow> go i) \<Longrightarrow>
    hex_loop cap go a w [] = Some (rev (hex_numeral a (unat w)))"
  using hex_loop_hex [of w 16 "[]" cap go a] unat64_less [of w] by simp

section \<open>What a format means\<close>

text \<open>The signed numeral as printed: the padding comes before the sign.\<close>

definition int_text :: "i32 \<Rightarrow> bytes" where
  "int_text n = (if sint n < 0 then 45 # dec (unat (- n)) else dec (unat n))"

definition padding :: "u8 \<Rightarrow> i32 \<Rightarrow> nat \<Rightarrow> bytes" where
  "padding z w n = replicate (nat (sint (w - of_nat n))) z"

text \<open>The text of one directive of \<open>snprintf\<close> and the arguments left.\<close>

definition snprintf_text :: "u8 \<times> i32 \<times> nat \<Rightarrow> u8 \<Rightarrow> varg list \<Rightarrow> (bytes \<times> varg list) option" where
  "snprintf_text fl d args = (case fl of (z, w, _) \<Rightarrow>
     if d = 115 then (case args of Str s # as \<Rightarrow>
         if terminated s then Some (padding z w (length (cstr s)) @ cstr s, as) else None | _ \<Rightarrow> None)
     else if d = 100 then (case args of Num v # as \<Rightarrow>
         let t = int_text (ucast v) in Some (padding z w (length t) @ t, as) | _ \<Rightarrow> None)
     else if d = 117 then (case args of Num v # as \<Rightarrow>
         let t = dec (unat (ucast v :: u32)) in Some (padding z w (length t) @ t, as) | _ \<Rightarrow> None)
     else if d = 120 \<or> d = 88 then (case args of Num v # as \<Rightarrow>
         let t = hex_numeral (if d = 88 then 65 else 97) (unat (ucast v :: u32))
         in Some (padding z w (length t) @ t, as) | _ \<Rightarrow> None)
     else if d = 112 then (case args of Num v # as \<Rightarrow>
         let t = hex_numeral 97 (unat v) in Some ([48, 120] @ padding z (w - 2) (length t) @ t, as) | _ \<Rightarrow> None)
     else if d = 99 then (case args of Num v # as \<Rightarrow> Some ([ucast v], as) | _ \<Rightarrow> None)
     else if d = 37 then Some ([37], args)
     else Some ([37, d], args))"

text \<open>The text of a whole format; \<open>None\<close> when an argument is missing or the format ends in a directive.\<close>

function render :: "lmods \<Rightarrow> (u8 \<times> i32 \<times> nat \<Rightarrow> u8 \<Rightarrow> varg list \<Rightarrow> (bytes \<times> varg list) option) \<Rightarrow>
    bytes \<Rightarrow> varg list \<Rightarrow> bytes option" where
  "render m T [] args = None"
| "render m T (c # f) args =
     (if c = 0 then Some []
      else if c \<noteq> 37 then map_option (\<lambda>r. c # r) (render m T f args)
      else do {
        (fl, f1) \<leftarrow> parse_flags m f;
        d \<leftarrow> rd f1 0;
        if d = 0 then None
        else do { (t, as) \<leftarrow> T fl d args; r \<leftarrow> render m T (tl f1) as; Some (t @ r) } })"
  by pat_completeness auto
termination
  by (relation "measure (\<lambda>(m, T, f, args). length f)")
     (auto dest!: parse_flags_length simp: less_Suc_eq_le)

section \<open>snprintf is render, cut to size\<close>

text \<open>What is appended when only \<open>sz - 1\<close> bytes may be used.\<close>

definition room :: "nat \<Rightarrow> bytes \<Rightarrow> bytes \<Rightarrow> bytes" where
  "room sz buf xs = buf @ take (sz - 1 - length buf) xs"

lemma room_Nil [simp]: "room sz buf [] = buf"
  by (simp add: room_def)

lemma room_room [simp]: "room sz (room sz buf xs) ys = room sz buf (xs @ ys)"
  by (auto simp: room_def min_def)

lemma room_full: "\<not> length buf + 1 < sz \<Longrightarrow> room sz buf xs = buf"
  by (simp add: room_def)

lemma room_Cons: "length buf + 1 < sz \<Longrightarrow> room sz buf (c # xs) = room sz (buf @ [c]) xs"
proof -
  assume "length buf + 1 < sz"
  then have "sz - 1 - length buf = Suc (sz - 1 - length (buf @ [c]))" by simp
  then show ?thesis unfolding room_def by (simp only: take_Suc_Cons) simp
qed

lemma room_take: "room sz (take (sz - 1) xs) ys = take (sz - 1) (xs @ ys)"
  by (auto simp: room_def min_def)

lemma loops_room:
  assumes "sz \<le> cap"
  shows "pad_loop cap sz c n buf = Some (room sz buf (replicate n c))"
    and "num_loop cap sz ds buf = Some (room sz buf ds)"
    and "terminated s \<Longrightarrow> str_loop cap sz s buf = Some (room sz buf (cstr s))"
proof -
  show "pad_loop cap sz c n buf = Some (room sz buf (replicate n c))"
    using assms by (induction n arbitrary: buf) (auto simp: room_Cons room_full)
  show "num_loop cap sz ds buf = Some (room sz buf ds)"
    using assms by (induction ds arbitrary: buf) (auto simp: room_Cons room_full)
  show "terminated s \<Longrightarrow> str_loop cap sz s buf = Some (room sz buf (cstr s))"
    using assms by (induction s arbitrary: buf) (auto simp: room_Cons room_full)
qed

lemma length_dec_32: "length (dec (unat (w :: u32))) \<le> 10"
  using length_decz [of "unat w" 10] unat32_less [of w] by (simp add: dec_def)

lemma snprintf_directive_room:
  assumes len: "length buf + 1 < sz" "sz \<le> cap" and t: "snprintf_text fl d args = Some (t, as)"
  shows "snprintf_directive cap sz fl d args buf = Some (room sz buf t, as)"
proof -
  obtain z w l where fl: "fl = (z, w, l)" by (cases fl)
  note rooms = loops_room [OF len(2)]
  have one: "push cap buf c = Some (room sz buf [c])" for c
    using len by (simp add: room_Cons)
  have two: "(if length (room sz buf [c]) + 1 < sz then push cap (room sz buf [c]) e else Some (room sz buf [c]))
      = Some (room sz buf [c, e])" for c e
    using len by (auto simp: room_Cons room_full)
  have i32: "(if sint n < 0 then push 16 (rev (dec (unat (if sint n < 0 then - n else n)))) 45
      else Some (rev (dec (unat (if sint n < 0 then - n else n))))) = Some (rev (int_text n))" for n :: i32
    using length_dec_32 [of "- n"] by (simp add: int_text_def)
  consider (s) "d = 115" | (d) "d = 100" | (u) "d = 117" | (x) "d = 120 \<or> d = 88" | (p) "d = 112"
    | (c) "d = 99" | (pc) "d = 37" | (o) "d \<notin> {115, 100, 117, 120, 88, 112, 99, 37}" by blast
  then show ?thesis
  proof cases
    case s
    then show ?thesis
      using t rooms by (auto simp: fl snprintf_text_def snprintf_directive_def padding_def strlen_cstr
          split: list.splits varg.splits if_splits)
  next
    case d
    then obtain v where v: "args = Num v # as" "t = padding z w (length (int_text (ucast v))) @ int_text (ucast v)"
      using t by (auto simp: fl snprintf_text_def Let_def split: list.splits varg.splits)
    then show ?thesis
      using d len rooms i32 [of "ucast v"]
      by (simp add: fl snprintf_directive_def Let_def dec_loop_32 padding_def)
  next
    case u
    then show ?thesis
      using t rooms by (auto simp: fl snprintf_text_def snprintf_directive_def padding_def Let_def dec_loop_32
          split: list.splits varg.splits)
  next
    case x
    then show ?thesis
      using t rooms by (auto simp: fl snprintf_text_def snprintf_directive_def padding_def Let_def hex_loop_32
          split: list.splits varg.splits)
  next
    case p
    then obtain v where v: "args = Num v # as"
      "t = [48, 120] @ padding z (w - 2) (length (hex_numeral 97 (unat v))) @ hex_numeral 97 (unat v)"
      using t by (auto simp: fl snprintf_text_def Let_def split: list.splits varg.splits)
    have sw: "w - of_nat k - 2 = w - 2 - of_nat k" for k :: nat by simp
    show ?thesis
      using p v rooms one two by (simp add: fl snprintf_directive_def hex_loop_64 padding_def sw del: push_Some)
  next
    case c
    then show ?thesis
      using t one by (auto simp: fl snprintf_text_def snprintf_directive_def simp del: push_Some
          split: list.splits varg.splits)
  next
    case pc
    then show ?thesis using t one by (auto simp: fl snprintf_text_def snprintf_directive_def simp del: push_Some)
  next
    case o
    then show ?thesis
      using t one two by (auto simp: fl snprintf_text_def snprintf_directive_def simp del: push_Some)
  qed
qed

lemma snprintf_loop_render:
  "sz \<le> cap \<Longrightarrow> render NoMods snprintf_text f args = Some r \<Longrightarrow>
   snprintf_loop cap sz f args buf = Some (room sz buf r)"
proof (induction cap sz f args buf arbitrary: r rule: snprintf_loop.induct)
  case (1 cap sz args buf)
  then show ?case by simp
next
  case (2 cap sz c f args buf)
  show ?case
  proof (cases "c = 0 \<or> \<not> length buf + 1 < sz")
    case True
    then show ?thesis using 2(4) by (auto simp: room_full)
  next
    case F: False
    show ?thesis
    proof (cases "c = 37")
      case False
      then obtain r1 where r1: "render NoMods snprintf_text f args = Some r1" "r = c # r1"
        using F 2(4) by auto
      have "push cap buf c = Some (buf @ [c])" using F 2(3) by simp
      then show ?thesis
        using 2(1) [OF F False, of "buf @ [c]" r1] 2(3) r1 F False by (simp add: room_Cons)
    next
      case True
      obtain fl f1 where f1: "parse_flags NoMods f = Some (fl, f1)" using F True 2(4) by (auto simp: Option.bind_eq_Some_conv)
      obtain d t as r1 where d: "rd f1 0 = Some d" "snprintf_text fl d args = Some (t, as)"
        "render NoMods snprintf_text (tl f1) as = Some r1" "r = t @ r1"
        using F True f1 2(4) by (auto simp: Option.bind_eq_Some_conv split: if_splits)
      have dir: "snprintf_directive cap sz fl d args buf = Some (room sz buf t, as)"
        using snprintf_directive_room [OF _ 2(3) d(2), of buf] F by simp
      have "snprintf_loop cap sz (tl f1) as (room sz buf t) = Some (room sz (room sz buf t) r1)"
        using 2(2) [OF F _ f1 refl d(1) dir refl] True 2(3) d(3) by simp
      then show ?thesis using F True f1 d dir by simp
    qed
  qed
qed

text \<open>
  C38. \<open>snprintf\<close> with a buffer of at least \<open>size > 0\<close> bytes never writes outside the first \<open>size\<close> of them:
  it stores the text the format stands for, cut to \<open>size - 1\<close> bytes, and a terminator. This covers the
  directives \<open>s d u x X p c %\<close> and unknown ones, with width and zero padding (which precedes the sign).
\<close>

theorem snprintf_truncates:
  assumes "0 < sz" and "sz \<le> cap" and "render NoMods snprintf_text fmt args = Some r"
  shows "snprintf cap sz fmt args = Some (take (sz - 1) r @ [0])"
  using snprintf_loop_render [OF assms(2,3), of "[]"] assms(1,2) by (simp add: snprintf_def room_def)

theorem snprintf_truncates_witness:
  "snprintf 16 6 (zlit ''%s=%u'') [Str (zlit ''pid''), Num 1234] = Some (zlit ''pid=1'')"
proof -
  have "dec 1234 = lit ''1234''" by (simp add: dec_def decz.simps lit_def)
  then have "render NoMods snprintf_text (zlit ''%s=%u'') [Str (zlit ''pid''), Num 1234] = Some (lit ''pid=1234'')"
    by (simp add: lit_def parse_flags_def parse_len_def snprintf_text_def padding_def Let_def)
  then show ?thesis using snprintf_truncates [of 6 16] by (simp add: lit_def)
qed

section \<open>kprintf prints render when it fits\<close>

text \<open>The text of one directive of \<open>kprintf\<close>; numbers only up to the 32 bytes of \<open>numbuf\<close>.\<close>

definition wide :: "u8 \<Rightarrow> i32 \<Rightarrow> bytes \<Rightarrow> bytes" where
  "wide z w t = replicate (nat (sint w) - length t) z @ t"

definition kprintf_text :: "u8 \<times> i32 \<times> nat \<Rightarrow> u8 \<Rightarrow> varg list \<Rightarrow> (bytes \<times> varg list) option" where
  "kprintf_text fl d args = (case fl of (z, w, lm) \<Rightarrow>
     if d = 115 then (case args of Str s # as \<Rightarrow>
         if terminated s then Some (padding z w (length (cstr s)) @ cstr s, as) else None | _ \<Rightarrow> None)
     else if d = 112 then (case args of Num v # as \<Rightarrow> Some ([48, 120] @ hex_numeral 97 (unat v), as) | _ \<Rightarrow> None)
     else if d = 99 then (case args of Num v # as \<Rightarrow> Some ([ucast v], as) | _ \<Rightarrow> None)
     else if d = 37 then Some ([37], args)
     else if d \<notin> {100, 117, 120, 88} then Some ([37, d], args)
     else if 32 < sint w then None
     else if d = 100 then (case args of Num v # as \<Rightarrow> Some (wide z w (int_text (ucast v)), as) | _ \<Rightarrow> None)
     else if d = 117 then (case args of Num v # as \<Rightarrow> Some (wide z w (dec (unat (ucast v :: u32))), as) | _ \<Rightarrow> None)
     else (case args of Num v # as \<Rightarrow>
         Some (wide z w (hex_numeral (if d = 120 then 97 else 65)
           (if lm \<noteq> 0 then unat v else unat (ucast v :: u32))), as) | _ \<Rightarrow> None))"

lemma push_all_append: "length b + length xs \<le> cap \<Longrightarrow> push_all cap b xs = Some (b @ xs)"
  by (induction xs arbitrary: b) auto

lemma push_all_overflow: "cap < length b + length xs \<Longrightarrow> length b \<le> cap \<Longrightarrow> push_all cap b xs = None"
  by (induction xs arbitrary: b) (auto simp: push_def split: Option.bind_splits)

lemma length_hex: "n < 16 ^ k \<Longrightarrow> 0 < k \<Longrightarrow> length (hex_numeral a n) \<le> k"
proof (induction k arbitrary: n)
  case (Suc k)
  show ?case
  proof (cases "n < 16")
    case True
    then show ?thesis by (subst hex_numeral.simps) simp
  next
    case False
    then have "0 < k" "n div 16 < 16 ^ k" using Suc.prems by (cases k; simp add: less_mult_imp_div_less mult.commute)+
    then show ?thesis using False Suc.IH [of "n div 16"] by (subst hex_numeral.simps) simp
  qed
qed simp

lemma length_hex_64: "length (hex_numeral a (unat (v :: u64))) \<le> 16"
  using length_hex [of "unat v" 16 a] unat64_less [of v] by simp

lemma length_hex_32: "length (hex_numeral a (unat (v :: u32))) \<le> 8"
  using length_hex [of "unat v" 8 a] unat32_less [of v] by simp

lemma length_int_text: "length (int_text n) \<le> 11"
  using length_dec_32 [of n] length_dec_32 [of "- n"] by (simp add: int_text_def)

lemma wide_push:
  assumes "length t \<le> 32" and "sint w \<le> 32"
  shows "push_all 32 (rev t) (replicate (nat (sint w) - length (rev t)) z) = Some (rev (wide z w t))"
  using assms by (subst push_all_append) (auto simp: wide_def)

lemma kprintf_directive_text:
  assumes t: "kprintf_text fl d args = Some (t, as)" and len: "length buf + length t \<le> 256"
  shows "kprintf_directive fl d args buf = Some (buf @ t, as)"
proof -
  obtain z w lm where fl: "fl = (z, w, lm)" by (cases fl)
  have neg: "(if sint n < 0 then push 32 (rev (dec (unat (if sint n < 0 then - n else n)))) 45
      else Some (rev (dec (unat (if sint n < 0 then - n else n))))) = Some (rev (int_text n))" for n :: i32
    using length_dec_32 [of "- n"] by (simp add: int_text_def)
  consider (s) "d = 115" | (d) "d = 100" | (u) "d = 117" | (x) "d = 120 \<or> d = 88" | (p) "d = 112"
    | (c) "d = 99" | (pc) "d = 37" | (o) "d \<notin> {115, 100, 117, 120, 88, 112, 99, 37}" by blast
  then show ?thesis
  proof cases
    case s
    then show ?thesis
      using t len by (auto simp: fl kprintf_text_def kprintf_directive_def padding_def strlen_cstr push_all_append
          split: list.splits varg.splits if_splits)
  next
    case d
    then obtain v where v: "args = Num v # as" "t = wide z w (int_text (ucast v))" "sint w \<le> 32"
      using t by (auto simp: fl kprintf_text_def split: list.splits varg.splits if_splits)
    have p: "push_all 32 (rev (int_text (ucast v))) (replicate (nat (sint w) - length (int_text (ucast v))) z)
        = Some (rev t)"
      using wide_push [of "int_text (ucast v)" w z] length_int_text [of "ucast v"] v(2,3) by simp
    show ?thesis
      using d v(1) p neg [of "ucast v"] len
      by (simp add: fl kprintf_directive_def Let_def dec_loop_32 push_all_append)
  next
    case u
    then obtain v where v: "args = Num v # as" "t = wide z w (dec (unat (ucast v :: u32)))" "sint w \<le> 32"
      using t by (auto simp: fl kprintf_text_def split: list.splits varg.splits if_splits)
    have p: "push_all 32 (rev (dec (unat (ucast v :: u32))))
        (replicate (nat (sint w) - length (dec (unat (ucast v :: u32)))) z) = Some (rev t)"
      using wide_push [of "dec (unat (ucast v :: u32))" w z] length_dec_32 [of "ucast v"] v(2,3) by simp
    show ?thesis
      using u v(1) p len by (simp add: fl kprintf_directive_def Let_def dec_loop_32 push_all_append)
  next
    case x
    let ?a = "if d = 120 then 97 else 65 :: u8"
    let ?n = "\<lambda>v :: u64. if lm \<noteq> 0 then unat v else unat (ucast v :: u32)"
    obtain v where v: "args = Num v # as" "t = wide z w (hex_numeral ?a (?n v))" "sint w \<le> 32"
      using t x by (auto simp: fl kprintf_text_def split: list.splits varg.splits if_splits)
    have h: "hex_loop 32 (\<lambda>i. True) ?a (if lm \<noteq> 0 then v else ucast (ucast v :: u32)) []
        = Some (rev (hex_numeral ?a (?n v)))"
      by (simp add: hex_loop_32 hex_loop_64)
    have "length (hex_numeral ?a (?n v)) \<le> 32"
      using length_hex_64 [of ?a v] length_hex_32 [of ?a "ucast v"] by (cases "lm = 0") auto
    then have p: "push_all 32 (rev (hex_numeral ?a (?n v)))
        (replicate (nat (sint w) - length (hex_numeral ?a (?n v))) z) = Some (rev t)"
      using wide_push [of "hex_numeral ?a (?n v)" w z] v(2,3) by simp
    show ?thesis
      using x v(1) h p len by (auto simp: fl kprintf_directive_def Let_def push_all_append)
  next
    case p
    then obtain v where v: "args = Num v # as" "t = [48, 120] @ hex_numeral 97 (unat v)"
      using t by (auto simp: fl kprintf_text_def split: list.splits varg.splits)
    then show ?thesis
      using p len by (simp add: fl kprintf_directive_def hex_loop_64 push_all_append)
  next
    case c
    then show ?thesis
      using t len by (auto simp: fl kprintf_text_def kprintf_directive_def split: list.splits varg.splits)
  next
    case pc
    then show ?thesis using t len by (auto simp: fl kprintf_text_def kprintf_directive_def)
  next
    case o
    then show ?thesis using t len by (auto simp: fl kprintf_text_def kprintf_directive_def)
  qed
qed

lemma format_loop_render:
  "render m kprintf_text f args = Some r \<Longrightarrow> length buf + length r \<le> 255 \<Longrightarrow>
   format_loop m f args buf = Some (buf @ r)"
proof (induction m f args buf arbitrary: r rule: format_loop.induct)
  case (1 m args buf)
  then show ?case by simp
next
  case (2 m c f args buf)
  show ?case
  proof (cases "c = 0 \<or> \<not> length buf < 255")
    case True
    have "r = []"
    proof (cases "c = 0")
      case True
      then show ?thesis using 2(3) by simp
    next
      case False
      then have "length r = 0" using \<open>c = 0 \<or> \<not> length buf < 255\<close> 2(4) by linarith
      then show ?thesis by simp
    qed
    then show ?thesis using True by auto
  next
    case F: False
    show ?thesis
    proof (cases "c = 37")
      case False
      then obtain r1 where r1: "render m kprintf_text f args = Some r1" "r = c # r1" using F 2(3) by auto
      have "format_loop m f args (buf @ [c]) = Some ((buf @ [c]) @ r1)"
        using 2(1) [OF F False, of "buf @ [c]" r1] r1 2(4) F by auto
      then show ?thesis using F False r1 by simp
    next
      case True
      obtain fl f1 where f1: "parse_flags m f = Some (fl, f1)" using F True 2(3) by (auto simp: Option.bind_eq_Some_conv)
      obtain d t as r1 where d: "rd f1 0 = Some d" "kprintf_text fl d args = Some (t, as)"
        "render m kprintf_text (tl f1) as = Some r1" "r = t @ r1"
        using F True f1 2(3) by (auto simp: Option.bind_eq_Some_conv split: if_splits)
      have dir: "kprintf_directive fl d args buf = Some (buf @ t, as)"
        using kprintf_directive_text [OF d(2), of buf] d(4) 2(4) by simp
      have "format_loop m (tl f1) as (buf @ t) = Some ((buf @ t) @ r1)"
        using 2(2) [OF F _ f1 refl d(1) dir refl, of r1] True d(3,4) 2(4) by simp
      then show ?thesis using F True f1 d dir by simp
    qed
  qed
qed

text \<open>
  \<open>kprintf\<close> and \<open>kvprintf\<close> print exactly the text the format stands for when it has at most 255 bytes
  (and every number a width of at most 32): the 256-byte buffer and the 32-byte number buffer are not
  overrun, and the text with its terminator goes to \<open>kprint\<close>.
\<close>

theorem kprintf_renders:
  assumes "render LongBoth kprintf_text fmt args = Some r" and "length r \<le> 255"
    and "render LongLong kprintf_text fmt args = Some q" and "length q \<le> 255"
  shows "kprintf bus fmt args s = kprint bus (r @ [0]) s \<and> kvprintf bus fmt args s = kprint bus (q @ [0]) s"
  using format_loop_render [OF assms(1), of "[]"] format_loop_render [OF assms(3), of "[]"] assms(2,4)
  by (simp add: kprintf_def kvprintf_def)

theorem kprintf_renders_witness:
  "kprintf crt_bus (zlit ''t=%03d'') [Num 7] boot_console = kprint crt_bus (zlit ''t=007'') boot_console"
proof -
  have "dec 7 = lit ''7''" by (simp add: dec_def decz.simps lit_def)
  moreover have "replicate 2 48 = [48, 48 :: u8]" by (simp add: numeral_2_eq_2)
  ultimately have "render m kprintf_text (zlit ''t=%03d'') [Num 7] = Some (lit ''t=007'')" for m
    by (cases m) (simp_all add: lit_def parse_flags_def parse_len_def kprintf_text_def wide_def int_text_def)
  note r = this
  show ?thesis by (rule kprintf_renders [OF r _ r, THEN conjunct1]) (simp_all add: lit_def)
qed

text \<open>
  \<open>kprintf("%s", s)\<close> with a string of 256 or more characters writes past its buffer on the stack: the
  limit of 255 is tested between directives only.
\<close>

theorem kprintf_overruns:
  assumes "terminated str" and "256 \<le> length (cstr str)"
  shows "kprintf bus (zlit ''%s'') [Str str] s = None"
proof -
  have dir: "parse_flags LongBoth [115, 0] = Some ((32, 0, 0), [115, 0])"
    by (simp add: parse_flags_def parse_len_def)
  have d: "kprintf_directive (32, 0, 0) 115 [Str str] [] =
      do { b \<leftarrow> push_all 256 [] (replicate (nat (sint (- of_nat (length (cstr str)) :: i32))) 32);
           b1 \<leftarrow> push_all 256 b (cstr str); Some (b1, []) }"
    using assms(1) by (simp add: kprintf_directive_def strlen_cstr)
  have "format_loop LongBoth (zlit ''%s'') [Str str] [] = None
      \<or> (\<exists>b. format_loop LongBoth (zlit ''%s'') [Str str] [] = Some b \<and> length b = 256)"
  proof (cases "kprintf_directive (32, 0, 0) 115 [Str str] []")
    case None
    then show ?thesis by (simp add: lit_def dir)
  next
    case (Some r)
    then obtain b0 b where b: "push_all 256 [] (replicate (nat (sint (- of_nat (length (cstr str)) :: i32))) 32) = Some b0"
      "push_all 256 b0 (cstr str) = Some b" "r = (b, [])"
      unfolding d by (auto simp: Option.bind_eq_Some_conv)
    have "length b0 \<le> 256"
      using b(1) push_all_append [of "[]"] push_all_overflow [of 256 "[]"]
      by (cases "nat (sint (- of_nat (length (cstr str)) :: i32)) \<le> 256") auto
    then have "length b = 256"
      using b(2) assms(2) push_all_append [of b0 "cstr str" 256] push_all_overflow [of 256 b0 "cstr str"]
      by (cases "length b0 + length (cstr str) \<le> 256") auto
    then show ?thesis using Some b(3) by (simp add: lit_def dir)
  qed
  then show ?thesis by (auto simp: kprintf_def push_def)
qed

theorem kprintf_overruns_witness:
  "kprintf crt_bus (zlit ''%s'') [Str (replicate 300 65 @ [0])] boot_console = None"
  by (rule kprintf_overruns) simp_all

end
