(* ===== verification/Fat32.thy ===== *)
theory Fat32
  imports Cstring Heap
begin

text \<open>
  The FAT32 file system, drivers/fs/fat32.c: mounting, the FAT with its one-sector cache, reading of
  directories and files, path resolution, and the allocation of clusters. The disk behind
  \<open>ata_read_sector\<close> and \<open>ata_write_sector\<close> is the parameter \<open>dv\<close>, a record of what the two calls do to
  the device state \<open>'d\<close>: the value returned and, for a read, the 512 bytes of the caller's buffer.

  The sector buffers come from the kernel heap; their bytes are those of the payload when it is
  allocated, and go back to the payload when it is freed. The kernel's output is left out.
\<close>

section \<open>State\<close>

record 'd blockdev =
  dev_read :: "u8 \<Rightarrow> u32 \<Rightarrow> bytes \<Rightarrow> 'd \<Rightarrow> i32 \<times> bytes \<times> 'd"
  dev_write :: "u8 \<Rightarrow> u32 \<Rightarrow> bytes \<Rightarrow> 'd \<Rightarrow> i32 \<times> 'd"

text \<open>\<open>fat32_bpb\<close> is the packed 90-byte structure, read at its field offsets.\<close>

record 'd fs =
  disk :: 'd
  fheap :: heap_state
  fat32_bpb :: bytes
  fat_start :: u32
  root_dir_first_cluster :: u32
  current_dir_cluster :: u32
  cluster_begin_lba :: u32
  sectors_per_fat :: u32
  total_clusters :: u32
  partition_lba :: u32
  next_free_hint :: u32
  cached_fat_sector :: u32
  fat_cache :: bytes

record fat32_entry =
  e_name :: bytes
  e_attr :: u8
  e_first_cluster :: u32
  e_size :: u32

definition bpb_sectors_per_cluster :: "'d fs \<Rightarrow> u8 option" where
  "bpb_sectors_per_cluster s = rd (fat32_bpb s) 13"

text \<open>A read and a write of a sector as calls on the whole state.\<close>

definition read_sector :: "'d blockdev \<Rightarrow> u8 \<Rightarrow> u32 \<Rightarrow> bytes \<Rightarrow> 'd fs \<Rightarrow> i32 \<times> bytes \<times> 'd fs" where
  "read_sector dv drive lba buf s =
     (let (r, b, d) = dev_read dv drive lba buf (disk s) in (r, b, s\<lparr>disk := d\<rparr>))"

definition write_sector :: "'d blockdev \<Rightarrow> u8 \<Rightarrow> u32 \<Rightarrow> bytes \<Rightarrow> 'd fs \<Rightarrow> i32 \<times> 'd fs" where
  "write_sector dv drive lba buf s =
     (let (r, d) = dev_write dv drive lba buf (disk s) in (r, s\<lparr>disk := d\<rparr>))"

text \<open>\<open>kmalloc(512)\<close> with the bytes found there, and \<open>kfree\<close> with the bytes left there.\<close>

definition load_bytes :: "u64 \<Rightarrow> nat \<Rightarrow> (u64 \<Rightarrow> u8) \<Rightarrow> bytes" where
  "load_bytes a n m = map (\<lambda>i. m (a + of_nat i)) [0..<n]"

fun put_bytes :: "u64 \<Rightarrow> bytes \<Rightarrow> (u64 \<Rightarrow> u8) \<Rightarrow> (u64 \<Rightarrow> u8)" where
  "put_bytes a [] m = m"
| "put_bytes a (b # bs) m = put_bytes (a + 1) bs (m(a := b))"

definition new_sector :: "'d fs \<Rightarrow> (u64 \<times> bytes \<times> 'd fs) option" where
  "new_sector s = do {
     (p, h) \<leftarrow> kmalloc 512 (fheap s);
     Some (p, load_bytes p 512 (hmem h), s\<lparr>fheap := h\<rparr>) }"

definition free_sector :: "u64 \<Rightarrow> bytes \<Rightarrow> 'd fs \<Rightarrow> 'd fs option" where
  "free_sector p sector s = do {
     h \<leftarrow> kfree p ((fheap s)\<lparr>hmem := put_bytes p sector (hmem (fheap s))\<rparr>);
     Some (s\<lparr>fheap := h\<rparr>) }"

section \<open>Names\<close>

definition toupper_ascii :: "u8 \<Rightarrow> u8" where
  "toupper_ascii c = (if 97 \<le> sint c \<and> sint c \<le> 122 then c - (97 - 65) else c)"

text \<open>The offsets of the low bytes of the 13 characters of a long-name record.\<close>

definition lfn_offsets :: "nat list" where
  "lfn_offsets = [1, 3, 5, 7, 9] @ [14, 16, 18, 20, 22, 24] @ [28, 30]"

fun lfn_copy_loop :: "bytes \<Rightarrow> nat \<Rightarrow> bytes \<Rightarrow> nat list \<Rightarrow> bytes option" where
  "lfn_copy_loop dst pos lfn [] = wr dst pos 0"
| "lfn_copy_loop dst pos lfn (off # offs) = do {
     ch \<leftarrow> rd lfn off;
     if ch = 0 \<or> ch = 0xFF then wr dst pos 0
     else do { d1 \<leftarrow> wr dst pos ch; lfn_copy_loop d1 (pos + 1) lfn offs } }"

definition lfn_copy_part :: "bytes \<Rightarrow> bytes \<Rightarrow> bytes option" where
  "lfn_copy_part dst lfn = lfn_copy_loop dst 0 lfn lfn_offsets"

fun strcasecmp_ascii :: "bytes \<Rightarrow> bytes \<Rightarrow> int option" where
  "strcasecmp_ascii (a # as) (b # bs) =
     (if a \<noteq> 0 \<and> b \<noteq> 0 then
        (if toupper_ascii a \<noteq> toupper_ascii b then Some (sint (toupper_ascii a) - sint (toupper_ascii b))
         else strcasecmp_ascii as bs)
      else Some (sint a - sint b))"
| "strcasecmp_ascii _ _ = None"

fun checksum_loop :: "u8 \<Rightarrow> bytes \<Rightarrow> u8" where
  "checksum_loop acc [] = acc"
| "checksum_loop acc (c # cs) = checksum_loop ((drop_bit 1 acc OR push_bit 7 acc) + c) cs"

definition shortname_checksum :: "bytes \<Rightarrow> u8 option" where
  "shortname_checksum name = (if length name < 11 then None else Some (checksum_loop 0 (take 11 name)))"

text \<open>Copy until a blank or the end of the range.\<close>

fun name_part :: "bytes \<Rightarrow> nat \<Rightarrow> bytes \<Rightarrow> nat list \<Rightarrow> (bytes \<times> nat) option" where
  "name_part out pos inp [] = Some (out, pos)"
| "name_part out pos inp (i # is) = do {
     c \<leftarrow> rd inp i;
     if c = 32 then Some (out, pos)
     else do { o1 \<leftarrow> wr out pos c; name_part o1 (pos + 1) inp is } }"

definition shortname_to_string :: "bytes \<Rightarrow> bytes \<Rightarrow> bytes option" where
  "shortname_to_string inp out = do {
     (o1, pos) \<leftarrow> name_part out 0 inp [0..<8];
     x \<leftarrow> rd inp 8; y \<leftarrow> rd inp 9; z \<leftarrow> rd inp 10;
     (o2, pos2) \<leftarrow> (if x \<noteq> 32 \<or> y \<noteq> 32 \<or> z \<noteq> 32
                    then do { t \<leftarrow> wr o1 pos 46; name_part t (pos + 1) inp [8..<11] }
                    else Some (o1, pos));
     wr o2 pos2 0 }"

section \<open>Mounting and the FAT\<close>

fun find_partition :: "bytes \<Rightarrow> nat list \<Rightarrow> u32 option" where
  "find_partition sector [] = Some 0"
| "find_partition sector (i # is) = do {
     type \<leftarrow> rd sector (0x1BE + i * 16 + 4);
     if type = 0x0B \<or> type = 0x0C then get32 sector (0x1BE + i * 16 + 8)
     else find_partition sector is }"

definition signed_ok :: "bytes \<Rightarrow> bool option" where
  "signed_ok sector = do {
     a \<leftarrow> rd sector 0x1FE;
     if a \<noteq> 0x55 then Some False else do { b \<leftarrow> rd sector 0x1FF; Some (b = 0xAA) } }"

text \<open>The fields set from the new boot sector; a zero \<open>sectors_per_cluster\<close> is a division by zero.\<close>

definition mount_fields :: "u32 \<Rightarrow> 'd fs \<Rightarrow> 'd fs option" where
  "mount_fields part s = do {
     reserved \<leftarrow> get16 (fat32_bpb s) 14;
     count \<leftarrow> rd (fat32_bpb s) 16;
     table_size \<leftarrow> get32 (fat32_bpb s) 36;
     root \<leftarrow> get32 (fat32_bpb s) 44;
     total_sectors \<leftarrow> get32 (fat32_bpb s) 32;
     spc \<leftarrow> bpb_sectors_per_cluster s;
     let fstart = ucast reserved;
     let begin_lba = part + fstart + ucast count * table_size;
     let root_cl = (if root \<noteq> 0 then root else 2);
     if spc = 0 then None
     else Some (s\<lparr>sectors_per_fat := table_size, fat_start := fstart, cluster_begin_lba := begin_lba,
       root_dir_first_cluster := root_cl, current_dir_cluster := root_cl,
       total_clusters := (total_sectors - begin_lba) div ucast spc\<rparr>) }"

definition fat32_mount :: "'d blockdev \<Rightarrow> u8 \<Rightarrow> 'd fs \<Rightarrow> (i32 \<times> 'd fs) option" where
  "fat32_mount dv drive s0 = do {
     (p, sec0, s) \<leftarrow> new_sector s0;
     if p = 0 then Some (- 1, s) else do {
     let quit = (\<lambda>r sec s. do { t \<leftarrow> free_sector p sec s; Some (r, t) });
     let (r, sector, s) = read_sector dv drive 0 sec0 s;
     if r \<noteq> 0 then quit (- 2) sector s else do {
     ok \<leftarrow> signed_ok sector;
     if \<not> ok then quit (- 3) sector s else do {
     part \<leftarrow> find_partition sector [0..<4];
     if part = 0 then quit (- 4) sector s else do {
     let (r, sector, s) = read_sector dv drive part sector s;
     if r \<noteq> 0 then quit (- 5) sector s else do {
     ok \<leftarrow> signed_ok sector;
     if \<not> ok then quit (- 6) sector s else do {
     b \<leftarrow> memcpy (fat32_bpb s) 0 sector 90;
     let s = s\<lparr>fat32_bpb := b\<rparr>;
     table_size \<leftarrow> get32 b 36;
     if table_size = 0 then quit (- 7) sector s else do {
     s1 \<leftarrow> mount_fields part s;
     s2 \<leftarrow> free_sector p sector s1;
     Some (0, s2\<lparr>cached_fat_sector := 0xFFFFFFFF, next_free_hint := 3\<rparr>) } } } } } } } }"

definition fat32_cluster_to_lba :: "u32 \<Rightarrow> 'd fs \<Rightarrow> u32 option" where
  "fat32_cluster_to_lba cluster s = do {
     spc \<leftarrow> bpb_sectors_per_cluster s;
     Some (partition_lba s + cluster_begin_lba s + (cluster - 2) * ucast spc) }"

definition fat32_get_next_cluster :: "'d blockdev \<Rightarrow> u8 \<Rightarrow> u32 \<Rightarrow> 'd fs \<Rightarrow> (u32 \<times> 'd fs) option" where
  "fat32_get_next_cluster dv drive cluster s = (
     let fat_offset = cluster * 4;
         fat_sector = partition_lba s + fat_start s + fat_offset div 512;
         ent_offset = unat (fat_offset mod 512);
         (r, s1) = (if fat_sector \<noteq> cached_fat_sector s
                    then (let (r, b, t) = read_sector dv drive fat_sector (fat_cache s) s in
                          (r, if r = 0 then t\<lparr>fat_cache := b, cached_fat_sector := fat_sector\<rparr>
                              else t\<lparr>fat_cache := b\<rparr>))
                    else (0, s))
     in if r \<noteq> 0 then Some (0x0FFFFFFF, s1)
        else do { v \<leftarrow> get32 (fat_cache s1) ent_offset; Some (v AND 0x0FFFFFFF, s1) })"

section \<open>Reading a directory\<close>

text \<open>
  One sector of \<open>fat32_read_dir\<close>, by the offsets left: the flag says whether the call returns here.
  \<open>name[0]\<close> is a signed \<open>char\<close>, compared with the \<open>int\<close> 0xE5.
\<close>

fun read_dir_sector :: "bytes \<Rightarrow> nat \<Rightarrow> nat list \<Rightarrow> bytes list \<Rightarrow> (bool \<times> bytes list) option" where
  "read_dir_sector sector max_entries [] es = Some (False, es)"
| "read_dir_sector sector max_entries (off # offs) es = do {
     c \<leftarrow> rd sector off;
     if c = 0 then Some (True, es)
     else do {
       attr \<leftarrow> rd sector (off + 11);
       if attr = 0x0F \<or> sint c = 0xE5 then read_dir_sector sector max_entries offs es
       else if length es \<ge> max_entries then Some (True, es)
       else read_dir_sector sector max_entries offs (es @ [take 32 (drop off sector)]) } }"

definition sector_offsets :: "nat list" where
  "sector_offsets = map (\<lambda>i. 32 * i) [0..<16]"

text \<open>The sectors of one cluster; the result of the call when it returns here.\<close>

fun read_dir_cluster :: "'d blockdev \<Rightarrow> u8 \<Rightarrow> nat \<Rightarrow> u32 \<Rightarrow> nat list \<Rightarrow> bytes list \<Rightarrow> bytes \<Rightarrow> 'd fs
    \<Rightarrow> (i32 option \<times> bytes list \<times> bytes \<times> 'd fs) option" where
  "read_dir_cluster dv drive max_entries cl [] es sector s = Some (None, es, sector, s)"
| "read_dir_cluster dv drive max_entries cl (i # is) es sector s = do {
     lba \<leftarrow> fat32_cluster_to_lba cl s;
     let (r, sec, s1) = read_sector dv drive (lba + of_nat i) sector s;
     if r \<noteq> 0 then Some (Some (- 2), es, sec, s1)
     else do {
       (stop, es1) \<leftarrow> read_dir_sector sec max_entries sector_offsets es;
       if stop then Some (Some (of_nat (length es1)), es1, sec, s1)
       else read_dir_cluster dv drive max_entries cl is es1 sec s1 } }"

partial_function (option) read_dir_loop :: "'d blockdev \<Rightarrow> u8 \<Rightarrow> nat \<Rightarrow> u32 \<Rightarrow> bytes list \<Rightarrow> bytes \<Rightarrow> 'd fs
    \<Rightarrow> (i32 \<times> bytes list \<times> bytes \<times> 'd fs) option" where
  "read_dir_loop dv drive max_entries cl es sector s =
     (if cl < 0x0FFFFFF8 then do {
        spc \<leftarrow> bpb_sectors_per_cluster s;
        (r, es1, sec, s1) \<leftarrow> read_dir_cluster dv drive max_entries cl [0..<unat spc] es sector s;
        (case r of Some v \<Rightarrow> Some (v, es1, sec, s1)
         | None \<Rightarrow> do {
             (nxt, s2) \<leftarrow> fat32_get_next_cluster dv drive cl s1;
             read_dir_loop dv drive max_entries nxt es1 sec s2 }) }
      else Some (of_nat (length es), es, sector, s))"

definition fat32_read_dir :: "'d blockdev \<Rightarrow> u8 \<Rightarrow> u32 \<Rightarrow> nat \<Rightarrow> 'd fs \<Rightarrow> (i32 \<times> bytes list \<times> 'd fs) option" where
  "fat32_read_dir dv drive cluster max_entries s0 = do {
     (p, sec0, s) \<leftarrow> new_sector s0;
     if p = 0 then Some (- 1, [], s) else do {
     (r, es, sec, s1) \<leftarrow> read_dir_loop dv drive max_entries cluster [] sec0 s;
     s2 \<leftarrow> free_sector p sec s1;
     Some (r, es, s2) } }"

section \<open>Reading a file\<close>

fun read_file_cluster :: "'d blockdev \<Rightarrow> u8 \<Rightarrow> u32 \<Rightarrow> u32 \<Rightarrow> nat list \<Rightarrow> bytes \<Rightarrow> u32 \<Rightarrow> bytes \<Rightarrow> 'd fs
    \<Rightarrow> (bytes \<times> u32 \<times> bytes \<times> 'd fs) option" where
  "read_file_cluster dv drive sz cluster [] buf done_b sector s = Some (buf, done_b, sector, s)"
| "read_file_cluster dv drive sz cluster (i # is) buf done_b sector s = do {
     lba \<leftarrow> fat32_cluster_to_lba cluster s;
     let (_, sec, s1) = read_sector dv drive (lba + of_nat i) sector s;
     let copy = (if sz - done_b > 512 then 512 else sz - done_b);
     buf1 \<leftarrow> memcpy buf (unat done_b) sec (unat copy);
     let done1 = done_b + copy;
     if done1 \<ge> sz then Some (buf1, done1, sec, s1)
     else read_file_cluster dv drive sz cluster is buf1 done1 sec s1 }"

partial_function (option) read_file_loop :: "'d blockdev \<Rightarrow> u8 \<Rightarrow> u32 \<Rightarrow> u32 \<Rightarrow> bytes \<Rightarrow> u32 \<Rightarrow> bytes \<Rightarrow> 'd fs
    \<Rightarrow> (bytes \<times> u32 \<times> bytes \<times> 'd fs) option" where
  "read_file_loop dv drive sz cluster buf done_b sector s =
     (if cluster < 0x0FFFFFF8 \<and> done_b < sz then do {
        spc \<leftarrow> bpb_sectors_per_cluster s;
        (buf1, done1, sec, s1) \<leftarrow> read_file_cluster dv drive sz cluster [0..<unat spc] buf done_b sector s;
        (nxt, s2) \<leftarrow> fat32_get_next_cluster dv drive cluster s1;
        read_file_loop dv drive sz nxt buf1 done1 sec s2 }
      else Some (buf, done_b, sector, s))"

definition fat32_read_file :: "'d blockdev \<Rightarrow> u8 \<Rightarrow> u32 \<Rightarrow> bytes \<Rightarrow> u32 \<Rightarrow> 'd fs \<Rightarrow> (i32 \<times> bytes \<times> 'd fs) option" where
  "fat32_read_file dv drive first_cluster buf sz s0 =
     (if first_cluster < 2 then Some (- 1, buf, s0)
      else do {
        (p, sec0, s) \<leftarrow> new_sector s0;
        if p = 0 then Some (- 2, buf, s) else do {
        (buf1, done_b, sec, s1) \<leftarrow> read_file_loop dv drive sz first_cluster buf 0 sec0 s;
        s2 \<leftarrow> free_sector p sec s1;
        Some (done_b, buf1, s2) } })"

section \<open>Listing with long names\<close>

text \<open>
  \<open>lfn_parts\<close> is 20 rows of 14 bytes. Its rows are read only after the \<open>memset\<close> of a record with bit 6,
  so what they hold before does not matter; the model starts them cleared.
\<close>

definition no_parts :: "bytes list" where
  "no_parts = replicate 20 (replicate 14 0)"

text \<open>\<open>for (k = 0; k < len && pos < FAT32_MAX_NAME; k++) name[pos++] = part[k]; name[pos] = 0\<close>\<close>

fun append_part :: "bytes \<Rightarrow> nat \<Rightarrow> bytes \<Rightarrow> bytes option" where
  "append_part name pos [] = wr name pos 0"
| "append_part name pos (c # cs) =
     (if pos < 255 then do { n1 \<leftarrow> wr name pos c; append_part n1 (pos + 1) cs } else wr name pos 0)"

fun glue_parts :: "bytes list \<Rightarrow> bytes \<Rightarrow> nat list \<Rightarrow> bytes option" where
  "glue_parts parts name [] = Some name"
| "glue_parts parts name (i # is) = do {
     row \<leftarrow> rd parts i;
     len \<leftarrow> strlen row;
     pos \<leftarrow> strlen name;
     n1 \<leftarrow> append_part name pos (take len row);
     glue_parts parts n1 is }"

text \<open>\<open>i\<close> runs from \<open>lfn_present - 1\<close> down to 0.\<close>

definition long_name :: "bytes list \<Rightarrow> nat \<Rightarrow> bytes option" where
  "long_name parts lfn_present = glue_parts parts (replicate 256 0) (rev [0..<lfn_present])"

definition make_entry :: "bytes \<Rightarrow> nat \<Rightarrow> bytes list \<Rightarrow> nat \<Rightarrow> fat32_entry option" where
  "make_entry sector off parts lfn_present = do {
     name \<leftarrow> (if lfn_present \<noteq> 0 then long_name parts lfn_present
              else shortname_to_string (take 11 (drop off sector)) (replicate 256 0));
     attr \<leftarrow> rd sector (off + 11);
     hi \<leftarrow> get16 sector (off + 20);
     lo \<leftarrow> get16 sector (off + 26);
     sz \<leftarrow> get32 sector (off + 28);
     Some \<lparr>e_name = name, e_attr = attr, e_first_cluster = push_bit 16 (ucast hi) OR ucast lo, e_size = sz\<rparr> }"

text \<open>A long-name record: the new parts and the new \<open>lfn_present\<close>.\<close>

definition lfn_record :: "bytes \<Rightarrow> bytes list \<Rightarrow> nat \<Rightarrow> (bytes list \<times> nat) option" where
  "lfn_record lfn parts lfn_present = do {
     order \<leftarrow> rd lfn 0;
     let ord = unat (order AND 0x1F);
     let first = (order AND 0x40) \<noteq> 0;
     let parts0 = (if first then no_parts else parts);
     if 0 < ord \<and> ord \<le> 20 then do {
       row \<leftarrow> rd parts0 (ord - 1);
       row1 \<leftarrow> lfn_copy_part row lfn;
       Some (parts0[ord - 1 := row1], if first then ord else lfn_present) }
     else Some (parts0, lfn_present) }"

fun list_dir_sector :: "bytes \<Rightarrow> nat \<Rightarrow> nat list \<Rightarrow> bytes list \<Rightarrow> nat \<Rightarrow> fat32_entry list
    \<Rightarrow> (bool \<times> bytes list \<times> nat \<times> fat32_entry list) option" where
  "list_dir_sector sector max_entries [] parts present es = Some (False, parts, present, es)"
| "list_dir_sector sector max_entries (off # offs) parts present es = do {
     c \<leftarrow> rd sector off;
     if c = 0 then Some (True, parts, present, es)
     else do {
       attr \<leftarrow> rd sector (off + 11);
       if attr = 0x0F then do {
         (parts1, present1) \<leftarrow> lfn_record (take 32 (drop off sector)) parts present;
         list_dir_sector sector max_entries offs parts1 present1 es }
       else if sint c = 0xE5 then list_dir_sector sector max_entries offs parts 0 es
       else if (attr AND 0x08) = 0x08 then list_dir_sector sector max_entries offs parts 0 es
       else if length es \<ge> max_entries then Some (True, parts, present, es)
       else do {
         e \<leftarrow> make_entry sector off parts present;
         list_dir_sector sector max_entries offs parts 0 (es @ [e]) } } }"

fun list_dir_cluster :: "'d blockdev \<Rightarrow> u8 \<Rightarrow> nat \<Rightarrow> u32 \<Rightarrow> nat list \<Rightarrow> bytes list \<Rightarrow> nat \<Rightarrow> fat32_entry list
    \<Rightarrow> bytes \<Rightarrow> 'd fs \<Rightarrow> (i32 option \<times> bytes list \<times> nat \<times> fat32_entry list \<times> bytes \<times> 'd fs) option" where
  "list_dir_cluster dv drive max_entries cl [] parts present es sector s =
     Some (None, parts, present, es, sector, s)"
| "list_dir_cluster dv drive max_entries cl (i # is) parts present es sector s = do {
     lba \<leftarrow> fat32_cluster_to_lba cl s;
     let (r, sec, s1) = read_sector dv drive (lba + of_nat i) sector s;
     if r \<noteq> 0 then Some (Some (- 2), parts, present, es, sec, s1)
     else do {
       (stop, parts1, present1, es1) \<leftarrow> list_dir_sector sec max_entries sector_offsets parts present es;
       if stop then Some (Some (of_nat (length es1)), parts1, present1, es1, sec, s1)
       else list_dir_cluster dv drive max_entries cl is parts1 present1 es1 sec s1 } }"

partial_function (option) list_dir_loop :: "'d blockdev \<Rightarrow> u8 \<Rightarrow> nat \<Rightarrow> u32 \<Rightarrow> bytes list \<Rightarrow> nat
    \<Rightarrow> fat32_entry list \<Rightarrow> bytes \<Rightarrow> 'd fs \<Rightarrow> (i32 \<times> fat32_entry list \<times> bytes \<times> 'd fs) option" where
  "list_dir_loop dv drive max_entries cl parts present es sector s =
     (if cl < 0x0FFFFFF8 then do {
        spc \<leftarrow> bpb_sectors_per_cluster s;
        (r, parts1, present1, es1, sec, s1) \<leftarrow>
          list_dir_cluster dv drive max_entries cl [0..<unat spc] parts present es sector s;
        (case r of Some v \<Rightarrow> Some (v, es1, sec, s1)
         | None \<Rightarrow> do {
             (nxt, s2) \<leftarrow> fat32_get_next_cluster dv drive cl s1;
             list_dir_loop dv drive max_entries nxt parts1 present1 es1 sec s2 }) }
      else Some (of_nat (length es), es, sector, s))"

definition fat32_list_dir :: "'d blockdev \<Rightarrow> u8 \<Rightarrow> u32 \<Rightarrow> nat \<Rightarrow> 'd fs
    \<Rightarrow> (i32 \<times> fat32_entry list \<times> 'd fs) option" where
  "fat32_list_dir dv drive cluster max_entries s0 = do {
     (p, sec0, s) \<leftarrow> new_sector s0;
     if p = 0 then Some (- 1, [], s) else do {
     (r, es, sec, s1) \<leftarrow> list_dir_loop dv drive max_entries cluster no_parts 0 [] sec0 s;
     s2 \<leftarrow> free_sector p sec s1;
     Some (r, es, s2) } }"

section \<open>Paths\<close>

text \<open>The conditions of \<open>fat32_resolve_path\<close>, each tested in the order of the \<open>&&\<close> and \<open>||\<close>.\<close>

definition drive_prefix :: "bytes \<Rightarrow> bool option" where
  "drive_prefix path = do {
     c1 \<leftarrow> rd path 1;
     if c1 \<noteq> 58 then Some False
     else do { c2 \<leftarrow> rd path 2; Some (c2 = 92 \<or> c2 = 47) } }"

definition is_root_path :: "bytes \<Rightarrow> bool option" where
  "is_root_path path = do {
     c0 \<leftarrow> rd path 0;
     if c0 = 47 \<or> c0 = 92 then do { c1 \<leftarrow> rd path 1; Some (c1 = 0) } else Some False }"

definition is_current_path :: "bytes \<Rightarrow> bool option" where
  "is_current_path path = do {
     c0 \<leftarrow> rd path 0;
     if c0 = 0 then Some True
     else if c0 = 46 then do { c1 \<leftarrow> rd path 1; Some (c1 = 0) } else Some False }"

definition is_parent_path :: "bytes \<Rightarrow> bool option" where
  "is_parent_path path = do {
     c0 \<leftarrow> rd path 0;
     if c0 \<noteq> 46 then Some False else do {
     c1 \<leftarrow> rd path 1;
     if c1 \<noteq> 46 then Some False else do {
     c2 \<leftarrow> rd path 2;
     Some (c2 = 0) } } }"

fun find_dir :: "fat32_entry list \<Rightarrow> bytes \<Rightarrow> u32 option option" where
  "find_dir [] path = Some None"
| "find_dir (e # es) path =
     (if (e_attr e AND 0x10) = 0 then find_dir es path
      else do {
        r \<leftarrow> strcasecmp_ascii (e_name e) path;
        if r = 0 then Some (Some (e_first_cluster e)) else find_dir es path })"

text \<open>The value returned and the cluster stored in \<open>*target_cluster\<close>, if any.\<close>

definition fat32_resolve_path :: "'d blockdev \<Rightarrow> u8 \<Rightarrow> bytes \<Rightarrow> 'd fs \<Rightarrow> (i32 \<times> u32 option \<times> 'd fs) option" where
  "fat32_resolve_path dv drive path0 s = do {
     pre \<leftarrow> drive_prefix path0;
     c3 \<leftarrow> (if pre then rd path0 3 else Some 1);
     if pre \<and> c3 = 0 then Some (0, Some (root_dir_first_cluster s), s)
     else do {
     let path = (if pre then drop 3 path0 else path0);
     root \<leftarrow> is_root_path path;
     if root then Some (0, Some (root_dir_first_cluster s), s) else do {
     here \<leftarrow> is_current_path path;
     if here then Some (0, Some (current_dir_cluster s), s) else do {
     up \<leftarrow> is_parent_path path;
     if up then do {
       (n, es, s1) \<leftarrow> fat32_list_dir dv drive (current_dir_cluster s) 2 s;
       if sint n < 2 then Some (- 1, None, s1)
       else do {
         e \<leftarrow> rd es 1;
         let c = e_first_cluster e;
         Some (0, Some (if c = current_dir_cluster s1 \<or> c = 0 then root_dir_first_cluster s1 else c), s1) } }
     else do {
       (n, es, s1) \<leftarrow> fat32_list_dir dv drive (current_dir_cluster s) 64 s;
       if sint n < 0 then Some (- 1, None, s1)
       else do {
         r \<leftarrow> find_dir es path;
         Some (if r = None then - 1 else 0, r, s1) } } } } } }"

text \<open>An unset \<open>c\<close> is not looked at: a path that resolves always sets it.\<close>

definition fat32_change_dir :: "'d blockdev \<Rightarrow> u8 \<Rightarrow> bytes \<Rightarrow> 'd fs \<Rightarrow> (i32 \<times> 'd fs) option" where
  "fat32_change_dir dv d p s = do {
     (r, c, s1) \<leftarrow> fat32_resolve_path dv d p s;
     if r = 0 then (case c of None \<Rightarrow> None
        | Some c \<Rightarrow> Some (r, if c \<ge> 2 then s1\<lparr>current_dir_cluster := c\<rparr> else s1))
     else Some (r, s1) }"

section \<open>Allocation of clusters\<close>

fun find_free_loop :: "'d blockdev \<Rightarrow> u8 \<Rightarrow> u32 \<Rightarrow> nat list \<Rightarrow> 'd fs \<Rightarrow> (u32 \<times> 'd fs) option" where
  "find_free_loop dv drive start [] s = Some (0, s)"
| "find_free_loop dv drive start (i # is) s = do {
     let cl = 2 + ((start - 2 + of_nat i) mod total_clusters s);
     (v, s1) \<leftarrow> fat32_get_next_cluster dv drive cl s;
     if v = 0 then Some (cl, s1\<lparr>next_free_hint :=
       (if cl + 1 \<ge> 2 + total_clusters s1 then 2 else cl + 1)\<rparr>)
     else find_free_loop dv drive start is s1 }"

definition find_free_cluster :: "'d blockdev \<Rightarrow> u8 \<Rightarrow> 'd fs \<Rightarrow> (u32 \<times> 'd fs) option" where
  "find_free_cluster dv drive s =
     (if total_clusters s = 0 then Some (0, s)
      else find_free_loop dv drive (next_free_hint s) [0..<unat (total_clusters s)] s)"

text \<open>The stack buffer \<open>sector\<close> holds nothing known before the read fills it: \<open>junk\<close>.\<close>

fun write_fat_loop :: "'d blockdev \<Rightarrow> u8 \<Rightarrow> u32 \<Rightarrow> u32 \<Rightarrow> bytes \<Rightarrow> nat list \<Rightarrow> 'd fs \<Rightarrow> (i32 \<times> 'd fs) option" where
  "write_fat_loop dv drive cluster v junk [] s = Some (0, s\<lparr>cached_fat_sector := 0xFFFFFFFF\<rparr>)"
| "write_fat_loop dv drive cluster v junk (t # ts) s = (
     let fat_offset = cluster * 4;
         fat_sector = fat_start s + of_nat t * sectors_per_fat s + fat_offset div 512;
         ent_off = unat (fat_offset mod 512);
         (r, sector, s1) = read_sector dv drive fat_sector junk s
     in if r \<noteq> 0 then Some (- 1, s1)
        else do {
          sec1 \<leftarrow> put32 sector ent_off (v AND 0x0FFFFFFF);
          let (r, s2) = write_sector dv drive fat_sector sec1 s1;
          if r \<noteq> 0 then Some (- 1, s2)
          else write_fat_loop dv drive cluster v sec1 ts s2 })"

definition fat_write_fat_entry :: "'d blockdev \<Rightarrow> u8 \<Rightarrow> u32 \<Rightarrow> u32 \<Rightarrow> bytes \<Rightarrow> 'd fs \<Rightarrow> (i32 \<times> 'd fs) option" where
  "fat_write_fat_entry dv drive cluster v junk s = do {
     count \<leftarrow> rd (fat32_bpb s) 16;
     write_fat_loop dv drive cluster v junk [0..<unat count] s }"

definition dir_write_entries :: "'d blockdev \<Rightarrow> u8 \<Rightarrow> u32 \<Rightarrow> nat \<Rightarrow> bytes \<Rightarrow> nat \<Rightarrow> bytes \<Rightarrow> 'd fs
    \<Rightarrow> (i32 \<times> 'd fs) option" where
  "dir_write_entries dv drive lba offset entries n junk s = (
     let (r, sector, s1) = read_sector dv drive lba junk s
     in if r \<noteq> 0 then Some (- 1, s1)
        else do {
          sec1 \<leftarrow> memcpy sector offset entries (n * 32);
          let (r, s2) = write_sector dv drive lba sec1 s1;
          Some (if r \<noteq> 0 then - 1 else 0, s2) })"

text \<open>\<open>for (; i < stop && j < lim; i++, j++) sfn[j] = toupper_ascii(name[i])\<close>\<close>

fun sfn_part :: "bytes \<Rightarrow> nat \<Rightarrow> nat \<Rightarrow> bytes \<Rightarrow> bytes option" where
  "sfn_part sfn j lim [] = Some sfn"
| "sfn_part sfn j lim (c # cs) =
     (if j < lim then do { s1 \<leftarrow> wr sfn j (toupper_ascii c); sfn_part s1 (j + 1) lim cs } else Some sfn)"

definition make_sfn :: "bytes \<Rightarrow> bytes option" where
  "make_sfn longname = do {
     len \<leftarrow> strlen longname;
     let name = take len longname;
     let dot = length (takeWhile (\<lambda>c. c \<noteq> 46) name);
     if dot = len then sfn_part (replicate 11 32) 0 8 name
     else do {
       s1 \<leftarrow> sfn_part (replicate 11 32) 0 8 (take dot name);
       sfn_part s1 8 11 (drop (dot + 1) name) } }"

section \<open>The disk\<close>

text \<open>
  What the code relies on of \<open>ata_read_sector\<close> and \<open>ata_write_sector\<close>: the disk is an array of
  512-byte sectors, a read that returns 0 delivers the sector and one that fails leaves the buffer as
  it was, a write that returns 0 replaces the one sector, and reads do not change the disk.
\<close>

definition block_device :: "'d blockdev \<Rightarrow> u8 \<Rightarrow> ('d \<Rightarrow> u32 \<Rightarrow> bytes) \<Rightarrow> bool" where
  "block_device dv drive img \<longleftrightarrow>
     (\<forall>d lba. length (img d lba) = 512)
   \<and> (\<forall>d lba buf r b d1. dev_read dv drive lba buf d = (r, b, d1) \<longrightarrow>
        img d1 = img d \<and> b = (if r = 0 then img d lba else buf))
   \<and> (\<forall>d lba buf d1. length buf = 512 \<longrightarrow> dev_write dv drive lba buf d = (0, d1) \<longrightarrow>
        img d1 = (img d)(lba := buf))"

definition reliable :: "'d blockdev \<Rightarrow> u8 \<Rightarrow> bool" where
  "reliable dv drive \<longleftrightarrow> (\<forall>lba buf d. fst (dev_read dv drive lba buf d) = 0)"

definition image512 :: "(u32 \<Rightarrow> bytes) \<Rightarrow> u32 \<Rightarrow> bytes" where
  "image512 d lba = take 512 (d lba @ replicate 512 0)"

text \<open>A disk held in memory, whose sectors behind \<open>n\<close> cannot be accessed.\<close>

definition ram_disk :: "u32 \<Rightarrow> (u32 \<Rightarrow> bytes) blockdev" where
  "ram_disk n = \<lparr>
     dev_read = (\<lambda>drive lba buf d. if lba \<le> n then (0, image512 d lba, d) else (- 1, buf, d)),
     dev_write = (\<lambda>drive lba buf d. if lba \<le> n then (0, d(lba := buf)) else (- 1, d))\<rparr>"

section \<open>The FAT\<close>

text \<open>The sector and the offset of a cluster's entry, and the entry's 28 bits on the disk.\<close>

definition fat_lba :: "'d fs \<Rightarrow> u32 \<Rightarrow> u32" where
  "fat_lba s cl = partition_lba s + fat_start s + cl * 4 div 512"

definition ent_off :: "u32 \<Rightarrow> nat" where
  "ent_off cl = unat (cl * 4 mod 512)"

definition entry_of :: "bytes \<Rightarrow> u32 \<Rightarrow> u32" where
  "entry_of sector cl = the (get32 sector (ent_off cl)) AND 0x0FFFFFFF"

definition fat_value :: "('d \<Rightarrow> u32 \<Rightarrow> bytes) \<Rightarrow> 'd fs \<Rightarrow> u32 \<Rightarrow> u32" where
  "fat_value img s cl = entry_of (img (disk s) (fat_lba s cl)) cl"

lemma ram_disk_device [simp]: "block_device (ram_disk n) drive image512"
  by (auto simp: block_device_def ram_disk_def image512_def fun_eq_iff split: if_splits)

lemma ram_disk_reliable [simp]: "reliable (ram_disk 0xFFFFFFFF) drive"
proof -
  have "lba \<le> (0xFFFFFFFF :: u32)" for lba
  proof -
    have "unat lba < 2 ^ 32" using unsigned_less [of lba, where ?'a = nat] by simp
    then show ?thesis by (simp add: word_le_nat_alt)
  qed
  then show ?thesis by (simp add: reliable_def ram_disk_def)
qed

text \<open>The state apart from the disk's internals and the cached sector.\<close>

definition same_but_cache :: "('d \<Rightarrow> u32 \<Rightarrow> bytes) \<Rightarrow> 'd fs \<Rightarrow> 'd fs \<Rightarrow> bool" where
  "same_but_cache img s t \<longleftrightarrow> img (disk t) = img (disk s)
     \<and> t = s\<lparr>disk := disk t, cached_fat_sector := cached_fat_sector t, fat_cache := fat_cache t\<rparr>"

text \<open>The cache holds a copy of the sector it claims to hold, and no FAT sector is numbered 0xFFFFFFFF.\<close>

definition cache_ok :: "('d \<Rightarrow> u32 \<Rightarrow> bytes) \<Rightarrow> 'd fs \<Rightarrow> bool" where
  "cache_ok img s \<longleftrightarrow> length (fat_cache s) = 512
     \<and> unat (partition_lba s) + unat (fat_start s) < 0xFF000000
     \<and> (cached_fat_sector s \<noteq> 0xFFFFFFFF \<longrightarrow> fat_cache s = img (disk s) (cached_fat_sector s))"

lemma same_but_cache_refl [simp]: "same_but_cache img s s"
  by (simp add: same_but_cache_def)

lemma same_but_cache_trans: "same_but_cache img s t \<Longrightarrow> same_but_cache img t u \<Longrightarrow> same_but_cache img s u"
  unfolding same_but_cache_def by (cases s; cases t; cases u) simp

lemma same_but_cacheD:
  assumes "same_but_cache img s t"
  shows "img (disk t) = img (disk s)" "fheap t = fheap s" "fat32_bpb t = fat32_bpb s"
    "partition_lba t = partition_lba s" "fat_start t = fat_start s" "cluster_begin_lba t = cluster_begin_lba s"
    "total_clusters t = total_clusters s" "next_free_hint t = next_free_hint s"
    "sectors_per_fat t = sectors_per_fat s" "root_dir_first_cluster t = root_dir_first_cluster s"
    "current_dir_cluster t = current_dir_cluster s"
    "fat_value img t = fat_value img s" "fat_lba t = fat_lba s"
    "fat32_cluster_to_lba c t = fat32_cluster_to_lba c s"
    "bpb_sectors_per_cluster t = bpb_sectors_per_cluster s"
  using assms by (cases s; cases t; simp add: same_but_cache_def fat_value_def fat_lba_def fun_eq_iff
      fat32_cluster_to_lba_def bpb_sectors_per_cluster_def)+

lemma unat_plus_le: "unat (a + b) \<le> unat a + unat b" for a b :: "'a :: len word"
  by (simp add: unat_word_ariths)

lemma fat_lba_neq: "cache_ok img s \<Longrightarrow> fat_lba s cl \<noteq> 0xFFFFFFFF"
proof -
  assume ok: "cache_ok img s"
  have "unat (cl * 4) < 2 ^ 32" using unsigned_less [of "cl * 4", where ?'a = nat] by simp
  then have "unat (cl * 4 div 512) < 2 ^ 23"
    by (simp add: unat_div less_mult_imp_div_less)
  moreover have "unat (fat_lba s cl) \<le> unat (partition_lba s) + unat (fat_start s) + unat (cl * 4 div 512)"
    unfolding fat_lba_def
    using unat_plus_le [of "partition_lba s + fat_start s" "cl * 4 div 512"]
      unat_plus_le [of "partition_lba s" "fat_start s"] by linarith
  ultimately have "unat (fat_lba s cl) < 0xFFFFFFFF" using ok by (simp add: cache_ok_def)
  then show ?thesis by auto
qed

lemma ent_offset: "ent_off cl = 4 * (unat cl mod 128)"
proof -
  have "(unat cl * 4 mod 4294967296) mod 512 = unat cl * 4 mod 512" by (rule mod_mod_cancel) simp
  also have "\<dots> = 4 * (unat cl mod 128)" by (simp add: mult.commute mult_mod_right)
  finally show ?thesis by (simp add: ent_off_def unat_mod unat_word_ariths)
qed

lemma ent_offset_le: "ent_off cl + 4 \<le> 512"
  using mod_less_divisor [of 128 "unat cl"] unfolding ent_offset by linarith

lemma block_deviceD:
  assumes "block_device dv drive img"
  shows "length (img d lba) = 512"
    and "dev_read dv drive lba buf d = (r, b, d1) \<Longrightarrow> img d1 = img d \<and> b = (if r = 0 then img d lba else buf)"
    and "length buf = 512 \<Longrightarrow> dev_write dv drive lba buf d = (0, d2) \<Longrightarrow> img d2 = (img d)(lba := buf)"
  using assms unfolding block_device_def by blast+

lemma entry_of_get: "get32 m (ent_off cl) = Some w \<Longrightarrow> entry_of m cl = w AND 0x0FFFFFFF"
  unfolding entry_of_def by (simp only: option.sel)

lemma bind_eq_map_option: "Option.bind x (\<lambda>v. Some (f v)) = map_option f x"
  by (cases x) simp_all

lemma get_next_cluster_unfold:
  "fat32_get_next_cluster dv drive cl s =
     (if fat_lba s cl = cached_fat_sector s
      then map_option (\<lambda>v. (v AND 0x0FFFFFFF, s)) (get32 (fat_cache s) (ent_off cl))
      else (case dev_read dv drive (fat_lba s cl) (fat_cache s) (disk s) of (r, b, d) \<Rightarrow>
        if r = 0
        then map_option (\<lambda>v. (v AND 0x0FFFFFFF, s\<lparr>disk := d, fat_cache := b, cached_fat_sector := fat_lba s cl\<rparr>))
               (get32 b (ent_off cl))
        else Some (0x0FFFFFFF, s\<lparr>disk := d, fat_cache := b\<rparr>)))"
proof -
  define off where "off = unat (cl * 4 mod 512)"
  show ?thesis
    unfolding fat32_get_next_cluster_def Let_def fat_lba_def [symmetric] ent_off_def [symmetric] read_sector_def
    by (cases "dev_read dv drive (fat_lba s cl) (fat_cache s) (disk s)") (simp add: bind_eq_map_option)
qed

lemma get_next_cluster_cases:
  assumes dev: "block_device dv drive img" and ok: "cache_ok img s"
  obtains v s1 where "fat32_get_next_cluster dv drive cl s = Some (v, s1)"
    "cache_ok img s1" "same_but_cache img s s1"
    "v = (if fat_lba s cl \<noteq> cached_fat_sector s
            \<and> fst (dev_read dv drive (fat_lba s cl) (fat_cache s) (disk s)) \<noteq> 0
          then 0x0FFFFFFF else fat_value img s cl)"
proof (cases "fat_lba s cl = cached_fat_sector s")
  case True
  then have c: "fat_cache s = img (disk s) (fat_lba s cl)"
    using ok fat_lba_neq [OF ok, of cl] by (simp add: cache_ok_def)
  obtain w where w: "get32 (fat_cache s) (ent_off cl) = Some w"
    using get32_defined [of "ent_off cl" "fat_cache s"] ent_offset_le [of cl] ok
    by (auto simp: cache_ok_def)
  have "fat32_get_next_cluster dv drive cl s = Some (w AND 0x0FFFFFFF, s)"
    unfolding get_next_cluster_unfold w using True by simp
  moreover have "fat_value img s cl = w AND 0x0FFFFFFF"
    unfolding fat_value_def c [symmetric] by (rule entry_of_get [OF w])
  ultimately have "fat32_get_next_cluster dv drive cl s = Some (fat_value img s cl, s)" by metis
  then show ?thesis by (rule that) (use ok True in simp_all)
next
  case False
  obtain r b d1 where rd: "dev_read dv drive (fat_lba s cl) (fat_cache s) (disk s) = (r, b, d1)"
    by (cases "dev_read dv drive (fat_lba s cl) (fat_cache s) (disk s)") auto
  note law = block_deviceD(2) [OF dev rd]
  let ?t = "if r = 0 then s\<lparr>disk := d1, fat_cache := b, cached_fat_sector := fat_lba s cl\<rparr>
            else s\<lparr>disk := d1, fat_cache := b\<rparr>"
  have len: "length b = 512" using law ok block_deviceD(1) [OF dev] by (auto simp: cache_ok_def)
  then obtain w where w: "get32 b (ent_off cl) = Some w"
    using get32_defined [of "ent_off cl" b] ent_offset_le [of cl] by auto
  have st: "cache_ok img ?t" "same_but_cache img s ?t"
    using law ok len by (auto simp: cache_ok_def same_but_cache_def)
  have v: "fat_value img s cl = w AND 0x0FFFFFFF" if "r = 0"
    unfolding fat_value_def using law that entry_of_get [OF w] by simp
  have "fat32_get_next_cluster dv drive cl s = Some (if r = 0 then fat_value img s cl else 0x0FFFFFFF, ?t)"
    unfolding get_next_cluster_unfold rd using False w v by simp
  then show ?thesis by (rule that) (use st False rd in simp_all)
qed

text \<open>The copies of the FAT: the sector of a cluster in copy \<open>t\<close>, and the clusters a FAT has entries for.\<close>

definition fat_copy :: "'d fs \<Rightarrow> u32 \<Rightarrow> nat \<Rightarrow> u32" where
  "fat_copy s cl t = fat_start s + of_nat t * sectors_per_fat s + cl * 4 div 512"

definition in_fat :: "'d fs \<Rightarrow> u32 \<Rightarrow> bool" where
  "in_fat s cl \<longleftrightarrow> unat cl < 2 ^ 28 \<and> unat cl div 128 < unat (sectors_per_fat s)"

definition fats_fit :: "'d fs \<Rightarrow> u8 \<Rightarrow> bool" where
  "fats_fit s count \<longleftrightarrow> partition_lba s = 0
     \<and> unat (fat_start s) + unat count * unat (sectors_per_fat s) < 2 ^ 32"

lemma blit_twice: "i + length bs \<le> length d \<Longrightarrow> blit (blit d i bs) i bs = blit d i bs"
  by (rule nth_equalityI) (auto simp: nth_blit)

lemma write_fat_loop_ok:
  assumes "block_device dv drive img" and "length junk = 512"
    and "write_fat_loop dv drive cl v junk ts s = Some (0, s')"
  shows "\<exists>d. s' = s\<lparr>disk := d, cached_fat_sector := 0xFFFFFFFF\<rparr>
    \<and> img d = (\<lambda>lba. if lba \<in> fat_copy s cl ` set ts
                      then blit (img (disk s) lba) (ent_off cl) (bytes32 (v AND 0x0FFFFFFF))
                      else img (disk s) lba)"
  using assms(2,3)
proof (induction ts arbitrary: junk s)
  case Nil
  then show ?case by (intro exI [of _ "disk s"]) auto
next
  case (Cons t ts)
  let ?l = "fat_copy s cl t" and ?bs = "bytes32 (v AND 0x0FFFFFFF)"
  obtain r b d1 where rd: "dev_read dv drive ?l junk (disk s) = (r, b, d1)"
    by (cases "dev_read dv drive ?l junk (disk s)") auto
  note step = Cons.prems(2) [unfolded write_fat_loop.simps Let_def fat_copy_def [symmetric]
      ent_off_def [symmetric] read_sector_def rd write_sector_def, simplified]
  have r: "r = 0" using step by (cases "r = 0") simp_all
  have b: "b = img (disk s) ?l" "img d1 = img (disk s)" "length b = 512"
    using block_deviceD(2) [OF assms(1) rd] block_deviceD(1) [OF assms(1)] r by auto
  let ?b1 = "blit b (ent_off cl) ?bs"
  have w: "put32 b (ent_off cl) (v AND 0x0FFFFFFF) = Some ?b1" "length ?b1 = 512"
    using b(3) ent_offset_le [of cl] by (simp_all add: put32_blit)
  obtain r2 d2 where wr: "dev_write dv drive ?l ?b1 d1 = (r2, d2)"
    by (cases "dev_write dv drive ?l ?b1 d1") auto
  have r2: "r2 = 0" and rest: "write_fat_loop dv drive cl v ?b1 ts (s\<lparr>disk := d2\<rparr>) = Some (0, s')"
    using step r w wr by (auto split: if_splits)
  have d2: "img d2 = (img (disk s))(?l := blit (img (disk s) ?l) (ent_off cl) ?bs)"
    using block_deviceD(3) [OF assms(1) w(2)] wr r2 b by simp
  have copy: "fat_copy (s\<lparr>disk := d2\<rparr>) = fat_copy s" by (simp add: fat_copy_def fun_eq_iff)
  have "\<exists>d. s' = s\<lparr>disk := d, cached_fat_sector := 0xFFFFFFFF\<rparr> \<and> img d =
      (\<lambda>lba. if lba \<in> fat_copy s cl ` set ts then blit (img d2 lba) (ent_off cl) ?bs else img d2 lba)"
    using Cons.IH [OF w(2) rest] unfolding copy by (simp cong: if_cong)
  then obtain d where d: "s' = s\<lparr>disk := d, cached_fat_sector := 0xFFFFFFFF\<rparr>"
    "img d = (\<lambda>lba. if lba \<in> fat_copy s cl ` set ts then blit (img d2 lba) (ent_off cl) ?bs else img d2 lba)"
    by blast
  have "blit (blit (img (disk s) lba) (ent_off cl) ?bs) (ent_off cl) ?bs = blit (img (disk s) lba) (ent_off cl) ?bs"
    for lba
    using ent_offset_le [of cl] block_deviceD(1) [OF assms(1), of "disk s" lba] by (simp add: blit_twice)
  then show ?case using d d2 by (auto simp: fun_eq_iff)
qed

lemma unat_fat_sector: "unat cl < 2 ^ 28 \<Longrightarrow> unat (cl * 4 div 512 :: u32) = unat cl div 128"
proof -
  assume "unat cl < 2 ^ 28"
  then have "unat (cl * 4) = unat cl * 4" by (simp add: unat_word_ariths)
  then show ?thesis by (simp add: unat_div)
qed

lemma unat_fat_copy:
  assumes "fats_fit s count" and "in_fat s cl" and "t < unat count"
  shows "unat (fat_copy s cl t) = unat (fat_start s) + t * unat (sectors_per_fat s) + unat cl div 128"
proof -
  let ?p = "unat (sectors_per_fat s)" and ?q = "unat cl div 128"
  have q: "unat (cl * 4 div 512 :: u32) = ?q" using assms(2) by (simp add: in_fat_def unat_fat_sector)
  have "(t + 1) * ?p \<le> unat count * ?p" using assms(3) by (intro mult_right_mono) simp_all
  then have b: "unat (fat_start s) + t * ?p + ?q < 2 ^ 32"
    using assms(1,2) by (simp add: fats_fit_def in_fat_def)
  have t: "unat (of_nat t :: u32) = t"
    using assms(3) unsigned_less [of count, where ?'a = nat] by (simp add: unat_of_nat)
  have "t * ?p < 2 ^ 32" "unat (fat_start s) + t * ?p < 2 ^ 32" using b by simp_all
  then have "unat (fat_start s + of_nat t * sectors_per_fat s) = unat (fat_start s) + t * ?p"
    by (simp add: unat_word_ariths t)
  then show ?thesis unfolding fat_copy_def using b q by (simp add: unat_word_ariths)
qed

lemma fat_copy_0: "partition_lba s = 0 \<Longrightarrow> fat_copy s cl 0 = fat_lba s cl"
  by (simp add: fat_copy_def fat_lba_def)

lemma get32_blit:
  assumes "length m = 512" and "i + 4 \<le> 512" and "j + 4 \<le> 512" and "i + 4 \<le> j \<or> j + 4 \<le> i"
  shows "get32 (blit m i (bytes32 x)) j = get32 m j"
  using assms by (auto simp: get32_def nth_blit)

lemma quads_apart: "a = 4 * x \<Longrightarrow> b = 4 * y \<Longrightarrow> a = b \<or> b + 4 \<le> a \<or> a + 4 \<le> b" for a b x y :: nat
  by arith

lemma entry_of_blit:
  assumes "length m = 512"
  shows "entry_of (blit m (ent_off cl) (bytes32 x)) c = (if ent_off c = ent_off cl then x AND 0x0FFFFFFF else entry_of m c)"
proof (cases "ent_off c = ent_off cl")
  case True
  have "put32 m (ent_off c) x = Some (blit m (ent_off cl) (bytes32 x))"
    using assms True ent_offset_le [of c] by (simp add: put32_blit)
  then have "entry_of (blit m (ent_off cl) (bytes32 x)) c = x AND 0x0FFFFFFF"
    by (intro entry_of_get get32_put32)
  then show ?thesis by (simp only: True if_True refl)
next
  case False
  then have "ent_off cl + 4 \<le> ent_off c \<or> ent_off c + 4 \<le> ent_off cl"     using quads_apart [OF ent_offset ent_offset, of c cl] by blast
  then have get: "get32 (blit m (ent_off cl) (bytes32 x)) (ent_off c) = get32 m (ent_off c)"
    by (rule get32_blit [OF assms ent_offset_le ent_offset_le])
  show ?thesis unfolding entry_of_def get by (simp only: False if_False)
qed

lemma reliableD: "reliable dv drive \<Longrightarrow> fst (dev_read dv drive lba buf d) = 0"
  by (simp add: reliable_def)

lemma get_next_cluster_reliable:
  assumes "block_device dv drive img" and "reliable dv drive" and "cache_ok img s"
  obtains s1 where "fat32_get_next_cluster dv drive cl s = Some (fat_value img s cl, s1)"
    "cache_ok img s1" "same_but_cache img s s1"
  by (rule get_next_cluster_cases [OF assms(1,3), of cl]) (use that reliableD [OF assms(2)] in auto)

lemma fat_write_ok:
  assumes dev: "block_device dv drive img" and "cache_ok img s" and "length junk = 512"
    and count: "rd (fat32_bpb s) 16 = Some count" "count \<noteq> 0" and fit: "fats_fit s count" and cl: "in_fat s cl"
    and run: "fat_write_fat_entry dv drive cl v junk s = Some (0, s')"
  shows "cache_ok img s'" and "in_fat s c \<Longrightarrow> fat_value img s' c = (if c = cl then v AND 0x0FFFFFFF else fat_value img s c)"
    and "unat lba < unat (fat_start s) \<or> unat (fat_start s) + unat count * unat (sectors_per_fat s) \<le> unat lba \<Longrightarrow>
      img (disk s') lba = img (disk s) lba"
proof -
  let ?bs = "bytes32 (v AND 0x0FFFFFFF)" and ?T = "fat_copy s cl ` {0..<unat count}"
  have "write_fat_loop dv drive cl v junk [0..<unat count] s = Some (0, s')"
    using run by (simp add: fat_write_fat_entry_def count)
  from write_fat_loop_ok [OF dev assms(3) this] obtain d where
    s': "s' = s\<lparr>disk := d, cached_fat_sector := 0xFFFFFFFF\<rparr>"
    and d: "\<And>lba. img d lba = (if lba \<in> ?T then blit (img (disk s) lba) (ent_off cl) ?bs else img (disk s) lba)"
    by auto
  show "cache_ok img s'" using assms(2) by (simp add: s' cache_ok_def)
  have part: "partition_lba s = 0" using fit by (simp add: fats_fit_def)
  have lba: "fat_lba s' c = fat_copy s c 0" for c using part by (simp add: s' fat_copy_def fat_lba_def)
  have lt: "0 < unat count" using count(2) by (simp add: unat_gt_0)
  show "img (disk s') lba = img (disk s) lba"
    if "unat lba < unat (fat_start s) \<or> unat (fat_start s) + unat count * unat (sectors_per_fat s) \<le> unat lba"
  proof -
    have "unat (fat_start s) \<le> unat (fat_copy s cl t) \<and>
        unat (fat_copy s cl t) < unat (fat_start s) + unat count * unat (sectors_per_fat s)" if t: "t < unat count" for t
    proof -
      have "(t + 1) * unat (sectors_per_fat s) \<le> unat count * unat (sectors_per_fat s)"
        using t by (intro mult_right_mono) simp_all
      then show ?thesis using unat_fat_copy [OF fit cl t] cl by (simp add: in_fat_def)
    qed
    then have "lba \<notin> ?T" using that by (metis atLeastLessThan_iff imageE not_le)
    then show ?thesis by (simp add: s' d)
  qed
  show "fat_value img s' c = (if c = cl then v AND 0x0FFFFFFF else fat_value img s c)" if c: "in_fat s c"
  proof (cases "fat_copy s c 0 \<in> ?T")
    case True
    then obtain t where t: "t < unat count" "fat_copy s c 0 = fat_copy s cl t" by auto
    have "t * unat (sectors_per_fat s) + unat cl div 128 = unat c div 128"
      using unat_fat_copy [OF fit cl t(1)] unat_fat_copy [OF fit c lt] t(2) by simp
    then have same: "unat cl div 128 = unat c div 128"
      using c by (cases t) (auto simp: in_fat_def)
    have "unat c = unat cl" if "ent_off c = ent_off cl"
      using that same div_mult_mod_eq [of "unat c" 128] div_mult_mod_eq [of "unat cl" 128]
      unfolding ent_offset by linarith
    then have "ent_off c = ent_off cl \<longleftrightarrow> c = cl" by (metis word_unat_eq_iff)
    moreover have "length (img (disk s) (fat_copy s c 0)) = 512" using block_deviceD(1) [OF dev] .
    ultimately show ?thesis
      unfolding fat_value_def lba using True
      by (simp add: s' d entry_of_blit fat_copy_0 part and.assoc)
  next
    case False
    then have "c \<noteq> cl" using lt by auto
    then show ?thesis unfolding fat_value_def lba using False
      by (simp add: s' d fat_copy_0 part)
  qed
qed

text \<open>The clusters in the order in which the search visits them: from the hint on, then from 2.\<close>

definition probe :: "nat \<Rightarrow> nat \<Rightarrow> nat list" where
  "probe h n = [h..<n + 2] @ [2..<h]"

definition candidate :: "u32 \<Rightarrow> u32 \<Rightarrow> nat \<Rightarrow> u32" where
  "candidate start n i = 2 + ((start - 2 + of_nat i) mod n)"

definition hint_after :: "u32 \<Rightarrow> u32 \<Rightarrow> u32" where
  "hint_after cl n = (if cl + 1 \<ge> 2 + n then 2 else cl + 1)"

lemma find_map_option: "find P (map f xs) = map_option f (find (\<lambda>x. P (f x)) xs)"
  by (induction xs) auto

lemma probe_rotate:
  assumes "2 \<le> h" and "h < n + 2"
  shows "map (\<lambda>i. 2 + (h - 2 + i) mod n) [0..<n] = probe h n"
proof (rule nth_equalityI)
  show "length (map (\<lambda>i. 2 + (h - 2 + i) mod n) [0..<n]) = length (probe h n)"
    using assms unfolding probe_def length_map length_append length_upt by arith
  fix i assume "i < length (map (\<lambda>i. 2 + (h - 2 + i) mod n) [0..<n])"
  then have i: "i < n" by simp
  have "(h - 2 + i) mod n = (if h - 2 + i < n then h - 2 + i else h - 2 + i - n)"
    using assms i by (simp add: mod_if)
  then show "map (\<lambda>i. 2 + (h - 2 + i) mod n) [0..<n] ! i = probe h n ! i"
    using assms i by (auto simp: probe_def nth_append simp del: upt_Suc)
qed

lemma candidate_nat:
  assumes "2 \<le> unat start" and "unat start < unat n + 2" and "unat n < 2 ^ 28" and "i < unat n"
  shows "candidate start n i = of_nat (2 + (unat start - 2 + i) mod unat n)"
proof -
  have i: "unat (of_nat i :: u32) = i" using assms(3,4) by (simp add: unat_of_nat)
  have s: "unat (start - 2) = unat start - 2" using assms(1) by (simp add: unat_sub word_le_nat_alt)
  have "unat (start - 2 + of_nat i) = unat start - 2 + i"
    using assms by (simp add: unat_word_ariths i s)
  then have "unat ((start - 2 + of_nat i) mod n) = (unat start - 2 + i) mod unat n" by (simp add: unat_mod)
  then have "(start - 2 + of_nat i) mod n = of_nat ((unat start - 2 + i) mod unat n)"
    by (metis of_nat_unat ucast_id)
  then show ?thesis by (simp add: candidate_def)
qed

lemma find_free_loop_spec:
  assumes dev: "block_device dv drive img" and rel: "reliable dv drive" and "cache_ok img s"
  shows "\<exists>s1. cache_ok img s1 \<and> same_but_cache img s s1 \<and> find_free_loop dv drive start is s =
    Some (case find (\<lambda>i. fat_value img s (candidate start (total_clusters s) i) = 0) is of
      None \<Rightarrow> (0, s1)
    | Some i \<Rightarrow> (candidate start (total_clusters s) i,
        s1\<lparr>next_free_hint := hint_after (candidate start (total_clusters s) i) (total_clusters s)\<rparr>))"
  using assms(3)
proof (induction "is" arbitrary: s)
  case Nil
  then show ?case by auto
next
  case (Cons i "is")
  let ?cl = "candidate start (total_clusters s) i"
  obtain s1 where s1: "fat32_get_next_cluster dv drive ?cl s = Some (fat_value img s ?cl, s1)"
    "cache_ok img s1" "same_but_cache img s s1"
    by (rule get_next_cluster_reliable [OF dev rel Cons.prems])
  note unf = find_free_loop.simps Let_def candidate_def [symmetric] s1(1) hint_after_def [symmetric]
  note same = same_but_cacheD [OF s1(3)]
  show ?case
  proof (cases "fat_value img s ?cl = 0")
    case True
    then have "find_free_loop dv drive start (i # is) s
        = Some (?cl, s1\<lparr>next_free_hint := hint_after ?cl (total_clusters s)\<rparr>)"
      unfolding unf by (simp add: same hint_after_def)
    then show ?thesis using s1 True by (intro exI [of _ s1]) simp
  next
    case False
    then have "find_free_loop dv drive start (i # is) s = find_free_loop dv drive start is s1"
      unfolding unf by simp
    moreover obtain s2 where "cache_ok img s2" "same_but_cache img s1 s2"
      "find_free_loop dv drive start is s1 =
        Some (case find (\<lambda>i. fat_value img s (candidate start (total_clusters s) i) = 0) is of
          None \<Rightarrow> (0, s2)
        | Some i \<Rightarrow> (candidate start (total_clusters s) i,
            s2\<lparr>next_free_hint := hint_after (candidate start (total_clusters s) i) (total_clusters s)\<rparr>))"
      using Cons.IH [OF s1(2)] unfolding same by blast
    ultimately show ?thesis using False same_but_cache_trans [OF s1(3)] by (intro exI [of _ s2]) simp
  qed
qed

section \<open>Cluster chains\<close>

text \<open>The chain of clusters from \<open>cl\<close> on, and the bytes of the clusters of a list.\<close>

fun fat_chain :: "(u32 \<Rightarrow> u32) \<Rightarrow> u32 \<Rightarrow> u32 list \<Rightarrow> bool" where
  "fat_chain fat cl [] \<longleftrightarrow> \<not> cl < 0x0FFFFFF8"
| "fat_chain fat cl (c # cs) \<longleftrightarrow> c = cl \<and> cl < 0x0FFFFFF8 \<and> fat_chain fat (fat cl) cs"

definition cluster_bytes :: "('d \<Rightarrow> u32 \<Rightarrow> bytes) \<Rightarrow> 'd fs \<Rightarrow> nat list \<Rightarrow> u32 \<Rightarrow> bytes" where
  "cluster_bytes img s is cl =
     concat (map (\<lambda>i. img (disk s) (the (fat32_cluster_to_lba cl s) + of_nat i)) is)"

definition chain_bytes :: "('d \<Rightarrow> u32 \<Rightarrow> bytes) \<Rightarrow> 'd fs \<Rightarrow> u32 list \<Rightarrow> bytes" where
  "chain_bytes img s cls =
     concat (map (cluster_bytes img s [0..<unat (the (bpb_sectors_per_cluster s))]) cls)"

lemma read_sector_reliable:
  assumes "block_device dv drive img" and "reliable dv drive"
  obtains d where "read_sector dv drive lba buf s = (0, img (disk s) lba, s\<lparr>disk := d\<rparr>)"
    "img d = img (disk s)"
proof -
  obtain r b d where rd: "dev_read dv drive lba buf (disk s) = (r, b, d)"
    by (cases "dev_read dv drive lba buf (disk s)") auto
  have "r = 0" using reliableD [OF assms(2), of lba buf "disk s"] rd by simp
  then show ?thesis
    using that [of d] block_deviceD(2) [OF assms(1) rd] rd by (simp add: read_sector_def)
qed

lemma same_but_cache_disk: "img d = img (disk s) \<Longrightarrow> same_but_cache img s (s\<lparr>disk := d\<rparr>)"
  by (simp add: same_but_cache_def)

lemma cache_ok_disk: "img d = img (disk s) \<Longrightarrow> cache_ok img (s\<lparr>disk := d\<rparr>) = cache_ok img s"
  by (simp add: cache_ok_def)

lemma cluster_bytes_same: "same_but_cache img s t \<Longrightarrow> cluster_bytes img t = cluster_bytes img s"
  by (simp add: cluster_bytes_def fun_eq_iff same_but_cacheD)

lemma chain_bytes_same: "same_but_cache img s t \<Longrightarrow> chain_bytes img t = chain_bytes img s"
  by (simp add: chain_bytes_def fun_eq_iff same_but_cacheD cluster_bytes_same)

lemma read_file_cluster_spec:
  assumes dev: "block_device dv drive img" and rel: "reliable dv drive"
    and "unat done_b < unat sz" and "unat sz \<le> length buf" and "cache_ok img s"
    and "fat32_cluster_to_lba cl s \<noteq> None"
  shows "\<exists>sec s1. same_but_cache img s s1 \<and> cache_ok img s1 \<and>
    (let data = cluster_bytes img s is cl; n = min (length data) (unat sz - unat done_b) in
     read_file_cluster dv drive sz cl is buf done_b sector s =
       Some (blit buf (unat done_b) (take n data), done_b + of_nat n, sec, s1))"
  using assms(3-)
proof (induction "is" arbitrary: buf done_b sector s)
  case Nil
  then show ?case by (auto simp: cluster_bytes_def)
next
  case (Cons i "is")
  obtain lba where lba: "fat32_cluster_to_lba cl s = Some lba" using Cons.prems(4) by blast
  obtain d where d: "read_sector dv drive (lba + of_nat i) sector s
      = (0, img (disk s) (lba + of_nat i), s\<lparr>disk := d\<rparr>)" "img d = img (disk s)"
    by (rule read_sector_reliable [OF dev rel])
  let ?sec = "img (disk s) (lba + of_nat i)" and ?s = "s\<lparr>disk := d\<rparr>"
  have len: "length ?sec = 512" by (rule block_deviceD(1) [OF dev])
  let ?copy = "if sz - done_b > 512 then 512 else sz - done_b"
  define k where "k = unat ?copy"
  have "unat (sz - done_b) = unat sz - unat done_b"
    using Cons.prems(1) by (simp add: unat_sub word_le_nat_alt)
  then have k: "k = min 512 (unat sz - unat done_b)" by (simp add: k_def word_less_nat_alt)
  then have kb: "0 < k" "k \<le> 512" "unat done_b + k \<le> unat sz" using Cons.prems(1) by simp_all
  have copy: "?copy = of_nat k" by (simp add: k_def)
  have "unat sz < 2 ^ 32" using unsigned_less [of sz, where ?'a = nat] by simp
  then have d1: "unat (done_b + ?copy) = unat done_b + k"
    using kb(3) unfolding k_def by (simp add: unat_word_ariths)
  have data: "cluster_bytes img s (i # is) cl = ?sec @ cluster_bytes img s is cl"
    by (simp add: cluster_bytes_def lba)
  have cp: "memcpy buf (unat done_b) ?sec (unat ?copy) = Some (blit buf (unat done_b) (take k ?sec))"
    unfolding k_def [symmetric] using kb Cons.prems(2) len by (simp add: memcpy_blit)
  have st: "same_but_cache img s ?s" "cache_ok img ?s"
    using d Cons.prems(3) by (simp_all add: same_but_cache_disk cache_ok_disk)
  note unf = read_file_cluster.simps Let_def lba d(1) bind.bind_lunit case_prod_conv cp
  show ?case
  proof (cases "unat sz \<le> unat done_b + k")
    case True
    then have "read_file_cluster dv drive sz cl (i # is) buf done_b sector s
        = Some (blit buf (unat done_b) (take k ?sec), done_b + of_nat k, ?sec, ?s)"
      unfolding unf by (simp add: word_le_nat_alt d1 copy [symmetric])
    moreover have "take k ?sec = take k (cluster_bytes img s (i # is) cl)"
      "min (length (cluster_bytes img s (i # is) cl)) (unat sz - unat done_b) = k"
      using True kb len k unfolding data by auto
    ultimately show ?thesis using st
      by (intro exI [of _ ?sec] exI [of _ ?s]) (simp only: Let_def simp_thms)
  next
    case False
    then have k512: "k = 512" using k by auto
    have "read_file_cluster dv drive sz cl (i # is) buf done_b sector s
        = read_file_cluster dv drive sz cl is (blit buf (unat done_b) ?sec) (done_b + ?copy) ?sec ?s"
      unfolding unf using False len k512 by (simp add: word_le_nat_alt d1)
    moreover define D where "D = cluster_bytes img s is cl"
    define m where "m = min (length D) (unat sz - (unat done_b + k))"
    have "\<exists>sec s1. same_but_cache img ?s s1 \<and> cache_ok img s1 \<and>
      read_file_cluster dv drive sz cl is (blit buf (unat done_b) ?sec) (done_b + ?copy) ?sec ?s =
        Some (blit (blit buf (unat done_b) ?sec) (unat done_b + k) (take m D), done_b + ?copy + of_nat m, sec, s1)"
      using Cons.IH [of "done_b + ?copy" "blit buf (unat done_b) ?sec" ?s ?sec] False kb k512 len
        Cons.prems(2,4) st same_but_cacheD [OF st(1)]
      by (simp add: d1 Let_def cluster_bytes_same [OF st(1)] D_def [symmetric] m_def)
    moreover have "blit (blit buf (unat done_b) ?sec) (unat done_b + k) (take m D)
        = blit buf (unat done_b) (take (512 + m) (?sec @ D))"
      using blit_blit_next [of "unat done_b" ?sec "take m D" buf] len k512 kb Cons.prems(2)
      by (simp add: m_def)
    moreover have "min (length (?sec @ D)) (unat sz - unat done_b) = 512 + m"
      using False len k512 by (simp add: m_def)
    moreover have "done_b + ?copy + of_nat m = done_b + of_nat (512 + m)"
      unfolding copy k512 by simp
    ultimately show ?thesis using same_but_cache_trans [OF st(1)]
      unfolding data D_def [symmetric] Let_def by metis
  qed
qed

lemma read_file_loop_spec:
  assumes dev: "block_device dv drive img" and rel: "reliable dv drive"
    and "cache_ok img s" and "unat sz \<le> length buf" and "unat done_b \<le> unat sz"
    and "bpb_sectors_per_cluster s \<noteq> None" and "fat_chain (fat_value img s) cl cls"
  shows "\<exists>sec s1. same_but_cache img s s1 \<and> cache_ok img s1 \<and>
    (let data = chain_bytes img s cls; n = min (length data) (unat sz - unat done_b) in
     read_file_loop dv drive sz cl buf done_b sector s =
       Some (blit buf (unat done_b) (take n data), done_b + of_nat n, sec, s1))"
  using assms(3-)
proof (induction cls arbitrary: cl buf done_b sector s)
  case Nil
  then have "read_file_loop dv drive sz cl buf done_b sector s = Some (buf, done_b, sector, s)"
    by (subst read_file_loop.simps) simp
  then show ?case using Nil.prems(1) same_but_cache_refl by (auto simp: chain_bytes_def)
next
  case (Cons c cs)
  show ?case
  proof (cases "unat done_b = unat sz")
    case True
    then have "read_file_loop dv drive sz cl buf done_b sector s = Some (buf, done_b, sector, s)"
      by (subst read_file_loop.simps) (simp add: word_less_nat_alt)
    then show ?thesis using Cons.prems(1) same_but_cache_refl True by auto
  next
    case False
    then have lt: "unat done_b < unat sz" using Cons.prems(3) by simp
    obtain spc where spc: "bpb_sectors_per_cluster s = Some spc" using Cons.prems(4) by blast
    have c: "c = cl" "cl < 0x0FFFFFF8" and ch: "fat_chain (fat_value img s) (fat_value img s cl) cs"
      using Cons.prems(5) by simp_all
    have "fat32_cluster_to_lba cl s \<noteq> None" using spc by (simp add: fat32_cluster_to_lba_def)
    from read_file_cluster_spec [OF dev rel lt Cons.prems(2,1) this, of "[0..<unat spc]" sector]
    obtain D k sec1 s1 where D: "D = cluster_bytes img s [0..<unat spc] cl"
      "k = min (length D) (unat sz - unat done_b)" "same_but_cache img s s1" "cache_ok img s1"
      and rc: "read_file_cluster dv drive sz cl [0..<unat spc] buf done_b sector s =
        Some (blit buf (unat done_b) (take k D), done_b + of_nat k, sec1, s1)"
      unfolding Let_def by blast
    obtain s2 where s2: "fat32_get_next_cluster dv drive cl s1 = Some (fat_value img s1 cl, s2)"
      "cache_ok img s2" "same_but_cache img s1 s2"
      by (rule get_next_cluster_reliable [OF dev rel D(4)])
    have same: "same_but_cache img s s2" using same_but_cache_trans D(3) s2(3) by blast
    have step: "read_file_loop dv drive sz cl buf done_b sector s = read_file_loop dv drive sz
        (fat_value img s cl) (blit buf (unat done_b) (take k D)) (done_b + of_nat k) sec1 s2"
      using lt c spc rc s2(1) same_but_cacheD [OF D(3)]
      by (subst read_file_loop.simps) (simp add: word_less_nat_alt)
    have "unat sz < 2 ^ 32" using unsigned_less [of sz, where ?'a = nat] by simp
    then have "k < 2 ^ 32" "unat done_b + k < 2 ^ 32" using D(2) lt by linarith+
    then have d1: "unat (done_b + of_nat k) = unat done_b + k" by (simp add: unat_word_ariths unat_of_nat)
    define E where "E = chain_bytes img s cs"
    define m where "m = min (length E) (unat sz - (unat done_b + k))"
    have data: "chain_bytes img s (c # cs) = D @ E" by (simp add: chain_bytes_def E_def D(1) spc c)
    have fit: "unat done_b + length (take k D) \<le> length buf" using D(2) lt Cons.prems(2) by simp
    have le: "unat (done_b + of_nat k) \<le> unat sz" unfolding d1 using D(2) lt by linarith
    have pre: "unat sz \<le> length (blit buf (unat done_b) (take k D))" "bpb_sectors_per_cluster s2 \<noteq> None" "fat_chain (fat_value img s2) (fat_value img s cl) cs"
      using fit Cons.prems(2,4) ch same_but_cacheD [OF same] by simp_all
    have "\<exists>sec s3. same_but_cache img s2 s3 \<and> cache_ok img s3 \<and> read_file_loop dv drive sz (fat_value img s cl)
        (blit buf (unat done_b) (take k D)) (done_b + of_nat k) sec1 s2 =
      Some (blit (blit buf (unat done_b) (take k D)) (unat done_b + k) (take m E), done_b + of_nat k + of_nat m, sec, s3)"
      using Cons.IH [OF s2(2), of "blit buf (unat done_b) (take k D)" "done_b + of_nat k" "fat_value img s cl" sec1]
        pre le unfolding Let_def chain_bytes_same [OF same] E_def [symmetric] d1 m_def [symmetric] by blast
    moreover have "blit (blit buf (unat done_b) (take k D)) (unat done_b + k) (take m E)
        = blit buf (unat done_b) (take (k + m) (D @ E))"
    proof (cases "k = length D")
      case True
      then show ?thesis
        using blit_blit_next [of "unat done_b" "take k D" "take m E" buf] Cons.prems(2) lt D(2) by (simp add: m_def)
    next
      case False
      then have "m = 0" "k \<le> length D" using D(2) by (simp_all add: m_def)
      then show ?thesis by simp
    qed
    moreover have "min (length (D @ E)) (unat sz - unat done_b) = k + m"
      using D(2) lt by (auto simp: m_def min_def)
    moreover have "done_b + of_nat k + of_nat m = done_b + of_nat (k + m)" by simp
    ultimately show ?thesis using same_but_cache_trans [OF same]
      unfolding data Let_def step by metis
  qed
qed

section \<open>The sector buffer\<close>

lemma load_bytes_length [simp]: "length (load_bytes a n m) = n"
  by (simp add: load_bytes_def)

lemma new_sector_cases:
  assumes "heap_inv (fheap s)" and "kmalloc 512 (fheap s) = Some (p, h)"
  obtains (null) sec where "p = 0" "new_sector s = Some (0, sec, s)"
  | (block) sec n where "p \<noteq> 0" "new_sector s = Some (p, sec, s\<lparr>fheap := h\<rparr>)" "length sec = 512" "heap_inv h"
      "live h = insert (unat p, n) (live (fheap s))" "(unat p, n) \<notin> live (fheap s)"
proof (cases "p = 0")
  case True
  have "h = fheap s" using heap.alloc_null [of "fheap s" 512 h] assms True by simp
  then show ?thesis using null [of "load_bytes p 512 (hmem h)"] assms True by (simp add: new_sector_def)
next
  case False
  obtain n where "live h = insert (unat p, n) (live (fheap s))" "unat p \<notin> fst ` live (fheap s)"
    using heap.alloc_new [OF assms(1) _ assms(2) False] by auto
  moreover from this have "(unat p, n) \<notin> live (fheap s)" by force
  moreover have "heap_inv h" using heap.alloc_ok [OF assms(1) _ assms(2)] by simp
  ultimately show ?thesis using block [of "load_bytes p 512 (hmem h)" n] assms False by (simp add: new_sector_def)
qed

lemma free_sector_ok:
  assumes "heap_inv (fheap s)" and "(unat p, n) \<in> live (fheap s)"
  obtains h where "free_sector p sec s = Some (s\<lparr>fheap := h\<rparr>)" "heap_inv h"
    "live h = live (fheap s) - {(unat p, n)}"
proof -
  let ?h = "(fheap s)\<lparr>hmem := put_bytes p sec (hmem (fheap s))\<rparr>"
  obtain h where "kfree p ?h = Some h" "heap_inv h" "live h = live (fheap s) - {(unat p, n)}"
    using heap.dealloc_inuse [of ?h p n] assms by auto
  then show ?thesis using that by (simp add: free_sector_def)
qed

text \<open>What every call that borrows a sector buffer leaves behind.\<close>

definition fs_sound :: "('d \<Rightarrow> u32 \<Rightarrow> bytes) \<Rightarrow> 'd fs \<Rightarrow> bool" where
  "fs_sound img s \<longleftrightarrow> cache_ok img s \<and> heap_inv (fheap s) \<and> length (fat32_bpb s) = 90"

definition same_volume :: "('d \<Rightarrow> u32 \<Rightarrow> bytes) \<Rightarrow> 'd fs \<Rightarrow> 'd fs \<Rightarrow> bool" where
  "same_volume img s t \<longleftrightarrow> img (disk t) = img (disk s) \<and> live (fheap t) = live (fheap s)
     \<and> t = s\<lparr>disk := disk t, fheap := fheap t, cached_fat_sector := cached_fat_sector t, fat_cache := fat_cache t\<rparr>"

lemma same_volume_refl [simp]: "same_volume img s s"
  by (simp add: same_volume_def)

lemma borrow_sector:
  assumes "fs_sound img s" and "live h = insert (unat p, n) (live (fheap s))" "(unat p, n) \<notin> live (fheap s)"
    and "heap_inv h" and "same_but_cache img (s\<lparr>fheap := h\<rparr>) t" and "cache_ok img t"
  obtains u where "free_sector p sec t = Some u" "fs_sound img u" "same_volume img s u"
proof -
  note same = same_but_cacheD [OF assms(5)]
  have "heap_inv (fheap t)" "(unat p, n) \<in> live (fheap t)" using same assms by simp_all
  then obtain g where g: "free_sector p sec t = Some (t\<lparr>fheap := g\<rparr>)" "heap_inv g"
    "live g = live (fheap t) - {(unat p, n)}"
    by (rule free_sector_ok)
  have "fs_sound img (t\<lparr>fheap := g\<rparr>)"
    using g(2) assms(1,6) same by (simp add: fs_sound_def cache_ok_def)
  moreover have "same_volume img s (t\<lparr>fheap := g\<rparr>)"
    using assms(5) g(3) same assms(2,3) unfolding same_volume_def same_but_cache_def
    by (cases s; cases t) simp
  ultimately show ?thesis using that g(1) by blast
qed

lemma spc_defined: "fs_sound img s \<Longrightarrow> bpb_sectors_per_cluster s \<noteq> None"
  by (simp add: fs_sound_def bpb_sectors_per_cluster_def)

lemma cluster_bytes_fheap [simp]: "cluster_bytes img (s\<lparr>fheap := h\<rparr>) = cluster_bytes img s"
  by (simp add: cluster_bytes_def fat32_cluster_to_lba_def bpb_sectors_per_cluster_def fun_eq_iff)

lemma fheap_same [simp]: "bpb_sectors_per_cluster (s\<lparr>fheap := h\<rparr>) = bpb_sectors_per_cluster s"
  "cache_ok img (s\<lparr>fheap := h\<rparr>) = cache_ok img s" "fat_value img (s\<lparr>fheap := h\<rparr>) = fat_value img s"
  "chain_bytes img (s\<lparr>fheap := h\<rparr>) = chain_bytes img s"
  by (simp_all add: bpb_sectors_per_cluster_def cache_ok_def fat_value_def fat_lba_def fun_eq_iff
      chain_bytes_def)

text \<open>
  A small volume: one sector per cluster, one FAT of 8 sectors from sector 32 on, 8 clusters from sector
  40 on. Cluster 2 is the root, cluster 3 holds a file and ends its chain, the others are free.
\<close>

definition demo_fat :: bytes where
  "demo_fat = [0xF8, 0xFF, 0xFF, 0x0F, 0xFF, 0xFF, 0xFF, 0x0F, 0xFF, 0xFF, 0xFF, 0x0F, 0xFF, 0xFF, 0xFF, 0x0F]
     @ replicate 496 0"

definition demo_fs :: "(u32 \<Rightarrow> bytes) fs" where
  "demo_fs = \<lparr>disk = (\<lambda>lba. if lba = 32 then demo_fat else if lba = 41 then replicate 512 65 else replicate 512 0),
     fheap = boot_heap, fat32_bpb = (replicate 90 0)[13 := 1, 16 := 1],
     fat_start = 32, root_dir_first_cluster = 2, current_dir_cluster = 2, cluster_begin_lba = 40,
     sectors_per_fat = 8, total_clusters = 8, partition_lba = 0, next_free_hint = 3,
     cached_fat_sector = 0xFFFFFFFF, fat_cache = replicate 512 0\<rparr>"

abbreviation whole_ram :: "(u32 \<Rightarrow> bytes) blockdev" where
  "whole_ram \<equiv> ram_disk 0xFFFFFFFF"

lemma demo_sound [simp]: "fs_sound image512 demo_fs" "cache_ok image512 demo_fs"
  by (simp_all add: fs_sound_def cache_ok_def demo_fs_def boot_heap_inv)

lemma demo_fields [simp]: "fheap demo_fs = boot_heap" "rd (fat32_bpb demo_fs) 16 = Some 1"
  "sectors_per_fat demo_fs = 8" "partition_lba demo_fs = 0" "fat_start demo_fs = 32"
  "next_free_hint demo_fs = 3" "total_clusters demo_fs = 8" "cached_fat_sector demo_fs = 0xFFFFFFFF"
  "bpb_sectors_per_cluster demo_fs = Some 1" "cluster_begin_lba demo_fs = 40"
  by (simp_all add: demo_fs_def bpb_sectors_per_cluster_def)

lemma demo_fat_write:
  "\<exists>s'. fat_write_fat_entry whole_ram 0 4 0x0FFFFFFF (replicate 512 0) demo_fs = Some (0, s')"
  by (simp add: fat_write_fat_entry_def read_sector_def write_sector_def ram_disk_def put32_blit image512_def)

lemma boot_heap_kmalloc_512: "\<exists>h. kmalloc 512 boot_heap = Some (0x200020, h)"
  using kmalloc_first_fit [OF boot_heap_ok, of 512]
  by (auto simp: first_fit_def fits_def round16_def carve_def ad_def)

lemma demo_fat_entries:
  "fat_value image512 demo_fs 3 = 0x0FFFFFFF" "fat_value image512 demo_fs 4 = 0"
  by (simp_all add: fat_value_def entry_of_def ent_off_def fat_lba_def image512_def demo_fs_def
      demo_fat_def get32_def nth_append)

lemma find_free_spec:
  assumes "block_device dv drive img" and "reliable dv drive" and "cache_ok img s"
    and "2 \<le> unat (next_free_hint s)" and "unat (next_free_hint s) < unat (total_clusters s) + 2"
    and "unat (total_clusters s) < 2 ^ 28"
  shows "\<exists>s'. find_free_cluster dv drive s =
      Some (case find (\<lambda>c. fat_value img s (of_nat c) = 0)
                (probe (unat (next_free_hint s)) (unat (total_clusters s))) of
              None \<Rightarrow> (0, s')
            | Some c \<Rightarrow> (of_nat c, s'\<lparr>next_free_hint := hint_after (of_nat c) (total_clusters s)\<rparr>))
    \<and> same_but_cache img s s' \<and> cache_ok img s'"
proof (cases "total_clusters s = 0")
  case True
  then have "probe (unat (next_free_hint s)) (unat (total_clusters s)) = []"
    using assms(4,5) by (simp add: probe_def)
  then show ?thesis using True assms(3) by (intro exI [of _ s]) (simp add: find_free_cluster_def)
next
  case False
  let ?h = "unat (next_free_hint s)" and ?n = "unat (total_clusters s)"
  let ?cand = "candidate (next_free_hint s) (total_clusters s)"
  have "map ?cand [0..<?n] = map of_nat (probe ?h ?n)"
    unfolding probe_rotate [OF assms(4,5), symmetric] map_map comp_def
    by (rule map_cong [OF refl]) (rule candidate_nat [OF assms(4-6)], simp)
  then have "find (\<lambda>c. fat_value img s c = 0) (map ?cand [0..<?n])
      = find (\<lambda>c. fat_value img s c = 0) (map of_nat (probe ?h ?n))"
    by (rule arg_cong)
  then have eq: "map_option ?cand (find (\<lambda>i. fat_value img s (?cand i) = 0) [0..<?n])
      = map_option of_nat (find (\<lambda>c. fat_value img s (of_nat c) = 0) (probe ?h ?n))"
    unfolding find_map_option .
  define P where "P = find (\<lambda>c. fat_value img s (of_nat c) = 0) (probe ?h ?n)"
  define Q where "Q = find (\<lambda>i. fat_value img s (?cand i) = 0) [0..<?n]"
  have pq: "map_option ?cand Q = map_option of_nat P" using eq unfolding P_def Q_def .
  obtain s1 where s1: "cache_ok img s1" "same_but_cache img s s1" "find_free_cluster dv drive s = Some (case Q of
      None \<Rightarrow> (0, s1)
    | Some i \<Rightarrow> (?cand i, s1\<lparr>next_free_hint := hint_after (?cand i) (total_clusters s)\<rparr>))"
    using find_free_loop_spec [OF assms(1-3), of "next_free_hint s" "[0..<?n]"] False
    unfolding find_free_cluster_def Q_def [symmetric] by auto
  have "(case Q of None \<Rightarrow> (0, s1) | Some i \<Rightarrow> (?cand i, s1\<lparr>next_free_hint := hint_after (?cand i) (total_clusters s)\<rparr>))
      = (case P of None \<Rightarrow> (0, s1) | Some c \<Rightarrow> (of_nat c, s1\<lparr>next_free_hint := hint_after (of_nat c) (total_clusters s)\<rparr>))"
    using pq by (cases P; cases Q) simp_all
  then show ?thesis using s1 unfolding P_def by (intro exI [of _ s1]) simp
qed

section \<open>Properties\<close>

text \<open>
  \<open>fat32_get_next_cluster\<close> returns the entry the FAT on the disk has for the cluster, whether the
  sector comes from the cache or from the disk, and 0x0FFFFFFF exactly when it has to read the sector
  and the read fails. It leaves the cache a true copy and changes nothing else.
\<close>

theorem next_cluster_reads_fat:
  assumes "block_device dv drive img" and "cache_ok img s"
  shows "\<exists>s'. fat32_get_next_cluster dv drive cl s =
      Some (if fat_lba s cl \<noteq> cached_fat_sector s
              \<and> fst (dev_read dv drive (fat_lba s cl) (fat_cache s) (disk s)) \<noteq> 0
            then 0x0FFFFFFF else fat_value img s cl, s')
    \<and> cache_ok img s' \<and> same_but_cache img s s'"
  by (rule get_next_cluster_cases [OF assms, of cl]) blast

theorem next_cluster_reads_fat_witness:
  "\<exists>s'. fat32_get_next_cluster whole_ram 0 4 demo_fs = Some (0, s')
    \<and> cache_ok image512 s' \<and> same_but_cache image512 demo_fs s'"
  using next_cluster_reads_fat [of whole_ram 0 image512 demo_fs 4] reliableD [OF ram_disk_reliable]
  by (simp add: demo_fat_entries)

text \<open>
  C18. Once \<open>fat_write_fat_entry\<close> has returned 0, looking the cluster up gives the 28 bits that were
  written, looking up any other cluster of the FAT gives what it gave before, and no sector outside the
  copies of the FAT has changed.
\<close>

theorem fat_write_updates:
  assumes "block_device dv drive img" and "reliable dv drive" and "cache_ok img s" and "length junk = 512"
    and "rd (fat32_bpb s) 16 = Some count" and "count \<noteq> 0" and "fats_fit s count" and "in_fat s cl"
    and "fat_write_fat_entry dv drive cl v junk s = Some (0, s')" and "in_fat s c"
  shows "(\<exists>t. fat32_get_next_cluster dv drive c s' =
      Some (if c = cl then v AND 0x0FFFFFFF else fat_value img s c, t))
    \<and> (\<forall>lba. img (disk s') lba = img (disk s) lba \<or> unat (fat_start s) \<le> unat lba
          \<and> unat lba < unat (fat_start s) + unat count * unat (sectors_per_fat s))"
proof (intro conjI allI)
  note w = fat_write_ok [OF assms(1,3-9)]
  obtain t where "fat32_get_next_cluster dv drive c s' = Some (fat_value img s' c, t)"
    by (rule get_next_cluster_reliable [OF assms(1,2) w(1)])
  then show "\<exists>t. fat32_get_next_cluster dv drive c s' = Some (if c = cl then v AND 0x0FFFFFFF else fat_value img s c, t)"
    unfolding w(2) [OF assms(10)] by (rule exI)
  show "img (disk s') lba = img (disk s) lba \<or> unat (fat_start s) \<le> unat lba
      \<and> unat lba < unat (fat_start s) + unat count * unat (sectors_per_fat s)" for lba
    using w(3) [of lba] not_le by blast
qed

theorem fat_write_updates_witness:
  "\<exists>s' t. fat_write_fat_entry whole_ram 0 4 0x0FFFFFFF (replicate 512 0) demo_fs = Some (0, s')
    \<and> fat32_get_next_cluster whole_ram 0 4 s' = Some (0x0FFFFFFF, t)"
proof -
  obtain s' where "fat_write_fat_entry whole_ram 0 4 0x0FFFFFFF (replicate 512 0) demo_fs = Some (0, s')"
    using demo_fat_write by blast
  then show ?thesis
    using fat_write_updates [where dv = whole_ram and drive = 0 and img = image512 and s = demo_fs
      and junk = "replicate 512 0" and count = 1 and cl = 4 and v = "0x0FFFFFFF" and s' = s' and c = 4]
    by (simp add: fats_fit_def in_fat_def)
qed

text \<open>
  C19. \<open>find_free_cluster\<close> returns the first cluster whose FAT entry is 0, in the order from the hint to
  the last cluster and then from 2 to the hint, and 0 only when no cluster of the volume is free; the
  hint moves behind the cluster it returned.
\<close>

theorem find_free_first:
  assumes "block_device dv drive img" and "reliable dv drive" and "cache_ok img s"
    and "2 \<le> unat (next_free_hint s)" and "unat (next_free_hint s) < unat (total_clusters s) + 2"
    and "unat (total_clusters s) < 2 ^ 28"
  shows "\<exists>s'. find_free_cluster dv drive s =
      Some (case find (\<lambda>c. fat_value img s (of_nat c) = 0)
                (probe (unat (next_free_hint s)) (unat (total_clusters s))) of
              None \<Rightarrow> (0, s')
            | Some c \<Rightarrow> (of_nat c, s'\<lparr>next_free_hint := hint_after (of_nat c) (total_clusters s)\<rparr>))
    \<and> same_but_cache img s s' \<and> cache_ok img s'"
  using assms by (rule find_free_spec)

theorem find_free_first_witness:
  "\<exists>s'. find_free_cluster whole_ram 0 demo_fs = Some (4, s'\<lparr>next_free_hint := 5\<rparr>)"
  using find_free_first [of whole_ram 0 image512 demo_fs] demo_fat_entries
  by (simp add: probe_def upt_rec hint_after_def) blast

lemma read_file_spec:
  assumes "block_device dv drive img" and "reliable dv drive" and "fs_sound img s"
    and "kmalloc 512 (fheap s) = Some (p, h)" and "fat_chain (fat_value img s) first cls"
    and "2 \<le> first" and "unat sz \<le> length buf"
  shows "\<exists>s'. fat32_read_file dv drive first buf sz s =
      Some (if p = 0 then (- 2, buf, s')
            else (of_nat (min (length (chain_bytes img s cls)) (unat sz)),
                  blit buf 0 (take (unat sz) (chain_bytes img s cls)), s'))
    \<and> fs_sound img s' \<and> same_volume img s s'"
proof -
  have ok: "heap_inv (fheap s)" "cache_ok img s" using assms(3) by (simp_all add: fs_sound_def)
  have nlt: "\<not> first < 2" using assms(6) by simp
  show ?thesis
  proof (cases rule: new_sector_cases [OF ok(1) assms(4)])
    case (1 sec)
    then show ?thesis using nlt assms(3)
      by (intro exI [of _ s]) (simp add: fat32_read_file_def)
  next
    case (2 sec n)
    let ?s = "s\<lparr>fheap := h\<rparr>" and ?D = "chain_bytes img s cls"
    define k where "k = min (length ?D) (unat sz)"
    have "take k ?D = take (unat sz) ?D" by (simp add: k_def min_def)
    moreover obtain sec1 t where t: "same_but_cache img ?s t" "cache_ok img t"
      "read_file_loop dv drive sz first buf 0 sec ?s = Some (blit buf 0 (take k ?D), of_nat k, sec1, t)"
      using read_file_loop_spec [OF assms(1,2), of ?s sz buf 0 first cls sec] ok(2) assms(5,7) spc_defined [OF assms(3)]
      by (auto simp: Let_def k_def)
    moreover obtain u where "free_sector p sec1 t = Some u" "fs_sound img u" "same_volume img s u"
      by (rule borrow_sector [OF assms(3) 2(5,6,4) t(1,2)])
    ultimately show ?thesis using 2(1,2) nlt by (intro exI [of _ u]) (simp add: fat32_read_file_def k_def)
  qed
qed

text \<open>
  C16. \<open>fat32_read_file\<close> follows the cluster chain to its end or until \<open>size\<close> bytes are read: the buffer
  starts with the bytes of the chain's clusters, cut to \<open>size\<close>, the rest of it is untouched, and the
  value returned is the number of bytes. The borrowed sector buffer is given back.
\<close>

theorem read_file_reads_chain:
  assumes "block_device dv drive img" and "reliable dv drive" and "fs_sound img s"
    and "kmalloc 512 (fheap s) = Some (p, h)" and "fat_chain (fat_value img s) first cls"
    and "2 \<le> first" and "unat sz \<le> length buf"
  shows "\<exists>s'. fat32_read_file dv drive first buf sz s =
      Some (if p = 0 then (- 2, buf, s')
            else (of_nat (min (length (chain_bytes img s cls)) (unat sz)),
                  blit buf 0 (take (unat sz) (chain_bytes img s cls)), s'))
    \<and> fs_sound img s' \<and> same_volume img s s'"
  by (rule read_file_spec [OF assms])

theorem read_file_reads_chain_witness:
  "\<exists>s'. fat32_read_file whole_ram 0 3 (replicate 600 0) 600 demo_fs = Some (512, replicate 512 65 @ replicate 88 0, s')"
proof -
  obtain h where h: "kmalloc 512 boot_heap = Some (0x200020, h)" using boot_heap_kmalloc_512 by blast
  have "chain_bytes image512 demo_fs [3] = replicate 512 65"
    by (simp add: chain_bytes_def cluster_bytes_def fat32_cluster_to_lba_def image512_def) (simp add: demo_fs_def)
  then show ?thesis
    using read_file_reads_chain [where dv = whole_ram and drive = 0 and img = image512 and s = demo_fs and p = "0x200020" and h = h
      and first = 3 and cls = "[3]" and sz = 600 and buf = "replicate 600 0"] h
    by (auto simp: demo_fat_entries blit_def)
qed

end
