(* ===== verification/Fat32_Dir.thy ===== *)
theory Fat32_Dir
  imports Fat32
begin

text \<open>
  Directories of drivers/fs/fat32.c as lists of 32-byte records: what \<open>fat32_read_dir\<close> and
  \<open>fat32_list_dir\<close> return depends on the records of the directory's cluster chain alone. The functions
  \<open>raw_entries\<close> and \<open>list_records\<close> say how.
\<close>

section \<open>Records\<close>

text \<open>The records of a sector, of some sectors of a cluster and of a chain.\<close>

definition record_at :: "bytes \<Rightarrow> nat \<Rightarrow> bytes" where
  "record_at sector off = take 32 (drop off sector)"

definition sector_records :: "bytes \<Rightarrow> bytes list" where
  "sector_records sector = map (record_at sector) sector_offsets"

definition cluster_records :: "('d \<Rightarrow> u32 \<Rightarrow> bytes) \<Rightarrow> 'd fs \<Rightarrow> nat list \<Rightarrow> u32 \<Rightarrow> bytes list" where
  "cluster_records img s is cl =
     concat (map (\<lambda>i. sector_records (img (disk s) (the (fat32_cluster_to_lba cl s) + of_nat i))) is)"

definition dir_records :: "('d \<Rightarrow> u32 \<Rightarrow> bytes) \<Rightarrow> 'd fs \<Rightarrow> u32 list \<Rightarrow> bytes list" where
  "dir_records img s cls =
     concat (map (cluster_records img s [0..<unat (the (bpb_sectors_per_cluster s))]) cls)"

text \<open>\<open>fat32_list_dir\<close> on a list of records, by the code's branches.\<close>

fun list_records :: "nat \<Rightarrow> bytes list \<Rightarrow> bytes list \<Rightarrow> nat \<Rightarrow> fat32_entry list
    \<Rightarrow> (bool \<times> bytes list \<times> nat \<times> fat32_entry list) option" where
  "list_records mx [] parts present es = Some (False, parts, present, es)"
| "list_records mx (r # rs) parts present es =
     (if r ! 0 = 0 then Some (True, parts, present, es)
      else if r ! 11 = 0x0F then do {
        (parts1, present1) \<leftarrow> lfn_record r parts present;
        list_records mx rs parts1 present1 es }
      else if r ! 11 AND 0x08 = 0x08 then list_records mx rs parts 0 es
      else if length es \<ge> mx then Some (True, parts, present, es)
      else do {
        e \<leftarrow> make_entry r 0 parts present;
        list_records mx rs parts 0 (es @ [e]) })"

text \<open>\<open>fat32_read_dir\<close>: everything up to the end mark but the long-name records.\<close>

definition raw_entries :: "nat \<Rightarrow> bytes list \<Rightarrow> bytes list" where
  "raw_entries mx rs = take mx (filter (\<lambda>r. r ! 11 \<noteq> 0x0F) (takeWhile (\<lambda>r. r ! 0 \<noteq> 0) rs))"

lemma sint_byte_E5 [simp]: "sint (c :: u8) \<noteq> 229"
  using sint_less [of c] by simp

lemma rd_record: "off + 32 \<le> length sector \<Longrightarrow> k < 32 \<Longrightarrow> rd (record_at sector off) k = rd sector (off + k)"
  by (simp add: record_at_def)

lemma nth_record: "off + 32 \<le> length sector \<Longrightarrow> k < 32 \<Longrightarrow> record_at sector off ! k = sector ! (off + k)"
  by (simp add: record_at_def)

lemma length_record [simp]: "off + 32 \<le> length sector \<Longrightarrow> length (record_at sector off) = 32"
  by (simp add: record_at_def)

lemma get_record:
  assumes "off + 32 \<le> length sector"
  shows "k + 2 \<le> 32 \<Longrightarrow> get16 (record_at sector off) k = get16 sector (off + k)"
    and "k + 4 \<le> 32 \<Longrightarrow> get32 (record_at sector off) k = get32 sector (off + k)"
  using assms by (simp_all add: get16_def get32_def nth_record ac_simps)

lemma make_entry_record:
  assumes "off + 32 \<le> length sector"
  shows "make_entry (record_at sector off) 0 parts present = make_entry sector off parts present"
proof -
  have "take 11 (drop 0 (record_at sector off)) = take 11 (drop off sector)"
    by (simp add: record_at_def min_def)
  then show ?thesis
    using assms by (simp add: make_entry_def nth_record get_record)
qed

lemma list_dir_sector_records:
  "\<forall>off\<in>set offs. off + 32 \<le> length sector \<Longrightarrow>
   list_dir_sector sector mx offs parts present es = list_records mx (map (record_at sector) offs) parts present es"
proof (induction offs arbitrary: parts present es)
  case Nil
  then show ?case by simp
next
  case (Cons off offs)
  have [simp]: "rd sector off = Some (record_at sector off ! 0)"
    "rd sector (off + 11) = Some (record_at sector off ! 11)"
    using Cons.prems by (simp_all add: nth_record)
  show ?case
    using Cons make_entry_record [of off sector parts present]
    by (auto simp: record_at_def [symmetric] intro!: Option.bind_cong [OF refl])
qed

text \<open>Whether \<open>fat32_read_dir\<close> returns among these records: at the end mark or for lack of room.\<close>

definition halts :: "nat \<Rightarrow> bytes list \<Rightarrow> bool" where
  "halts mx rs \<longleftrightarrow> (\<exists>r\<in>set rs. r ! 0 = 0)
     \<or> mx < length (filter (\<lambda>r. r ! 11 \<noteq> 0x0F) (takeWhile (\<lambda>r. r ! 0 \<noteq> 0) rs))"

lemma raw_entries_Nil [simp]: "raw_entries mx [] = []" "\<not> halts mx []"
  by (simp_all add: raw_entries_def halts_def)

lemma raw_entries_Cons:
  "raw_entries mx (r # rs) = (if r ! 0 = 0 then [] else if r ! 11 = 0x0F then raw_entries mx rs
     else case mx of 0 \<Rightarrow> [] | Suc k \<Rightarrow> r # raw_entries k rs)"
  "halts mx (r # rs) \<longleftrightarrow> r ! 0 = 0 \<or> (if r ! 11 = 0x0F then halts mx rs
     else case mx of 0 \<Rightarrow> True | Suc k \<Rightarrow> halts k rs)"
  by (auto simp: raw_entries_def halts_def split: nat.split)

lemma length_raw_entries: "length (raw_entries mx rs) \<le> mx"
  by (simp add: raw_entries_def)

lemma raw_entries_append:
  "raw_entries mx (xs @ ys) = raw_entries mx xs
     @ (if halts mx xs then [] else raw_entries (mx - length (raw_entries mx xs)) ys)"
  "halts mx (xs @ ys) \<longleftrightarrow> halts mx xs \<or> halts (mx - length (raw_entries mx xs)) ys"
proof -
  have "raw_entries mx (xs @ ys) = raw_entries mx xs
      @ (if halts mx xs then [] else raw_entries (mx - length (raw_entries mx xs)) ys)
    \<and> (halts mx (xs @ ys) \<longleftrightarrow> halts mx xs \<or> halts (mx - length (raw_entries mx xs)) ys)"
    by (induction xs arbitrary: mx) (auto simp: raw_entries_Cons split: nat.split)
  then show "raw_entries mx (xs @ ys) = raw_entries mx xs
      @ (if halts mx xs then [] else raw_entries (mx - length (raw_entries mx xs)) ys)"
    "halts mx (xs @ ys) \<longleftrightarrow> halts mx xs \<or> halts (mx - length (raw_entries mx xs)) ys"
    by blast+
qed

lemma read_dir_sector_records:
  "\<forall>off\<in>set offs. off + 32 \<le> length sector \<Longrightarrow> length es \<le> mx \<Longrightarrow>
   read_dir_sector sector mx offs es
     = Some (halts (mx - length es) (map (record_at sector) offs),
         es @ raw_entries (mx - length es) (map (record_at sector) offs))"
proof (induction offs arbitrary: es)
  case Nil
  then show ?case by simp
next
  case (Cons off offs)
  have [simp]: "rd sector off = Some (record_at sector off ! 0)"
    "rd sector (off + 11) = Some (record_at sector off ! 11)"
    using Cons.prems by (simp_all add: nth_record)
  show ?case
  proof (cases "mx - length es")
    case 0
    then show ?thesis using Cons by (simp add: raw_entries_Cons)
  next
    case (Suc k)
    then have "mx - Suc (length es) = k" "Suc (length es) \<le> mx" by simp_all
    then show ?thesis using Cons Suc by (simp add: raw_entries_Cons record_at_def [symmetric])
  qed
qed

lemma sector_offsets_fit: "length sector = 512 \<Longrightarrow> \<forall>off\<in>set sector_offsets. off + 32 \<le> length sector"
  by (auto simp: sector_offsets_def)

section \<open>Reading raw entries\<close>

lemma cluster_records_same: "same_but_cache img s t \<Longrightarrow> cluster_records img t = cluster_records img s"
  by (simp add: cluster_records_def fun_eq_iff same_but_cacheD)

lemma dir_records_same: "same_but_cache img s t \<Longrightarrow> dir_records img t = dir_records img s"
  by (simp add: dir_records_def fun_eq_iff same_but_cacheD cluster_records_same)

lemma read_dir_cluster_spec:
  assumes dev: "block_device dv drive img" and rel: "reliable dv drive"
    and "cache_ok img s" and "length es \<le> mx" and "fat32_cluster_to_lba cl s = Some lba"
  shows "\<exists>sec s1. same_but_cache img s s1 \<and> cache_ok img s1 \<and>
    (let rs = cluster_records img s is cl; es1 = es @ raw_entries (mx - length es) rs in
     read_dir_cluster dv drive mx cl is es sector s =
       Some (if halts (mx - length es) rs then Some (of_nat (length es1)) else None, es1, sec, s1))"
  using assms(3-)
proof (induction "is" arbitrary: es sector s)
  case Nil
  then show ?case by (auto simp: cluster_records_def)
next
  case (Cons i "is")
  obtain d where d: "read_sector dv drive (lba + of_nat i) sector s
      = (0, img (disk s) (lba + of_nat i), s\<lparr>disk := d\<rparr>)" "img d = img (disk s)"
    by (rule read_sector_reliable [OF dev rel])
  let ?sec = "img (disk s) (lba + of_nat i)" and ?s = "s\<lparr>disk := d\<rparr>"
  define R where "R = sector_records ?sec"
  define es1 where "es1 = es @ raw_entries (mx - length es) R"
  have st: "same_but_cache img s ?s" "cache_ok img ?s"
    using d Cons.prems(1) by (simp_all add: same_but_cache_disk cache_ok_disk)
  have rs: "cluster_records img s (i # is) cl = R @ cluster_records img s is cl"
    by (simp add: cluster_records_def Cons.prems(3) R_def)
  have sec: "read_dir_sector ?sec mx sector_offsets es = Some (halts (mx - length es) R, es1)"
    unfolding R_def es1_def sector_records_def
    by (rule read_dir_sector_records [OF sector_offsets_fit Cons.prems(2)]) (rule block_deviceD(1) [OF dev])
  show ?case
  proof (cases "halts (mx - length es) R")
    case True
    then have "read_dir_cluster dv drive mx cl (i # is) es sector s = Some (Some (of_nat (length es1)), es1, ?sec, ?s)"
      using Cons.prems(3) d(1) sec by simp
    then show ?thesis using st True unfolding rs Let_def
      by (intro exI [of _ ?sec] exI [of _ ?s]) (simp add: raw_entries_append es1_def)
  next
    case False
    then have step: "read_dir_cluster dv drive mx cl (i # is) es sector s = read_dir_cluster dv drive mx cl is es1 ?sec ?s"
      using Cons.prems(3) d(1) sec by simp
    have le: "length es1 \<le> mx"
      using length_raw_entries [of "mx - length es" R] Cons.prems(2) by (simp add: es1_def)
    have "fat32_cluster_to_lba cl ?s = Some lba" using Cons.prems(3) by (simp add: same_but_cacheD [OF st(1)])
    from Cons.IH [OF st(2) le this, of ?sec] show ?thesis
      using False same_but_cache_trans [OF st(1)]
      unfolding step rs Let_def cluster_records_same [OF st(1)] es1_def raw_entries_append by auto
  qed
qed

lemma read_dir_loop_spec:
  assumes dev: "block_device dv drive img" and rel: "reliable dv drive"
    and "cache_ok img s" and "length es \<le> mx" and "bpb_sectors_per_cluster s = Some spc"
    and "fat_chain (fat_value img s) cl cls"
  shows "\<exists>sec s1. same_but_cache img s s1 \<and> cache_ok img s1 \<and>
    (let es1 = es @ raw_entries (mx - length es) (dir_records img s cls) in
     read_dir_loop dv drive mx cl es sector s = Some (of_nat (length es1), es1, sec, s1))"
  using assms(3-)
proof (induction cls arbitrary: cl es sector s)
  case Nil
  then have "read_dir_loop dv drive mx cl es sector s = Some (of_nat (length es), es, sector, s)"
    by (subst read_dir_loop.simps) simp
  then show ?case using Nil.prems(1) same_but_cache_refl by (auto simp: dir_records_def)
next
  case (Cons c cs)
  have c: "c = cl" "cl < 0x0FFFFFF8" and ch: "fat_chain (fat_value img s) (fat_value img s cl) cs"
    using Cons.prems(4) by simp_all
  obtain lba where "fat32_cluster_to_lba cl s = Some lba"
    using Cons.prems(3) by (simp add: fat32_cluster_to_lba_def)
  from read_dir_cluster_spec [OF dev rel Cons.prems(1,2) this, of "[0..<unat spc]" sector]
  obtain R es1 sec1 s1 where R: "R = cluster_records img s [0..<unat spc] cl"
    "es1 = es @ raw_entries (mx - length es) R" "same_but_cache img s s1" "cache_ok img s1"
    and rc: "read_dir_cluster dv drive mx cl [0..<unat spc] es sector s =
      Some (if halts (mx - length es) R then Some (of_nat (length es1)) else None, es1, sec1, s1)"
    unfolding Let_def by blast
  have rs: "dir_records img s (c # cs) = R @ dir_records img s cs"
    by (simp add: dir_records_def R(1) Cons.prems(3) c)
  have unf: "read_dir_loop dv drive mx cl es sector s = (case if halts (mx - length es) R then Some (of_nat (length es1)) else None of
      Some v \<Rightarrow> Some (v, es1, sec1, s1)
    | None \<Rightarrow> do { (nxt, s2) \<leftarrow> fat32_get_next_cluster dv drive cl s1; read_dir_loop dv drive mx nxt es1 sec1 s2 })"
    using c(2) Cons.prems(3) rc by (subst read_dir_loop.simps) simp
  show ?case
  proof (cases "halts (mx - length es) R")
    case True
    then show ?thesis using R(2-4) unfolding rs Let_def unf
      by (intro exI [of _ sec1] exI [of _ s1]) (simp add: raw_entries_append)
  next
    case False
    obtain s2 where s2: "fat32_get_next_cluster dv drive cl s1 = Some (fat_value img s1 cl, s2)"
      "cache_ok img s2" "same_but_cache img s1 s2"
      by (rule get_next_cluster_reliable [OF dev rel R(4)])
    have same: "same_but_cache img s s2" using same_but_cache_trans R(3) s2(3) by blast
    have step: "read_dir_loop dv drive mx cl es sector s = read_dir_loop dv drive mx (fat_value img s cl) es1 sec1 s2"
      using False s2(1) same_but_cacheD [OF R(3)] unfolding unf by simp
    have le: "length es1 \<le> mx"
      using length_raw_entries [of "mx - length es" R] Cons.prems(2) by (simp add: R(2))
    have "bpb_sectors_per_cluster s2 = Some spc" "fat_chain (fat_value img s2) (fat_value img s cl) cs"
      using Cons.prems(3) ch same_but_cacheD [OF same] by simp_all
    from Cons.IH [OF s2(2) le this, of sec1] show ?thesis
      using False same_but_cache_trans [OF same] R(2)
      unfolding step rs Let_def dir_records_same [OF same] raw_entries_append by auto
  qed
qed

section \<open>Names\<close>

text \<open>
  The rows of \<open>lfn_parts\<close> stay C strings, so a listing never leaves its buffers: it is defined for
  every sequence of records.
\<close>

definition parts_ok :: "bytes list \<Rightarrow> bool" where
  "parts_ok parts \<longleftrightarrow> length parts = 20 \<and> (\<forall>row\<in>set parts. length row = 14 \<and> terminated row)"

lemma parts_ok_nth: "parts_ok parts \<Longrightarrow> i < 20 \<Longrightarrow> length (parts ! i) = 14 \<and> terminated (parts ! i)"
  by (simp add: parts_ok_def)

lemma no_parts_ok [simp]: "parts_ok no_parts"
  by (simp add: parts_ok_def no_parts_def terminated_def)

lemma cstr_prefix_zero: "take n d = pre \<Longrightarrow> n < length d \<Longrightarrow> d ! n = 0 \<Longrightarrow> 0 \<notin> set pre \<Longrightarrow> cstr d = pre \<and> terminated d"
proof -
  assume a: "take n d = pre" "n < length d" "d ! n = 0" "0 \<notin> set pre"
  then have "d = pre @ 0 # drop (Suc n) d" by (metis id_take_nth_drop)
  then show ?thesis using a(4) by (metis cstr_append_zero terminated_append terminated_Cons)
qed

text \<open>The characters of a long-name record up to the first 0 or 0xFF.\<close>

definition lfn_text :: "bytes \<Rightarrow> bytes" where
  "lfn_text lfn = takeWhile (\<lambda>c. c \<noteq> 0 \<and> c \<noteq> 0xFF) (map ((!) lfn) lfn_offsets)"

lemma lfn_copy_loop_spec:
  assumes "\<forall>off\<in>set offs. off < length lfn" and "pos + length offs < length dst"
    and "take pos dst = pre" and "0 \<notin> set pre"
  shows "\<exists>d. lfn_copy_loop dst pos lfn offs = Some d \<and> length d = length dst \<and> terminated d
    \<and> cstr d = pre @ takeWhile (\<lambda>c. c \<noteq> 0 \<and> c \<noteq> 0xFF) (map ((!) lfn) offs)"
  using assms
proof (induction offs arbitrary: dst pos pre)
  case Nil
  then show ?case using cstr_prefix_zero [of pos "dst[pos := 0]" pre] by simp
next
  case (Cons off offs)
  let ?ch = "lfn ! off"
  show ?case
  proof (cases "?ch = 0 \<or> ?ch = 0xFF")
    case True
    then show ?thesis using Cons.prems cstr_prefix_zero [of pos "dst[pos := 0]" pre] by auto
  next
    case False
    have "take (pos + 1) (dst[pos := ?ch]) = pre @ [?ch]"
      using Cons.prems by (simp add: take_Suc_conv_app_nth)
    then show ?thesis
      using Cons.IH [of "pos + 1" "dst[pos := ?ch]" "pre @ [?ch]"] Cons.prems False by auto
  qed
qed

lemma lfn_copy_part_spec:
  assumes "length row = 14" and "length lfn = 32"
  shows "\<exists>d. lfn_copy_part row lfn = Some d \<and> length d = 14 \<and> terminated d \<and> cstr d = lfn_text lfn"
  using lfn_copy_loop_spec [of lfn_offsets lfn 0 row "[]"] assms
  by (simp add: lfn_copy_part_def lfn_text_def lfn_offsets_def)

lemma append_part_spec:
  assumes "length name = 256" and "pos \<le> 255" and "take pos name = pre" and "0 \<notin> set pre" and "0 \<notin> set cs"
  shows "\<exists>n. append_part name pos cs = Some n \<and> length n = 256 \<and> terminated n \<and> cstr n = take 255 (pre @ cs)"
  using assms
proof (induction cs arbitrary: name pos pre)
  case Nil
  then have "length pre = pos" by auto
  then show ?case using Nil cstr_prefix_zero [of pos "name[pos := 0]" pre] by simp
next
  case (Cons c cs)
  have len: "length pre = pos" using Cons.prems by auto
  show ?case
  proof (cases "pos < 255")
    case True
    have "take (pos + 1) (name[pos := c]) = pre @ [c]"
      using Cons.prems True by (simp add: take_Suc_conv_app_nth)
    then show ?thesis
      using Cons.IH [of "name[pos := c]" "pos + 1" "pre @ [c]"] Cons.prems True by simp
  next
    case False
    then show ?thesis using Cons.prems len cstr_prefix_zero [of pos "name[pos := 0]" pre] by simp
  qed
qed

lemma glue_parts_spec:
  assumes "parts_ok parts" and "\<forall>i\<in>set is. i < 20" and "length name = 256" and "terminated name"
  shows "\<exists>n. glue_parts parts name is = Some n \<and> length n = 256 \<and> terminated n
    \<and> cstr n = take 255 (cstr name @ concat (map (\<lambda>i. cstr (parts ! i)) is))"
  using assms(2-)
proof (induction "is" arbitrary: name)
  case Nil
  then show ?case using length_cstr_less [of name] by simp
next
  case (Cons i "is")
  have row: "terminated (parts ! i)" "i < length parts"
    using parts_ok_nth [OF assms(1), of i] Cons.prems(1) assms(1) by (simp_all add: parts_ok_def)
  have len: "length (cstr name) \<le> 255" using length_cstr_less [OF Cons.prems(3)] Cons.prems(2) by simp
  have pre: "take (length (cstr name)) name = cstr name"
    by (metis append_eq_conv_conj Cons.prems(3) terminated_split)
  have take_row: "take (length (cstr (parts ! i))) (parts ! i) = cstr (parts ! i)"
    by (metis append_eq_conv_conj row(1) terminated_split)
  obtain n where n: "append_part name (length (cstr name)) (cstr (parts ! i)) = Some n"
    "length n = 256" "terminated n" "cstr n = take 255 (cstr name @ cstr (parts ! i))"
    using append_part_spec [OF Cons.prems(2) len pre, of "cstr (parts ! i)"] by auto
  obtain m where m: "glue_parts parts n is = Some m" "length m = 256" "terminated m"
    "cstr m = take 255 (cstr n @ concat (map (\<lambda>i. cstr (parts ! i)) is))"
    using Cons.IH [OF _ n(2,3)] Cons.prems(1) by auto
  have cut: "take 255 (take 255 xs @ ys) = take 255 (xs @ ys)" for xs ys :: bytes
    by (cases "length xs \<le> 255") simp_all
  have "cstr m = take 255 (cstr name @ concat (map (\<lambda>i. cstr (parts ! i)) (i # is)))"
    unfolding m(4) n(4) cut by (simp del: take_append)
  then show ?case using m row n(1) Cons.prems(3) take_row by (simp add: strlen_cstr)
qed

lemma long_name_spec:
  assumes "parts_ok parts" and "n \<le> 20"
  shows "\<exists>name. long_name parts n = Some name \<and> length name = 256 \<and> terminated name
    \<and> cstr name = take 255 (concat (rev (map cstr (take n parts))))"
proof -
  have "map (\<lambda>i. cstr (parts ! i)) [0..<n] = map cstr (take n parts)"
    using assms by (intro nth_equalityI) (simp_all add: parts_ok_def)
  then have "map (\<lambda>i. cstr (parts ! i)) (rev [0..<n]) = rev (map cstr (take n parts))"
    by (simp add: rev_map [symmetric])
  moreover have "terminated (replicate 256 (0 :: u8))" "cstr (replicate 256 0) = []"
    by (simp_all add: terminated_def cstr_def takeWhile_replicate)
  moreover have "\<forall>i\<in>set (rev [0..<n]). i < 20" using assms(2) by auto
  ultimately show ?thesis
    using glue_parts_spec [OF assms(1), of "rev [0..<n]" "replicate 256 0"] by (auto simp: long_name_def)
qed

text \<open>The text of an 8.3 name.\<close>

definition short_text :: "bytes \<Rightarrow> bytes" where
  "short_text inp = takeWhile (\<lambda>c. c \<noteq> 32) (take 8 inp)
     @ (if drop 8 inp = [32, 32, 32] then [] else 46 # takeWhile (\<lambda>c. c \<noteq> 32) (drop 8 inp))"

lemma name_part_spec:
  assumes "\<forall>i\<in>set is. i < length inp" and "pos + length is \<le> length out"
  shows "name_part out pos inp is
    = Some (blit out pos (takeWhile (\<lambda>c. c \<noteq> 32) (map ((!) inp) is)),
        pos + length (takeWhile (\<lambda>c. c \<noteq> 32) (map ((!) inp) is)))"
  using assms
proof (induction "is" arbitrary: out pos)
  case Nil
  then show ?case by simp
next
  case (Cons i "is")
  have "length (takeWhile (\<lambda>c. c \<noteq> 32) (map ((!) inp) is)) \<le> length is"
    using length_takeWhile_le [of _ "map ((!) inp) is"] by simp
  then show ?case using Cons by (simp add: blit_Cons)
qed

lemma shortname_to_string_spec:
  assumes "length inp = 11" and "13 \<le> length out"
  shows "shortname_to_string inp out = Some (blit out 0 (short_text inp @ [0]))"
proof -
  define A where "A = takeWhile (\<lambda>c. c \<noteq> 32) (take 8 inp)"
  define B where "B = takeWhile (\<lambda>c. c \<noteq> 32) (drop 8 inp)"
  have a: "map ((!) inp) [0..<8] = take 8 inp" "map ((!) inp) [8..<11] = drop 8 inp"
    using assms(1) by (auto intro!: nth_equalityI simp del: upt_rec_numeral upt_Suc)
  have len: "length A \<le> 8" "length B \<le> 3"
    unfolding A_def B_def using assms(1)
      length_takeWhile_le [of "\<lambda>c. c \<noteq> 32" "take 8 inp"] length_takeWhile_le [of "\<lambda>c. c \<noteq> 32" "drop 8 inp"] by simp_all
  have np1: "name_part out 0 inp [0..<8] = Some (blit out 0 A, length A)"
    using name_part_spec [of "[0..<8]" inp 0 out] assms unfolding a A_def [symmetric] by simp
  have "length (drop 8 inp) = Suc (Suc (Suc 0))" using assms(1) by simp
  then obtain x y z where xyz: "drop 8 inp = [x, y, z]" unfolding length_Suc_conv length_0_conv by blast
  then have nth: "inp ! 8 = x" "inp ! 9 = y" "inp ! 10 = z"
    using assms(1) nth_drop [of 8 inp 0] nth_drop [of 8 inp 1] nth_drop [of 8 inp 2] by simp_all
  have wr: "wr (blit out 0 xs) (length xs) c = Some (blit out 0 (xs @ [c]))" if "length xs < length out" for xs c
    using that by (simp add: blit_def list_update_append nth_append)
       (metis Cons_nth_drop_Suc list_update_code(2))
  show ?thesis
  proof (cases "x = 32 \<and> y = 32 \<and> z = 32")
    case True
    then show ?thesis
      using np1 assms nth len wr [of A 0] xyz
      by (simp add: shortname_to_string_def short_text_def A_def [symmetric])
  next
    case False
    let ?t = "blit out 0 (A @ [46])"
    have "length ?t = length out" using assms(2) len by simp
    then have np2: "name_part ?t (length A + 1) inp [8..<11]
        = Some (blit ?t (length A + 1) B, length A + 1 + length B)"
      using name_part_spec [of "[8..<11]" inp "length A + 1" ?t] assms len unfolding a B_def [symmetric] by simp
    moreover have "blit ?t (length A + 1) B = blit out 0 (A @ 46 # B)"
      using blit_blit_next [of 0 "A @ [46]" B out] assms len by simp
    moreover have "rd inp 8 = Some x" "rd inp 9 = Some y" "rd inp 10 = Some z" "(x \<noteq> 32 \<or> y \<noteq> 32 \<or> z \<noteq> 32) = True"
      using nth assms(1) False by simp_all
    moreover have "wr (blit out 0 A) (length A) 46 = Some ?t"
      "wr (blit out 0 (A @ 46 # B)) (length A + 1 + length B) 0 = Some (blit out 0 ((A @ 46 # B) @ [0]))"
      using wr [of A 46] wr [of "A @ 46 # B" 0] assms len by simp_all
    ultimately have "shortname_to_string inp out = Some (blit out 0 ((A @ 46 # B) @ [0]))"
      unfolding shortname_to_string_def np1 by (simp only: bind.bind_lunit case_prod_conv if_True)
    moreover have "short_text inp = A @ 46 # B" using False xyz by (auto simp: short_text_def A_def B_def)
    ultimately show ?thesis by simp
  qed
qed

text \<open>The entry of a record of 32 bytes.\<close>

definition record_cluster :: "bytes \<Rightarrow> u32" where
  "record_cluster r = push_bit 16 (ucast (the (get16 r 20))) OR ucast (the (get16 r 26))"

definition entry_name :: "bytes \<Rightarrow> bytes list \<Rightarrow> nat \<Rightarrow> bytes" where
  "entry_name r parts present =
     (if present = 0 then cstr (short_text (take 11 r)) else take 255 (concat (rev (map cstr (take present parts)))))"

lemma make_entry_spec:
  assumes "length r = 32" and "parts_ok parts" and "present \<le> 20"
  obtains e where "make_entry r 0 parts present = Some e" "cstr (e_name e) = entry_name r parts present"
    "length (e_name e) = 256" "terminated (e_name e)" "e_attr e = r ! 11" "e_first_cluster e = record_cluster r"
    "e_size e = the (get32 r 28)"
proof -
  have name: "\<exists>name. (if present \<noteq> 0 then long_name parts present
      else shortname_to_string (take 11 (drop 0 r)) (replicate 256 0)) = Some name
    \<and> length name = 256 \<and> terminated name \<and> cstr name = entry_name r parts present"
  proof (cases "present = 0")
    case True
    let ?t = "short_text (take 11 r)"
    have "length ?t \<le> 12"
      using assms(1) length_takeWhile_le [of "\<lambda>c. c \<noteq> 32" "take 8 r"]
        length_takeWhile_le [of "\<lambda>c. c \<noteq> 32" "drop 8 (take 11 r)"] by (simp add: short_text_def)
    moreover have "shortname_to_string (take 11 (drop 0 r)) (replicate 256 0) = Some (blit (replicate 256 0) 0 (?t @ [0]))"
      using shortname_to_string_spec [of "take 11 r" "replicate 256 0"] assms(1) by simp
    moreover have "cstr (xs @ 0 # ys) = cstr xs" for xs ys by (induction xs) auto
    ultimately show ?thesis using True by (simp add: blit_def entry_name_def)
  next
    case False
    then show ?thesis using long_name_spec [OF assms(2,3)] by (simp add: entry_name_def)
  qed
  obtain hi lo sz where "get16 r 20 = Some hi" "get16 r 26 = Some lo" "get32 r 28 = Some sz"
    using get16_defined [of 20 r] get16_defined [of 26 r] get32_defined [of 28 r] assms(1) by auto
  then show ?thesis using that name assms(1) by (auto simp: make_entry_def record_cluster_def)
qed

section \<open>Listing\<close>

lemma lfn_record_spec:
  assumes "length r = 32" and "parts_ok parts" and "present \<le> 20"
  shows "\<exists>parts1 present1. lfn_record r parts present = Some (parts1, present1) \<and> parts_ok parts1 \<and> present1 \<le> 20"
proof -
  define k where "k = unat (r ! 0 AND 0x1F)"
  define first where "first \<longleftrightarrow> r ! 0 AND 0x40 \<noteq> 0"
  define parts0 where "parts0 = (if first then no_parts else parts)"
  have ok: "parts_ok parts0" using assms(2) by (simp add: parts0_def)
  have unf: "lfn_record r parts present = (if 0 < k \<and> k \<le> 20 then do {
       row \<leftarrow> rd parts0 (k - 1);
       row1 \<leftarrow> lfn_copy_part row r;
       Some (parts0[k - 1 := row1], if first then k else present) }
     else Some (parts0, present))"
    using assms(1) by (simp add: lfn_record_def Let_def k_def first_def parts0_def)
  show ?thesis
  proof (cases "0 < k \<and> k \<le> 20")
    case True
    then have k: "k - 1 < 20" by linarith
    have row: "length (parts0 ! (k - 1)) = 14" "k - 1 < length parts0"
      using parts_ok_nth [OF ok k] k ok by (simp_all add: parts_ok_def)
    obtain d where d: "lfn_copy_part (parts0 ! (k - 1)) r = Some d" "length d = 14" "terminated d"
      using lfn_copy_part_spec [OF row(1) assms(1)] by blast
    have "parts_ok (parts0[k - 1 := d])"
      using ok d(2,3) set_update_subset_insert [of parts0 "k - 1" d] by (auto simp: parts_ok_def)
    then show ?thesis unfolding unf using True row d(1) assms(3) by simp
  next
    case False
    then have "lfn_record r parts present = Some (parts0, present)" unfolding unf by (rule if_not_P)
    then show ?thesis using ok assms(3) by blast
  qed
qed

text \<open>A listing is defined for all records, and never returns more entries than there is room for.\<close>

lemma list_records_total:
  assumes "\<forall>r\<in>set rs. length r = 32" and "parts_ok parts" and "present \<le> 20" and "length es \<le> mx"
  shows "\<exists>stop p n e. list_records mx rs parts present es = Some (stop, p, n, e) \<and> parts_ok p \<and> n \<le> 20 \<and> length e \<le> mx"
  using assms
proof (induction rs arbitrary: parts present es)
  case Nil
  then show ?case by auto
next
  case (Cons r rs)
  have r: "length r = 32" and rs: "\<forall>r\<in>set rs. length r = 32" using Cons.prems(1) by simp_all
  note IH = Cons.IH [OF rs]
  obtain parts1 present1 where lfn: "lfn_record r parts present = Some (parts1, present1)" "parts_ok parts1" "present1 \<le> 20"
    using lfn_record_spec [OF r Cons.prems(2,3)] by blast
  obtain e where e: "make_entry r 0 parts present = Some e"
    by (rule make_entry_spec [OF r Cons.prems(2,3)])
  show ?case
    using IH [OF lfn(2,3) Cons.prems(4)] IH [OF Cons.prems(2) _ Cons.prems(4), of 0]
      IH [OF Cons.prems(2), of 0 "es @ [e]"] Cons.prems lfn(1) e by auto
qed

lemma list_records_append:
  "list_records mx (xs @ ys) parts present es = do {
     (stop, p, n, e) \<leftarrow> list_records mx xs parts present es;
     if stop then Some (True, p, n, e) else list_records mx ys p n e }"
  by (induction xs arbitrary: parts present es) (auto split: Option.bind_split)

lemma cluster_records_length:
  assumes "block_device dv drive img"
  shows "r \<in> set (cluster_records img s is cl) \<Longrightarrow> length r = 32"
  using block_deviceD(1) [OF assms]
  by (auto simp: cluster_records_def sector_records_def sector_offsets_def)

lemma dir_records_length:
  assumes "block_device dv drive img"
  shows "\<forall>r\<in>set (dir_records img s cls). length r = 32"
  using cluster_records_length [OF assms] by (auto simp: dir_records_def)

lemma list_dir_cluster_spec:
  assumes dev: "block_device dv drive img" and rel: "reliable dv drive"
    and "cache_ok img s" and "fat32_cluster_to_lba cl s = Some lba"
    and "list_records mx (cluster_records img s is cl) parts present es = Some (stop, p, n, e)"
  shows "\<exists>sec s1. same_but_cache img s s1 \<and> cache_ok img s1 \<and>
    list_dir_cluster dv drive mx cl is parts present es sector s =
      Some (if stop then Some (of_nat (length e)) else None, p, n, e, sec, s1)"
  using assms(3-)
proof (induction "is" arbitrary: parts present es sector s)
  case Nil
  then show ?case by (auto simp: cluster_records_def)
next
  case (Cons i "is")
  obtain d where d: "read_sector dv drive (lba + of_nat i) sector s
      = (0, img (disk s) (lba + of_nat i), s\<lparr>disk := d\<rparr>)" "img d = img (disk s)"
    by (rule read_sector_reliable [OF dev rel])
  let ?sec = "img (disk s) (lba + of_nat i)" and ?s = "s\<lparr>disk := d\<rparr>"
  have st: "same_but_cache img s ?s" "cache_ok img ?s"
    using d Cons.prems(1) by (simp_all add: same_but_cache_disk cache_ok_disk)
  have rs: "cluster_records img s (i # is) cl = sector_records ?sec @ cluster_records img ?s is cl"
    unfolding cluster_records_same [OF st(1)] by (simp add: cluster_records_def Cons.prems(2))
  obtain stop1 p1 n1 e1 where one: "list_records mx (sector_records ?sec) parts present es = Some (stop1, p1, n1, e1)"
    and two: "(if stop1 then Some (True, p1, n1, e1) else list_records mx (cluster_records img ?s is cl) p1 n1 e1)
      = Some (stop, p, n, e)"
    using Cons.prems(3) unfolding rs list_records_append by (auto simp: bind_eq_Some_conv)
  have sec: "list_dir_sector ?sec mx sector_offsets parts present es = Some (stop1, p1, n1, e1)"
    using one list_dir_sector_records [OF sector_offsets_fit [OF block_deviceD(1) [OF dev]]]
    by (simp add: sector_records_def)
  have cl: "fat32_cluster_to_lba cl ?s = Some lba" using Cons.prems(2) by (simp add: same_but_cacheD [OF st(1)])
  show ?case
  proof (cases stop1)
    case True
    then show ?thesis using st d(1) Cons.prems(2) sec two
      by (intro exI [of _ ?sec] exI [of _ ?s]) simp
  next
    case False
    then have "list_records mx (cluster_records img ?s is cl) p1 n1 e1 = Some (stop, p, n, e)" using two by simp
    from Cons.IH [OF st(2) cl this, of ?sec] show ?thesis
      using False d(1) Cons.prems(2) sec same_but_cache_trans [OF st(1)] by auto
  qed
qed

lemma list_dir_loop_spec:
  assumes dev: "block_device dv drive img" and rel: "reliable dv drive"
    and "cache_ok img s" and "bpb_sectors_per_cluster s = Some spc" and "fat_chain (fat_value img s) cl cls"
    and "list_records mx (dir_records img s cls) parts present es = Some (stop, p, n, e)"
  shows "\<exists>sec s1. same_but_cache img s s1 \<and> cache_ok img s1 \<and>
    list_dir_loop dv drive mx cl parts present es sector s = Some (of_nat (length e), e, sec, s1)"
  using assms(3-)
proof (induction cls arbitrary: cl parts present es sector s)
  case Nil
  then have "list_dir_loop dv drive mx cl parts present es sector s = Some (of_nat (length es), es, sector, s)"
    by (subst list_dir_loop.simps) simp
  then show ?case using Nil same_but_cache_refl by (auto simp: dir_records_def)
next
  case (Cons c cs)
  have c: "c = cl" "cl < 0x0FFFFFF8" and ch: "fat_chain (fat_value img s) (fat_value img s cl) cs"
    using Cons.prems(3) by simp_all
  obtain lba where lba: "fat32_cluster_to_lba cl s = Some lba"
    using Cons.prems(2) by (simp add: fat32_cluster_to_lba_def)
  let ?R = "cluster_records img s [0..<unat spc] cl"
  have rs: "dir_records img s (c # cs) = ?R @ dir_records img s cs"
    by (simp add: dir_records_def Cons.prems(2) c)
  obtain stop1 p1 n1 e1 where one: "list_records mx ?R parts present es = Some (stop1, p1, n1, e1)"
    and two: "(if stop1 then Some (True, p1, n1, e1) else list_records mx (dir_records img s cs) p1 n1 e1)
      = Some (stop, p, n, e)"
    using Cons.prems(4) unfolding rs list_records_append by (auto simp: bind_eq_Some_conv)
  obtain sec1 s1 where s1: "same_but_cache img s s1" "cache_ok img s1"
    "list_dir_cluster dv drive mx cl [0..<unat spc] parts present es sector s =
      Some (if stop1 then Some (of_nat (length e1)) else None, p1, n1, e1, sec1, s1)"
    using list_dir_cluster_spec [OF dev rel Cons.prems(1) lba one, of sector] by blast
  have unf: "list_dir_loop dv drive mx cl parts present es sector s = (case if stop1 then Some (of_nat (length e1)) else None of
      Some v \<Rightarrow> Some (v, e1, sec1, s1)
    | None \<Rightarrow> do { (nxt, s2) \<leftarrow> fat32_get_next_cluster dv drive cl s1;
                 list_dir_loop dv drive mx nxt p1 n1 e1 sec1 s2 })"
    using c(2) Cons.prems(2) s1(3) by (subst list_dir_loop.simps) simp
  show ?case
  proof (cases stop1)
    case True
    then show ?thesis using s1(1,2) two unfolding unf by (intro exI [of _ sec1] exI [of _ s1]) simp
  next
    case False
    obtain s2 where s2: "fat32_get_next_cluster dv drive cl s1 = Some (fat_value img s1 cl, s2)"
      "cache_ok img s2" "same_but_cache img s1 s2"
      by (rule get_next_cluster_reliable [OF dev rel s1(2)])
    have same: "same_but_cache img s s2" using same_but_cache_trans s1(1) s2(3) by blast
    have "bpb_sectors_per_cluster s2 = Some spc" "fat_chain (fat_value img s2) (fat_value img s cl) cs"
      "list_records mx (dir_records img s2 cs) p1 n1 e1 = Some (stop, p, n, e)"
      using Cons.prems(2) ch same_but_cacheD [OF same] two False by (simp_all add: dir_records_same [OF same])
    from Cons.IH [OF s2(2) this, of sec1] show ?thesis
      using False same_but_cache_trans [OF same] s2(1) same_but_cacheD [OF s1(1)] unfolding unf by auto
  qed
qed

lemma cluster_records_fheap [simp]: "cluster_records img (s\<lparr>fheap := h\<rparr>) = cluster_records img s"
  by (simp add: cluster_records_def fun_eq_iff fat32_cluster_to_lba_def bpb_sectors_per_cluster_def)

lemma dir_records_fheap [simp]: "dir_records img (s\<lparr>fheap := h\<rparr>) = dir_records img s"
  by (simp add: dir_records_def fun_eq_iff)

text \<open>The root directory of the small volume with one file, FOO.TXT, and a deleted one, XAR.TXT.\<close>

definition demo_root :: bytes where
  "demo_root = lit ''FOO     TXT'' @ [0x20] @ replicate 14 0 @ [3, 0, 0, 2, 0, 0]
     @ [0xE5] @ lit ''AR     TXT'' @ [0x20] @ replicate 14 0 @ [5, 0, 0, 2, 0, 0] @ replicate 448 0"

definition demo_dir :: "(u32 \<Rightarrow> bytes) fs" where
  "demo_dir = demo_fs\<lparr>disk := (disk demo_fs)(40 := demo_root)\<rparr>"

lemma length_demo_root: "length demo_root = 512"
  by (simp add: demo_root_def lit_def)

lemma demo_dir_sound: "fs_sound image512 demo_dir" "fheap demo_dir = boot_heap"
  by (simp_all add: demo_dir_def fs_sound_def cache_ok_def demo_fs_def boot_heap_inv)

lemma demo_dir_fat: "fat_value image512 demo_dir 2 = 0x0FFFFFFF"
  by (simp add: demo_dir_def fat_value_def entry_of_def ent_off_def fat_lba_def image512_def demo_fs_def
      demo_fat_def get32_def nth_append)

lemma demo_dir_records:
  "dir_records image512 demo_dir [2] = [lit ''FOO     TXT'' @ [0x20] @ replicate 14 0 @ [3, 0, 0, 2, 0, 0],
     0xE5 # lit ''AR     TXT'' @ [0x20] @ replicate 14 0 @ [5, 0, 0, 2, 0, 0]] @ replicate 14 (replicate 32 0)"
proof -
  have "dir_records image512 demo_dir [2] = sector_records demo_root"
    using length_demo_root by (simp add: dir_records_def cluster_records_def demo_dir_def demo_fs_def bpb_sectors_per_cluster_def
        fat32_cluster_to_lba_def image512_def)
  then show ?thesis
    by (simp add: sector_records_def sector_offsets_def record_at_def demo_root_def lit_def upt_rec)
       (simp add: numeral_eq_Suc)
qed

lemma list_dir_spec:
  assumes "block_device dv drive img" and "reliable dv drive" and "fs_sound img s"
    and "kmalloc 512 (fheap s) = Some (p, h)" and "fat_chain (fat_value img s) cl cls"
  shows "\<exists>stop parts present es s'.
      list_records mx (dir_records img s cls) no_parts 0 [] = Some (stop, parts, present, es) \<and> length es \<le> mx
    \<and> fat32_list_dir dv drive cl mx s = Some (if p = 0 then (- 1, [], s') else (of_nat (length es), es, s'))
    \<and> fs_sound img s' \<and> same_volume img s s'"
proof -
  have ok: "heap_inv (fheap s)" "cache_ok img s" using assms(3) by (simp_all add: fs_sound_def)
  obtain stop parts present es where rec: "list_records mx (dir_records img s cls) no_parts 0 [] = Some (stop, parts, present, es)"
    "length es \<le> mx"
    using list_records_total [OF dir_records_length [OF assms(1)] no_parts_ok, of 0 "[]" mx s cls] by auto
  obtain spc where spc: "bpb_sectors_per_cluster s = Some spc" using spc_defined [OF assms(3)] by blast
  show ?thesis
  proof (cases rule: new_sector_cases [OF ok(1) assms(4)])
    case (1 sec)
    then have "fat32_list_dir dv drive cl mx s = Some (- 1, [], s)" by (simp add: fat32_list_dir_def)
    then show ?thesis using 1(1) rec assms(3) same_volume_refl by fastforce
  next
    case (2 sec n)
    let ?s = "s\<lparr>fheap := h\<rparr>"
    obtain sec1 t where t: "same_but_cache img ?s t" "cache_ok img t"
      "list_dir_loop dv drive mx cl no_parts 0 [] sec ?s = Some (of_nat (length es), es, sec1, t)"
      using list_dir_loop_spec [OF assms(1,2), of ?s spc cl cls mx no_parts 0 "[]" stop parts present es sec]
        ok(2) assms(5) spc rec(1) by auto
    obtain u where u: "free_sector p sec1 t = Some u" "fs_sound img u" "same_volume img s u"
      by (rule borrow_sector [OF assms(3) 2(5,6,4) t(1,2)])
    then have "fat32_list_dir dv drive cl mx s = Some (of_nat (length es), es, u)"
      using 2(1,2) t(3) by (simp add: fat32_list_dir_def)
    then show ?thesis using 2(1) rec u by auto
  qed
qed

section \<open>Properties\<close>

text \<open>
  \<open>fat32_read_dir\<close> returns, in order and up to the room there is, the records of the directory before
  the end mark except the long-name records. Records marked deleted are among them: the comparison of
  the signed first byte with 0xE5 never holds.
\<close>

theorem read_dir_raw:
  assumes "block_device dv drive img" and "reliable dv drive" and "fs_sound img s"
    and "kmalloc 512 (fheap s) = Some (p, h)" and "fat_chain (fat_value img s) cl cls"
  shows "\<exists>s'. fat32_read_dir dv drive cl mx s =
      Some (if p = 0 then (- 1, [], s')
            else (of_nat (length (raw_entries mx (dir_records img s cls))), raw_entries mx (dir_records img s cls), s'))
    \<and> fs_sound img s' \<and> same_volume img s s'"
proof -
  have ok: "heap_inv (fheap s)" "cache_ok img s" using assms(3) by (simp_all add: fs_sound_def)
  obtain spc where spc: "bpb_sectors_per_cluster s = Some spc" using spc_defined [OF assms(3)] by blast
  show ?thesis
  proof (cases rule: new_sector_cases [OF ok(1) assms(4)])
    case (1 sec)
    then have "fat32_read_dir dv drive cl mx s = Some (- 1, [], s)" by (simp add: fat32_read_dir_def)
    then show ?thesis using 1(1) assms(3) same_volume_refl by fastforce
  next
    case (2 sec n)
    let ?s = "s\<lparr>fheap := h\<rparr>" and ?es = "raw_entries mx (dir_records img s cls)"
    obtain sec1 t where t: "same_but_cache img ?s t" "cache_ok img t"
      "read_dir_loop dv drive mx cl [] sec ?s = Some (of_nat (length ?es), ?es, sec1, t)"
      using read_dir_loop_spec [OF assms(1,2), of ?s "[]" mx spc cl cls sec] ok(2) assms(5) spc by (auto simp: Let_def)
    obtain u where u: "free_sector p sec1 t = Some u" "fs_sound img u" "same_volume img s u"
      by (rule borrow_sector [OF assms(3) 2(5,6,4) t(1,2)])
    then have "fat32_read_dir dv drive cl mx s = Some (of_nat (length ?es), ?es, u)"
      using 2(1,2) t(3) by (simp add: fat32_read_dir_def)
    then show ?thesis using 2(1) u by auto
  qed
qed

theorem read_dir_raw_witness:
  "\<exists>es s'. fat32_read_dir whole_ram 0 2 64 demo_dir = Some (2, es, s') \<and> es ! 1 ! 0 = 0xE5"
proof -
  obtain h where h: "kmalloc 512 boot_heap = Some (0x200020, h)" using boot_heap_kmalloc_512 by blast
  show ?thesis
    using read_dir_raw [where dv = whole_ram and drive = 0 and img = image512 and s = demo_dir
        and p = "0x200020" and h = h and cl = 2 and cls = "[2]" and mx = 64] h demo_dir_sound
    by (auto simp: demo_dir_fat demo_dir_records raw_entries_def lit_def)
qed

end
