(* ===== verification/Fat32_Write.thy ===== *)
theory Fat32_Write
  imports Fat32_Dir
begin

text \<open>
  The write side of drivers/fs/fat32.c: creating files and directories, writing file data, and formatting.

  The sector arrays on the stack start out as \<open>junk\<close>. The values that \<open>fat_write_fat_entry\<close> and the
  zeroing writes return are ignored where the code ignores them. Directory lists live in a heap block
  whose bytes are not looked at by anything else: the list is passed as a value and the block is only
  allocated and freed.
\<close>

section \<open>The records of a name\<close>

text \<open>The offset of character \<open>j\<close> in a long-name record.\<close>

definition lfn_slot :: "nat \<Rightarrow> nat" where
  "lfn_slot j = (if j < 5 then 1 + 2 * j else if j < 11 then 14 + 2 * (j - 5) else 28 + 2 * (j - 11))"

fun lfn_chars :: "bytes \<Rightarrow> nat \<Rightarrow> bytes \<Rightarrow> nat \<Rightarrow> nat \<Rightarrow> nat list \<Rightarrow> bytes option" where
  "lfn_chars buf base name namelen start [] = Some buf"
| "lfn_chars buf base name namelen start (j # js) = do {
     ch \<leftarrow> (if start + j < namelen then map_option ucast (rd name (start + j)) else Some 0xFFFF);
     b1 \<leftarrow> put16 buf (base + lfn_slot j) ch;
     lfn_chars b1 base name namelen start js }"

text \<open>One record: its order byte, attribute, type, checksum, cluster field and 13 characters.\<close>

definition lfn_put :: "bytes \<Rightarrow> nat \<Rightarrow> u8 \<Rightarrow> bytes \<Rightarrow> nat \<Rightarrow> nat \<Rightarrow> bytes option" where
  "lfn_put buf entries checksum name namelen seq = do {
     let base = (entries - seq) * 32;
     let order = (of_nat seq :: u8);
     b1 \<leftarrow> wr buf base (if seq = entries then order OR 0x40 else order);
     b2 \<leftarrow> wr b1 (base + 11) 0x0F;
     b3 \<leftarrow> wr b2 (base + 12) 0;
     b4 \<leftarrow> wr b3 (base + 13) checksum;
     b5 \<leftarrow> put16 b4 (base + 26) 0;
     lfn_chars b5 base name namelen ((seq - 1) * 13) [0..<13] }"

fun lfn_build :: "bytes \<Rightarrow> nat \<Rightarrow> u8 \<Rightarrow> bytes \<Rightarrow> nat \<Rightarrow> nat list \<Rightarrow> bytes option" where
  "lfn_build buf entries checksum name namelen [] = Some buf"
| "lfn_build buf entries checksum name namelen (seq # seqs) = do {
     b1 \<leftarrow> lfn_put buf entries checksum name namelen seq;
     lfn_build b1 entries checksum name namelen seqs }"

text \<open>The short record behind them: its name and attribute, then its first cluster and size 0.\<close>

definition sfn_name :: "bytes \<Rightarrow> nat \<Rightarrow> bytes \<Rightarrow> u8 \<Rightarrow> bytes option" where
  "sfn_name buf base sfn attr = do { b1 \<leftarrow> memcpy buf base sfn 11; wr b1 (base + 11) attr }"

definition sfn_cluster :: "bytes \<Rightarrow> nat \<Rightarrow> u32 \<Rightarrow> bytes option" where
  "sfn_cluster buf base cluster = do {
     b1 \<leftarrow> put16 buf (base + 20) (ucast (drop_bit 16 cluster));
     b2 \<leftarrow> put16 b1 (base + 26) (ucast (cluster AND 0xFFFF));
     put32 b2 (base + 28) 0 }"

definition lfn_count :: "nat \<Rightarrow> nat" where
  "lfn_count namelen = (namelen + 12) div 13"

section \<open>Finding room in a directory\<close>

text \<open>\<open>for (off = 0; off <= 512 - 32 * total; off += 32)\<close>, with the signed bound.\<close>

definition slot_offsets :: "nat \<Rightarrow> nat list" where
  "slot_offsets n = map (\<lambda>i. 32 * i) [0..<17 - n]"

fun slot_free :: "bytes \<Rightarrow> nat \<Rightarrow> nat list \<Rightarrow> bool option" where
  "slot_free sector off [] = Some True"
| "slot_free sector off (e # es) = do {
     c \<leftarrow> rd sector (off + e * 32);
     if c \<noteq> 0 \<and> c \<noteq> 0xE5 then Some False else slot_free sector off es }"

definition place :: "bytes \<Rightarrow> nat \<Rightarrow> bytes \<Rightarrow> nat \<Rightarrow> bytes option" where
  "place sector off buf n = do {
     s1 \<leftarrow> memcpy sector off buf (n * 32);
     if off + n * 32 < 512 then wr s1 (off + n * 32) 0 else Some s1 }"

text \<open>The sector with the records in it, if one of the offsets takes them.\<close>

fun place_in_sector :: "bytes \<Rightarrow> bytes \<Rightarrow> nat \<Rightarrow> nat list \<Rightarrow> bytes option option" where
  "place_in_sector sector buf n [] = Some None"
| "place_in_sector sector buf n (off # offs) = do {
     free \<leftarrow> slot_free sector off [0..<n];
     if free then map_option Some (place sector off buf n)
     else do {
       c \<leftarrow> rd sector off;
       if c = 0 then do {
         s1 \<leftarrow> memset sector off 0 (512 - off);
         map_option Some (place s1 off buf n) }
       else place_in_sector sector buf n offs } }"

text \<open>The sectors of one cluster: the value to return when the call ends here.\<close>

fun add_in_cluster :: "'d blockdev \<Rightarrow> u8 \<Rightarrow> bytes \<Rightarrow> nat \<Rightarrow> u32 \<Rightarrow> nat list \<Rightarrow> bytes \<Rightarrow> 'd fs
    \<Rightarrow> (i32 option \<times> bytes \<times> 'd fs) option" where
  "add_in_cluster dv drive buf n cl [] sector s = Some (None, sector, s)"
| "add_in_cluster dv drive buf n cl (i # is) sector s = do {
     lba \<leftarrow> fat32_cluster_to_lba cl s;
     let (r, sec, s1) = read_sector dv drive (lba + of_nat i) sector s;
     if r \<noteq> 0 then Some (Some (- 1), sec, s1)
     else do {
       found \<leftarrow> place_in_sector sec buf n (slot_offsets n);
       (case found of
          Some sec1 \<Rightarrow> let (r, s2) = write_sector dv drive (lba + of_nat i) sec1 s1
                       in Some (Some (if r \<noteq> 0 then - 1 else 0), sec1, s2)
        | None \<Rightarrow> add_in_cluster dv drive buf n cl is sec s1) } }"

text \<open>The same bytes to every sector of a cluster, results ignored.\<close>

fun fill_cluster :: "'d blockdev \<Rightarrow> u8 \<Rightarrow> u32 \<Rightarrow> bytes \<Rightarrow> nat list \<Rightarrow> 'd fs \<Rightarrow> 'd fs option" where
  "fill_cluster dv drive cl data [] s = Some s"
| "fill_cluster dv drive cl data (i # is) s = do {
     lba \<leftarrow> fat32_cluster_to_lba cl s;
     let (_, s1) = write_sector dv drive (lba + of_nat i) data s;
     fill_cluster dv drive cl data is s1 }"

text \<open>A new cluster at the end of the directory, linked and zeroed; none when the volume is full.\<close>

definition extend_dir :: "'d blockdev \<Rightarrow> u8 \<Rightarrow> bytes \<Rightarrow> u32 \<Rightarrow> 'd fs \<Rightarrow> (u32 option \<times> 'd fs) option" where
  "extend_dir dv drive junk cl s = do {
     (newcl, s1) \<leftarrow> find_free_cluster dv drive s;
     if newcl = 0 then Some (None, s1)
     else do {
       (_, s2) \<leftarrow> fat_write_fat_entry dv drive cl newcl junk s1;
       (_, s3) \<leftarrow> fat_write_fat_entry dv drive newcl 0x0FFFFFFF junk s2;
       spc \<leftarrow> bpb_sectors_per_cluster s3;
       s4 \<leftarrow> fill_cluster dv drive newcl (replicate 512 0) [0..<unat spc] s3;
       Some (Some newcl, s4) } }"

partial_function (option) add_loop :: "'d blockdev \<Rightarrow> u8 \<Rightarrow> bytes \<Rightarrow> bytes \<Rightarrow> nat \<Rightarrow> u32 \<Rightarrow> bytes \<Rightarrow> 'd fs
    \<Rightarrow> (i32 \<times> 'd fs) option" where
  "add_loop dv drive junk buf n cl sector s = do {
     spc \<leftarrow> bpb_sectors_per_cluster s;
     (r, sec, s1) \<leftarrow> add_in_cluster dv drive buf n cl [0..<unat spc] sector s;
     (case r of
        Some v \<Rightarrow> Some (v, s1)
      | None \<Rightarrow> do {
          (nxt, s2) \<leftarrow> fat32_get_next_cluster dv drive cl s1;
          if nxt \<ge> 0x0FFFFFF8 then do {
            (e, s3) \<leftarrow> extend_dir dv drive junk cl s2;
            (case e of
               None \<Rightarrow> Some (- 1, s3)
             | Some newcl \<Rightarrow> add_loop dv drive junk buf n newcl sec s3) }
          else add_loop dv drive junk buf n nxt sec s2 }) }"

section \<open>Creating files and directories\<close>

definition new_buffer :: "nat \<Rightarrow> 'd fs \<Rightarrow> (u64 \<times> 'd fs) option" where
  "new_buffer n s = do { (p, h) \<leftarrow> kmalloc (of_nat n) (fheap s); Some (p, s\<lparr>fheap := h\<rparr>) }"

definition fat32_create_file :: "'d blockdev \<Rightarrow> u8 \<Rightarrow> bytes \<Rightarrow> bytes \<Rightarrow> 'd fs \<Rightarrow> (i32 \<times> 'd fs) option" where
  "fat32_create_file dv drive name junk s0 = do {
     sfn \<leftarrow> make_sfn name;
     checksum \<leftarrow> shortname_checksum sfn;
     namelen \<leftarrow> strlen name;
     let entries = lfn_count namelen;
     let n = entries + 1;
     (p, s) \<leftarrow> new_buffer (n * 32) s0;
     if p = 0 then Some (- 1, s)
     else do {
       b1 \<leftarrow> lfn_build (replicate (n * 32) 0) entries checksum name namelen (rev [1..<entries + 1]);
       b2 \<leftarrow> sfn_name b1 (entries * 32) sfn 0x20;
       buf \<leftarrow> sfn_cluster b2 (entries * 32) 0;
       (r, s1) \<leftarrow> add_loop dv drive junk buf n (current_dir_cluster s) junk s;
       s2 \<leftarrow> free_sector p buf s1;
       Some (r, s2) } }"

text \<open>The first sector of a new directory: the entries \<open>.\<close> and \<open>..\<close>.\<close>

definition dot_sector :: "u32 \<Rightarrow> u32 \<Rightarrow> bytes option" where
  "dot_sector newcl current = do {
     d1 \<leftarrow> memset (replicate 512 0) 0 32 11;
     d2 \<leftarrow> wr d1 0 46;
     d3 \<leftarrow> wr d2 11 0x10;
     d4 \<leftarrow> put16 d3 20 (ucast (drop_bit 16 newcl AND 0xFFFF));
     d5 \<leftarrow> put16 d4 26 (ucast (newcl AND 0xFFFF));
     d6 \<leftarrow> memset d5 32 32 11;
     d7 \<leftarrow> wr d6 32 46;
     d8 \<leftarrow> wr d7 33 46;
     d9 \<leftarrow> wr d8 43 0x10;
     d10 \<leftarrow> put16 d9 52 (ucast (drop_bit 16 current AND 0xFFFF));
     put16 d10 58 (ucast (current AND 0xFFFF)) }"

definition fat32_create_dir :: "'d blockdev \<Rightarrow> u8 \<Rightarrow> bytes \<Rightarrow> bytes \<Rightarrow> 'd fs \<Rightarrow> (i32 \<times> 'd fs) option" where
  "fat32_create_dir dv drive name junk s0 = do {
     sfn \<leftarrow> make_sfn name;
     checksum \<leftarrow> shortname_checksum sfn;
     namelen \<leftarrow> strlen name;
     let entries = lfn_count namelen;
     let n = entries + 1;
     (p, s) \<leftarrow> new_buffer (n * 32) s0;
     if p = 0 then Some (- 1, s)
     else do {
       b1 \<leftarrow> lfn_build (replicate (n * 32) 0) entries checksum name namelen (rev [1..<entries + 1]);
       b2 \<leftarrow> sfn_name b1 (entries * 32) sfn 0x10;
       (newcl, s1) \<leftarrow> find_free_cluster dv drive s;
       if newcl = 0 then do { s2 \<leftarrow> free_sector p b2 s1; Some (- 1, s2) }
       else do {
         buf \<leftarrow> sfn_cluster b2 (entries * 32) newcl;
         (_, s2) \<leftarrow> fat_write_fat_entry dv drive newcl 0x0FFFFFFF junk s1;
         (r, s3) \<leftarrow> add_loop dv drive junk buf n (current_dir_cluster s2) junk s2;
         s4 \<leftarrow> free_sector p buf s3;
         if r \<noteq> 0 then Some (r, s4)
         else do {
           dirsec \<leftarrow> dot_sector newcl (current_dir_cluster s4);
           spc \<leftarrow> bpb_sectors_per_cluster s4;
           s5 \<leftarrow> fill_cluster dv drive newcl dirsec [0..<unat spc] s4;
           Some (0, s5) } } } }"

section \<open>Writing file data\<close>

text \<open>The first entry that is not a directory and has the name, ignoring case.\<close>

fun find_file :: "fat32_entry list \<Rightarrow> bytes \<Rightarrow> fat32_entry option option" where
  "find_file [] name = Some None"
| "find_file (e # es) name =
     (if (e_attr e AND 0x10) \<noteq> 0 then find_file es name
      else do {
        r \<leftarrow> strcasecmp_ascii (e_name e) name;
        if r = 0 then Some (Some e) else find_file es name })"

definition slice :: "bytes \<Rightarrow> nat \<Rightarrow> nat \<Rightarrow> bytes option" where
  "slice buf i n = (if i + n \<le> length buf then Some (take n (drop i buf)) else None)"

definition free_list :: "u64 \<Rightarrow> 'd fs \<Rightarrow> 'd fs option" where
  "free_list p s = do { h \<leftarrow> kfree p (fheap s); Some (s\<lparr>fheap := h\<rparr>) }"

text \<open>The last cluster of a chain and the number of its clusters.\<close>

partial_function (option) chain_end :: "'d blockdev \<Rightarrow> u8 \<Rightarrow> u32 \<Rightarrow> u32 \<Rightarrow> 'd fs \<Rightarrow> (u32 \<times> u32 \<times> 'd fs) option" where
  "chain_end dv drive cl chain_len s = do {
     (nxt, s1) \<leftarrow> fat32_get_next_cluster dv drive cl s;
     if nxt \<ge> 0x0FFFFFF8 then Some (cl, chain_len, s1)
     else chain_end dv drive nxt (chain_len + 1) s1 }"

text \<open>Append clusters until there are enough; the flag says whether there were.\<close>

partial_function (option) grow_chain :: "'d blockdev \<Rightarrow> u8 \<Rightarrow> bytes \<Rightarrow> u32 \<Rightarrow> u32 \<Rightarrow> u32 \<Rightarrow> 'd fs \<Rightarrow> (bool \<times> 'd fs) option" where
  "grow_chain dv drive junk need cl chain_len s =
     (if chain_len < need then do {
        (newcl, s1) \<leftarrow> find_free_cluster dv drive s;
        if newcl = 0 then Some (False, s1)
        else do {
          (_, s2) \<leftarrow> fat_write_fat_entry dv drive cl newcl junk s1;
          (_, s3) \<leftarrow> fat_write_fat_entry dv drive newcl 0x0FFFFFFF junk s2;
          grow_chain dv drive junk need newcl (chain_len + 1) s3 } }
      else Some (True, s))"

fun skip_clusters :: "'d blockdev \<Rightarrow> u8 \<Rightarrow> nat \<Rightarrow> u32 \<Rightarrow> 'd fs \<Rightarrow> (u32 \<times> 'd fs) option" where
  "skip_clusters dv drive 0 cl s = Some (cl, s)"
| "skip_clusters dv drive (Suc n) cl s = do {
     (nxt, s1) \<leftarrow> fat32_get_next_cluster dv drive cl s;
     skip_clusters dv drive n nxt s1 }"

text \<open>One round of the writing loop: the sector buffer, the number of bytes stored, or a failed access.\<close>

definition write_chunk :: "'d blockdev \<Rightarrow> u8 \<Rightarrow> bytes \<Rightarrow> u32 \<Rightarrow> u32 \<Rightarrow> u32 \<Rightarrow> u32 \<Rightarrow> u32 \<Rightarrow> bytes \<Rightarrow> 'd fs
    \<Rightarrow> (u32 option \<times> bytes \<times> 'd fs) option" where
  "write_chunk dv drive buf sz csize cl pos cur_off sector s = do {
     let within = cur_off mod csize;
     let sec_in_cluster = within div 512;
     let sec_off = within mod 512;
     base \<leftarrow> fat32_cluster_to_lba cl s;
     let lba = base + sec_in_cluster;
     if sec_off = 0 \<and> sz - pos \<ge> 512 then do {
       data \<leftarrow> slice buf (unat pos) 512;
       let (r, s1) = write_sector dv drive lba data s;
       Some (if r \<noteq> 0 then None else Some 512, sector, s1) }
     else do {
       let (r, sec, s1) = read_sector dv drive lba sector s;
       if r \<noteq> 0 then Some (None, sec, s1)
       else do {
         let room = 512 - sec_off;
         let chunk = (if room > sz - pos then sz - pos else room);
         sec1 \<leftarrow> memcpy sec (unat sec_off) (drop (unat pos) buf) (unat chunk);
         let (r, s2) = write_sector dv drive lba sec1 s1;
         Some (if r \<noteq> 0 then None else Some chunk, sec1, s2) } } }"

partial_function (option) write_loop :: "'d blockdev \<Rightarrow> u8 \<Rightarrow> bytes \<Rightarrow> u32 \<Rightarrow> u32 \<Rightarrow> u32 \<Rightarrow> u32 \<Rightarrow> u32 \<Rightarrow> bytes \<Rightarrow> 'd fs
    \<Rightarrow> (bool \<times> bytes \<times> 'd fs) option" where
  "write_loop dv drive buf sz csize cl pos cur_off sector s =
     (if pos < sz then do {
        (r, sec, s1) \<leftarrow> write_chunk dv drive buf sz csize cl pos cur_off sector s;
        (case r of
           None \<Rightarrow> Some (False, sec, s1)
         | Some k \<Rightarrow>
             if (cur_off + k) mod csize = 0 \<and> pos + k < sz then do {
               (nxt, s2) \<leftarrow> fat32_get_next_cluster dv drive cl s1;
               write_loop dv drive buf sz csize nxt (pos + k) (cur_off + k) sec s2 }
             else write_loop dv drive buf sz csize cl (pos + k) (cur_off + k) sec s1) }
      else Some (True, sector, s))"

text \<open>The first record of a sector whose 8.3 name is the file's, with its size and cluster updated.\<close>

fun update_in_sector :: "bytes \<Rightarrow> bytes \<Rightarrow> u32 \<Rightarrow> u32 \<Rightarrow> nat list \<Rightarrow> bytes option option" where
  "update_in_sector sect name need first_cluster [] = Some None"
| "update_in_sector sect name need first_cluster (off # offs) = do {
     attr \<leftarrow> rd sect (off + 11);
     if attr AND 0x0F = 0x0F then update_in_sector sect name need first_cluster offs
     else do {
       tmp \<leftarrow> shortname_to_string (take 11 (drop off sect)) (replicate 64 0);
       r \<leftarrow> strcasecmp_ascii tmp name;
       if r = 0 then do {
         s1 \<leftarrow> put32 sect (off + 28) need;
         s2 \<leftarrow> put16 s1 (off + 20) (ucast (drop_bit 16 first_cluster AND 0xFFFF));
         s3 \<leftarrow> put16 s2 (off + 26) (ucast (first_cluster AND 0xFFFF));
         Some (Some s3) }
       else update_in_sector sect name need first_cluster offs } }"

text \<open>
  The loop over the sectors of the first cluster of the directory: one round from \<open>sc\<close>, which ends the loop
  (\<open>Inl\<close>, with a flag for a failed access) or goes on (\<open>Inr\<close>, with the next \<open>sc\<close>). \<open>sc = 0xFF; break\<close> leaves the
  inner loop only; the \<open>sc++\<close> of the outer one then makes \<open>sc\<close> 0 again.
\<close>

definition update_step :: "'d blockdev \<Rightarrow> u8 \<Rightarrow> bytes \<Rightarrow> u32 \<Rightarrow> u32 \<Rightarrow> u8 \<times> bytes \<times> 'd fs
    \<Rightarrow> (bool \<times> bytes \<times> 'd fs + u8 \<times> bytes \<times> 'd fs) option" where
  "update_step dv drive name need first_cluster = (\<lambda>(sc, sect, s). do {
     spc \<leftarrow> bpb_sectors_per_cluster s;
     if \<not> sc < spc then Some (Inl (True, sect, s))
     else do {
       base \<leftarrow> fat32_cluster_to_lba (current_dir_cluster s) s;
       let lba = base + ucast sc;
       let (r, sec, s1) = read_sector dv drive lba sect s;
       if r \<noteq> 0 then Some (Inl (False, sec, s1))
       else do {
         found \<leftarrow> update_in_sector sec name need first_cluster sector_offsets;
         (case found of
            None \<Rightarrow> Some (Inr (sc + 1, sec, s1))
          | Some sec1 \<Rightarrow> do {
              let (r, s2) = write_sector dv drive lba sec1 s1;
              if r \<noteq> 0 then Some (Inl (False, sec1, s2))
              else Some (Inr (0xFF + 1, sec1, s2)) }) } } })"

partial_function (option) update_loop :: "'d blockdev \<Rightarrow> u8 \<Rightarrow> bytes \<Rightarrow> u32 \<Rightarrow> u32 \<Rightarrow> u8 \<times> bytes \<times> 'd fs
    \<Rightarrow> (bool \<times> bytes \<times> 'd fs) option" where
  "update_loop dv drive name need first_cluster c = do {
     r \<leftarrow> update_step dv drive name need first_cluster c;
     (case r of
        Inl v \<Rightarrow> Some v
      | Inr c1 \<Rightarrow> update_loop dv drive name need first_cluster c1) }"

definition list_size :: u64 where
  "list_size = 64 * 268"

text \<open>The entry to write to: found, or created first. \<open>Inl\<close> is a return of - 1.\<close>

definition locate_file :: "'d blockdev \<Rightarrow> u8 \<Rightarrow> bytes \<Rightarrow> u32 \<Rightarrow> bytes \<Rightarrow> u64 \<Rightarrow> 'd fs
    \<Rightarrow> (('d fs) + (fat32_entry \<times> 'd fs)) option" where
  "locate_file dv drive name offset junk list s = do {
     (n, es, s1) \<leftarrow> fat32_list_dir dv drive (current_dir_cluster s) 64 s;
     f \<leftarrow> find_file es name;
     (case f of
        Some e \<Rightarrow> Some (Inr (e, s1))
      | None \<Rightarrow>
          if offset \<noteq> 0 then Some (Inl s1)
          else do {
            (r, s2) \<leftarrow> fat32_create_file dv drive name junk s1;
            if r \<noteq> 0 then map_option Inl (free_list list s2)
            else do {
              (n, es, s3) \<leftarrow> fat32_list_dir dv drive (current_dir_cluster s2) 64 s2;
              f \<leftarrow> find_file es name;
              (case f of
                 Some e \<Rightarrow> Some (Inr (e, s3))
               | None \<Rightarrow> map_option Inl (free_list list s3)) } }) }"

text \<open>
  The parts of \<open>fat32_write_file_data\<close>, each with \<open>Inl\<close> of the result where it returns: the list of the
  directory and the file's entry with its first cluster; enough clusters and the data in them; the
  size in the directory.
\<close>

definition open_for_write :: "'d blockdev \<Rightarrow> u8 \<Rightarrow> bytes \<Rightarrow> u32 \<Rightarrow> bytes \<Rightarrow> 'd fs
    \<Rightarrow> (i32 \<times> 'd fs + u64 \<times> fat32_entry \<times> u32 \<times> 'd fs) option" where
  "open_for_write dv drive name offset junk s0 = do {
     (list, h) \<leftarrow> kmalloc list_size (fheap s0);
     let s = s0\<lparr>fheap := h\<rparr>;
     if list = 0 then Some (Inl (- 1, s))
     else do {
       found \<leftarrow> locate_file dv drive name offset junk list s;
       (case found of
          Inl s1 \<Rightarrow> Some (Inl (- 1, s1))
        | Inr (ent, s1) \<Rightarrow>
            if e_first_cluster ent = 0 then do {
              (cl, s2) \<leftarrow> find_free_cluster dv drive s1;
              if cl = 0 then do { s3 \<leftarrow> free_list list s2; Some (Inl (- 1, s3)) }
              else do {
                (_, s3) \<leftarrow> fat_write_fat_entry dv drive cl 0x0FFFFFFF junk s2;
                Some (Inr (list, ent\<lparr>e_first_cluster := cl\<rparr>, cl, s3)) } }
            else Some (Inr (list, ent, e_first_cluster ent, s1))) } }"

definition write_contents :: "'d blockdev \<Rightarrow> u8 \<Rightarrow> bytes \<Rightarrow> u32 \<Rightarrow> u32 \<Rightarrow> bytes \<Rightarrow> u64 \<Rightarrow> u32 \<Rightarrow> 'd fs
    \<Rightarrow> (i32 \<times> 'd fs + 'd fs) option" where
  "write_contents dv drive buf sz offset junk list first_cluster s = do {
     spc \<leftarrow> bpb_sectors_per_cluster s;
     let csize = (if ucast spc * 512 = (0 :: u32) then 512 else ucast spc * 512);
     let need_size = offset + sz;
     let need_clusters = (need_size + csize - 1) div csize;
     (cl, chain_len, s1) \<leftarrow> chain_end dv drive first_cluster 1 s;
     (enough, s2) \<leftarrow> grow_chain dv drive junk need_clusters cl chain_len s1;
     if \<not> enough then do { s3 \<leftarrow> free_list list s2; Some (Inl (- 1, s3)) }
     else do {
       (cl, s3) \<leftarrow> skip_clusters dv drive (unat (offset div csize)) first_cluster s2;
       (p, sec0, s4) \<leftarrow> new_sector s3;
       if p = 0 then do { s5 \<leftarrow> free_list list s4; Some (Inl (- 1, s5)) }
       else do {
         (fine, sec, s5) \<leftarrow> write_loop dv drive buf sz csize cl 0 offset sec0 s4;
         s6 \<leftarrow> free_sector p sec s5;
         Some (if fine then Inr s6 else Inl (- 1, s6)) } } }"

definition update_entry :: "'d blockdev \<Rightarrow> u8 \<Rightarrow> bytes \<Rightarrow> u32 \<Rightarrow> u32 \<Rightarrow> u64 \<Rightarrow> 'd fs \<Rightarrow> (i32 \<times> 'd fs + 'd fs) option" where
  "update_entry dv drive name need_size first_cluster list s = do {
     (q, sect0, t) \<leftarrow> new_sector s;
     if q = 0 then do { t1 \<leftarrow> free_list list t; Some (Inl (- 1, t1)) }
     else do {
       (fine, sect, t1) \<leftarrow> update_loop dv drive name need_size first_cluster (0, sect0, t);
       t2 \<leftarrow> free_sector q sect t1;
       Some (if fine then Inr t2 else Inl (- 1, t2)) } }"

definition fat32_write_file_data :: "'d blockdev \<Rightarrow> u8 \<Rightarrow> bytes \<Rightarrow> bytes \<Rightarrow> u32 \<Rightarrow> u32 \<Rightarrow> bytes \<Rightarrow> 'd fs
    \<Rightarrow> (i32 \<times> 'd fs) option" where
  "fat32_write_file_data dv drive name buf sz offset junk s0 =
     (if sz = 0 then Some (- 1, s0)
      else do {
        opened \<leftarrow> open_for_write dv drive name offset junk s0;
        (case opened of
           Inl v \<Rightarrow> Some v
         | Inr (list, ent, first_cluster, s1) \<Rightarrow> do {
             written \<leftarrow> write_contents dv drive buf sz offset junk list first_cluster s1;
             (case written of
                Inl v \<Rightarrow> Some v
              | Inr s2 \<Rightarrow> do {
                  updated \<leftarrow> (if offset + sz > e_size ent
                    then update_entry dv drive (e_name ent) (offset + sz) first_cluster list s2
                    else Some (Inr s2));
                  (case updated of
                     Inl v \<Rightarrow> Some v
                   | Inr s3 \<Rightarrow> do {
                       s4 \<leftarrow> free_list list s3;
                       Some (sz, s4\<lparr>cached_fat_sector := 0xFFFFFFFF, next_free_hint := 2\<rparr>) }) }) }) })"

section \<open>Formatting\<close>

text \<open>The array has 62 elements: the initialisers behind them are dropped.\<close>

definition bootloader_bin :: bytes where
  "bootloader_bin = take 62 ([0xEB, 0x21, 0x90, 0xB8, 0x00, 0x7C, 0x8E, 0xD8, 0xBE, 0x4E, 0x00, 0xAC, 0x0C, 0x00,
     0x74, 0x09, 0xB4, 0x0E, 0xBB, 0x07, 0x00, 0xCD, 0x10, 0xEB, 0xF3, 0xF4, 0xEB, 0xFE] @ replicate 40 0)"

definition bootmsg :: bytes where
  "bootmsg = lit ''This is not a bootable disk'' @ [13, 10, 0]"

text \<open>The assignments to the boot sector, in their order.\<close>

definition boot_sector :: "bytes \<Rightarrow> bytes option" where
  "boot_sector buf = do {
     b \<leftarrow> memset buf 0 0 512;
     b \<leftarrow> wr b 0 0xEB; b \<leftarrow> wr b 1 0x3C; b \<leftarrow> wr b 2 0x90;
     b \<leftarrow> strncpy b 3 (zlit ''MSDOS5.0'') 8;
     b \<leftarrow> put16 b 11 512; b \<leftarrow> wr b 13 1; b \<leftarrow> put16 b 14 32; b \<leftarrow> wr b 16 2;
     b \<leftarrow> put16 b 17 0; b \<leftarrow> put16 b 19 0; b \<leftarrow> wr b 21 0xF8; b \<leftarrow> put16 b 22 0;
     b \<leftarrow> put16 b 24 63; b \<leftarrow> put16 b 26 255; b \<leftarrow> put32 b 28 0; b \<leftarrow> put32 b 32 65536;
     b \<leftarrow> put32 b 36 123; b \<leftarrow> put16 b 44 0; b \<leftarrow> put16 b 46 0; b \<leftarrow> put32 b 48 2;
     b \<leftarrow> put16 b 52 1; b \<leftarrow> put16 b 54 6; b \<leftarrow> wr b 64 0x80; b \<leftarrow> wr b 66 0x29;
     b \<leftarrow> put32 b 67 0x12345678;
     b \<leftarrow> strncpy b 71 (zlit ''HATCHER    '') 11;
     b \<leftarrow> strncpy b 82 (zlit ''FAT32   '') 8;
     b \<leftarrow> memcpy b 0x3E (drop 3 bootloader_bin) 59;
     b \<leftarrow> memcpy b 0x4E bootmsg 30;
     b \<leftarrow> wr b 510 0x55; wr b 511 0xAA }"

definition fsinfo_sector :: "bytes \<Rightarrow> bytes option" where
  "fsinfo_sector buf = do {
     b \<leftarrow> memset buf 0 0 512;
     b \<leftarrow> put32 b 0 0x41615252; b \<leftarrow> put32 b 484 0x61417272;
     b \<leftarrow> put32 b 488 0xFFFFFFFF; b \<leftarrow> put32 b 492 0xFFFFFFFF;
     b \<leftarrow> wr b 510 0x55; wr b 511 0xAA }"

fun write_run :: "'d blockdev \<Rightarrow> u8 \<Rightarrow> bytes \<Rightarrow> u32 list \<Rightarrow> 'd fs \<Rightarrow> 'd fs" where
  "write_run dv drive data [] s = s"
| "write_run dv drive data (lba # lbas) s = write_run dv drive data lbas (snd (write_sector dv drive lba data s))"

text \<open>The sector buffer is not freed on any path; its last contents stay in the payload.\<close>

definition store_sector :: "u64 \<Rightarrow> bytes \<Rightarrow> 'd fs \<Rightarrow> 'd fs" where
  "store_sector p sector s = s\<lparr>fheap := (fheap s)\<lparr>hmem := put_bytes p sector (hmem (fheap s))\<rparr>\<rparr>"

definition fat32_create_fs :: "'d blockdev \<Rightarrow> u8 \<Rightarrow> 'd fs \<Rightarrow> 'd fs option" where
  "fat32_create_fs dv drive s0 = do {
     (p, sec0, s) \<leftarrow> new_sector s0;
     if p = 0 then Some s
     else do {
       boot \<leftarrow> boot_sector sec0;
       let (r, s1) = write_sector dv drive 0 boot s;
       if r \<noteq> 0 then Some (store_sector p boot s1)
       else do {
         info \<leftarrow> fsinfo_sector boot;
         let (r, s2) = write_sector dv drive 1 info s1;
         if r \<noteq> 0 then Some (store_sector p info s2)
         else do {
           zero \<leftarrow> memset info 0 0 512;
           let s3 = write_run dv drive zero (map (\<lambda>i. 32 + of_nat i) [0..<32]) s2;
           let s4 = write_run dv drive zero (map (\<lambda>i. 32 + 32 + of_nat i) [0..<123 * 2]) s3;
           Some (store_sector p zero s4) } } } }"

text \<open>The stubs.\<close>

definition fat32_write_file :: "bytes \<Rightarrow> bytes \<Rightarrow> u32 \<Rightarrow> 'd fs \<Rightarrow> i32 \<times> 'd fs" where
  "fat32_write_file path buf sz s = (- 1, s)"

definition fat32_read_file_data :: "bytes \<Rightarrow> bytes \<Rightarrow> u32 \<Rightarrow> u32 \<Rightarrow> 'd fs \<Rightarrow> i32 \<times> 'd fs" where
  "fat32_read_file_data path buf sz offset s = (- 1, s)"

section \<open>The update of a file's size\<close>

definition writable :: "'d blockdev \<Rightarrow> u8 \<Rightarrow> bool" where
  "writable dv drive \<longleftrightarrow> (\<forall>lba buf d. fst (dev_write dv drive lba buf d) = 0)"

lemma ram_disk_writable [simp]: "writable whole_ram drive"
proof -
  have "lba \<le> (0xFFFFFFFF :: u32)" for lba
    using ram_disk_reliable [of drive] by (auto simp: reliable_def ram_disk_def split: if_splits)
  then show ?thesis by (simp add: writable_def ram_disk_def)
qed

lemma write_sector_writable:
  assumes "block_device dv drive img" and "writable dv drive" and "length data = 512"
  obtains d where "write_sector dv drive lba data s = (0, s\<lparr>disk := d\<rparr>)"
    "img d = (img (disk s))(lba := data)"
proof -
  obtain r d where wr: "dev_write dv drive lba data (disk s) = (r, d)"
    by (cases "dev_write dv drive lba data (disk s)") auto
  then have r: "r = 0" using assms(2) unfolding writable_def by (metis fst_conv)
  then show ?thesis
    using that [of d] wr block_deviceD(3) [OF assms(1,3)] by (simp add: write_sector_def)
qed

text \<open>The part of a record that the search looks at.\<close>

definition same_names :: "nat list \<Rightarrow> bytes \<Rightarrow> bytes \<Rightarrow> bool" where
  "same_names offs a b \<longleftrightarrow> length a = length b
     \<and> (\<forall>off\<in>set offs. a ! (off + 11) = b ! (off + 11) \<and> take 11 (drop off a) = take 11 (drop off b))"

lemma update_in_sector_again:
  assumes "update_in_sector a name need cl offs = Some (Some x)" and "same_names offs a b"
    and "\<forall>off\<in>set offs. off + 32 \<le> length a"
  shows "\<exists>y. update_in_sector b name need cl offs = Some (Some y)"
  using assms
proof (induction offs)
  case Nil
  then show ?case by simp
next
  case (Cons off offs)
  have b: "off + 32 \<le> length b" "rd b (off + 11) = rd a (off + 11)" "take 11 (drop off b) = take 11 (drop off a)"
    using Cons.prems(2,3) by (auto simp: same_names_def rd_def)
  have IH: "update_in_sector a name need cl offs = Some (Some x) \<Longrightarrow>
      \<exists>y. update_in_sector b name need cl offs = Some (Some y)"
    using Cons.IH Cons.prems(2,3) by (simp add: same_names_def)
  obtain attr where attr: "rd a (off + 11) = Some attr"
    using Cons.prems(1) by (auto simp: bind_eq_Some_conv)
  show ?case
  proof (cases "attr AND 0x0F = 0x0F")
    case True
    then show ?thesis using Cons.prems(1) IH unfolding update_in_sector.simps b(2,3) attr by simp
  next
    case False
    then obtain tmp r where tmp: "shortname_to_string (take 11 (drop off a)) (replicate 64 0) = Some tmp"
      "strcasecmp_ascii tmp name = Some r"
      using Cons.prems(1) unfolding update_in_sector.simps attr by (auto simp: bind_eq_Some_conv)
    show ?thesis
    proof (cases "r = 0")
      case True
      then show ?thesis using False b(1) unfolding update_in_sector.simps b(2,3) attr
        by (simp add: tmp put32_blit put16_blit)
    next
      case r: False
      have "update_in_sector d name need cl (off # offs) = update_in_sector d name need cl offs"
        if "rd d (off + 11) = Some attr" "take 11 (drop off d) = take 11 (drop off a)" for d
        unfolding update_in_sector.simps that using False r tmp by simp
      then show ?thesis using Cons.prems(1) IH attr b(2,3) by metis
    qed
  qed
qed

lemma put_records:
  assumes "put32 a (off + 28) need = Some s1" and "put16 s1 (off + 20) v = Some s2" and "put16 s2 (off + 26) w = Some x"
    and "off + 32 \<le> length a"
  shows "length x = length a \<and> (\<forall>k<length a. k < off + 20 \<or> off + 32 \<le> k \<longrightarrow> x ! k = a ! k)"
  using assms by (auto simp: put32_blit put16_blit nth_blit)

lemma update_in_sector_names:
  assumes "update_in_sector a name need cl offs = Some (Some x)" and "\<forall>off\<in>set offs. off + 32 \<le> length a"
    and "\<forall>off\<in>set offs. 32 dvd off"
  shows "length x = length a \<and> (\<forall>k<length a. k mod 32 < 20 \<longrightarrow> x ! k = a ! k)"
  using assms
proof (induction offs)
  case Nil
  then show ?case by simp
next
  case (Cons off offs)
  obtain m where m: "off = 32 * m" using Cons.prems(3) by auto
  have far: "k < off + 20 \<or> off + 32 \<le> k" if "k mod 32 < 20" for k
  proof (cases "k div 32 = m")
    case True
    then show ?thesis using that m div_mult_mod_eq [of k 32] by linarith
  next
    case False
    then have "k div 32 + 1 \<le> m \<or> m + 1 \<le> k div 32" by linarith
    then show ?thesis using that m div_mult_mod_eq [of k 32] by linarith
  qed
  show ?case
    using Cons far by (auto simp: bind_eq_Some_conv dest!: put_records split: if_splits)
qed

lemma update_keeps_names:
  assumes "update_in_sector a name need cl sector_offsets = Some (Some x)" and "length a = 512"
  shows "length x = 512 \<and> same_names sector_offsets a x"
proof -
  have "length x = length a \<and> (\<forall>k<length a. k mod 32 < 20 \<longrightarrow> x ! k = a ! k)"
    by (rule update_in_sector_names [OF assms(1) sector_offsets_fit [OF assms(2)]]) (auto simp: sector_offsets_def)
  then show ?thesis
    using assms(2) by (auto simp: same_names_def sector_offsets_def intro!: nth_equalityI)
qed

text \<open>
  Sector \<open>k\<close> of the first cluster of the current directory is the first one with a record that has the name of the
  file.
\<close>

definition found_at :: "('d \<Rightarrow> u32 \<Rightarrow> bytes) \<Rightarrow> bytes \<Rightarrow> u32 \<Rightarrow> u32 \<Rightarrow> nat \<Rightarrow> 'd fs \<Rightarrow> bool" where
  "found_at img name need cl k s \<longleftrightarrow>
     (\<exists>spc base x. bpb_sectors_per_cluster s = Some spc \<and> k < unat spc
       \<and> fat32_cluster_to_lba (current_dir_cluster s) s = Some base
       \<and> (\<forall>j<k. update_in_sector (img (disk s) (base + of_nat j)) name need cl sector_offsets = Some None)
       \<and> update_in_sector (img (disk s) (base + of_nat k)) name need cl sector_offsets = Some (Some x))"

text \<open>A round before or at that sector succeeds, and the loop goes on before or at it.\<close>

lemma update_step_goes_on:
  assumes dev: "block_device dv drive img" and rel: "reliable dv drive" and wrt: "writable dv drive"
    and found: "found_at img name need cl k s" and sc: "unat sc \<le> k"
  shows "\<exists>sc1 sect1 s1. update_step dv drive name need cl (sc, sect, s) = Some (Inr (sc1, sect1, s1))
    \<and> unat sc1 \<le> k \<and> found_at img name need cl k s1"
proof -
  obtain spc base x where a: "bpb_sectors_per_cluster s = Some spc" "k < unat spc"
    "fat32_cluster_to_lba (current_dir_cluster s) s = Some base"
    "\<And>j. j < k \<Longrightarrow> update_in_sector (img (disk s) (base + of_nat j)) name need cl sector_offsets = Some None"
    "update_in_sector (img (disk s) (base + of_nat k)) name need cl sector_offsets = Some (Some x)"
    using found by (auto simp: found_at_def)
  have k: "k < 255" using a(2) unsigned_less [of spc, where ?'a = nat] by simp
  have in_range: "sc < spc" using sc a(2) by (simp add: word_less_nat_alt)
  have ix: "ucast sc = (of_nat (unat sc) :: u32)" by (simp add: unsigned_of_nat)
  obtain d where d: "read_sector dv drive (base + ucast sc) sect s = (0, img (disk s) (base + ucast sc), s\<lparr>disk := d\<rparr>)"
    "img d = img (disk s)"
    by (rule read_sector_reliable [OF dev rel])
  show ?thesis
  proof (cases "unat sc < k")
    case True
    have "update_in_sector (img (disk s) (base + ucast sc)) name need cl sector_offsets = Some None"
      unfolding ix by (rule a(4) [OF True])
    then have "update_step dv drive name need cl (sc, sect, s) = Some (Inr (sc + 1, img (disk s) (base + ucast sc), s\<lparr>disk := d\<rparr>))"
      using a(1,3) in_range d(1) by (simp add: update_step_def Let_def)
    moreover have "unat (sc + 1) \<le> k" using True k by (simp add: unat_word_ariths)
    moreover have "found_at img name need cl k (s\<lparr>disk := d\<rparr>)"
      using a d(2) unfolding found_at_def by (simp add: bpb_sectors_per_cluster_def fat32_cluster_to_lba_def)
    ultimately show ?thesis by blast
  next
    case False
    then have "unat sc = k" using sc by simp
    then have sck: "ucast sc = (of_nat k :: u32)" unfolding ix by simp
    have x: "length x = 512" "same_names sector_offsets (img (disk s) (base + of_nat k)) x"
      using update_keeps_names [OF a(5) block_deviceD(1) [OF dev]] by blast+
    obtain d1 where d1: "write_sector dv drive (base + of_nat k) x (s\<lparr>disk := d\<rparr>) = (0, s\<lparr>disk := d\<rparr>\<lparr>disk := d1\<rparr>)"
      "img d1 = (img (disk (s\<lparr>disk := d\<rparr>)))(base + of_nat k := x)"
      by (rule write_sector_writable [OF dev wrt x(1)])
    obtain y where y: "update_in_sector x name need cl sector_offsets = Some (Some y)"
      using update_in_sector_again [OF a(5) x(2) sector_offsets_fit [OF block_deviceD(1) [OF dev]]] by blast
    have apart: "(of_nat j :: u32) \<noteq> of_nat k" if "j < k" for j
      using that k by (simp add: word_of_nat_eq_iff take_bit_nat_eq_self)
    have "update_step dv drive name need cl (sc, sect, s) = Some (Inr (0, x, s\<lparr>disk := d1\<rparr>))"
      using a(1,3,5) in_range d(1) d1(1) by (simp add: update_step_def Let_def sck)
    moreover have "found_at img name need cl k (s\<lparr>disk := d1\<rparr>)"
      using a y d(2) d1(2) apart unfolding found_at_def
      by (simp add: bpb_sectors_per_cluster_def fat32_cluster_to_lba_def)
    ultimately show ?thesis
      by (intro exI [of _ 0] exI [of _ x] exI [of _ "s\<lparr>disk := d1\<rparr>"]) simp
  qed
qed

text \<open>The loop after \<open>n\<close> rounds.\<close>

fun update_rounds :: "'d blockdev \<Rightarrow> u8 \<Rightarrow> bytes \<Rightarrow> u32 \<Rightarrow> u32 \<Rightarrow> nat \<Rightarrow> u8 \<times> bytes \<times> 'd fs
    \<Rightarrow> (bool \<times> bytes \<times> 'd fs + u8 \<times> bytes \<times> 'd fs) option" where
  "update_rounds dv drive name need first_cluster 0 c = Some (Inr c)"
| "update_rounds dv drive name need first_cluster (Suc n) c = do {
     r \<leftarrow> update_step dv drive name need first_cluster c;
     (case r of
        Inl v \<Rightarrow> Some (Inl v)
      | Inr c1 \<Rightarrow> update_rounds dv drive name need first_cluster n c1) }"

lemma update_rounds_go_on:
  assumes "block_device dv drive img" and "reliable dv drive" and "writable dv drive"
  shows "found_at img name need cl k s \<Longrightarrow> unat sc \<le> k \<Longrightarrow>
    \<exists>c. update_rounds dv drive name need cl n (sc, sect, s) = Some (Inr c)"
proof (induction n arbitrary: sc sect s)
  case (Suc n)
  obtain sc1 sect1 s1 where "update_step dv drive name need cl (sc, sect, s) = Some (Inr (sc1, sect1, s1))"
    "unat sc1 \<le> k" "found_at img name need cl k s1"
    using update_step_goes_on [OF assms Suc.prems, of sect] by blast
  then show ?case using Suc.IH by simp
qed simp

text \<open>A loop that goes on after every number of rounds does not return.\<close>

lemma update_loop_returns:
  assumes "update_loop dv drive name need cl c = Some v"
  shows "\<exists>n. update_rounds dv drive name need cl n c = Some (Inl v)"
proof (rule update_loop.raw_induct [OF _ assms, where P = "\<lambda>dv drive name need cl c v.
    \<exists>n. update_rounds dv drive name need cl n c = Some (Inl v)"], goal_cases)
  case (1 loop dv drive name need cl c v)
  then obtain r where r: "update_step dv drive name need cl c = Some r"
    and rest: "(case r of Inl v \<Rightarrow> Some v | Inr c1 \<Rightarrow> loop dv drive name need cl c1) = Some v"
    by (auto simp: bind_eq_Some_conv)
  show ?case
  proof (cases r)
    case (Inl u)
    then show ?thesis using r rest by (intro exI [of _ 1]) simp
  next
    case (Inr c1)
    then obtain n where "update_rounds dv drive name need cl n c1 = Some (Inl v)"
      using 1(1) [of dv drive name need cl c1 v] rest by auto
    then show ?thesis using r Inr by (intro exI [of _ "Suc n"]) simp
  qed
qed

lemma update_loop_stuck:
  assumes "\<forall>n. \<exists>c1. update_rounds dv drive name need cl n c = Some (Inr c1)"
  shows "update_loop dv drive name need cl c = None"
proof (cases "update_loop dv drive name need cl c")
  case (Some v)
  then obtain n where "update_rounds dv drive name need cl n c = Some (Inl v)" using update_loop_returns by blast
  then show ?thesis using assms by (metis option.inject sum.distinct(1))
qed

section \<open>The formatted disk\<close>

text \<open>The part of the boot sector that formatting leaves zero: it includes the partition table.\<close>

definition blank_tail :: "bytes \<Rightarrow> bool" where
  "blank_tail b \<longleftrightarrow> length b = 512 \<and> (\<forall>k. 122 \<le> k \<and> k < 510 \<longrightarrow> b ! k = 0)"

lemma bind_keeps:
  assumes "\<exists>b. f = Some b \<and> P b" and "\<And>b. P b \<Longrightarrow> \<exists>r. g b = Some r \<and> Q r"
  shows "\<exists>r. Option.bind f g = Some r \<and> Q r"
  using assms by auto

lemma blank_tail_blit: "blank_tail b \<Longrightarrow> i + length bs \<le> 122 \<Longrightarrow> blank_tail (blit b i bs)"
  by (auto simp: blank_tail_def nth_blit)

lemma blank_tail_steps:
  assumes "blank_tail b"
  shows "i < 122 \<Longrightarrow> \<exists>r. wr b i v = Some r \<and> blank_tail r"
    and "i + 2 \<le> 122 \<Longrightarrow> \<exists>r. put16 b i w = Some r \<and> blank_tail r"
    and "i + 4 \<le> 122 \<Longrightarrow> \<exists>r. put32 b i x = Some r \<and> blank_tail r"
    and "i + n \<le> 122 \<Longrightarrow> n \<le> length s \<Longrightarrow> \<exists>r. memcpy b i s n = Some r \<and> blank_tail r"
proof -
  have len: "length b = 512" using assms by (simp add: blank_tail_def)
  show "\<exists>r. wr b i v = Some r \<and> blank_tail r" if "i < 122"
    using that assms by (auto simp: blank_tail_def)
  show "\<exists>r. put16 b i w = Some r \<and> blank_tail r" if "i + 2 \<le> 122"
    using that len blank_tail_blit [OF assms, of i "bytes16 w"] by (simp add: put16_blit)
  show "\<exists>r. put32 b i x = Some r \<and> blank_tail r" if "i + 4 \<le> 122"
    using that len blank_tail_blit [OF assms, of i "bytes32 x"] by (simp add: put32_blit)
  show "\<exists>r. memcpy b i s n = Some r \<and> blank_tail r" if "i + n \<le> 122" "n \<le> length s"
    using that len blank_tail_blit [OF assms, of i "take n s"] by (simp add: memcpy_blit)
qed

lemma blank_tail_strncpy:
  "blank_tail b \<Longrightarrow> i + n < 122 \<Longrightarrow> 0 \<notin> set s \<Longrightarrow> length s = n \<Longrightarrow>
   \<exists>r. strncpy b i (s @ [0]) n = Some r \<and> blank_tail r"
proof (induction n arbitrary: b i s)
  case 0
  then show ?case using blank_tail_steps(1) [of b i 0] by simp
next
  case (Suc n)
  then obtain c cs where s: "s = c # cs" by (cases s) auto
  obtain r where "wr b i c = Some r" "blank_tail r"
    using blank_tail_steps(1) [OF Suc.prems(1), of i c] Suc.prems(2) by auto
  then show ?case using Suc.IH [of r "Suc i" cs] Suc.prems s by simp
qed

lemma memset_sector: "length b = 512 \<Longrightarrow> memset b 0 0 512 = Some (replicate 512 0)"
  using memset_blit [of 0 512 b 0] by (simp add: blit_def)

lemma blank_tail_memset: "length b = 512 \<Longrightarrow> \<exists>r. memset b 0 0 512 = Some r \<and> blank_tail r"
  by (simp add: memset_sector blank_tail_def)

lemma boot_sector_tail:
  assumes "length buf = 512"
  shows "\<exists>b. boot_sector buf = Some b \<and> length b = 512 \<and> (\<forall>k. 122 \<le> k \<and> k < 510 \<longrightarrow> b ! k = 0)
    \<and> b ! 510 = 0x55 \<and> b ! 511 = 0xAA"
proof -
  have names: "0 \<notin> set (lit ''MSDOS5.0'')" "0 \<notin> set (lit ''HATCHER    '')" "0 \<notin> set (lit ''FAT32   '')"
    "length (lit ''MSDOS5.0'') = 8" "length (lit ''HATCHER    '') = 11" "length (lit ''FAT32   '') = 8"
    by (simp_all add: lit_def)
  have finish: "\<exists>r. Option.bind (wr b 510 0x55) (\<lambda>b. wr b 511 0xAA) = Some r \<and> length r = 512
      \<and> (\<forall>k. 122 \<le> k \<and> k < 510 \<longrightarrow> r ! k = 0) \<and> r ! 510 = 0x55 \<and> r ! 511 = 0xAA" if "blank_tail b" for b
    using that by (simp add: blank_tail_def)
  have "length (drop 3 bootloader_bin) = 59" "length bootmsg = 30"
    by (simp_all add: bootloader_bin_def bootmsg_def lit_def)
  then show ?thesis
    unfolding boot_sector_def
    by (intro bind_keeps [where P = blank_tail] blank_tail_memset blank_tail_steps blank_tail_strncpy names finish)
       (simp_all add: assms names)
qed

lemma write_run_img:
  assumes "block_device dv drive img" and "writable dv drive" and "length data = 512"
  shows "\<exists>d. write_run dv drive data lbas s = s\<lparr>disk := d\<rparr> \<and> (\<forall>lba. lba \<notin> set lbas \<longrightarrow> img d lba = img (disk s) lba)"
proof (induction lbas arbitrary: s)
  case Nil
  then show ?case by (intro exI [of _ "disk s"]) simp
next
  case (Cons l lbas)
  obtain d where d: "write_sector dv drive l data s = (0, s\<lparr>disk := d\<rparr>)" "img d = (img (disk s))(l := data)"
    by (rule write_sector_writable [OF assms])
  obtain d2 where "write_run dv drive data lbas (s\<lparr>disk := d\<rparr>) = s\<lparr>disk := d\<rparr>\<lparr>disk := d2\<rparr>"
    "\<forall>lba. lba \<notin> set lbas \<longrightarrow> img d2 lba = img (disk (s\<lparr>disk := d\<rparr>)) lba"
    using Cons.IH [of "s\<lparr>disk := d\<rparr>"] by blast
  then show ?case using d by (intro exI [of _ d2]) auto
qed

lemma fsinfo_sector_ok: "length b = 512 \<Longrightarrow> \<exists>c. fsinfo_sector b = Some c \<and> length c = 512"
  by (simp add: fsinfo_sector_def memset_sector put32_blit)

lemma create_fs_img:
  assumes dev: "block_device dv drive img" and wr: "writable dv drive"
    and "heap_inv (fheap s)" and "kmalloc 512 (fheap s) = Some (p, h)" and "p \<noteq> 0"
  obtains s1 where "fat32_create_fs dv drive s = Some s1" "heap_inv (fheap s1)"
    "\<And>k. 122 \<le> k \<Longrightarrow> k < 510 \<Longrightarrow> img (disk s1) 0 ! k = 0" "img (disk s1) 0 ! 510 = 0x55" "img (disk s1) 0 ! 511 = 0xAA"
proof (cases rule: new_sector_cases [OF assms(3,4)])
  case (1 sec)
  then show ?thesis using assms(5) by simp
next
  case (2 sec n)
  let ?s = "s\<lparr>fheap := h\<rparr>"
  obtain boot where boot: "boot_sector sec = Some boot" "length boot = 512"
    "\<forall>k. 122 \<le> k \<and> k < 510 \<longrightarrow> boot ! k = 0" "boot ! 510 = 0x55" "boot ! 511 = 0xAA"
    using boot_sector_tail [OF 2(3)] by blast
  obtain info where info: "fsinfo_sector boot = Some info" "length info = 512" using fsinfo_sector_ok [OF boot(2)] by blast
  obtain d1 where d1: "write_sector dv drive 0 boot ?s = (0, ?s\<lparr>disk := d1\<rparr>)" "img d1 = (img (disk ?s))(0 := boot)"
    by (rule write_sector_writable [OF dev wr boot(2)])
  let ?s1 = "?s\<lparr>disk := d1\<rparr>"
  obtain d2 where d2: "write_sector dv drive 1 info ?s1 = (0, ?s1\<lparr>disk := d2\<rparr>)" "img d2 = (img (disk ?s1))(1 := info)"
    by (rule write_sector_writable [OF dev wr info(2)])
  let ?s2 = "?s1\<lparr>disk := d2\<rparr>" and ?z = "replicate 512 (0 :: u8)"
  let ?A = "map (\<lambda>i. 32 + of_nat i :: u32) [0..<32]" and ?B = "map (\<lambda>i. 32 + 32 + of_nat i :: u32) [0..<123 * 2]"
  have z: "length ?z = 512" by simp
  obtain d3 where d3: "write_run dv drive ?z ?A ?s2 = ?s2\<lparr>disk := d3\<rparr>" "\<forall>lba. lba \<notin> set ?A \<longrightarrow> img d3 lba = img (disk ?s2) lba"
    using write_run_img [OF dev wr z] by blast
  let ?s3 = "?s2\<lparr>disk := d3\<rparr>"
  obtain d4 where d4: "write_run dv drive ?z ?B ?s3 = ?s3\<lparr>disk := d4\<rparr>" "\<forall>lba. lba \<notin> set ?B \<longrightarrow> img d4 lba = img (disk ?s3) lba"
    using write_run_img [OF dev wr z] by blast
  have far: "k + of_nat i \<noteq> (0 :: u32)" if "0 < unat k" "unat k \<le> 64" "i < 256" for k i
  proof -
    have "unat (of_nat i :: u32) = i" using that(3) by (simp add: unat_of_nat)
    then have "unat (k + of_nat i) = unat k + i" using that by (simp add: unat_word_ariths)
    then show ?thesis using that(1) by auto
  qed
  have "0 \<notin> set ?A" "0 \<notin> set ?B" using far [of 32] far [of 64] by fastforce+
  then have img0: "img d4 0 = boot" using d1(2) d2(2) d3(2) d4(2) by simp
  define s4 where "s4 = store_sector p ?z (?s3\<lparr>disk := d4\<rparr>)"
  have "fat32_create_fs dv drive s = Some s4"
    unfolding fat32_create_fs_def 2(2) bind.bind_lunit case_prod_conv boot(1) Let_def d1(1) info(1) d2(1)
      memset_sector [OF info(2)] d3(1) d4(1) s4_def using assms(5) by (simp only: if_False not_True_eq_False simp_thms)
  moreover have "img (disk s4) 0 = boot" "heap_inv (fheap s4)" using img0 2(4) by (simp_all add: s4_def store_sector_def)
  ultimately show ?thesis using that boot by simp
qed

section \<open>The records of a new name\<close>

definition lfn_char :: "bytes \<Rightarrow> nat \<Rightarrow> nat \<Rightarrow> u8" where
  "lfn_char name namelen k = (if k < namelen then name ! k else 0xFF)"

lemma lfn_slot_bound: "j < 13 \<Longrightarrow> 1 \<le> lfn_slot j \<and> lfn_slot j + 1 < 32
    \<and> (lfn_slot j + 1 < 11 \<or> 14 \<le> lfn_slot j \<and> (lfn_slot j + 1 < 26 \<or> 28 \<le> lfn_slot j))"
  by (auto simp: lfn_slot_def)

lemma lfn_slot_apart: "i < 13 \<Longrightarrow> j < 13 \<Longrightarrow> i \<noteq> j \<Longrightarrow> lfn_slot i \<noteq> lfn_slot j \<and> lfn_slot i \<noteq> lfn_slot j + 1"
  by (auto simp: lfn_slot_def)

lemma lfn_slot_less: "j < 13 \<Longrightarrow> lfn_slot j < 32"
  using lfn_slot_bound [of j] by linarith

lemma widen_back: "ucast (ucast c :: u16) = (c :: u8)"
  by (rule bit_word_eqI) (auto simp: bit_simps)

lemma lfn_slots: "map lfn_slot [0..<13] = lfn_offsets"
  by (simp add: lfn_offsets_def lfn_slot_def upt_rec)

lemma put16_bytes: "i + 2 \<le> length m \<Longrightarrow> \<exists>r. put16 m i v = Some r \<and> length r = length m \<and> r ! i = ucast v
    \<and> (\<forall>k. k \<noteq> i \<and> k \<noteq> i + 1 \<longrightarrow> r ! k = m ! k)"
  by (simp add: put16_def)

lemma lfn_chars_spec:
  assumes "distinct js" and "\<forall>j\<in>set js. j < 13" and "base + 32 \<le> length buf" and "namelen \<le> length name"
  shows "\<exists>r. lfn_chars buf base name namelen start js = Some r \<and> length r = length buf
    \<and> (\<forall>j\<in>set js. r ! (base + lfn_slot j) = lfn_char name namelen (start + j))
    \<and> (\<forall>k. (\<forall>j\<in>set js. k \<noteq> base + lfn_slot j \<and> k \<noteq> base + lfn_slot j + 1) \<longrightarrow> r ! k = buf ! k)"
  using assms
proof (induction js arbitrary: buf)
  case Nil
  then show ?case by simp
next
  case (Cons j js)
  define ch :: u16 where "ch = (if start + j < namelen then ucast (name ! (start + j)) else 0xFFFF)"
  have ch: "(if start + j < namelen then map_option ucast (rd name (start + j)) else Some 0xFFFF) = Some ch"
    using Cons.prems(4) by (simp add: ch_def)
  have low: "(ucast ch :: u8) = lfn_char name namelen (start + j)" by (simp add: ch_def lfn_char_def widen_back)
  have "base + lfn_slot j + 2 \<le> length buf" using lfn_slot_bound [of j] Cons.prems(2,3) by auto
  then obtain b where b: "put16 buf (base + lfn_slot j) ch = Some b" "length b = length buf"
    "b ! (base + lfn_slot j) = ucast ch" "\<forall>k. k \<noteq> base + lfn_slot j \<and> k \<noteq> base + lfn_slot j + 1 \<longrightarrow> b ! k = buf ! k"
    using put16_bytes by blast
  obtain r where r: "lfn_chars b base name namelen start js = Some r" "length r = length buf"
    "\<forall>j\<in>set js. r ! (base + lfn_slot j) = lfn_char name namelen (start + j)"
    "\<forall>k. (\<forall>j\<in>set js. k \<noteq> base + lfn_slot j \<and> k \<noteq> base + lfn_slot j + 1) \<longrightarrow> r ! k = b ! k"
    using Cons.IH [of b] Cons.prems b(2) by auto
  have "\<forall>i\<in>set js. lfn_slot j \<noteq> lfn_slot i \<and> lfn_slot j \<noteq> lfn_slot i + 1"
    using Cons.prems(1,2) lfn_slot_apart [of j] by (metis distinct.simps(2) list.set_intros(1,2))
  then have "r ! (base + lfn_slot j) = ucast ch" using r(4) b(3) by simp
  then show ?case using r b(1,4) ch low by simp
qed

text \<open>What a listing needs of a long-name record: its order, attribute and text.\<close>

lemma lfn_text_chars:
  assumes "base + 32 \<le> length buf" and "\<forall>j<13. buf ! (base + lfn_slot j) = lfn_char name namelen (start + j)"
    and "namelen \<le> length name" and "\<forall>c\<in>set (take namelen name). c \<noteq> 0 \<and> c \<noteq> 0xFF"
  shows "lfn_text (record_at buf base) = take 13 (drop start (take namelen name))"
proof -
  let ?w = "map (\<lambda>j. lfn_char name namelen (start + j)) [0..<13]" and ?c = "take 13 (drop start (take namelen name))"
  have "map ((!) (record_at buf base)) lfn_offsets = map (\<lambda>j. record_at buf base ! lfn_slot j) [0..<13]"
    unfolding lfn_slots [symmetric] by (simp only: map_map comp_def)
  also have "\<dots> = ?w"
    using assms(1,2) by (intro map_cong) (auto simp: nth_record lfn_slot_less)
  finally have eqt: "lfn_text (record_at buf base) = takeWhile (\<lambda>c. c \<noteq> 0 \<and> c \<noteq> 0xFF) ?w"
    by (simp add: lfn_text_def)
  have len: "length ?c \<le> 13" by simp
  have w: "?w = ?c @ replicate (13 - length ?c) 0xFF"
    using assms(3) by (intro nth_equalityI) (auto simp: lfn_char_def nth_append)
  have good: "\<forall>c\<in>set ?c. c \<noteq> 0 \<and> c \<noteq> 0xFF"
  proof
    fix c assume "c \<in> set ?c"
    then have "c \<in> set (take namelen name)" by (rule in_set_dropD [OF in_set_takeD])
    then show "c \<noteq> 0 \<and> c \<noteq> 0xFF" by (rule bspec [OF assms(4)])
  qed
  have "takeWhile (\<lambda>c. c \<noteq> 0 \<and> c \<noteq> 0xFF) (?c @ replicate (13 - length ?c) 0xFF)
      = ?c @ takeWhile (\<lambda>c. c \<noteq> 0 \<and> c \<noteq> 0xFF) (replicate (13 - length ?c) 0xFF)"
    using good by (intro takeWhile_append2) blast
  also have "takeWhile (\<lambda>c. c \<noteq> 0 \<and> c \<noteq> 0xFF) (replicate (13 - length ?c) 0xFF) = []"
    by (simp add: takeWhile_replicate)
  finally show ?thesis unfolding eqt w by (simp only: append_Nil2)
qed

lemma order_byte:
  assumes "1 \<le> seq" and "seq \<le> 20"
  shows "unat ((of_nat seq OR 0x40 :: u8) AND 0x1F) = seq" "(of_nat seq OR 0x40 :: u8) AND 0x40 \<noteq> 0"
    "unat ((of_nat seq :: u8) AND 0x1F) = seq" "(of_nat seq :: u8) AND 0x40 = 0"
    "(of_nat seq :: u8) \<noteq> 0" "(of_nat seq OR 0x40 :: u8) \<noteq> 0"
proof -
  have "seq = 1 \<or> seq = 2 \<or> seq = 3 \<or> seq = 4 \<or> seq = 5 \<or> seq = 6 \<or> seq = 7 \<or> seq = 8 \<or> seq = 9 \<or> seq = 10
      \<or> seq = 11 \<or> seq = 12 \<or> seq = 13 \<or> seq = 14 \<or> seq = 15 \<or> seq = 16 \<or> seq = 17 \<or> seq = 18 \<or> seq = 19 \<or> seq = 20"
    using assms by arith
  then show "unat ((of_nat seq OR 0x40 :: u8) AND 0x1F) = seq" "(of_nat seq OR 0x40 :: u8) AND 0x40 \<noteq> 0"
    "unat ((of_nat seq :: u8) AND 0x1F) = seq" "(of_nat seq :: u8) AND 0x40 = 0"
    "(of_nat seq :: u8) \<noteq> 0" "(of_nat seq OR 0x40 :: u8) \<noteq> 0"
    by (elim disjE; simp)+
qed

definition name_part_of :: "bytes \<Rightarrow> nat \<Rightarrow> bytes" where
  "name_part_of text seq = take 13 (drop ((seq - 1) * 13) text)"

definition lfn_rec :: "bytes \<Rightarrow> bytes \<Rightarrow> nat \<Rightarrow> nat \<Rightarrow> bool" where
  "lfn_rec r text entries seq \<longleftrightarrow> length r = 32 \<and> r ! 11 = 0x0F \<and> lfn_text r = name_part_of text seq
     \<and> r ! 0 = (if seq = entries then of_nat seq OR 0x40 else of_nat seq)"

lemma lfn_put_spec:
  assumes "1 \<le> seq" and "seq \<le> entries" and "(entries - seq) * 32 + 32 \<le> length buf" and "namelen \<le> length name"
    and "\<forall>c\<in>set (take namelen name). c \<noteq> 0 \<and> c \<noteq> 0xFF"
  shows "\<exists>r. lfn_put buf entries checksum name namelen seq = Some r \<and> length r = length buf
    \<and> lfn_rec (record_at r ((entries - seq) * 32)) (take namelen name) entries seq
    \<and> (\<forall>k. k < (entries - seq) * 32 \<or> (entries - seq) * 32 + 32 \<le> k \<longrightarrow> r ! k = buf ! k)"
proof -
  define base where "base = (entries - seq) * 32"
  define order where "order = (if seq = entries then of_nat seq OR 0x40 else of_nat seq :: u8)"
  have fit: "base + 32 \<le> length buf" using assms(3) by (simp add: base_def)
  define b4 where "b4 = buf[base := order, base + 11 := 0x0F, base + 12 := 0, base + 13 := checksum]"
  have len4: "length b4 = length buf" by (simp add: b4_def)
  obtain b5 where b5: "put16 b4 (base + 26) 0 = Some b5" "length b5 = length b4"
    "\<forall>k. k \<noteq> base + 26 \<and> k \<noteq> base + 26 + 1 \<longrightarrow> b5 ! k = b4 ! k"
    using put16_bytes [of "base + 26" b4 0] fit len4 by auto
  obtain r where r: "lfn_chars b5 base name namelen ((seq - 1) * 13) [0..<13] = Some r" "length r = length b5"
    "\<forall>j\<in>set [0..<13]. r ! (base + lfn_slot j) = lfn_char name namelen ((seq - 1) * 13 + j)"
    "\<forall>k. (\<forall>j\<in>set [0..<13]. k \<noteq> base + lfn_slot j \<and> k \<noteq> base + lfn_slot j + 1) \<longrightarrow> r ! k = b5 ! k"
    using lfn_chars_spec [of "[0..<13]" base b5 namelen name "(seq - 1) * 13"] fit len4 b5(2) assms(4) by auto
  have run: "lfn_put buf entries checksum name namelen seq = Some r"
    using fit b5(1) r(1) unfolding lfn_put_def Let_def base_def [symmetric] order_def [symmetric]
    by (simp add: b4_def)
  have len: "length r = length buf" using r(2) b5(2) len4 by simp
  have keep: "r ! k = buf ! k" if "k < base \<or> base + 32 \<le> k" for k
  proof -
    have "\<forall>j\<in>set [0..<13]. k \<noteq> base + lfn_slot j \<and> k \<noteq> base + lfn_slot j + 1"
      using that lfn_slot_bound by fastforce
    then have "r ! k = b5 ! k" using r(4) by blast
    also have "\<dots> = b4 ! k" using b5(3) that by auto
    also have "\<dots> = buf ! k" using that by (auto simp: b4_def)
    finally show ?thesis .
  qed
  have "\<forall>j\<in>set [0..<13]. base + 11 \<noteq> base + lfn_slot j \<and> base + 11 \<noteq> base + lfn_slot j + 1
      \<and> base \<noteq> base + lfn_slot j \<and> base \<noteq> base + lfn_slot j + 1"
    using lfn_slot_bound by fastforce
  then have "r ! (base + 11) = b5 ! (base + 11)" "r ! base = b5 ! base" using r(4) by blast+
  then have fields: "r ! (base + 11) = 0x0F" "r ! base = order" using b5(3) fit by (simp_all add: b4_def)
  have ltext: "lfn_text (record_at r base) = name_part_of (take namelen name) seq"
    unfolding name_part_of_def using fit len r(3) assms(4,5) by (intro lfn_text_chars) simp_all
  have "lfn_rec (record_at r base) (take namelen name) entries seq"
    using fields ltext fit len by (simp add: lfn_rec_def nth_record order_def)
  then show ?thesis using run len keep by (simp add: base_def)
qed

lemma record_at_cong:
  assumes "length a = length b" and "off + 32 \<le> length a" and "\<forall>k. off \<le> k \<and> k < off + 32 \<longrightarrow> a ! k = b ! k"
  shows "record_at a off = record_at b off"
  using assms by (intro nth_equalityI) (auto simp: nth_record)

lemma lfn_build_spec:
  assumes "distinct seqs" and "\<forall>seq\<in>set seqs. 1 \<le> seq \<and> seq \<le> entries" and "entries * 32 \<le> length buf"
    and "namelen \<le> length name" and "\<forall>c\<in>set (take namelen name). c \<noteq> 0 \<and> c \<noteq> 0xFF"
  shows "\<exists>r. lfn_build buf entries checksum name namelen seqs = Some r \<and> length r = length buf
    \<and> (\<forall>seq\<in>set seqs. lfn_rec (record_at r ((entries - seq) * 32)) (take namelen name) entries seq)
    \<and> (\<forall>k. (\<forall>seq\<in>set seqs. k < (entries - seq) * 32 \<or> (entries - seq) * 32 + 32 \<le> k) \<longrightarrow> r ! k = buf ! k)"
  using assms(1-3)
proof (induction seqs arbitrary: buf)
  case Nil
  then show ?case by simp
next
  case (Cons seq seqs)
  have fit: "(entries - s) * 32 + 32 \<le> length buf" if "1 \<le> s" "s \<le> entries" for s
  proof -
    have "(entries - s + 1) * 32 \<le> entries * 32" using that by (intro mult_right_mono) simp_all
    then show ?thesis using Cons.prems(3) by simp
  qed
  have seq: "1 \<le> seq" "seq \<le> entries" using Cons.prems(2) by simp_all
  obtain b where b: "lfn_put buf entries checksum name namelen seq = Some b" "length b = length buf"
    "lfn_rec (record_at b ((entries - seq) * 32)) (take namelen name) entries seq"
    "\<forall>k. k < (entries - seq) * 32 \<or> (entries - seq) * 32 + 32 \<le> k \<longrightarrow> b ! k = buf ! k"
    using lfn_put_spec [OF seq fit [OF seq] assms(4,5)] by blast
  obtain r where r: "lfn_build b entries checksum name namelen seqs = Some r" "length r = length buf"
    "\<forall>seq\<in>set seqs. lfn_rec (record_at r ((entries - seq) * 32)) (take namelen name) entries seq"
    "\<forall>k. (\<forall>seq\<in>set seqs. k < (entries - seq) * 32 \<or> (entries - seq) * 32 + 32 \<le> k) \<longrightarrow> r ! k = b ! k"
    using Cons.IH [of b] Cons.prems b(2) by auto
  have "r ! k = b ! k" if k: "(entries - seq) * 32 \<le> k \<and> k < (entries - seq) * 32 + 32" for k
  proof -
    have "k < (entries - s) * 32 \<or> (entries - s) * 32 + 32 \<le> k" if "s \<in> set seqs" for s
    proof -
      have "s \<noteq> seq" "s \<le> entries" using that Cons.prems(1,2) by auto
      then have "entries - s + 1 \<le> entries - seq \<or> entries - seq + 1 \<le> entries - s" using seq by linarith
      then show ?thesis using k by auto
    qed
    then show ?thesis using r(4) by blast
  qed
  then have "record_at r ((entries - seq) * 32) = record_at b ((entries - seq) * 32)"
    using r(2) b(2) fit [OF seq] by (intro record_at_cong) auto
  moreover have "r ! k = buf ! k"
    if "\<forall>s\<in>set (seq # seqs). k < (entries - s) * 32 \<or> (entries - s) * 32 + 32 \<le> k" for k
  proof -
    have "r ! k = b ! k" using that r(4) by simp
    also have "b ! k = buf ! k" using that b(4) by auto
    finally show ?thesis .
  qed
  ultimately show ?case using b(1,3) r(1-3) by (intro exI [of _ r]) simp
qed

text \<open>Listing the long-name records of a name, from the last part down to the first.\<close>

lemma lfn_record_part:
  assumes "lfn_rec r text entries seq" and "1 \<le> seq" and "seq \<le> 20" and "parts_ok parts"
    and "parts0 = (if seq = entries then no_parts else parts)"
  shows "\<exists>row. lfn_record r parts present = Some (parts0[seq - 1 := row], if seq = entries then seq else present)
    \<and> length row = 14 \<and> terminated row \<and> cstr row = name_part_of text seq"
proof -
  have r: "length r = 32" "lfn_text r = name_part_of text seq"
    "r ! 0 = (if seq = entries then of_nat seq OR 0x40 else of_nat seq)"
    using assms(1) by (simp_all add: lfn_rec_def)
  have k: "seq - 1 < 20" using assms(2,3) by linarith
  have ok: "parts_ok parts0" using assms(4,5) by simp
  have row: "rd parts0 (seq - 1) = Some (parts0 ! (seq - 1))" "length (parts0 ! (seq - 1)) = 14"
    using ok parts_ok_nth [OF ok k] k by (simp_all add: parts_ok_def)
  obtain d where d: "lfn_copy_part (parts0 ! (seq - 1)) r = Some d" "length d = 14" "terminated d" "cstr d = lfn_text r"
    using lfn_copy_part_spec [OF row(2) r(1)] by blast
  have rd0: "rd r 0 = Some (r ! 0)" using r(1) by simp
  have bits: "unat (r ! 0 AND 0x1F) = seq" "(r ! 0 AND 0x40 \<noteq> 0) = (seq = entries)"
    unfolding r(3) using order_byte [OF assms(2,3)] by (cases "seq = entries"; simp)+
  have pos: "(0 < seq \<and> seq \<le> 20) = True" using assms(2,3) by simp
  have "lfn_record r parts present = Some (parts0[seq - 1 := d], if seq = entries then seq else present)"
    unfolding lfn_record_def rd0 bind.bind_lunit Let_def bits assms(5) [symmetric] pos if_True row(1) d(1) ..
  then show ?thesis using d(2-4) r(2) by (intro exI [of _ d]) (simp only: simp_thms)
qed

lemma list_lfn_records:
  assumes "m \<le> entries" and "entries \<le> 20" and "parts_ok parts" and "m < entries \<longrightarrow> present = entries"
    and "m < entries \<longrightarrow> (\<forall>seq. m < seq \<and> seq \<le> entries \<longrightarrow> cstr (parts ! (seq - 1)) = name_part_of text seq)"
    and "\<forall>seq. 1 \<le> seq \<and> seq \<le> m \<longrightarrow> lfn_rec (R seq) text entries seq" and "0 < entries"
  shows "\<exists>parts1. parts_ok parts1
    \<and> (\<forall>seq. 1 \<le> seq \<and> seq \<le> entries \<longrightarrow> cstr (parts1 ! (seq - 1)) = name_part_of text seq)
    \<and> list_records mx (map R (rev [1..<m + 1]) @ rs) parts present es = list_records mx rs parts1 entries es"
  using assms
proof (induction m arbitrary: parts present)
  case 0
  then show ?case by (intro exI [of _ parts]) simp
next
  case (Suc m)
  define parts0 where "parts0 = (if Suc m = entries then no_parts else parts)"
  have rec: "lfn_rec (R (Suc m)) text entries (Suc m)" using Suc.prems(6) by simp
  have le: "1 \<le> Suc m" "Suc m \<le> 20" using Suc.prems(1,2) by linarith+
  obtain row where row: "lfn_record (R (Suc m)) parts present =
      Some (parts0[m := row], if Suc m = entries then Suc m else present)"
    "length row = 14" "terminated row" "cstr row = name_part_of text (Suc m)"
    using lfn_record_part [OF rec le Suc.prems(3) parts0_def, of present] by auto
  have pres: "(if Suc m = entries then Suc m else present) = entries" using Suc.prems(1,4) by auto
  have "r ! 0 \<noteq> 0" if "lfn_rec r text entries (Suc m)" for r
    using that order_byte(5,6) [OF le] by (auto simp: lfn_rec_def)
  then have step: "list_records mx (map R (rev [1..<Suc m + 1]) @ rs) parts present es
      = list_records mx (map R (rev [1..<m + 1]) @ rs) (parts0[m := row]) entries es"
    using rec row(1) pres by (simp add: lfn_rec_def)
  have ok0: "parts_ok parts0" "m < 20" using Suc.prems(1-3) by (simp_all add: parts0_def)
  have ok: "parts_ok (parts0[m := row])"
    using ok0(1) row(2,3) set_update_subset_insert [of parts0 m row] by (auto simp: parts_ok_def)
  have "cstr (parts0[m := row] ! (seq - 1)) = name_part_of text seq" if "m < seq" "seq \<le> entries" for seq
  proof (cases "seq = Suc m")
    case True
    then show ?thesis using row(4) ok0 by (simp add: parts_ok_def)
  next
    case False
    then have "m < seq - 1" "Suc m < seq" using that(1) by linarith+
    then show ?thesis using Suc.prems(5) that(2) by (simp add: parts0_def)
  qed
  then obtain parts1 where "parts_ok parts1"
    "\<forall>seq. 1 \<le> seq \<and> seq \<le> entries \<longrightarrow> cstr (parts1 ! (seq - 1)) = name_part_of text seq"
    "list_records mx (map R (rev [1..<m + 1]) @ rs) (parts0[m := row]) entries es = list_records mx rs parts1 entries es"
    using Suc.IH [of "parts0[m := row]" entries] Suc.prems(1,2,6,7) ok by auto
  then show ?case unfolding step by blast
qed

lemma sfn_part_spec:
  assumes "lim \<le> length sfn" and "j \<le> lim"
  shows "\<exists>r. sfn_part sfn j lim cs = Some r \<and> length r = length sfn
    \<and> (\<forall>k<j. r ! k = sfn ! k) \<and> (cs \<noteq> [] \<and> j < lim \<longrightarrow> r ! j = toupper_ascii (hd cs)) \<and> (cs = [] \<longrightarrow> r = sfn)"
  using assms
proof (induction cs arbitrary: sfn j)
  case Nil
  then show ?case by simp
next
  case (Cons c cs)
  show ?case
  proof (cases "j < lim")
    case True
    then obtain r where "sfn_part (sfn[j := toupper_ascii c]) (j + 1) lim cs = Some r" "length r = length sfn"
      "\<forall>k<j + 1. r ! k = sfn[j := toupper_ascii c] ! k"
      using Cons.IH [of "sfn[j := toupper_ascii c]" "j + 1"] Cons.prems(1) by auto
    then show ?thesis using True Cons.prems(1) by simp
  next
    case False
    then show ?thesis using Cons.prems by simp
  qed
qed

lemma toupper_nonzero: "c \<noteq> 0 \<Longrightarrow> toupper_ascii c \<noteq> 0"
proof
  assume c: "c \<noteq> 0" and z: "toupper_ascii c = 0"
  then have "c = 32 \<and> 97 \<le> sint c" by (auto simp: toupper_ascii_def split: if_splits)
  then have "97 \<le> sint (32 :: u8)" by blast
  then show False by simp
qed

lemma make_sfn_spec:
  assumes "terminated name" and "cstr name \<noteq> []"
  shows "\<exists>sfn. make_sfn name = Some sfn \<and> length sfn = 11 \<and> sfn ! 0 \<noteq> 0"
proof -
  define str0 where "str0 = take (length (cstr name)) name"
  have te: "str0 = cstr name" unfolding str0_def by (metis append_eq_conv_conj assms(1) terminated_split)
  have tk: "take (length str0) name = str0" unfolding te by (metis append_eq_conv_conj assms(1) terminated_split)
  have hd0: "hd str0 \<noteq> 0" using assms(2) te by (metis cstr_no_zero hd_in_set)
  let ?dot = "length (takeWhile (\<lambda>c. c \<noteq> 46) str0)" and ?s0 = "replicate 11 (32 :: u8)"
  have unf: "make_sfn name = (if ?dot = length str0 then sfn_part ?s0 0 8 str0
      else do { s1 \<leftarrow> sfn_part ?s0 0 8 (take ?dot str0); sfn_part s1 8 11 (drop (?dot + 1) str0) })"
    unfolding make_sfn_def strlen_cstr [OF assms(1)] bind.bind_lunit Let_def te [symmetric] tk ..
  have first: "\<exists>r. sfn_part ?s0 0 8 cs = Some r \<and> length r = 11 \<and> r ! 0 \<noteq> 0" if "cs \<noteq> [] \<longrightarrow> hd cs \<noteq> 0" for cs
    using sfn_part_spec [of 8 ?s0 0 cs] that toupper_nonzero [of "hd cs"] by (cases "cs = []") auto
  show ?thesis
  proof (cases "?dot = length str0")
    case True
    then show ?thesis unfolding unf using first [of str0] hd0 by simp
  next
    case False
    have "take ?dot str0 \<noteq> [] \<longrightarrow> hd (take ?dot str0) \<noteq> 0" using hd0 by (cases str0) auto
    then obtain r where r: "sfn_part ?s0 0 8 (take ?dot str0) = Some r" "length r = 11" "r ! 0 \<noteq> 0"
      using first by blast
    obtain q where "sfn_part r 8 11 (drop (?dot + 1) str0) = Some q" "length q = 11" "q ! 0 = r ! 0"
      using sfn_part_spec [of 11 r 8 "drop (?dot + 1) str0"] r(2) by auto
    then show ?thesis unfolding unf using False r by simp
  qed
qed

lemma split_cluster: "push_bit 16 (ucast (ucast (drop_bit 16 cl) :: u16)) OR ucast (ucast (cl AND 0xFFFF) :: u16) = (cl :: u32)"
proof (rule bit_word_eqI)
  fix n assume n: "n < LENGTH(32)"
  have m: "(0xFFFF :: u32) = mask 16" by (simp add: mask_eq_exp_minus_1)
  show "bit (push_bit 16 (ucast (ucast (drop_bit 16 cl) :: u16)) OR ucast (ucast (cl AND 0xFFFF) :: u16) :: u32) n = bit cl n"
    using n unfolding m by (cases "n < 16") (auto simp: bit_simps)
qed

lemma get16_blit:
  "i + 2 \<le> length m \<Longrightarrow> get16 (blit m i (bytes16 v)) i = Some v"
  using get16_put16 [of m i v] by (simp add: put16_blit)

lemma get16_keep: "i + 2 \<le> length a \<Longrightarrow> length a = length b \<Longrightarrow> a ! i = b ! i \<Longrightarrow> a ! (i + 1) = b ! (i + 1) \<Longrightarrow> get16 a i = get16 b i"
  by (simp add: get16_def)

lemma sfn_record_spec:
  assumes "base + 32 \<le> length buf" and "length sfn = 11"
  shows "\<exists>b2 r. sfn_name buf base sfn attr = Some b2 \<and> sfn_cluster b2 base cl = Some r \<and> length r = length buf
    \<and> (\<forall>k<base. r ! k = buf ! k) \<and> r ! base = sfn ! 0 \<and> r ! (base + 11) = attr
    \<and> get16 r (base + 20) = Some (ucast (drop_bit 16 cl)) \<and> get16 r (base + 26) = Some (ucast (cl AND 0xFFFF))
    \<and> get32 r (base + 28) = Some 0"
proof -
  define b2 where "b2 = (blit buf base sfn)[base + 11 := attr]"
  define b3 where "b3 = blit b2 (base + 20) (bytes16 (ucast (drop_bit 16 cl)))"
  define b4 where "b4 = blit b3 (base + 26) (bytes16 (ucast (cl AND 0xFFFF)))"
  define r where "r = blit b4 (base + 28) (bytes32 0)"
  have len: "length b2 = length buf" "length b3 = length buf" "length b4 = length buf" "length r = length buf"
    using assms by (simp_all add: b2_def b3_def b4_def r_def)
  have name: "sfn_name buf base sfn attr = Some b2"
    using assms memcpy_blit [of base 11 buf sfn] by (simp add: sfn_name_def b2_def)
  have clus: "sfn_cluster b2 base cl = Some r"
    using assms(1) len by (simp add: sfn_cluster_def put16_blit put32_blit b3_def b4_def r_def)
  have rk: "r ! k = (if base + 28 \<le> k \<and> k < base + 32 then bytes32 0 ! (k - (base + 28)) else b4 ! k)" if "k < base + 32" for k
    using that assms(1) len unfolding r_def by (subst nth_blit) auto
  have b4k: "b4 ! k = (if base + 26 \<le> k \<and> k < base + 28 then bytes16 (ucast (cl AND 0xFFFF)) ! (k - (base + 26)) else b3 ! k)"
    if "k < base + 32" for k
    using that assms(1) len unfolding b4_def by (subst nth_blit) auto
  have b3k: "b3 ! k = (if base + 20 \<le> k \<and> k < base + 22 then bytes16 (ucast (drop_bit 16 cl)) ! (k - (base + 20)) else b2 ! k)"
    if "k < base + 32" for k
    using that assms(1) len unfolding b3_def by (subst nth_blit) auto
  have low: "r ! k = b2 ! k" if "k < base + 20" for k using that rk b4k b3k by simp
  have "get16 r (base + 20) = get16 b3 (base + 20)"
    using assms(1) len rk b4k by (intro get16_keep) simp_all
  then have hi: "get16 r (base + 20) = Some (ucast (drop_bit 16 cl))"
    using get16_blit [of "base + 20" b2] assms(1) len by (simp add: b3_def)
  have "get16 r (base + 26) = get16 b4 (base + 26)"
    using assms(1) len rk by (intro get16_keep) simp_all
  then have lo: "get16 r (base + 26) = Some (ucast (cl AND 0xFFFF))"
    using get16_blit [of "base + 26" b3] assms(1) len by (simp add: b4_def)
  have "put32 b4 (base + 28) 0 = Some r" using assms(1) len by (simp add: put32_blit r_def)
  then have sz: "get32 r (base + 28) = Some 0" by (rule get32_put32)
  have "b2 ! k = buf ! k" if "k < base" for k using that assms by (simp add: b2_def nth_blit)
  moreover have "b2 ! base = sfn ! 0" "b2 ! (base + 11) = attr" using assms by (simp_all add: b2_def nth_blit)
  ultimately show ?thesis using name clus len(4) low hi lo sz by (intro exI [of _ b2] exI [of _ r]) simp
qed

lemma parts_swapped_short: "0 < length xs \<Longrightarrow> length xs \<le> 13 \<Longrightarrow>
    concat (rev (map (name_part_of xs) [1..<lfn_count (length xs) + 1])) = xs"
proof -
  assume "0 < length xs" "length xs \<le> 13"
  then have "lfn_count (length xs) = 1" unfolding lfn_count_def by linarith
  then show ?thesis using \<open>length xs \<le> 13\<close> by (simp add: name_part_of_def upt_rec)
qed

lemma created_records:
  assumes "terminated name" and xs: "cstr name = xs" "xs \<noteq> []" "length xs \<le> 255" "\<forall>c\<in>set xs. c \<noteq> 0xFF"
    and entries: "entries = lfn_count (length xs)" and sfn: "length sfn = 11"
  obtains b1 b2 buf where "lfn_build (replicate ((entries + 1) * 32) 0) entries checksum name (length xs) (rev [1..<entries + 1]) = Some b1"
    "sfn_name b1 (entries * 32) sfn attr = Some b2" "sfn_cluster b2 (entries * 32) cl = Some buf"
    "length buf = (entries + 1) * 32" "0 < entries" "entries \<le> 20"
    "\<forall>seq. 1 \<le> seq \<and> seq \<le> entries \<longrightarrow> lfn_rec (record_at buf ((entries - seq) * 32)) xs entries seq"
    "record_at buf (entries * 32) ! 0 = sfn ! 0" "record_at buf (entries * 32) ! 11 = attr"
    "record_cluster (record_at buf (entries * 32)) = cl" "the (get32 (record_at buf (entries * 32)) 28) = 0"
proof -
  have tk: "take (length xs) name = xs" unfolding xs(1) [symmetric] by (metis append_eq_conv_conj assms(1) terminated_split)
  have "0 \<notin> set xs" unfolding xs(1) [symmetric] by simp
  then have good: "\<forall>c\<in>set (take (length xs) name). c \<noteq> 0 \<and> c \<noteq> 0xFF" unfolding tk using xs(4) by fastforce
  have le: "length xs \<le> length name" using length_cstr_less [OF assms(1)] xs(1) by simp
  have "1 \<le> length xs" using xs(2) by (cases xs) simp_all
  then have e: "0 < entries" "entries \<le> 20" using xs(3) unfolding entries lfn_count_def by linarith+
  have d: "distinct (rev [1..<entries + 1])" and s: "\<forall>seq\<in>set (rev [1..<entries + 1]). 1 \<le> seq \<and> seq \<le> entries"
    and l: "entries * 32 \<le> length (replicate ((entries + 1) * 32) (0 :: u8))"
    by auto
  obtain b1 where b1: "lfn_build (replicate ((entries + 1) * 32) 0) entries checksum name (length xs) (rev [1..<entries + 1]) = Some b1"
    "length b1 = (entries + 1) * 32"
    "\<forall>seq\<in>set (rev [1..<entries + 1]). lfn_rec (record_at b1 ((entries - seq) * 32)) xs entries seq"
    using lfn_build_spec [OF d s l le good, of checksum] unfolding tk length_replicate by blast
  have fit: "entries * 32 + 32 \<le> length b1" using b1(2) by simp
  obtain b2 r where r: "sfn_name b1 (entries * 32) sfn attr = Some b2" "sfn_cluster b2 (entries * 32) cl = Some r"
    "length r = length b1" "\<forall>k<entries * 32. r ! k = b1 ! k" "r ! (entries * 32) = sfn ! 0"
    "r ! (entries * 32 + 11) = attr" "get16 r (entries * 32 + 20) = Some (ucast (drop_bit 16 cl))"
    "get16 r (entries * 32 + 26) = Some (ucast (cl AND 0xFFFF))" "get32 r (entries * 32 + 28) = Some 0"
    using sfn_record_spec [OF fit sfn] by blast
  have fit2: "entries * 32 + 32 \<le> length r" using fit r(3) by simp
  have "lfn_rec (record_at r ((entries - seq) * 32)) xs entries seq" if "1 \<le> seq" "seq \<le> entries" for seq
  proof -
    have "(entries - seq + 1) * 32 \<le> entries * 32" using that by (intro mult_right_mono) simp_all
    then have "record_at r ((entries - seq) * 32) = record_at b1 ((entries - seq) * 32)"
      using r(3,4) fit by (intro record_at_cong) auto
    moreover have "seq \<in> set (rev [1..<entries + 1])" using that by auto
    ultimately show ?thesis using b1(3) by (simp only:)
  qed
  moreover have "record_cluster (record_at r (entries * 32)) = cl"
    using get_record(1) [OF fit2, of 20] get_record(1) [OF fit2, of 26] r(7,8) split_cluster [of cl]
    by (simp add: record_cluster_def)
  moreover have "the (get32 (record_at r (entries * 32)) 28) = 0" using get_record(2) [OF fit2, of 28] r(9) by simp
  ultimately show ?thesis using that [of b1 b2 r] b1(1,2) e r(1-3,5,6) fit2 by (simp add: nth_record)
qed

lemma created_entry:
  assumes "terminated name" and "cstr name = xs" and "xs \<noteq> []" and "length xs \<le> 255" and "\<forall>c\<in>set xs. c \<noteq> 0xFF"
    and "parts_ok parts0"
    and "attr = 0x20 \<or> attr = 0x10" and "length es < mx" and "entries = lfn_count (length xs)"
  shows "\<exists>sfn checksum b1 b2 buf parts e.
      make_sfn name = Some sfn \<and> shortname_checksum sfn = Some checksum \<and> strlen name = Some (length xs)
    \<and> lfn_build (replicate ((entries + 1) * 32) 0) entries checksum name (length xs) (rev [1..<entries + 1]) = Some b1
    \<and> sfn_name b1 (entries * 32) sfn attr = Some b2 \<and> sfn_cluster b2 (entries * 32) cl = Some buf
    \<and> list_records mx (map (\<lambda>i. record_at buf (i * 32)) [0..<entries + 1]) parts0 present0 es = Some (False, parts, 0, es @ [e])
    \<and> cstr (e_name e) = take 255 (if length xs \<le> 13 then xs
                                 else concat (rev (map (name_part_of xs) [1..<entries + 1])))
    \<and> e_attr e = attr \<and> e_first_cluster e = cl \<and> e_size e = 0 \<and> length buf = (entries + 1) * 32 \<and> terminated (e_name e)"
proof -
  obtain sfn where sfn: "make_sfn name = Some sfn" "length sfn = 11" "sfn ! 0 \<noteq> 0"
    using make_sfn_spec assms(1-3) by blast
  obtain checksum where ck: "shortname_checksum sfn = Some checksum" using sfn(2) by (simp add: shortname_checksum_def)
  obtain b1 b2 buf where b: "lfn_build (replicate ((entries + 1) * 32) 0) entries checksum name (length xs) (rev [1..<entries + 1]) = Some b1"
    "sfn_name b1 (entries * 32) sfn attr = Some b2" "sfn_cluster b2 (entries * 32) cl = Some buf"
    "length buf = (entries + 1) * 32" "0 < entries" "entries \<le> 20"
    "\<forall>seq. 1 \<le> seq \<and> seq \<le> entries \<longrightarrow> lfn_rec (record_at buf ((entries - seq) * 32)) xs entries seq"
    "record_at buf (entries * 32) ! 0 = sfn ! 0" "record_at buf (entries * 32) ! 11 = attr"
    "record_cluster (record_at buf (entries * 32)) = cl" "the (get32 (record_at buf (entries * 32)) 28) = 0"
    by (rule created_records [OF assms(1-5,9) sfn(2)])
  let ?R = "\<lambda>seq. record_at buf ((entries - seq) * 32)" and ?S = "record_at buf (entries * 32)"
  have recs: "map (\<lambda>i. record_at buf (i * 32)) [0..<entries + 1] = map ?R (rev [1..<entries + 1]) @ [?S]"
  proof -
    have "[Suc 0..<Suc entries] ! (entries - Suc i) = entries - i" if "i < entries" for i
      using that by (subst nth_upt) auto
    then show ?thesis by (intro nth_equalityI) (auto simp: nth_append rev_nth less_Suc_eq simp del: upt_Suc)
  qed
  obtain parts where parts: "parts_ok parts"
    "\<forall>seq. 1 \<le> seq \<and> seq \<le> entries \<longrightarrow> cstr (parts ! (seq - 1)) = name_part_of xs seq"
    "list_records mx (map ?R (rev [1..<entries + 1]) @ [?S]) parts0 present0 es = list_records mx [?S] parts entries es"
    using list_lfn_records [of entries entries parts0 present0 xs ?R mx "[?S]" es] b(5-7) assms(6) by auto
  have len: "length ?S = 32" using b(4) by simp
  obtain e where e: "make_entry ?S 0 parts entries = Some e" "cstr (e_name e) = entry_name ?S parts entries"
    "e_attr e = ?S ! 11" "e_first_cluster e = record_cluster ?S" "e_size e = the (get32 ?S 28)" "terminated (e_name e)"
    by (rule make_entry_spec [OF len parts(1) b(6)])
  have "map cstr (take entries parts) = map (name_part_of xs) [1..<entries + 1]"
  proof -
    have "cstr (parts ! i) = name_part_of xs (Suc i)" if "i < entries" for i
      using parts(2) that by (auto dest: spec [of _ "Suc i"])
    then show ?thesis using parts(1) b(6) by - (rule nth_equalityI, simp_all add: parts_ok_def del: upt_Suc)
  qed
  then have full: "cstr (e_name e) = take 255 (concat (rev (map (name_part_of xs) [1..<entries + 1])))"
    using e(2) b(5) by (simp add: entry_name_def)
  have "concat (rev (map (name_part_of xs) [1..<entries + 1])) = xs" if "length xs \<le> 13"
    using parts_swapped_short [of xs] that assms(3,9) by simp
  then have name: "cstr (e_name e) = take 255 (if length xs \<le> 13 then xs
      else concat (rev (map (name_part_of xs) [1..<entries + 1])))"
    unfolding full by simp
  have last_rec: "list_records mx [?S] parts entries es = Some (False, parts, 0, es @ [e])"
    using sfn(3) b(8,9) e(1) assms(7,8) by auto
  have listed: "list_records mx (map (\<lambda>i. record_at buf (i * 32)) [0..<entries + 1]) parts0 present0 es
      = Some (False, parts, 0, es @ [e])"
    unfolding recs parts(3) last_rec ..
  have len_name: "strlen name = Some (length xs)" using assms(1,2) by (simp add: strlen_cstr)
  have fields: "e_attr e = attr" "e_first_cluster e = cl" "e_size e = 0"
    unfolding e(3-5) b(9-11) by (rule refl)+
  show ?thesis
    by (rule exI [of _ sfn], rule exI [of _ checksum], rule exI [of _ b1], rule exI [of _ b2], rule exI [of _ buf],
        rule exI [of _ parts], rule exI [of _ e], intro conjI)
       (fact sfn(1) ck b(1) b(2) b(3) listed name len_name fields b(4) e(6))+
qed

section \<open>Properties\<close>

text \<open>
  The records that \<open>fat32_create_file\<close> and \<open>fat32_create_dir\<close> build for a name of at most 255
  characters are listed as one entry with the attribute and first cluster that were stored and size 0.
  Its name is the one created when that has at most 13 characters; a longer one comes out with its
  parts of 13 characters in reverse order.
\<close>

theorem created_name_listed:
  assumes "terminated name" and "cstr name = xs" and "xs \<noteq> []" and "length xs \<le> 255" and "\<forall>c\<in>set xs. c \<noteq> 0xFF"
    and "attr = 0x20 \<or> attr = 0x10" and "length es < mx" and "entries = lfn_count (length xs)"
  shows "\<exists>sfn checksum b1 b2 buf parts e.
      make_sfn name = Some sfn \<and> shortname_checksum sfn = Some checksum \<and> strlen name = Some (length xs)
    \<and> lfn_build (replicate ((entries + 1) * 32) 0) entries checksum name (length xs) (rev [1..<entries + 1]) = Some b1
    \<and> sfn_name b1 (entries * 32) sfn attr = Some b2 \<and> sfn_cluster b2 (entries * 32) cl = Some buf
    \<and> list_records mx (map (\<lambda>i. record_at buf (i * 32)) [0..<entries + 1]) no_parts 0 es = Some (False, parts, 0, es @ [e])
    \<and> cstr (e_name e) = take 255 (if length xs \<le> 13 then xs
                                 else concat (rev (map (name_part_of xs) [1..<entries + 1])))
    \<and> e_attr e = attr \<and> e_first_cluster e = cl \<and> e_size e = 0"
  using created_entry [OF assms(1-5) no_parts_ok assms(6-8), where cl = cl and ?present0.0 = 0] by blast

theorem created_name_listed_witness:
  "\<exists>buf parts e. list_records 64 (map (\<lambda>i. record_at buf (i * 32)) [0..<3]) no_parts 0 [] = Some (False, parts, 0, [e])
    \<and> cstr (e_name e) = lit ''.conffirst_part.no''"
proof -
  have "terminated (zlit ''first_part.no.conf'')" "cstr (zlit ''first_part.no.conf'') = lit ''first_part.no.conf''"
    "lfn_count (length (lit ''first_part.no.conf'')) = 2"
    by (simp_all add: lit_def lfn_count_def)
  note base = this
  have "lit ''first_part.no.conf'' \<noteq> []" "length (lit ''first_part.no.conf'') \<le> 255"
    "\<forall>c\<in>set (lit ''first_part.no.conf''). c \<noteq> 0xFF" "\<not> length (lit ''first_part.no.conf'') \<le> 13"
    "concat (rev (map (name_part_of (lit ''first_part.no.conf'')) [1..<2 + 1])) = lit ''.conffirst_part.no''"
    "length (lit ''.conffirst_part.no'') \<le> 255"
    by (simp_all add: lit_def name_part_of_def upt_rec)
  note vals = this
  obtain sfn checksum b1 b2 buf parts e where
    "list_records 64 (map (\<lambda>i. record_at buf (i * 32)) [0..<2 + 1]) no_parts 0 [] = Some (False, parts, 0, [] @ [e])"
    "cstr (e_name e) = take 255 (if length (lit ''first_part.no.conf'') \<le> 13 then lit ''first_part.no.conf''
       else concat (rev (map (name_part_of (lit ''first_part.no.conf'')) [1..<2 + 1])))"
    using created_name_listed [OF base(1,2) vals(1-3) disjI1 [OF refl], of "[]" 64 2 0] base(3) by auto
  then show ?thesis unfolding vals(5) using vals(4,6) by (auto simp del: length_map)
qed

text \<open>
  C33. A disk that \<open>fat32_create_fs\<close> has formatted without any error cannot be mounted: the partition
  table is blank and \<open>fat32_mount\<close> returns - 4, or - 1 when it gets no memory.
\<close>

theorem formatted_unmountable:
  assumes "block_device dv drive img" and "reliable dv drive" and "writable dv drive"
    and "heap_inv (fheap s)" and "kmalloc 512 (fheap s) = Some (p, h)" and "p \<noteq> 0"
  shows "\<exists>s1 q g s2. fat32_create_fs dv drive s = Some s1 \<and> kmalloc 512 (fheap s1) = Some (q, g)
    \<and> fat32_mount dv drive s1 = Some (if q = 0 then - 1 else - 4, s2)"
proof -
  obtain s1 where s1: "fat32_create_fs dv drive s = Some s1" "heap_inv (fheap s1)"
    "\<And>k. 122 \<le> k \<Longrightarrow> k < 510 \<Longrightarrow> img (disk s1) 0 ! k = 0" "img (disk s1) 0 ! 510 = 0x55" "img (disk s1) 0 ! 511 = 0xAA"
    by (rule create_fs_img [OF assms(1,3-6)], blast)
  obtain q g where q: "kmalloc 512 (fheap s1) = Some (q, g)" using heap.alloc_total [OF s1(2), of 512] by auto
  show ?thesis
  proof (cases rule: new_sector_cases [OF s1(2) q])
    case (1 sec)
    then have "fat32_mount dv drive s1 = Some (- 1, s1)" by (simp add: fat32_mount_def)
    then show ?thesis using s1(1) q 1(1) by auto
  next
    case (2 sec n)
    let ?s = "s1\<lparr>fheap := g\<rparr>" and ?b = "img (disk s1) 0"
    have len: "length ?b = 512" by (rule block_deviceD(1) [OF assms(1)])
    obtain d where d: "read_sector dv drive 0 sec ?s = (0, img (disk ?s) 0, ?s\<lparr>disk := d\<rparr>)"
      by (rule read_sector_reliable [OF assms(1,2)])
    have "(unat q, n) \<in> live (fheap (?s\<lparr>disk := d\<rparr>))" "heap_inv (fheap (?s\<lparr>disk := d\<rparr>))" using 2 by simp_all
    then obtain f where f: "free_sector q ?b (?s\<lparr>disk := d\<rparr>) = Some (?s\<lparr>disk := d\<rparr>\<lparr>fheap := f\<rparr>)"
      by (metis free_sector_ok)
    have sig: "signed_ok ?b = Some True" using len s1(4,5) by (simp add: signed_ok_def)
    have four: "[0..<4] = [0, 1, 2, 3 :: nat]" by (simp add: upt_rec)
    have "find_partition ?b [0..<4] = Some 0" unfolding four using len s1(3) by simp
    then have "fat32_mount dv drive s1 = Some (- 4, ?s\<lparr>disk := d\<rparr>\<lparr>fheap := f\<rparr>)"
      using 2(1,2) d sig f by (simp add: fat32_mount_def)
    then show ?thesis using s1(1) q 2(1) by auto
  qed
qed

theorem formatted_unmountable_witness:
  "\<exists>s1 (q :: u64) s2. fat32_create_fs whole_ram 0 demo_fs = Some s1
    \<and> fat32_mount whole_ram 0 s1 = Some (if q = 0 then - 1 else - 4, s2)"
proof -
  obtain h where h: "kmalloc 512 boot_heap = Some (0x200020, h)" using boot_heap_kmalloc_512 by blast
  have "\<exists>s1 q g s2. fat32_create_fs whole_ram 0 demo_fs = Some s1 \<and> kmalloc 512 (fheap s1) = Some (q, g)
    \<and> fat32_mount whole_ram 0 s1 = Some (if q = 0 then - 1 else - 4, s2)"
    by (rule formatted_unmountable [where img = image512 and p = "0x200020" and h = h])
       (simp_all add: h boot_heap_inv)
  then show ?thesis by blast
qed

end
