(* ===== verification/Fat32_Create.thy ===== *)
theory Fat32_Create
  imports Fat32_Write
begin

text \<open>
  Creating an entry of drivers/fs/fat32.c end to end: the search for room walks the sectors of the
  directory's chain, the records go behind the last one in use, and a listing afterwards shows the new
  entry behind the old ones. The code is in Fat32 and Fat32_Write; this theory relates its operations.
\<close>

section \<open>A directory as a list of sectors\<close>

definition cluster_sectors :: "'d fs \<Rightarrow> u32 \<Rightarrow> u32 list" where
  "cluster_sectors s cl =
     map (\<lambda>i. the (fat32_cluster_to_lba cl s) + of_nat i) [0..<unat (the (bpb_sectors_per_cluster s))]"

definition dir_sectors :: "'d fs \<Rightarrow> u32 list \<Rightarrow> u32 list" where
  "dir_sectors s cls = concat (map (cluster_sectors s) cls)"

definition sectors_records :: "(u32 \<Rightarrow> bytes) \<Rightarrow> u32 list \<Rightarrow> bytes list" where
  "sectors_records f ls = concat (map (\<lambda>l. sector_records (f l)) ls)"

lemma dir_records_sectors: "dir_records img s cls = sectors_records (img (disk s)) (dir_sectors s cls)"
  by (induction cls) (simp_all add: dir_records_def sectors_records_def dir_sectors_def cluster_sectors_def
      cluster_records_def comp_def)

lemma dir_sectors_same: "same_but_cache img s t \<Longrightarrow> dir_sectors t = dir_sectors s"
proof -
  assume same: "same_but_cache img s t"
  have "cluster_sectors t = cluster_sectors s" by (simp add: fun_eq_iff cluster_sectors_def same_but_cacheD [OF same])
  then show ?thesis by (intro ext) (simp only: dir_sectors_def)
qed

lemma dir_sectors_update [simp]: "dir_sectors (s\<lparr>disk := d\<rparr>) = dir_sectors s" "dir_sectors (s\<lparr>fheap := h\<rparr>) = dir_sectors s"
proof -
  have "cluster_sectors (s\<lparr>disk := d\<rparr>) = cluster_sectors s" "cluster_sectors (s\<lparr>fheap := h\<rparr>) = cluster_sectors s"
    by (simp_all add: fun_eq_iff cluster_sectors_def fat32_cluster_to_lba_def bpb_sectors_per_cluster_def)
  then show "dir_sectors (s\<lparr>disk := d\<rparr>) = dir_sectors s" "dir_sectors (s\<lparr>fheap := h\<rparr>) = dir_sectors s"
    by (intro ext, simp only: dir_sectors_def)+
qed

lemma sectors_records_simps [simp]:
  "sectors_records f [] = []" "sectors_records f (l # ls) = sector_records (f l) @ sectors_records f ls"
  "sectors_records f (ls @ ms) = sectors_records f ls @ sectors_records f ms"
  by (simp_all add: sectors_records_def)

lemma sectors_records_cong: "\<forall>l\<in>set ls. f l = g l \<Longrightarrow> sectors_records f ls = sectors_records g ls"
  by (induction ls) simp_all

lemma length_sector_records [simp]: "length (sector_records sec) = 16"
  by (simp add: sector_records_def sector_offsets_def)

lemma sector_records_map: "sector_records sec = map (\<lambda>i. record_at sec (32 * i)) [0..<16]"
  by (simp add: sector_records_def sector_offsets_def)

text \<open>A record in use, and a sector with nothing else.\<close>

definition in_use :: "bytes \<Rightarrow> bool" where
  "in_use r \<longleftrightarrow> r ! 0 \<noteq> 0 \<and> r ! 0 \<noteq> 0xE5"

definition full_sector :: "bytes \<Rightarrow> bool" where
  "full_sector sec \<longleftrightarrow> list_all in_use (sector_records sec)"

text \<open>The sector that holds the end mark of a directory, and the number of records before it there.\<close>

lemma end_sector:
  assumes "sectors_records f ls = used @ e # rest" and "list_all in_use used" and "\<not> in_use e"
  obtains ls1 l ls2 where "ls = ls1 @ l # ls2" "list_all (full_sector \<circ> f) ls1"
    "length used mod 16 < 16"
    "used = sectors_records f ls1 @ take (length used mod 16) (sector_records (f l))"
    "sector_records (f l) ! (length used mod 16) = e"
proof -
  have "\<exists>ls1 l ls2. ls = ls1 @ l # ls2 \<and> list_all (full_sector \<circ> f) ls1
    \<and> used = sectors_records f ls1 @ take (length used mod 16) (sector_records (f l))
    \<and> sector_records (f l) ! (length used mod 16) = e"
    using assms
  proof (induction ls arbitrary: used)
    case Nil
    then show ?case by simp
  next
    case (Cons l ls)
    show ?case
    proof (cases "length used < 16")
      case True
      then have "take (length used) (sector_records (f l)) = used" "sector_records (f l) ! length used = e"
        using arg_cong [OF Cons.prems(1), of "take (length used)"] arg_cong [OF Cons.prems(1), of "\<lambda>r. r ! length used"]
        by (simp_all add: nth_append)
      then show ?thesis using True by - (rule exI [of _ "[]"], rule exI [of _ l], rule exI [of _ ls], simp)
    next
      case False
      define u where "u = drop 16 used"
      have split: "used = sector_records (f l) @ u" "length used = 16 + length u"
        using False arg_cong [OF Cons.prems(1), of "take 16"] unfolding u_def
        by (simp_all add: append_take_drop_id)
      have "sectors_records f ls = u @ e # rest" "list_all in_use u" "full_sector (f l)"
        using Cons.prems(1,2) split by (simp_all add: full_sector_def)
      then obtain ls1 l1 ls2 where "ls = ls1 @ l1 # ls2" "list_all (full_sector \<circ> f) ls1"
        "u = sectors_records f ls1 @ take (length u mod 16) (sector_records (f l1))"
        "sector_records (f l1) ! (length u mod 16) = e"
        using Cons.IH assms(3) by blast
      then show ?thesis
        using split \<open>full_sector (f l)\<close> by - (rule exI [of _ "l # ls1"], rule exI [of _ l1], rule exI [of _ ls2], simp add: comp_def)
    qed
  qed
  then show ?thesis using that by auto
qed

section \<open>Placing the records in a sector\<close>

lemma slot_used:
  "off < length sec \<Longrightarrow> sec ! off \<noteq> 0 \<Longrightarrow> sec ! off \<noteq> 0xE5 \<Longrightarrow> 0 < n \<Longrightarrow> slot_free sec off [0..<n] = Some False"
  by (simp add: upt_conv_Cons)

lemma slot_free_defined:
  "\<forall>e\<in>set es. off + e * 32 < length sec \<Longrightarrow> slot_free sec off es = Some True \<or> slot_free sec off es = Some False"
  by (induction es) auto

lemma place_skips:
  assumes "\<forall>off\<in>set offs. off < length sec \<and> sec ! off \<noteq> 0 \<and> sec ! off \<noteq> 0xE5" and "0 < n"
  shows "place_in_sector sec buf n (offs @ offs1) = place_in_sector sec buf n offs1"
  using assms by (induction offs) (simp_all add: slot_used)

lemma record_first: "length sec = 512 \<Longrightarrow> i < 16 \<Longrightarrow> record_at sec (32 * i) ! 0 = sec ! (32 * i)"
  by (simp add: nth_record)

lemma in_use_first: "length sec = 512 \<Longrightarrow> i < 16 \<Longrightarrow>
    in_use (record_at sec (32 * i)) \<longleftrightarrow> sec ! (32 * i) \<noteq> 0 \<and> sec ! (32 * i) \<noteq> 0xE5"
  by (simp add: in_use_def nth_record)

lemma place_full:
  assumes "length sec = 512" and "full_sector sec" and "0 < n"
  shows "place_in_sector sec buf n (slot_offsets n) = Some None"
proof -
  have "\<forall>i<16. in_use (record_at sec (32 * i))"
    using assms(2) by (simp add: full_sector_def sector_records_map list_all_iff)
  then have "\<forall>off\<in>set (slot_offsets n). off < length sec \<and> sec ! off \<noteq> 0 \<and> sec ! off \<noteq> 0xE5"
    using assms(1,3) by (auto simp: slot_offsets_def in_use_first)
  then show ?thesis using place_skips [of "slot_offsets n" sec n buf "[]"] assms(3) by simp
qed

text \<open>
  The records go behind the \<open>k\<close> in use, whichever of the two branches takes them, and an end mark
  behind them.
\<close>

lemma place_at_end:
  assumes sec: "length sec = 512" and buf: "length buf = n * 32" and n: "0 < n" "k + n < 16"
    and used: "\<forall>i<k. in_use (record_at sec (32 * i))" and mark: "sec ! (32 * k) = 0"
  obtains data e rest where "place_in_sector sec buf n (slot_offsets n) = Some (Some data)" "length data = 512"
    "sector_records data = take k (sector_records sec) @ map (\<lambda>i. record_at buf (i * 32)) [0..<n] @ e # rest" "e ! 0 = 0"
proof -
  have offs: "slot_offsets n = map ((*) 32) [0..<k] @ 32 * k # map ((*) 32) [Suc k..<17 - n]"
  proof -
    have "[0..<17 - n] = [0..<k] @ k # [Suc k..<17 - n]"
      using upt_add_eq_append [of 0 k "17 - n - k"] upt_conv_Cons [of k "17 - n"] n by simp
    then show ?thesis by (simp add: slot_offsets_def)
  qed
  have skip: "\<forall>off\<in>set (map ((*) 32) [0..<k]). off < length sec \<and> sec ! off \<noteq> 0 \<and> sec ! off \<noteq> 0xE5"
    using used n sec by (auto simp: in_use_first)
  have start: "place_in_sector sec buf n (slot_offsets n)
      = place_in_sector sec buf n (32 * k # map ((*) 32) [Suc k..<17 - n])"
    unfolding offs by (rule place_skips [OF skip n(1)])
  have "\<forall>e\<in>set [0..<n]. 32 * k + e * 32 < length sec" using n sec by auto
  then obtain free where free: "slot_free sec (32 * k) [0..<n] = Some free"
    using slot_free_defined [of "[0..<n]" "32 * k" sec] by blast
  define base where "base = (if free then sec else blit sec (32 * k) (replicate (512 - 32 * k) 0))"
  have base: "length base = 512" "\<And>j. j < 32 * k \<Longrightarrow> base ! j = sec ! j"
    using sec n by (auto simp: base_def nth_blit)
  define data where "data = (blit base (32 * k) buf)[32 * k + n * 32 := 0]"
  have fit: "32 * k + length buf \<le> length base" using n buf base(1) by simp
  have run: "place_in_sector sec buf n (slot_offsets n) = Some (Some data)"
    using start free mark sec n fit buf base(1)
    by (simp add: base_def data_def place_def memcpy_blit memset_blit split: if_splits)
  have len: "length data = 512" using fit base(1) by (simp add: data_def)
  have old: "record_at data (32 * i) = record_at sec (32 * i)" if "i < k" for i
  proof (rule record_at_cong)
    show "\<forall>j. 32 * i \<le> j \<and> j < 32 * i + 32 \<longrightarrow> data ! j = sec ! j"
      using that n fit base by (auto simp: data_def nth_blit)
  qed (use that n sec len in auto)
  have new: "record_at data (32 * (k + i)) = record_at buf (i * 32)" if "i < n" for i
  proof (rule nth_equalityI)
    have b: "32 * (k + i) + 32 \<le> length data" "i * 32 + 32 \<le> length buf" using that n len buf by auto
    then show "length (record_at data (32 * (k + i))) = length (record_at buf (i * 32))" by simp
    show "record_at data (32 * (k + i)) ! j = record_at buf (i * 32) ! j"
      if "j < length (record_at data (32 * (k + i)))" for j
      using that b n fit base(1) \<open>i < n\<close> buf by (simp add: nth_record data_def nth_blit mult.commute)
  qed
  have "[0..<16] = [0..<k] @ map (\<lambda>i. k + i) [0..<n] @ (k + n) # [Suc (k + n)..<16]"
    using upt_add_eq_append [of 0 k "16 - k"] upt_add_eq_append [of k "k + n" "16 - k - n"] upt_conv_Cons [of "k + n" 16]
      map_add_upt [of k n] n by (simp add: add.commute)
  then have "sector_records data = map (\<lambda>i. record_at data (32 * i)) [0..<k]
      @ map (\<lambda>i. record_at data (32 * (k + i))) [0..<n]
      @ record_at data (32 * (k + n)) # map (\<lambda>i. record_at data (32 * i)) [Suc (k + n)..<16]"
    by (simp add: sector_records_map comp_def)
  moreover have "map (\<lambda>i. record_at data (32 * i)) [0..<k] = take k (sector_records sec)"
    using old n by (auto simp: sector_records_map take_map intro!: nth_equalityI)
  moreover have "map (\<lambda>i. record_at data (32 * (k + i))) [0..<n] = map (\<lambda>i. record_at buf (i * 32)) [0..<n]"
    using new by simp
  moreover have "record_at data (32 * (k + n)) ! 0 = 0"
    using n len fit base(1) by (simp add: nth_record data_def algebra_simps)
  ultimately show ?thesis using that run len by simp
qed

section \<open>Walking the directory\<close>

text \<open>Sectors without room are passed over; the first with room gets the records and ends the call.\<close>

lemma add_in_cluster_full:
  assumes dev: "block_device dv drive img" and rel: "reliable dv drive" and "0 < n"
    and "fat32_cluster_to_lba cl s = Some lba"
    and "\<forall>i\<in>set is. full_sector (img (disk s) (lba + of_nat i))"
  shows "\<exists>sec d. add_in_cluster dv drive buf n cl is sector s = Some (None, sec, s\<lparr>disk := d\<rparr>) \<and> img d = img (disk s)"
  using assms(4-)
proof (induction "is" arbitrary: sector s)
  case Nil
  then show ?case by (intro exI [of _ sector] exI [of _ "disk s"]) simp
next
  case (Cons i "is")
  obtain d where d: "read_sector dv drive (lba + of_nat i) sector s = (0, img (disk s) (lba + of_nat i), s\<lparr>disk := d\<rparr>)"
    "img d = img (disk s)"
    by (rule read_sector_reliable [OF dev rel])
  have "place_in_sector (img (disk s) (lba + of_nat i)) buf n (slot_offsets n) = Some None"
    using Cons.prems(2) by (intro place_full [OF block_deviceD(1) [OF dev] _ assms(3)]) simp
  moreover have "fat32_cluster_to_lba cl (s\<lparr>disk := d\<rparr>) = Some lba"
    using Cons.prems(1) by (simp add: same_but_cacheD [OF same_but_cache_disk [of img, OF d(2)]])
  moreover from this have "\<exists>sec e. add_in_cluster dv drive buf n cl is (img (disk s) (lba + of_nat i)) (s\<lparr>disk := d\<rparr>)
      = Some (None, sec, s\<lparr>disk := d\<rparr>\<lparr>disk := e\<rparr>) \<and> img e = img (disk (s\<lparr>disk := d\<rparr>))"
    using Cons.prems(2) d(2) by (intro Cons.IH) simp_all
  ultimately show ?case using Cons.prems(1) d by auto
qed

lemma add_in_cluster_hit:
  assumes dev: "block_device dv drive img" and rel: "reliable dv drive" and wrt: "writable dv drive" and "0 < n"
    and lba: "fat32_cluster_to_lba cl s = Some lba"
    and full: "\<forall>j\<in>set is. full_sector (img (disk s) (lba + of_nat j))"
    and hit: "place_in_sector (img (disk s) (lba + of_nat i)) buf n (slot_offsets n) = Some (Some data)" "length data = 512"
  obtains d where "add_in_cluster dv drive buf n cl (is @ i # js) sector s = Some (Some 0, data, s\<lparr>disk := d\<rparr>)"
    "img d = (img (disk s))(lba + of_nat i := data)"
proof -
  have "\<exists>d. add_in_cluster dv drive buf n cl (is @ i # js) sector s = Some (Some 0, data, s\<lparr>disk := d\<rparr>)
    \<and> img d = (img (disk s))(lba + of_nat i := data)"
    using lba full hit
  proof (induction "is" arbitrary: sector s)
    case Nil
    obtain d where d: "read_sector dv drive (lba + of_nat i) sector s = (0, img (disk s) (lba + of_nat i), s\<lparr>disk := d\<rparr>)"
      "img d = img (disk s)"
      by (rule read_sector_reliable [OF dev rel])
    obtain e where "write_sector dv drive (lba + of_nat i) data (s\<lparr>disk := d\<rparr>) = (0, s\<lparr>disk := d\<rparr>\<lparr>disk := e\<rparr>)"
      "img e = (img (disk (s\<lparr>disk := d\<rparr>)))(lba + of_nat i := data)"
      by (rule write_sector_writable [OF dev wrt Nil.prems(4)])
    then show ?case using Nil d by (intro exI [of _ e]) (simp add: fun_eq_iff)
  next
    case (Cons j "is")
    obtain d where d: "read_sector dv drive (lba + of_nat j) sector s = (0, img (disk s) (lba + of_nat j), s\<lparr>disk := d\<rparr>)"
      "img d = img (disk s)"
      by (rule read_sector_reliable [OF dev rel])
    have "place_in_sector (img (disk s) (lba + of_nat j)) buf n (slot_offsets n) = Some None"
      using Cons.prems(2) by (intro place_full [OF block_deviceD(1) [OF dev] _ assms(4)]) simp
    moreover have "fat32_cluster_to_lba cl (s\<lparr>disk := d\<rparr>) = Some lba"
      using Cons.prems(1) by (simp add: same_but_cacheD [OF same_but_cache_disk [of img, OF d(2)]])
    moreover from this have "\<exists>e. add_in_cluster dv drive buf n cl (is @ i # js) (img (disk s) (lba + of_nat j)) (s\<lparr>disk := d\<rparr>)
      = Some (Some 0, data, s\<lparr>disk := d\<rparr>\<lparr>disk := e\<rparr>) \<and> img e = (img (disk (s\<lparr>disk := d\<rparr>)))(lba + of_nat i := data)"
      using Cons.prems d(2) by (intro Cons.IH) simp_all
    ultimately show ?case using Cons.prems(1) d by auto
  qed
  then show ?thesis using that by blast
qed

text \<open>\<open>fat32_get_next_cluster\<close> leaves the cached sector or caches the one of the entry.\<close>

lemma next_cluster_cached:
  "fat32_get_next_cluster dv drive cl s = Some (v, t) \<Longrightarrow>
    cached_fat_sector t = cached_fat_sector s \<or> cached_fat_sector t = fat_lba s cl"
  by (auto simp: get_next_cluster_unfold split: if_splits prod.splits)

text \<open>One round of \<open>add_loop\<close> on a cluster with the sector \<open>l\<close> among its own or with full sectors only.\<close>

lemma first_cluster_hit:
  assumes dev: "block_device dv drive img" and rel: "reliable dv drive" and wrt: "writable dv drive" and "0 < n"
    and lba: "fat32_cluster_to_lba cl s = Some lba"
    and split: "map (\<lambda>i. lba + of_nat i) [0..<m] @ ms = ls1 @ l # ls2" and lt: "length ls1 < m"
    and full: "list_all (full_sector \<circ> img (disk s)) ls1"
    and hit: "place_in_sector (img (disk s) l) buf n (slot_offsets n) = Some (Some data)" "length data = 512"
  obtains d where "add_in_cluster dv drive buf n cl [0..<m] sector s = Some (Some 0, data, s\<lparr>disk := d\<rparr>)"
    "img d = (img (disk s))(l := data)"
proof -
  let ?k = "length ls1"
  have S1: "ls1 = map (\<lambda>i. lba + of_nat i) [0..<?k]" "lba + of_nat ?k = l"
    using arg_cong [OF split, of "take ?k"] arg_cong [OF split, of "\<lambda>x. x ! ?k"] lt
    by (simp_all add: nth_append take_map)
  have seq: "[0..<m] = [0..<?k] @ ?k # [Suc ?k..<m]"
    using upt_add_eq_append [of 0 ?k "m - ?k"] upt_conv_Cons [of ?k m] lt by simp
  have "\<forall>j\<in>set [0..<?k]. full_sector (img (disk s) (lba + of_nat j))"
    using full by (subst (asm) S1(1)) (simp add: list_all_iff)
  from add_in_cluster_hit [OF dev rel wrt assms(4) lba this, of ?k buf data "[Suc ?k..<m]" sector]
  show ?thesis using that hit unfolding S1(2) seq by blast
qed

lemma add_loop_unfold:
  "bpb_sectors_per_cluster s = Some spc \<Longrightarrow> add_loop dv drive junk buf n cl sector s = do {
     (r, sec, s1) \<leftarrow> add_in_cluster dv drive buf n cl [0..<unat spc] sector s;
     (case r of
        Some v \<Rightarrow> Some (v, s1)
      | None \<Rightarrow> do {
          (nxt, s2) \<leftarrow> fat32_get_next_cluster dv drive cl s1;
          if nxt \<ge> 0x0FFFFFF8 then do {
            (e, s3) \<leftarrow> extend_dir dv drive junk cl s2;
            (case e of
               None \<Rightarrow> Some (- 1, s3)
             | Some newcl \<Rightarrow> add_loop dv drive junk buf n newcl sec s3) }
          else add_loop dv drive junk buf n nxt sec s2 }) }"
  by (subst add_loop.simps) simp

lemma add_loop_hit:
  assumes dev: "block_device dv drive img" and rel: "reliable dv drive" and wrt: "writable dv drive" and "0 < n"
    and "cache_ok img s" and "bpb_sectors_per_cluster s = Some spc" and "fat_chain (fat_value img s) cl cls"
    and "dir_sectors s cls = ls1 @ l # ls2" and "list_all (full_sector \<circ> img (disk s)) ls1"
    and "place_in_sector (img (disk s) l) buf n (slot_offsets n) = Some (Some data)" "length data = 512"
  shows "\<exists>t d. add_loop dv drive junk buf n cl sector s = Some (0, t\<lparr>disk := d\<rparr>)
    \<and> same_but_cache img s t \<and> cache_ok img t \<and> img d = (img (disk s))(l := data)
    \<and> cached_fat_sector t \<in> insert (cached_fat_sector s) (fat_lba s ` set cls)"
  using assms(5-)
proof (induction cls arbitrary: cl sector s ls1)
  case Nil
  then show ?case by (simp add: dir_sectors_def)
next
  case (Cons c cs)
  have c: "c = cl" and ch: "fat_chain (fat_value img s) (fat_value img s cl) cs" using Cons.prems(3) by simp_all
  obtain lba where lba: "fat32_cluster_to_lba cl s = Some lba"
    using Cons.prems(2) by (simp add: fat32_cluster_to_lba_def)
  define S where "S = map (\<lambda>i. lba + of_nat i :: u32) [0..<unat spc]"
  have S: "cluster_sectors s cl = S" by (simp add: cluster_sectors_def S_def lba Cons.prems(2))
  have split: "S @ dir_sectors s cs = ls1 @ l # ls2" using Cons.prems(4) c by (simp add: dir_sectors_def S)
  note unf = add_loop_unfold [OF Cons.prems(2)]
  show ?case
  proof (cases "length ls1 < length S")
    case True
    then have lt: "length ls1 < unat spc" by (simp add: S_def)
    obtain d where "add_in_cluster dv drive buf n cl [0..<unat spc] sector s = Some (Some 0, data, s\<lparr>disk := d\<rparr>)"
      "img d = (img (disk s))(l := data)"
      by (rule first_cluster_hit [OF dev rel wrt assms(4) lba split [unfolded S_def] lt Cons.prems(5-7)])
    then show ?thesis using Cons.prems(1) unfolding unf by (intro exI [of _ s] exI [of _ d]) simp
  next
    case False
    define ls where "ls = drop (length S) ls1"
    have ls: "ls1 = S @ ls" "dir_sectors s cs = ls @ l # ls2"
      using False arg_cong [OF split, of "take (length S)"] arg_cong [OF split, of "drop (length S)"]
      unfolding ls_def by (simp_all) (metis append_take_drop_id)
    have "\<forall>i\<in>set [0..<unat spc]. full_sector (img (disk s) (lba + of_nat i))"
      using Cons.prems(5) by (simp add: ls(1) S_def list_all_iff)
    from add_in_cluster_full [OF dev rel assms(4) lba this, of buf sector]
    obtain sec d where ac: "add_in_cluster dv drive buf n cl [0..<unat spc] sector s = Some (None, sec, s\<lparr>disk := d\<rparr>)"
      "img d = img (disk s)" by blast
    let ?s = "s\<lparr>disk := d\<rparr>"
    have st: "same_but_cache img s ?s" "cache_ok img ?s"
      using ac(2) Cons.prems(1) by (simp_all add: same_but_cache_disk cache_ok_disk)
    obtain u where u: "fat32_get_next_cluster dv drive cl ?s = Some (fat_value img ?s cl, u)" "cache_ok img u"
      "same_but_cache img ?s u"
      by (rule get_next_cluster_reliable [OF dev rel st(2)])
    have same: "same_but_cache img s u" using same_but_cache_trans st(1) u(3) by blast
    note D = same_but_cacheD [OF same]
    obtain c2 cs2 where "cs = c2 # cs2" using ls(2) by (cases cs) (auto simp: dir_sectors_def)
    then have "\<not> fat_value img s cl \<ge> 0x0FFFFFF8" using ch by (simp add: not_le)
    then have step: "add_loop dv drive junk buf n cl sector s = add_loop dv drive junk buf n (fat_value img s cl) sec u"
      unfolding unf ac(1) using u(1) same_but_cacheD [OF st(1)] by simp
    have du: "dir_sectors u = dir_sectors s" by (rule dir_sectors_same [OF same])
    have "\<exists>t d. add_loop dv drive junk buf n (fat_value img s cl) sec u = Some (0, t\<lparr>disk := d\<rparr>)
      \<and> same_but_cache img u t \<and> cache_ok img t \<and> img d = (img (disk u))(l := data)
      \<and> cached_fat_sector t \<in> insert (cached_fat_sector u) (fat_lba u ` set cs)"
      using Cons.prems(2,5-7) ch u(2) ls by (intro Cons.IH [of _ _ ls]) (simp_all add: D du)
    then obtain t e where t: "add_loop dv drive junk buf n (fat_value img s cl) sec u = Some (0, t\<lparr>disk := e\<rparr>)"
      "same_but_cache img u t" "cache_ok img t" "img e = (img (disk s))(l := data)"
      "cached_fat_sector t \<in> insert (cached_fat_sector u) (fat_lba s ` set cs)"
      unfolding D by blast
    have "cached_fat_sector u = cached_fat_sector s \<or> cached_fat_sector u = fat_lba s c"
      using next_cluster_cached [OF u(1)] c same_but_cacheD [OF st(1)] by simp
    then have "cached_fat_sector t \<in> insert (cached_fat_sector s) (fat_lba s ` set (c # cs))" using t(5) by auto
    then show ?thesis using t(1,3,4) same_but_cache_trans [OF same t(2)] unfolding step by blast
  qed
qed

lemma fat_chain_cong: "\<forall>c\<in>set cs. f c = g c \<Longrightarrow> fat_chain f cl cs = fat_chain g cl cs"
  by (induction cs arbitrary: cl) auto

lemma end_placed:
  assumes len: "\<And>l. length (f l) = 512" and recs: "sectors_records f ls = used @ e # rest"
    and used: "list_all in_use used" and mark: "e ! 0 = 0"
    and n: "0 < n" "length used mod 16 + n < 16" "length buf = n * 32" and d: "distinct ls"
  obtains ls1 l ls2 data e1 rest1 where "ls = ls1 @ l # ls2" "list_all (full_sector \<circ> f) ls1"
    "place_in_sector (f l) buf n (slot_offsets n) = Some (Some data)" "length data = 512"
    "sectors_records (f(l := data)) ls = used @ map (\<lambda>i. record_at buf (i * 32)) [0..<n] @ e1 # rest1" "e1 ! 0 = 0"
proof -
  let ?k = "length used mod 16"
  have "\<not> in_use e" using mark by (simp add: in_use_def)
  then obtain ls1 l ls2 where s: "ls = ls1 @ l # ls2" "list_all (full_sector \<circ> f) ls1"
    "used = sectors_records f ls1 @ take ?k (sector_records (f l))" "sector_records (f l) ! ?k = e"
    by (rule end_sector [OF recs used])
  have "\<forall>i<?k. in_use (record_at (f l) (32 * i))"
  proof (intro allI impI)
    fix i assume i: "i < ?k"
    have "list_all in_use (take ?k (sector_records (f l)))" using used by (subst (asm) s(3)) simp
    then have "in_use (take ?k (sector_records (f l)) ! i)" using i n(2) by (simp add: list_all_length)
    then show "in_use (record_at (f l) (32 * i))" using i n(2) by (simp add: sector_records_map)
  qed
  moreover have "f l ! (32 * ?k) = 0"
    using s(4) mark n(2) record_first [OF len, of ?k l] by (simp add: sector_records_map)
  ultimately obtain data e1 rest1 where p: "place_in_sector (f l) buf n (slot_offsets n) = Some (Some data)" "length data = 512"
    "sector_records data = take ?k (sector_records (f l)) @ map (\<lambda>i. record_at buf (i * 32)) [0..<n] @ e1 # rest1" "e1 ! 0 = 0"
    using place_at_end [OF len n(3,1,2), of l] by metis
  have "sectors_records (f(l := data)) ls1 = sectors_records f ls1"
    using d s(1) by (intro sectors_records_cong) auto
  then have "sectors_records (f(l := data)) ls = used @ map (\<lambda>i. record_at buf (i * 32)) [0..<n]
      @ e1 # rest1 @ sectors_records (f(l := data)) ls2"
    using p(3) by (subst s(3)) (simp add: s(1))
  then show ?thesis using that s(1,2) p by blast
qed

lemma add_loop_places:
  assumes dev: "block_device dv drive img" and rel: "reliable dv drive" and wrt: "writable dv drive"
    and ok: "cache_ok img s" and spc: "bpb_sectors_per_cluster s = Some spc" and chain: "fat_chain (fat_value img s) cl cls"
    and d: "distinct (dir_sectors s cls)" and fat: "\<forall>c\<in>set cls. fat_lba s c \<notin> set (dir_sectors s cls)"
    and cached: "cached_fat_sector s \<in> set (dir_sectors s cls) \<longrightarrow> cached_fat_sector s = 0xFFFFFFFF"
    and recs: "dir_records img s cls = used @ e # rest" "list_all in_use used" "e ! 0 = 0"
    and n: "0 < n" "length used mod 16 + n < 16" "length buf = n * 32"
  obtains t x l e1 rest1 where "add_loop dv drive junk buf n cl sector s = Some (0, t\<lparr>disk := x\<rparr>)"
    "same_but_cache img s t" "cache_ok img (t\<lparr>disk := x\<rparr>)"
    "cached_fat_sector t \<in> insert (cached_fat_sector s) (fat_lba s ` set cls)"
    "l \<in> set (dir_sectors s cls)" "\<forall>m. m \<noteq> l \<longrightarrow> img x m = img (disk s) m"
    "fat_chain (fat_value img (t\<lparr>disk := x\<rparr>)) cl cls"
    "dir_records img (t\<lparr>disk := x\<rparr>) cls = used @ map (\<lambda>i. record_at buf (i * 32)) [0..<n] @ e1 # rest1" "e1 ! 0 = 0"
proof -
  obtain ls1 l ls2 data e1 rest1 where p: "dir_sectors s cls = ls1 @ l # ls2" "list_all (full_sector \<circ> img (disk s)) ls1"
    "place_in_sector (img (disk s) l) buf n (slot_offsets n) = Some (Some data)" "length data = 512"
    "sectors_records ((img (disk s))(l := data)) (dir_sectors s cls)
       = used @ map (\<lambda>i. record_at buf (i * 32)) [0..<n] @ e1 # rest1" "e1 ! 0 = 0"
    by (rule end_placed [OF block_deviceD(1) [OF dev] recs(1) [unfolded dir_records_sectors] recs(2,3) n d])
  obtain t x where t: "add_loop dv drive junk buf n cl sector s = Some (0, t\<lparr>disk := x\<rparr>)"
    "same_but_cache img s t" "cache_ok img t" "img x = (img (disk s))(l := data)"
    "cached_fat_sector t \<in> insert (cached_fat_sector s) (fat_lba s ` set cls)"
    using add_loop_hit [OF dev rel wrt n(1) ok spc chain p(1-4)] by blast
  note D = same_but_cacheD [OF t(2)]
  let ?t = "t\<lparr>disk := x\<rparr>"
  have l: "l \<in> set (dir_sectors s cls)" by (simp add: p(1))
  then have "cached_fat_sector t \<noteq> l \<or> cached_fat_sector t = 0xFFFFFFFF" using t(5) fat cached by auto
  then have ok1: "cache_ok img ?t" using t(3,4) D(1) by (auto simp: cache_ok_def)
  have "fat_value img ?t c = fat_value img s c" if "c \<in> set cls" for c
    using that fat l t(4) D by (auto simp: fat_value_def fat_lba_def)
  then have ch: "fat_chain (fat_value img ?t) cl cls" using chain fat_chain_cong [of cls "fat_value img ?t" "fat_value img s" cl] by simp
  have "dir_sectors t = dir_sectors s" by (rule dir_sectors_same [OF t(2)])
  then have "dir_records img ?t cls = used @ map (\<lambda>i. record_at buf (i * 32)) [0..<n] @ e1 # rest1"
    using p(5) t(4) by (simp add: dir_records_sectors)
  then show ?thesis using that [of x t l e1 rest1] t ok1 ch p(6) l by simp
qed

section \<open>The buffers\<close>

text \<open>Whatever was written into a block, freeing it gives back the list of blocks.\<close>

lemma kmalloc_kfree_hmem:
  assumes "heap_ok s B L" and "unat k \<le> 2 ^ 64 - 32" and "kmalloc k s = Some (r, s1)" and "r \<noteq> 0"
  obtains s2 where "kfree r (s1\<lparr>hmem := m\<rparr>) = Some s2" "heap_ok s2 B L"
proof -
  have "kmalloc k (s\<lparr>hmem := m\<rparr>) = Some (r, s1\<lparr>hmem := m\<rparr>)" using assms(3) by (simp add: kmalloc_hmem)
  moreover have "heap_ok (s\<lparr>hmem := m\<rparr>) B L" using assms(1) by (simp add: heap_ok_def)
  ultimately show ?thesis using that kmalloc_kfree_restores [of "s\<lparr>hmem := m\<rparr>" B L k r] assms(2,4) by blast
qed

lemma kmalloc_same_blocks:
  assumes "heap_ok s B L" and "heap_ok t B L" and "unat k \<le> 2 ^ 64 - 32" and "kmalloc k s = Some (r, s1)"
  obtains t1 where "kmalloc k t = Some (r, t1)"
  using kmalloc_first_fit [OF assms(1,3)] kmalloc_first_fit [OF assms(2,3)] assms(4) by (auto split: option.splits)

lemma entry_buffer_small: "k \<le> 255 \<Longrightarrow> unat (of_nat ((lfn_count k + 1) * 32) :: u64) \<le> 2 ^ 64 - 32"
proof -
  assume "k \<le> 255"
  then have "lfn_count k + 1 \<le> 21" unfolding lfn_count_def by linarith
  then have "(lfn_count k + 1) * 32 \<le> 672" by simp
  moreover have "unat (of_nat ((lfn_count k + 1) * 32) :: u64) \<le> (lfn_count k + 1) * 32"
    unfolding unat_of_nat by (rule mod_less_eq_dividend)
  ultimately have "unat (of_nat ((lfn_count k + 1) * 32) :: u64) \<le> 672" by (rule order.trans [rotated])
  then show ?thesis by simp
qed

lemma sector_small: "unat (512 :: u64) \<le> 2 ^ 64 - 32"
  by simp

section \<open>Properties\<close>

text \<open>A directory with room in its last sector, and a volume on which its sectors are its own.\<close>

definition has_room :: "('d \<Rightarrow> u32 \<Rightarrow> bytes) \<Rightarrow> 'd fs \<Rightarrow> u32 list \<Rightarrow> nat \<Rightarrow> bool" where
  "has_room img s cls n \<longleftrightarrow> (let rs = dir_records img s cls; k = length (takeWhile in_use rs) in
     k < length rs \<and> rs ! k ! 0 = 0 \<and> k mod 16 + n < 16)"

definition own_sectors :: "'d fs \<Rightarrow> u32 list \<Rightarrow> bool" where
  "own_sectors s cls \<longleftrightarrow> distinct (dir_sectors s cls)
     \<and> (cached_fat_sector s \<in> set (dir_sectors s cls) \<longrightarrow> cached_fat_sector s = 0xFFFFFFFF)
     \<and> (\<forall>c\<in>set cls. fat_lba s c \<notin> set (dir_sectors s cls))"

lemma has_roomE:
  assumes "has_room img s cls n"
  obtains used e rest where "dir_records img s cls = used @ e # rest" "list_all in_use used" "e ! 0 = 0"
    "length used mod 16 + n < 16"
proof -
  let ?rs = "dir_records img s cls" and ?used = "takeWhile in_use (dir_records img s cls)"
  have k: "length ?used < length ?rs" "?rs ! length ?used ! 0 = 0" "length ?used mod 16 + n < 16"
    using assms by (simp_all add: has_room_def Let_def)
  have "list_all in_use ?used" by (auto simp: list_all_iff dest: set_takeWhileD)
  moreover have "?rs = ?used @ ?rs ! length ?used # drop (Suc (length ?used)) ?rs"
    using id_take_nth_drop [OF k(1)] takeWhile_eq_take [of in_use ?rs] by simp
  ultimately show ?thesis using that k(2,3) by blast
qed

lemma list_records_stopped:
  "list_records mx rs parts present es = Some (True, p, n, e) \<Longrightarrow> \<forall>r\<in>set rs. r ! 0 \<noteq> 0 \<Longrightarrow> mx \<le> length e"
  by (induction rs arbitrary: parts present es) (auto simp: bind_eq_Some_conv split: if_splits)

lemma list_before_end:
  assumes "\<forall>r\<in>set (used @ e # rest). length r = 32" and "list_all in_use used" and "e ! 0 = 0"
    and "list_records mx (used @ e # rest) no_parts 0 [] = Some (stop, p, n, es)" and "length es < mx"
  obtains p1 n1 where "list_records mx used no_parts 0 [] = Some (False, p1, n1, es)" "parts_ok p1"
proof -
  obtain stop1 p1 n1 es1 where one: "list_records mx used no_parts 0 [] = Some (stop1, p1, n1, es1)" "parts_ok p1"
    using list_records_total [of used no_parts 0 "[]" mx] assms(1) by auto
  have "\<forall>r\<in>set used. r ! 0 \<noteq> 0" using assms(2) by (auto simp: list_all_iff in_use_def)
  moreover have "es1 = es" using one(1) assms(3,4) by (auto simp: list_records_append split: if_splits)
  ultimately have "\<not> stop1" using list_records_stopped one(1) assms(5) by fastforce
  then show ?thesis using that one \<open>es1 = es\<close> by simp
qed

lemma room_listing:
  assumes "block_device dv drive img" and "reliable dv drive" and "fs_sound img s"
    and "fat_chain (fat_value img s) cl cls" and "has_room img s cls n" and "kmalloc 512 (fheap s) = Some (q, g)" and "q \<noteq> 0"
    and "fat32_list_dir dv drive cl mx s = Some (v, es, s0)" and "length es < mx"
  obtains used e rest p1 n1 where "dir_records img s cls = used @ e # rest" "list_all in_use used" "e ! 0 = 0"
    "length used mod 16 + n < 16" "list_records mx used no_parts 0 [] = Some (False, p1, n1, es)" "parts_ok p1"
proof -
  obtain used e rest where u: "dir_records img s cls = used @ e # rest" "list_all in_use used" "e ! 0 = 0"
    "length used mod 16 + n < 16"
    by (rule has_roomE [OF assms(5)])
  have "\<exists>stop parts present. list_records mx (used @ e # rest) no_parts 0 [] = Some (stop, parts, present, es)"
    using list_dir_spec [OF assms(1-3,6,4), of mx] assms(7,8) u(1) by auto
  then show ?thesis
    using list_before_end [OF dir_records_length [OF assms(1), of s cls, unfolded u(1)] u(2,3) _ assms(9)] that [OF u] by blast
qed

lemma create_file_run:
  assumes dev: "block_device dv drive img" and rel: "reliable dv drive" and wrt: "writable dv drive" and ok: "fs_sound img s"
    and hok: "heap_ok (fheap s) B L"
    and name: "terminated name" "cstr name = xs" "xs \<noteq> []" "length xs \<le> 255" "\<forall>c\<in>set xs. c \<noteq> 0xFF"
    and chain: "fat_chain (fat_value img s) (current_dir_cluster s) cls" and own: "own_sectors s cls"
    and recs: "dir_records img s cls = used @ e0 # rest" "list_all in_use used" "e0 ! 0 = 0"
      "length used mod 16 + (lfn_count (length xs) + 1) < 16"
    and mem: "kmalloc (of_nat ((lfn_count (length xs) + 1) * 32)) (fheap s) = Some (p, h)" "p \<noteq> 0"
    and before: "list_records mx used no_parts 0 [] = Some (False, p1, n1, es)" "parts_ok p1" "length es < mx"
  obtains s1 parts e where "fat32_create_file dv drive name junk s = Some (0, s1)" "fs_sound img s1" "heap_ok (fheap s1) B L"
    "current_dir_cluster s1 = current_dir_cluster s" "fat_chain (fat_value img s1) (current_dir_cluster s) cls"
    "list_records mx (dir_records img s1 cls) no_parts 0 [] = Some (True, parts, 0, es @ [e])"
    "cstr (e_name e) = take 255 (if length xs \<le> 13 then xs
                                 else concat (rev (map (name_part_of xs) [1..<lfn_count (length xs) + 1])))"
    "e_attr e = 0x20" "e_first_cluster e = 0" "e_size e = 0"
proof -
  let ?n = "lfn_count (length xs) + 1" and ?cl = "current_dir_cluster s"
  have ok': "cache_ok img s" "length (fat32_bpb s) = 90" using ok by (simp_all add: fs_sound_def)
  obtain spc where spc: "bpb_sectors_per_cluster s = Some spc" using spc_defined [OF ok] by blast
  obtain sfn checksum b1 b2 buf parts e where b: "make_sfn name = Some sfn" "shortname_checksum sfn = Some checksum"
    "strlen name = Some (length xs)"
    "lfn_build (replicate (?n * 32) 0) (lfn_count (length xs)) checksum name (length xs) (rev [1..<?n]) = Some b1"
    "sfn_name b1 (lfn_count (length xs) * 32) sfn 0x20 = Some b2" "sfn_cluster b2 (lfn_count (length xs) * 32) 0 = Some buf"
    "list_records mx (map (\<lambda>i. record_at buf (i * 32)) [0..<?n]) p1 n1 es = Some (False, parts, 0, es @ [e])"
    "cstr (e_name e) = take 255 (if length xs \<le> 13 then xs else concat (rev (map (name_part_of xs) [1..<?n])))"
    "e_attr e = 0x20" "e_first_cluster e = 0" "e_size e = 0" "length buf = ?n * 32"
    using created_entry [OF name before(2) disjI1 [OF refl] before(3) refl, where cl = 0 and ?present0.0 = n1] by blast
  obtain t x e1 rest1 where t: "add_loop dv drive junk buf ?n ?cl junk (s\<lparr>fheap := h\<rparr>) = Some (0, t\<lparr>disk := x\<rparr>)"
    "same_but_cache img (s\<lparr>fheap := h\<rparr>) t" "cache_ok img (t\<lparr>disk := x\<rparr>)"
    "fat_chain (fat_value img (t\<lparr>disk := x\<rparr>)) ?cl cls"
    "dir_records img (t\<lparr>disk := x\<rparr>) cls = used @ map (\<lambda>i. record_at buf (i * 32)) [0..<?n] @ e1 # rest1" "e1 ! 0 = 0"
  proof (rule add_loop_places [OF dev rel wrt, of "s\<lparr>fheap := h\<rparr>" spc ?cl cls used e0 rest ?n buf junk junk])
    show "\<forall>c\<in>set cls. fat_lba (s\<lparr>fheap := h\<rparr>) c \<notin> set (dir_sectors (s\<lparr>fheap := h\<rparr>) cls)"
      "distinct (dir_sectors (s\<lparr>fheap := h\<rparr>) cls)" 
      "cached_fat_sector (s\<lparr>fheap := h\<rparr>) \<in> set (dir_sectors (s\<lparr>fheap := h\<rparr>) cls)
        \<longrightarrow> cached_fat_sector (s\<lparr>fheap := h\<rparr>) = 0xFFFFFFFF"
      using own by (simp_all add: own_sectors_def fat_lba_def)
  qed (use ok' spc chain recs b(12) in simp_all)
  obtain h2 where h2: "kfree p (h\<lparr>hmem := put_bytes p buf (hmem h)\<rparr>) = Some h2" "heap_ok h2 B L"
    by (rule kmalloc_kfree_hmem [OF hok entry_buffer_small [OF name(4)] mem])
  let ?s = "t\<lparr>disk := x, fheap := h2\<rparr>"
  note D = same_but_cacheD [OF t(2)]
  have run: "fat32_create_file dv drive name junk s = Some (0, ?s)"
    using b(1-6) mem t(1) h2(1) D(2)
    by (simp add: fat32_create_file_def new_buffer_def free_sector_def Let_def)
  have sound: "fs_sound img ?s" using t(3) D(3) ok'(2) h2(2) by (auto simp: fs_sound_def heap_inv_def)
  have "list_records mx (dir_records img ?s cls) no_parts 0 [] = Some (True, parts, 0, es @ [e])"
    using before(1) b(7) t(5,6) by (simp add: list_records_append del: upt_Suc)
  then show ?thesis using that [OF run sound] h2(2) D(11) t(4) b(8-11) by simp
qed

text \<open>The small volume with the one file FOO.TXT in its root.\<close>

definition demo_one :: "(u32 \<Rightarrow> bytes) fs" where
  "demo_one = demo_fs\<lparr>disk := (disk demo_fs)(40 := lit ''FOO     TXT'' @ [0x20] @ replicate 14 0 @ [3, 0, 0, 2, 0, 0]
     @ replicate 480 0)\<rparr>"

lemma demo_one_sound: "fs_sound image512 demo_one" "fheap demo_one = boot_heap" "current_dir_cluster demo_one = 2"
  by (simp_all add: demo_one_def fs_sound_def cache_ok_def demo_fs_def boot_heap_inv)

lemma demo_one_fat: "fat_value image512 demo_one 2 = 0x0FFFFFFF"
  by (simp add: demo_one_def fat_value_def entry_of_def ent_off_def fat_lba_def image512_def demo_fs_def
      demo_fat_def get32_def nth_append)

lemma demo_one_sectors: "dir_sectors demo_one [2] = [40]"
  by (simp add: dir_sectors_def cluster_sectors_def demo_one_def demo_fs_def bpb_sectors_per_cluster_def fat32_cluster_to_lba_def)

lemma demo_one_records:
  "dir_records image512 demo_one [2]
     = (lit ''FOO     TXT'' @ [0x20] @ replicate 14 0 @ [3, 0, 0, 2, 0, 0]) # replicate 15 (replicate 32 0)"
proof -
  have "dir_records image512 demo_one [2] = sector_records (disk demo_one 40)"
    unfolding dir_records_sectors demo_one_sectors by (simp add: demo_one_def image512_def lit_def)
  then show ?thesis
    by (simp add: sector_records_def sector_offsets_def record_at_def demo_one_def lit_def upt_rec)
       (simp add: numeral_eq_Suc)
qed

lemma demo_one_chain: "fat_chain (fat_value image512 demo_one) (current_dir_cluster demo_one) [2]"
  by (simp add: demo_one_sound(3) demo_one_fat)

lemma demo_one_listing:
  obtains e1 s0 where "fat32_list_dir whole_ram 0 (current_dir_cluster demo_one) 64 demo_one = Some (1, [e1], s0)" "e_attr e1 = 0x20"
proof -
  obtain h where h: "kmalloc 512 boot_heap = Some (0x200020, h)" using boot_heap_kmalloc_512 by blast
  let ?r = "lit ''FOO     TXT'' @ [0x20] @ replicate 14 0 @ [3, 0, 0, 2, 0, 0]"
  have r: "length ?r = 32" "?r ! 11 = 0x20" by (simp_all add: lit_def)
  obtain e1 where e1: "make_entry ?r 0 no_parts 0 = Some e1" "e_attr e1 = 0x20"
    using make_entry_spec [OF r(1) no_parts_ok] r(2) by (metis zero_le)
  have more: "replicate 15 (replicate 32 (0 :: u8)) = replicate 32 0 # replicate 14 (replicate 32 0)"
    by (simp flip: replicate_Suc)
  have "list_records 64 (dir_records image512 demo_one [2]) no_parts 0 [] = Some (True, no_parts, 0, [e1])"
    using e1(1) unfolding demo_one_records more by (simp add: lit_def)
  then show ?thesis
    using list_dir_spec [OF _ _ demo_one_sound(1) _ demo_one_chain, of whole_ram 0 "0x200020" h 64] h demo_one_sound(2)
      that [OF _ e1(2)] by auto
qed



end
