(* ===== verification/Fat32_Subdir.thy ===== *)
theory Fat32_Subdir
  imports Fat32_Create
begin

text \<open>
  Creating a directory of drivers/fs/fat32.c end to end: the cluster it takes, the entries \<open>.\<close> and \<open>..\<close> in it,
  and the way into it and back out with \<open>fat32_change_dir\<close>.
\<close>

section \<open>Writing the FAT and a cluster\<close>

lemma write_fat_loop_returns:
  assumes dev: "block_device dv drive img" and rel: "reliable dv drive" and wrt: "writable dv drive"
  shows "length junk = 512 \<Longrightarrow> \<exists>s'. write_fat_loop dv drive cl v junk ts s = Some (0, s')"
proof (induction ts arbitrary: junk s)
  case Nil
  then show ?case by simp
next
  case (Cons t ts)
  let ?l = "fat_copy s cl t"
  obtain d where d: "read_sector dv drive ?l junk s = (0, img (disk s) ?l, s\<lparr>disk := d\<rparr>)" "img d = img (disk s)"
    by (rule read_sector_reliable [OF dev rel])
  let ?b = "blit (img (disk s) ?l) (ent_off cl) (bytes32 (v AND 0x0FFFFFFF))"
  have w: "put32 (img (disk s) ?l) (ent_off cl) (v AND 0x0FFFFFFF) = Some ?b" "length ?b = 512"
    using block_deviceD(1) [OF dev] ent_offset_le [of cl] by (simp_all add: put32_blit)
  obtain e where e: "write_sector dv drive ?l ?b (s\<lparr>disk := d\<rparr>) = (0, s\<lparr>disk := d\<rparr>\<lparr>disk := e\<rparr>)"
    by (rule write_sector_writable [OF dev wrt w(2)])
  show ?case
    using Cons.IH [OF w(2), of "s\<lparr>disk := e\<rparr>"] d(1) w(1) e
    by (simp add: fat_copy_def ent_off_def Let_def)
qed

lemma fat_write_done:
  assumes dev: "block_device dv drive img" and rel: "reliable dv drive" and wrt: "writable dv drive"
    and "cache_ok img s" and "length junk = 512"
    and "rd (fat32_bpb s) 16 = Some count" "count \<noteq> 0" and "fats_fit s count" and "in_fat s cl"
  obtains d where "fat_write_fat_entry dv drive cl v junk s = Some (0, s\<lparr>disk := d, cached_fat_sector := 0xFFFFFFFF\<rparr>)"
    "\<forall>c. in_fat s c \<longrightarrow> fat_value img (s\<lparr>disk := d, cached_fat_sector := 0xFFFFFFFF\<rparr>) c
       = (if c = cl then v AND 0x0FFFFFFF else fat_value img s c)"
    "\<forall>lba. unat lba < unat (fat_start s) \<or> unat (fat_start s) + unat count * unat (sectors_per_fat s) \<le> unat lba \<longrightarrow>
      img d lba = img (disk s) lba"
proof -
  obtain s' where s': "write_fat_loop dv drive cl v junk [0..<unat count] s = Some (0, s')"
    using write_fat_loop_returns [OF dev rel wrt assms(5)] by blast
  then obtain d where d: "s' = s\<lparr>disk := d, cached_fat_sector := 0xFFFFFFFF\<rparr>"
    using write_fat_loop_ok [OF dev assms(5)] by blast
  have run: "fat_write_fat_entry dv drive cl v junk s = Some (0, s')"
    using s' by (simp add: fat_write_fat_entry_def assms(6))
  note w = fat_write_ok [OF dev assms(4-9) run]
  show ?thesis by (rule that [of d]) (use run d w(2,3) in simp_all)
qed

lemma fill_cluster_done:
  assumes dev: "block_device dv drive img" and wrt: "writable dv drive" and "length data = 512"
    and "fat32_cluster_to_lba cl s = Some lba"
  shows "\<exists>d. fill_cluster dv drive cl data is s = Some (s\<lparr>disk := d\<rparr>)
    \<and> img d = (\<lambda>l. if l \<in> set (map (\<lambda>i. lba + of_nat i) is) then data else img (disk s) l)"
  using assms(4)
proof (induction "is" arbitrary: s)
  case Nil
  then show ?case by (intro exI [of _ "disk s"]) simp
next
  case (Cons i "is")
  obtain d where d: "write_sector dv drive (lba + of_nat i) data s = (0, s\<lparr>disk := d\<rparr>)"
    "img d = (img (disk s))(lba + of_nat i := data)"
    by (rule write_sector_writable [OF dev wrt assms(3)])
  have "fat32_cluster_to_lba cl (s\<lparr>disk := d\<rparr>) = Some lba"
    using Cons.prems by (simp add: fat32_cluster_to_lba_def bpb_sectors_per_cluster_def)
  then obtain e where "fill_cluster dv drive cl data is (s\<lparr>disk := d\<rparr>) = Some (s\<lparr>disk := d\<rparr>\<lparr>disk := e\<rparr>)"
    "img e = (\<lambda>l. if l \<in> set (map (\<lambda>i. lba + of_nat i) is) then data else img d l)"
    using Cons.IH by force
  then show ?case using Cons.prems d by (intro exI [of _ e]) (auto simp: fun_eq_iff)
qed

section \<open>The entries of a new directory\<close>

definition dot_record :: "nat \<Rightarrow> u32 \<Rightarrow> bytes" where
  "dot_record n cl = replicate n 46 @ replicate (11 - n) 32 @ [0x10] @ replicate 8 0 @ bytes16 (ucast (drop_bit 16 cl))
     @ replicate 4 0 @ bytes16 (ucast (cl AND 0xFFFF)) @ replicate 4 0"

lemma high_half: "ucast (x AND 0xFFFF :: u32) = (ucast x :: u16)"
proof (rule bit_word_eqI)
  have m: "(0xFFFF :: u32) = mask 16" by (simp add: mask_eq_exp_minus_1)
  show "bit (ucast (x AND 0xFFFF) :: u16) n = bit (ucast x :: u16) n" if "n < LENGTH(16)" for n
    using that unfolding m by (auto simp: bit_simps)
qed

lemma dot_sector_records:
  "dot_sector newcl cur = Some (dot_record 1 newcl @ dot_record 2 cur @ replicate 448 0)"
proof -
  have z: "replicate 512 (0 :: u8) = replicate 64 0 @ replicate 448 0" by (simp flip: replicate_add)
  have m: "replicate 64 (0 :: u8) =
     [0, 0, 0, 0, 0, 0, 0, 0, 0, 0, 0, 0, 0, 0, 0, 0,
      0, 0, 0, 0, 0, 0, 0, 0, 0, 0, 0, 0, 0, 0, 0, 0,
      0, 0, 0, 0, 0, 0, 0, 0, 0, 0, 0, 0, 0, 0, 0, 0,
      0, 0, 0, 0, 0, 0, 0, 0, 0, 0, 0, 0, 0, 0, 0, 0]"
    by (simp add: numeral_eq_Suc)
  have r: "replicate 11 (32 :: u8) = [32, 32, 32, 32, 32, 32, 32, 32, 32, 32, 32]"
    "replicate 10 (32 :: u8) = [32, 32, 32, 32, 32, 32, 32, 32, 32, 32]" "replicate 9 (32 :: u8) = [32, 32, 32, 32, 32, 32, 32, 32, 32]"
    "replicate 8 (0 :: u8) = [0, 0, 0, 0, 0, 0, 0, 0]" "replicate 4 (0 :: u8) = [0, 0, 0, 0]" "replicate 2 (46 :: u8) = [46, 46]"
    by (simp_all add: numeral_eq_Suc)
  show ?thesis
    unfolding dot_sector_def z m by (simp add: memset_blit blit_def wr_def put16_def dot_record_def bytes16_def high_half r)
qed

lemma dot_record_fields:
  assumes "n = 1 \<or> n = 2"
  shows "length (dot_record n cl) = 32" "dot_record n cl ! 0 = 46" "dot_record n cl ! 11 = 0x10"
    "record_cluster (dot_record n cl) = cl" "entry_name (dot_record n cl) parts 0 = replicate n 46"
proof -
  have g: "get16 (xs @ bytes16 v @ ys) (length xs) = Some v" for xs v ys
    by (simp add: get16_def bytes16_def nth_append join16)
  let ?a = "replicate n 46 @ replicate (11 - n) 32 @ [0x10] @ replicate 8 (0 :: u8)"
  let ?b = "?a @ bytes16 (ucast (drop_bit 16 cl)) @ replicate 4 0"
  have len: "length ?a = 20" "length ?b = 26" using assms by auto
  have "get16 (dot_record n cl) 20 = Some (ucast (drop_bit 16 cl))" "get16 (dot_record n cl) 26 = Some (ucast (cl AND 0xFFFF))"
    using g [of ?a "ucast (drop_bit 16 cl)" "replicate 4 0 @ bytes16 (ucast (cl AND 0xFFFF)) @ replicate 4 0"]
      g [of ?b "ucast (cl AND 0xFFFF)" "replicate 4 0"] unfolding len by (simp_all add: dot_record_def)
  then show "record_cluster (dot_record n cl) = cl" unfolding record_cluster_def by (simp only: option.sel split_cluster)
  show "length (dot_record n cl) = 32" "dot_record n cl ! 0 = 46" "dot_record n cl ! 11 = 0x10"
    using assms by (auto simp: dot_record_def nth_append)
  have "take 11 (dot_record n cl) = replicate n 46 @ replicate (11 - n) 32" using assms by (auto simp: dot_record_def)
  moreover have "short_text (replicate n 46 @ replicate (11 - n) 32) = replicate n 46"
  proof -
    have "replicate 10 (32 :: u8) = [32, 32, 32, 32, 32, 32, 32, 32, 32, 32]" "replicate 9 (32 :: u8) = [32, 32, 32, 32, 32, 32, 32, 32, 32]"
      "replicate 3 (32 :: u8) = [32, 32, 32]" "replicate 2 (46 :: u8) = [46, 46]" by (simp_all add: numeral_eq_Suc)
    then show ?thesis using assms by (auto simp: short_text_def)
  qed
  ultimately show "entry_name (dot_record n cl) parts 0 = replicate n 46"
    by (simp add: entry_name_def cstr_def takeWhile_replicate)
qed

lemma new_dir_records:
  "sector_records (dot_record 1 newcl @ dot_record 2 cur @ replicate 448 0)
     = dot_record 1 newcl # dot_record 2 cur # replicate 14 (replicate 32 0)"
proof -
  have "sector_records (a @ b @ replicate 448 0) = [a, b] @ map (\<lambda>_. replicate 32 0) [0..<14]"
    if "length a = 32" "length b = 32" for a b :: bytes
    using that unfolding sector_records_map by (simp add: record_at_def upt_rec)
  then show ?thesis using dot_record_fields(1) by (simp add: map_replicate_const)
qed

lemma list_new_dir:
  obtains e1 e2 where
    "\<forall>mx\<ge>2. list_records mx (sector_records (dot_record 1 newcl @ dot_record 2 cur @ replicate 448 0) @ rest) no_parts 0 []
       = Some (True, no_parts, 0, [e1, e2])"
    "cstr (e_name e1) = [46]" "e_attr e1 = 0x10" "e_first_cluster e1 = newcl"
    "cstr (e_name e2) = [46, 46]" "e_attr e2 = 0x10" "e_first_cluster e2 = cur"
proof -
  note f1 = dot_record_fields [of 1 newcl, simplified] and f2 = dot_record_fields [of 2 cur, simplified]
  obtain e1 where e1: "make_entry (dot_record 1 newcl) 0 no_parts 0 = Some e1" "cstr (e_name e1) = [46]"
    "e_attr e1 = 0x10" "e_first_cluster e1 = newcl"
    using make_entry_spec [OF f1(1) no_parts_ok, of 0] f1 by auto
  obtain e2 where e2: "make_entry (dot_record 2 cur) 0 no_parts 0 = Some e2" "cstr (e_name e2) = [46, 46]"
    "e_attr e2 = 0x10" "e_first_cluster e2 = cur"
    using make_entry_spec [OF f2(1) no_parts_ok, of 0] f2 by (auto simp: numeral_eq_Suc)
  have "replicate 14 (replicate 32 (0 :: u8)) = replicate 32 0 # replicate 13 (replicate 32 0)" by (simp flip: replicate_Suc)
  then have "\<forall>mx\<ge>2. list_records mx (sector_records (dot_record 1 newcl @ dot_record 2 cur @ replicate 448 0) @ rest) no_parts 0 []
      = Some (True, no_parts, 0, [e1, e2])"
    unfolding new_dir_records using e1(1) e2(1) f1(2,3) f2(2,3) by simp
  then show ?thesis by (rule that) (use e1 e2 in simp_all)
qed

section \<open>The layout of a volume\<close>

text \<open>What no operation but mounting and formatting changes.\<close>

definition same_layout :: "'d fs \<Rightarrow> 'd fs \<Rightarrow> bool" where
  "same_layout s t \<longleftrightarrow> fat32_bpb t = fat32_bpb s \<and> fat_start t = fat_start s \<and> cluster_begin_lba t = cluster_begin_lba s
     \<and> partition_lba t = partition_lba s \<and> sectors_per_fat t = sectors_per_fat s
     \<and> root_dir_first_cluster t = root_dir_first_cluster s"

lemma same_layoutD:
  assumes "same_layout s t"
  shows "fat32_bpb t = fat32_bpb s" "dir_sectors t = dir_sectors s" "fat_lba t = fat_lba s" "in_fat t = in_fat s"
    "fats_fit t = fats_fit s" "bpb_sectors_per_cluster t = bpb_sectors_per_cluster s"
    "fat32_cluster_to_lba c t = fat32_cluster_to_lba c s" "fat_start t = fat_start s" "sectors_per_fat t = sectors_per_fat s"
    "cluster_sectors t = cluster_sectors s"
proof -
  note eq = assms [unfolded same_layout_def]
  show cl: "fat32_cluster_to_lba c t = fat32_cluster_to_lba c s" for c
    using eq by (simp add: fat32_cluster_to_lba_def bpb_sectors_per_cluster_def)
  have cs: "cluster_sectors t = cluster_sectors s" using eq cl by (simp add: fun_eq_iff cluster_sectors_def bpb_sectors_per_cluster_def)
  then show "dir_sectors t = dir_sectors s" by (intro ext) (simp only: dir_sectors_def)
  show "cluster_sectors t = cluster_sectors s" by (rule cs)
  show "fat_lba t = fat_lba s" "in_fat t = in_fat s" "fats_fit t = fats_fit s"
    using eq by (simp_all add: fun_eq_iff fat_lba_def in_fat_def fats_fit_def)
qed (use assms in \<open>simp_all add: same_layout_def bpb_sectors_per_cluster_def\<close>)

lemma same_layout_trans: "same_layout s t \<Longrightarrow> same_layout t u \<Longrightarrow> same_layout s u"
  by (simp add: same_layout_def)

lemma same_but_cache_layout: "same_but_cache img s t \<Longrightarrow> same_layout s t"
  by (simp add: same_layout_def same_but_cacheD)

text \<open>The clusters have sectors of their own, outside the copies of the FAT, and entries in it.\<close>

definition laid_out :: "'d fs \<Rightarrow> u8 \<Rightarrow> u32 list \<Rightarrow> bool" where
  "laid_out s count cls \<longleftrightarrow> rd (fat32_bpb s) 16 = Some count \<and> count \<noteq> 0 \<and> fats_fit s count
     \<and> (\<forall>c\<in>set cls. in_fat s c) \<and> distinct (dir_sectors s cls)
     \<and> (\<forall>l\<in>set (dir_sectors s cls). unat l < unat (fat_start s)
          \<or> unat (fat_start s) + unat count * unat (sectors_per_fat s) \<le> unat l)"

lemma laid_out_layout: "same_layout s t \<Longrightarrow> laid_out t count cls = laid_out s count cls"
  by (simp add: laid_out_def same_layoutD)

lemma laid_out_fat:
  assumes "laid_out s count cls" and "c \<in> set cls"
  shows "fat_lba s c \<notin> set (dir_sectors s cls)"
proof -
  have a: "fats_fit s count" "in_fat s c" "0 < unat count" "partition_lba s = 0"
    using assms by (auto simp: laid_out_def fats_fit_def unat_gt_0)
  have u: "unat (fat_lba s c) = unat (fat_start s) + unat c div 128"
    using unat_fat_copy [OF a(1-3)] a(4) by (simp add: fat_copy_0)
  have "1 * unat (sectors_per_fat s) \<le> unat count * unat (sectors_per_fat s)" using a(3) by (intro mult_right_mono) linarith+
  then have "unat (fat_start s) \<le> unat (fat_lba s c)"
    "unat (fat_lba s c) < unat (fat_start s) + unat count * unat (sectors_per_fat s)"
    using u a(2) unfolding in_fat_def by linarith+
  then show ?thesis using assms(1) by (auto simp: laid_out_def dest!: bspec)
qed

text \<open>The FAT entry and the records of a directory, when only other sectors have changed.\<close>

lemma fat_value_unchanged:
  assumes "same_layout s t" and "img (disk t) (fat_lba s c) = img (disk s) (fat_lba s c)"
  shows "fat_value img t c = fat_value img s c"
  using assms by (simp add: fat_value_def same_layoutD)

lemma dir_records_unchanged:
  assumes "same_layout s t" and "\<forall>l\<in>set (dir_sectors s cls). img (disk t) l = img (disk s) l"
  shows "dir_records img t cls = dir_records img s cls"
  using assms by (simp add: dir_records_sectors same_layoutD sectors_records_cong)

lemma dir_sectors_Cons: "dir_sectors s (c # cs) = cluster_sectors s c @ dir_sectors s cs"
  by (simp add: dir_sectors_def)

text \<open>The first free cluster, where the search of \<open>find_free_cluster\<close> comes to it.\<close>

definition first_free :: "('d \<Rightarrow> u32 \<Rightarrow> bytes) \<Rightarrow> 'd fs \<Rightarrow> u32 \<Rightarrow> bool" where
  "first_free img s cl \<longleftrightarrow> 2 \<le> unat (next_free_hint s) \<and> unat (next_free_hint s) < unat (total_clusters s) + 2
     \<and> unat (total_clusters s) < 0x0FFFFFF0
     \<and> find (\<lambda>c. fat_value img s (of_nat c) = 0) (probe (unat (next_free_hint s)) (unat (total_clusters s))) = Some (unat cl)"

lemma first_freeD:
  assumes "first_free img s cl"
  shows "2 \<le> unat cl" "unat cl < 0x0FFFFFF2" "fat_value img s cl = 0"
proof -
  let ?P = "\<lambda>c. fat_value img s (of_nat c) = 0" and ?xs = "probe (unat (next_free_hint s)) (unat (total_clusters s))"
  have f: "find ?P ?xs = Some (unat cl)" using assms by (simp add: first_free_def)
  then have "unat cl \<in> set ?xs" by (auto simp: find_Some_iff)
  moreover have "?P (unat cl)" using f by (metis (mono_tags, lifting) find_Some_iff)
  ultimately have "unat cl \<in> set ?xs" "fat_value img s cl = 0" by simp_all
  then show "2 \<le> unat cl" "unat cl < 0x0FFFFFF2" "fat_value img s cl = 0"
    using assms by (auto simp: first_free_def probe_def)
qed

lemma find_free_done:
  assumes "block_device dv drive img" and "reliable dv drive" and "cache_ok img s" and "first_free img s cl"
  obtains t where "find_free_cluster dv drive s = Some (cl, t)" "same_layout s t" "cache_ok img t"
    "img (disk t) = img (disk s)" "fheap t = fheap s" "current_dir_cluster t = current_dir_cluster s"
proof -
  note h = assms(4) [unfolded first_free_def]
  have word_of_unat: "of_nat (unat cl) = cl" by simp
  obtain u where u: "find_free_cluster dv drive s = Some (of_nat (unat cl),
      u\<lparr>next_free_hint := hint_after (of_nat (unat cl)) (total_clusters s)\<rparr>)" "same_but_cache img s u" "cache_ok img u"
    using find_free_spec [OF assms(1-3)] h by auto
  show ?thesis
    by (rule that [OF u(1) [unfolded word_of_unat]])
      (use same_but_cacheD [OF u(2)] same_but_cache_layout [OF u(2)] u(3) in \<open>simp_all add: same_layout_def cache_ok_def\<close>)
qed

section \<open>Creating the directory\<close>

lemma cluster_taken:
  assumes dev: "block_device dv drive img" and rel: "reliable dv drive" and wrt: "writable dv drive"
    and ok: "cache_ok img s" and junk: "length junk = 512" and chain: "fat_chain (fat_value img s) cl cls"
    and out: "laid_out s count (newcl # cls)" and free: "first_free img s newcl" and new: "newcl \<notin> set cls"
  obtains t0 t1 where "find_free_cluster dv drive s = Some (newcl, t0)"
    "fat_write_fat_entry dv drive newcl 0x0FFFFFFF junk t0 = Some (0, t1)" "same_layout s t1" "cache_ok img t1"
    "cached_fat_sector t1 = 0xFFFFFFFF" "fheap t1 = fheap s" "current_dir_cluster t1 = current_dir_cluster s"
    "fat_chain (fat_value img t1) cl cls" "fat_value img t1 newcl = 0x0FFFFFFF"
    "dir_records img t1 cls = dir_records img s cls"
proof -
  obtain t0 where t0: "find_free_cluster dv drive s = Some (newcl, t0)" "same_layout s t0" "cache_ok img t0"
    "img (disk t0) = img (disk s)" "fheap t0 = fheap s" "current_dir_cluster t0 = current_dir_cluster s"
    by (rule find_free_done [OF dev rel ok free])
  note D = same_layoutD [OF t0(2)]
  have cnt: "rd (fat32_bpb t0) 16 = Some count" "count \<noteq> 0" "fats_fit t0 count" "in_fat t0 newcl" "\<forall>c\<in>set cls. in_fat t0 c"
    using out by (simp_all add: laid_out_def D)
  obtain d where d: "fat_write_fat_entry dv drive newcl 0x0FFFFFFF junk t0 = Some (0, t0\<lparr>disk := d, cached_fat_sector := 0xFFFFFFFF\<rparr>)"
    "\<forall>c. in_fat t0 c \<longrightarrow> fat_value img (t0\<lparr>disk := d, cached_fat_sector := 0xFFFFFFFF\<rparr>) c
       = (if c = newcl then 0x0FFFFFFF AND 0x0FFFFFFF else fat_value img t0 c)"
    "\<forall>lba. unat lba < unat (fat_start t0) \<or> unat (fat_start t0) + unat count * unat (sectors_per_fat t0) \<le> unat lba \<longrightarrow>
      img d lba = img (disk t0) lba"
    by (rule fat_write_done [OF dev rel wrt t0(3) junk cnt(1-4), where v = "0x0FFFFFFF"])
  let ?t = "t0\<lparr>disk := d, cached_fat_sector := 0xFFFFFFFF\<rparr>"
  have lay: "same_layout s ?t" using t0(2) by (simp add: same_layout_def)
  have v: "fat_value img t0 c = fat_value img s c" for c using fat_value_unchanged [OF t0(2)] t0(4) by metis
  have "\<forall>c\<in>set cls. fat_value img ?t c = fat_value img s c" using d(2) cnt(5) new v by auto
  then have "fat_chain (fat_value img ?t) cl cls" using chain fat_chain_cong by blast
  moreover have "dir_records img ?t cls = dir_records img s cls"
  proof (rule dir_records_unchanged [OF lay])
    have "img d l = img (disk s) l" if "l \<in> set (dir_sectors s cls)" for l
      using d(3) out that t0(4) by (auto simp: laid_out_def D dir_sectors_Cons)
    then show "\<forall>l\<in>set (dir_sectors s cls). img (disk ?t) l = img (disk s) l" by simp
  qed
  moreover have "cache_ok img ?t" using t0(3) by (simp add: cache_ok_def)
  ultimately show ?thesis using that [OF t0(1) d(1) lay] t0(5,6) d(2) cnt(4) by simp
qed

lemma cluster_filled:
  assumes dev: "block_device dv drive img" and wrt: "writable dv drive" and out: "laid_out s count (newcl # cls)"
    and lay: "same_layout s t" and ok: "cache_ok img t" and cached: "cached_fat_sector t \<in> insert 0xFFFFFFFF (fat_lba s ` set cls)"
    and data: "length data = 512" and chain: "fat_chain (fat_value img t) cl cls" and val: "fat_value img t newcl = 0x0FFFFFFF"
    and new: "unat newcl < 0x0FFFFFF2" and spc: "bpb_sectors_per_cluster s = Some spc" "0 < unat spc"
  obtains y rest where "fill_cluster dv drive newcl data [0..<unat spc] t = Some (t\<lparr>disk := y\<rparr>)" "cache_ok img (t\<lparr>disk := y\<rparr>)"
    "fat_chain (fat_value img (t\<lparr>disk := y\<rparr>)) cl cls" "fat_chain (fat_value img (t\<lparr>disk := y\<rparr>)) newcl [newcl]"
    "dir_records img (t\<lparr>disk := y\<rparr>) cls = dir_records img t cls"
    "dir_records img (t\<lparr>disk := y\<rparr>) [newcl] = sector_records data @ rest"
proof -
  note D = same_layoutD [OF lay]
  obtain lba where lba: "fat32_cluster_to_lba newcl t = Some lba" using spc(1) by (simp add: D(6) fat32_cluster_to_lba_def)
  have S: "cluster_sectors s newcl = map (\<lambda>i. lba + of_nat i) [0..<unat spc]"
    using lba by (simp add: cluster_sectors_def spc(1) D(7))
  obtain y where y: "fill_cluster dv drive newcl data [0..<unat spc] t = Some (t\<lparr>disk := y\<rparr>)"
    "img y = (\<lambda>l. if l \<in> set (cluster_sectors s newcl) then data else img (disk t) l)"
    using fill_cluster_done [OF dev wrt data lba] unfolding S by blast
  let ?t = "t\<lparr>disk := y\<rparr>"
  have lay2: "same_layout t ?t" by (simp add: same_layout_def)
  have off: "img y (fat_lba s c) = img (disk t) (fat_lba s c)" if "c \<in> set (newcl # cls)" for c
    using laid_out_fat [OF out that] y(2) by (simp add: dir_sectors_Cons)
  then have v: "fat_value img ?t c = fat_value img t c" if "c \<in> set (newcl # cls)" for c
    using that by (intro fat_value_unchanged [OF lay2]) (simp add: D(3))
  have "cache_ok img ?t" using ok cached off by (auto simp: cache_ok_def)
  moreover have "fat_chain (fat_value img ?t) cl cls"
    using chain v fat_chain_cong [of cls "fat_value img ?t" "fat_value img t" cl] by simp
  moreover have "newcl < 0x0FFFFFF8" using new by (simp add: word_less_nat_alt)
  then have "fat_chain (fat_value img ?t) newcl [newcl]" using v [of newcl] val by simp
  moreover have "dir_records img ?t cls = dir_records img t cls"
    using out y(2) by (intro dir_records_unchanged [OF lay2]) (auto simp: laid_out_def dir_sectors_Cons D(2))
  moreover have "dir_records img ?t [newcl] = sectors_records (img y) (cluster_sectors s newcl)"
    by (simp add: dir_records_sectors dir_sectors_Cons D(10)) (simp add: dir_sectors_def)
  moreover have "sectors_records (img y) (cluster_sectors s newcl) = sector_records data
      @ sectors_records (img y) (map (\<lambda>i. lba + of_nat i) [1..<unat spc])"
    using spc(2) y(2) unfolding S by (simp add: upt_conv_Cons [of 0])
  ultimately show ?thesis using that y(1) by metis
qed

lemma new_cluster_apart:
  assumes "laid_out s count (newcl # cls)" and "dir_records img s cls \<noteq> []" and "bpb_sectors_per_cluster s = Some spc"
  shows "newcl \<notin> set cls" "0 < unat spc"
proof -
  have "dir_sectors s cls \<noteq> []" using assms(2) by (auto simp: dir_records_sectors)
  then obtain c where "cluster_sectors s c \<noteq> []" by (auto simp: dir_sectors_def)
  then show spc: "0 < unat spc" by (simp add: cluster_sectors_def assms(3))
  have "set (cluster_sectors s newcl) \<inter> set (dir_sectors s cls) = {}"
    using assms(1) by (auto simp: laid_out_def dir_sectors_Cons)
  moreover have "cluster_sectors s newcl \<noteq> []" using spc by (simp add: cluster_sectors_def assms(3))
  moreover have "set (cluster_sectors s newcl) \<subseteq> set (dir_sectors s cls)" if "newcl \<in> set cls"
    using that by (auto simp: dir_sectors_def)
  ultimately show "newcl \<notin> set cls" by (cases "cluster_sectors s newcl") auto
qed

lemma create_dir_run:
  assumes dev: "block_device dv drive img" and rel: "reliable dv drive" and wrt: "writable dv drive" and ok: "fs_sound img s"
    and hok: "heap_ok (fheap s) B L" and junk: "length junk = 512"
    and name: "terminated name" "cstr name = xs" "xs \<noteq> []" "length xs \<le> 255" "\<forall>c\<in>set xs. c \<noteq> 0xFF"
    and chain: "fat_chain (fat_value img s) (current_dir_cluster s) cls"
    and out: "laid_out s count (newcl # cls)" and free: "first_free img s newcl"
    and recs: "dir_records img s cls = used @ e0 # rest" "list_all in_use used" "e0 ! 0 = 0"
      "length used mod 16 + (lfn_count (length xs) + 1) < 16"
    and mem: "kmalloc (of_nat ((lfn_count (length xs) + 1) * 32)) (fheap s) = Some (p, h)" "p \<noteq> 0"
    and before: "list_records mx used no_parts 0 [] = Some (False, p1, n1, es)" "parts_ok p1" "length es < mx"
  obtains s1 parts e rest2 where "fat32_create_dir dv drive name junk s = Some (0, s1)" "fs_sound img s1"
    "heap_ok (fheap s1) B L" "same_layout s s1" "current_dir_cluster s1 = current_dir_cluster s"
    "fat_chain (fat_value img s1) (current_dir_cluster s) cls" "fat_chain (fat_value img s1) newcl [newcl]"
    "list_records mx (dir_records img s1 cls) no_parts 0 [] = Some (True, parts, 0, es @ [e])"
    "cstr (e_name e) = take 255 (if length xs \<le> 13 then xs
                                 else concat (rev (map (name_part_of xs) [1..<lfn_count (length xs) + 1])))"
    "e_attr e = 0x10" "e_first_cluster e = newcl" "e_size e = 0" "terminated (e_name e)"
    "dir_records img s1 [newcl] = sector_records (dot_record 1 newcl @ dot_record 2 (current_dir_cluster s) @ replicate 448 0) @ rest2"
proof -
  let ?n = "lfn_count (length xs) + 1" and ?cl = "current_dir_cluster s" and ?s = "s\<lparr>fheap := h\<rparr>"
  have ok': "cache_ok img ?s" "length (fat32_bpb s) = 90" using ok by (simp_all add: fs_sound_def)
  obtain spc where spc: "bpb_sectors_per_cluster s = Some spc" using spc_defined [OF ok] by blast
  have new: "newcl \<notin> set cls" "0 < unat spc" using new_cluster_apart [OF out _ spc, of img] recs(1) by simp_all
  have lay0: "same_layout s ?s" by (simp add: same_layout_def)
  have pre: "fat_chain (fat_value img ?s) ?cl cls" "laid_out ?s count (newcl # cls)" "first_free img ?s newcl"
    using free chain out laid_out_layout [OF lay0] by (simp_all add: first_free_def)
  obtain t0 t1 where t1: "find_free_cluster dv drive ?s = Some (newcl, t0)"
    "fat_write_fat_entry dv drive newcl 0x0FFFFFFF junk t0 = Some (0, t1)" "same_layout ?s t1" "cache_ok img t1"
    "cached_fat_sector t1 = 0xFFFFFFFF" "fheap t1 = fheap ?s" "current_dir_cluster t1 = current_dir_cluster ?s"
    "fat_chain (fat_value img t1) ?cl cls" "fat_value img t1 newcl = 0x0FFFFFFF"
    "dir_records img t1 cls = dir_records img ?s cls"
    by (rule cluster_taken [OF dev rel wrt ok'(1) junk pre new(1)])
  have t1r: "dir_records img t1 cls = used @ e0 # rest" using t1(10) recs(1) by simp
  have lay1: "same_layout s t1" by (rule same_layout_trans [OF lay0 t1(3)])
  note D = same_layoutD [OF lay1]
  obtain sfn checksum b1 b2 buf parts e where b: "make_sfn name = Some sfn" "shortname_checksum sfn = Some checksum"
    "strlen name = Some (length xs)"
    "lfn_build (replicate (?n * 32) 0) (lfn_count (length xs)) checksum name (length xs) (rev [1..<?n]) = Some b1"
    "sfn_name b1 (lfn_count (length xs) * 32) sfn 0x10 = Some b2" "sfn_cluster b2 (lfn_count (length xs) * 32) newcl = Some buf"
    "list_records mx (map (\<lambda>i. record_at buf (i * 32)) [0..<?n]) p1 n1 es = Some (False, parts, 0, es @ [e])"
    "cstr (e_name e) = take 255 (if length xs \<le> 13 then xs else concat (rev (map (name_part_of xs) [1..<?n])))"
    "e_attr e = 0x10" "e_first_cluster e = newcl" "e_size e = 0" "length buf = ?n * 32" "terminated (e_name e)"
    using created_entry [OF name before(2) disjI2 [OF refl] before(3) refl, where cl = newcl and ?present0.0 = n1] by blast
  have own: "distinct (dir_sectors t1 cls)" "\<forall>c\<in>set cls. fat_lba t1 c \<notin> set (dir_sectors t1 cls)"
    "fat_lba t1 newcl \<notin> set (dir_sectors t1 cls)"
    using out laid_out_fat [OF out] by (auto simp: laid_out_def D dir_sectors_Cons)
  obtain t x l e1 rest1 where t: "add_loop dv drive junk buf ?n ?cl junk t1 = Some (0, t\<lparr>disk := x\<rparr>)"
    "same_but_cache img t1 t" "cache_ok img (t\<lparr>disk := x\<rparr>)"
    "cached_fat_sector t \<in> insert (cached_fat_sector t1) (fat_lba t1 ` set cls)"
    "l \<in> set (dir_sectors t1 cls)" "\<forall>m. m \<noteq> l \<longrightarrow> img x m = img (disk t1) m"
    "fat_chain (fat_value img (t\<lparr>disk := x\<rparr>)) ?cl cls"
    "dir_records img (t\<lparr>disk := x\<rparr>) cls = used @ map (\<lambda>i. record_at buf (i * 32)) [0..<?n] @ e1 # rest1" "e1 ! 0 = 0"
    by (rule add_loop_places [OF dev rel wrt t1(4) _ t1(8) own(1,2) _ t1r recs(2,3) _ recs(4) b(12), of spc junk junk])
      (use spc t1(5) in \<open>simp_all add: D\<close>)
  obtain h2 where h2: "kfree p (h\<lparr>hmem := put_bytes p buf (hmem h)\<rparr>) = Some h2" "heap_ok h2 B L"
    by (rule kmalloc_kfree_hmem [OF hok entry_buffer_small [OF name(4)] mem])
  let ?t = "t\<lparr>disk := x, fheap := h2\<rparr>" and ?data = "dot_record 1 newcl @ dot_record 2 ?cl @ replicate 448 0"
  note E = same_but_cacheD [OF t(2)]
  have lay: "same_layout s ?t"
    using same_layout_trans [OF lay1 same_but_cache_layout [OF t(2)]] by (simp add: same_layout_def)
  have val: "fat_value img ?t newcl = 0x0FFFFFFF"
  proof -
    have "same_layout t1 ?t" using same_but_cache_layout [OF t(2)] by (simp add: same_layout_def)
    moreover have "img x (fat_lba t1 newcl) = img (disk t1) (fat_lba t1 newcl)" using t(5,6) own(3) by metis
    ultimately show ?thesis using fat_value_unchanged [of t1 ?t img newcl] t1(9) by simp
  qed
  have data: "length ?data = 512" using dot_record_fields(1) by simp
  have ch: "fat_chain (fat_value img ?t) ?cl cls" "cache_ok img ?t" using t(3,7) by simp_all
  have cached: "cached_fat_sector ?t \<in> insert 0xFFFFFFFF (fat_lba s ` set cls)" using t(4) t1(5) D(3) by simp
  obtain y rest2 where y: "fill_cluster dv drive newcl ?data [0..<unat spc] ?t = Some (?t\<lparr>disk := y\<rparr>)" "cache_ok img (?t\<lparr>disk := y\<rparr>)"
    "fat_chain (fat_value img (?t\<lparr>disk := y\<rparr>)) ?cl cls" "fat_chain (fat_value img (?t\<lparr>disk := y\<rparr>)) newcl [newcl]"
    "dir_records img (?t\<lparr>disk := y\<rparr>) cls = dir_records img ?t cls"
    "dir_records img (?t\<lparr>disk := y\<rparr>) [newcl] = sector_records ?data @ rest2"
    by (rule cluster_filled [OF dev wrt out lay ch(2) cached data ch(1) val first_freeD(2) [OF free] spc new(2)])
  have "newcl \<noteq> 0" using first_freeD(1) [OF free] by auto
  then have "fat32_create_dir dv drive name junk s = Some (0, ?t\<lparr>disk := y\<rparr>)"
    using b(1-6) mem t1(1,2,7) t(1) h2(1) y(1) E(2,11,15) D(6) t1(6) spc same_layoutD(6) [OF lay]
    by (simp add: fat32_create_dir_def new_buffer_def free_sector_def dot_sector_records Let_def)
  moreover have "fs_sound img (?t\<lparr>disk := y\<rparr>)"
    using y(2) h2(2) ok'(2) lay by (auto simp: fs_sound_def heap_inv_def same_layout_def)
  moreover have "list_records mx (dir_records img (?t\<lparr>disk := y\<rparr>) cls) no_parts 0 [] = Some (True, parts, 0, es @ [e])"
    using before(1) b(7) t(8,9) y(5) by (simp add: list_records_append del: upt_Suc)
  moreover have "same_layout s (?t\<lparr>disk := y\<rparr>)" using lay by (simp add: same_layout_def)
  ultimately show ?thesis using that y(3,4,6) b(8-11,13) h2(2) t1(7) E(11) by simp
qed

section \<open>Into the directory and out\<close>

lemma strcasecmp_same: "terminated a \<Longrightarrow> terminated b \<Longrightarrow> cstr a = cstr b \<Longrightarrow> strcasecmp_ascii a b = Some 0"
proof (induction a b rule: strcasecmp_ascii.induct)
  case (1 a as b bs)
  then show ?case by (cases "a = 0"; cases "b = 0") (auto simp: terminated_def)
qed (auto simp: terminated_def)

lemma find_dir_append: "find_dir es path = Some None \<Longrightarrow> find_dir (es @ fs) path = find_dir fs path"
  by (induction es) (auto simp: bind_eq_Some_conv split: if_splits)

text \<open>A listing gives the heap back as it was.\<close>

lemma list_dir_blocks:
  assumes "block_device dv drive img" and "reliable dv drive" and ok: "fs_sound img s"
    and hok: "heap_ok (fheap s) B L" and mem: "kmalloc 512 (fheap s) = Some (q, g)" "q \<noteq> 0"
    and chain: "fat_chain (fat_value img s) cl cls"
    and rec: "list_records mx (dir_records img s cls) no_parts 0 [] = Some (stop, parts, present, es)"
  obtains s' where "fat32_list_dir dv drive cl mx s = Some (of_nat (length es), es, s')" "fs_sound img s'"
    "same_volume img s s'" "heap_ok (fheap s') B L"
proof -
  obtain s' where s': "fat32_list_dir dv drive cl mx s = Some (of_nat (length es), es, s')" "fs_sound img s'" "same_volume img s s'"
    using list_dir_spec [OF assms(1-3) mem(1) chain, of mx] rec mem(2) by auto
  obtain spc where spc: "bpb_sectors_per_cluster s = Some spc" using spc_defined [OF ok] by blast
  let ?s = "s\<lparr>fheap := g\<rparr>" and ?sec = "load_bytes q 512 (hmem g)"
  obtain sec1 t where t: "same_but_cache img ?s t" "list_dir_loop dv drive mx cl no_parts 0 [] ?sec ?s = Some (of_nat (length es), es, sec1, t)"
    using list_dir_loop_spec [OF assms(1,2), of ?s spc cl cls mx no_parts 0 "[]" stop parts present es ?sec]
      ok chain spc rec by (auto simp: fs_sound_def)
  obtain h2 where h2: "kfree q (g\<lparr>hmem := put_bytes q sec1 (hmem g)\<rparr>) = Some h2" "heap_ok h2 B L"
    by (rule kmalloc_kfree_hmem [OF hok sector_small mem])
  have "fat32_list_dir dv drive cl mx s = Some (of_nat (length es), es, t\<lparr>fheap := h2\<rparr>)"
    using mem t(2) h2(1) same_but_cacheD(2) [OF t(1)] by (simp add: fat32_list_dir_def new_sector_def free_sector_def)
  then have "s' = t\<lparr>fheap := h2\<rparr>" using s'(1) by simp
  then show ?thesis using that [OF s'] h2(2) by simp
qed

text \<open>A name that \<open>fat32_resolve_path\<close> looks up in the current directory, short enough to be listed as it is.\<close>

definition plain_name :: "bytes \<Rightarrow> bool" where
  "plain_name xs \<longleftrightarrow> xs \<noteq> [] \<and> length xs \<le> 13 \<and> hd xs \<notin> {46, 47, 92} \<and> 58 \<notin> set xs \<and> 0xFF \<notin> set xs"

lemma change_dir_named:
  assumes "terminated name" and "plain_name (cstr name)"
    and "fat32_list_dir dv drive (current_dir_cluster s) 64 s = Some (n, es, s1)" and "0 \<le> sint n"
    and "find_dir es name = Some (Some c)" and "2 \<le> unat c"
  shows "fat32_change_dir dv drive name s = Some (0, s1\<lparr>current_dir_cluster := c\<rparr>)"
proof -
  obtain x xs where x: "cstr name = x # xs" using assms(2) by (cases "cstr name") (simp_all add: plain_name_def)
  obtain rest where n: "name = (x # xs) @ 0 # rest" using terminated_split [OF assms(1)] x
    by (metis terminated_split assms(1))
  have x0: "x \<noteq> 0" using cstr_no_zero [of name] x by auto
  have "name ! 1 \<noteq> 58" using assms(2) x n by (cases xs) (auto simp: plain_name_def)
  then have "fat32_resolve_path dv drive name s = Some (0, Some c, s1)"
    using assms(2-5) x n x0
    by (simp add: fat32_resolve_path_def drive_prefix_def is_root_path_def is_current_path_def is_parent_path_def plain_name_def)
  then show ?thesis using assms(6) by (simp add: fat32_change_dir_def word_le_nat_alt)
qed

lemma change_dir_up:
  assumes "fat32_list_dir dv drive (current_dir_cluster s) 2 s = Some (2, [e1, e2], s1)"
    and "e_first_cluster e2 \<noteq> current_dir_cluster s1" and "2 \<le> unat (e_first_cluster e2)"
  shows "fat32_change_dir dv drive (zlit ''..'') s = Some (0, s1\<lparr>current_dir_cluster := e_first_cluster e2\<rparr>)"
proof -
  have "e_first_cluster e2 \<noteq> 0" using assms(3) by auto
  then have "fat32_resolve_path dv drive (zlit ''..'') s = Some (0, Some (e_first_cluster e2), s1)"
    using assms(1,2)
    by (simp add: fat32_resolve_path_def drive_prefix_def is_root_path_def is_current_path_def is_parent_path_def lit_def)
  then show ?thesis using assms(3) by (simp add: fat32_change_dir_def word_le_nat_alt)
qed

lemma same_volume_view:
  assumes "same_volume img s t"
  shows "fat_value img (t\<lparr>current_dir_cluster := c\<rparr>) = fat_value img s"
    "dir_records img (t\<lparr>current_dir_cluster := c\<rparr>) = dir_records img s" "current_dir_cluster t = current_dir_cluster s"
proof -
  have same: "img (disk t) = img (disk s)"
    and t: "t = s\<lparr>disk := disk t, fheap := fheap t, cached_fat_sector := cached_fat_sector t, fat_cache := fat_cache t\<rparr>"
    using assms by (simp_all add: same_volume_def)
  have lay: "same_layout s (t\<lparr>current_dir_cluster := c\<rparr>)" by (subst t) (simp add: same_layout_def)
  show "fat_value img (t\<lparr>current_dir_cluster := c\<rparr>) = fat_value img s"
    by (intro ext fat_value_unchanged [OF lay]) (simp add: same)
  show "dir_records img (t\<lparr>current_dir_cluster := c\<rparr>) = dir_records img s"
    by (intro ext dir_records_unchanged [OF lay]) (simp add: same)
  show "current_dir_cluster t = current_dir_cluster s" by (subst t) simp
qed

text \<open>Entering the new directory by its name, listing it and leaving it.\<close>

lemma enter_and_leave:
  assumes dev: "block_device dv drive img" and rel: "reliable dv drive" and ok: "fs_sound img s" and hok: "heap_ok (fheap s) B L"
    and mem: "kmalloc 512 (fheap s) = Some (q, g)" "q \<noteq> 0"
    and name: "terminated name" "plain_name (cstr name)" and cl: "cl = current_dir_cluster s" "2 \<le> unat cl" "cl \<noteq> newcl"
    and chain: "fat_chain (fat_value img s) cl cls" "fat_chain (fat_value img s) newcl [newcl]" and new: "2 \<le> unat newcl"
    and here: "list_records 64 (dir_records img s cls) no_parts 0 [] = Some (stop, parts, present, es)" "length es \<le> 64"
      "find_dir es name = Some (Some newcl)"
    and there: "dir_records img s [newcl] = sector_records (dot_record 1 newcl @ dot_record 2 cl @ replicate 448 0) @ rest"
  obtains s2 d1 d2 s3 s4 where "fat32_change_dir dv drive name s = Some (0, s2)" "current_dir_cluster s2 = newcl"
    "fat32_list_dir dv drive newcl 64 s2 = Some (2, [d1, d2], s3)" "cstr (e_name d1) = [46]" "e_first_cluster d1 = newcl"
    "cstr (e_name d2) = [46, 46]" "e_first_cluster d2 = cl"
    "fat32_change_dir dv drive (zlit ''..'') s2 = Some (0, s4)" "current_dir_cluster s4 = cl"
proof -
  obtain t where t: "fat32_list_dir dv drive cl 64 s = Some (of_nat (length es), es, t)" "fs_sound img t"
    "same_volume img s t" "heap_ok (fheap t) B L"
    by (rule list_dir_blocks [OF dev rel ok hok mem chain(1) here(1)])
  have pos: "0 \<le> sint (of_nat (length es) :: i32)" using here(2) by (subst sint_word_of_nat32) simp_all
  let ?t = "t\<lparr>current_dir_cluster := newcl\<rparr>"
  have cd: "fat32_change_dir dv drive name s = Some (0, ?t)"
    by (rule change_dir_named [OF name _ pos here(3) new]) (simp add: t(1) cl(1) [symmetric])
  note V = same_volume_view [OF t(3)]
  have tok: "fs_sound img ?t" "heap_ok (fheap ?t) B L" "fat_chain (fat_value img ?t) newcl [newcl]"
    using t(2,4) chain(2) V(1) by (simp_all add: fs_sound_def cache_ok_def)
  obtain g2 where g2: "kmalloc 512 (fheap ?t) = Some (q, g2)"
    by (rule kmalloc_same_blocks [OF hok tok(2) sector_small mem(1)])
  note ls = list_dir_blocks [OF dev rel tok(1,2) g2 mem(2) tok(3)]
  obtain d1 d2 where d: "\<forall>mx\<ge>2. list_records mx (dir_records img ?t [newcl]) no_parts 0 [] = Some (True, no_parts, 0, [d1, d2])"
    "cstr (e_name d1) = [46]" "e_attr d1 = 0x10" "e_first_cluster d1 = newcl"
    "cstr (e_name d2) = [46, 46]" "e_attr d2 = 0x10" "e_first_cluster d2 = cl"
    unfolding V(2) there by (rule list_new_dir [of newcl cl rest])
  obtain t3 where t3: "fat32_list_dir dv drive newcl 64 ?t = Some (of_nat (length [d1, d2]), [d1, d2], t3)"
    by (rule ls [where mx = 64]) (use d(1) in auto)
  obtain t4 where t4: "fat32_list_dir dv drive newcl 2 ?t = Some (of_nat (length [d1, d2]), [d1, d2], t4)" "same_volume img ?t t4"
    by (rule ls [where mx = 2]) (use d(1) in auto)
  have "current_dir_cluster t4 = newcl" using same_volume_view(3) [OF t4(2)] by simp
  then have "fat32_change_dir dv drive (zlit ''..'') ?t = Some (0, t4\<lparr>current_dir_cluster := cl\<rparr>)"
    using change_dir_up [of dv drive ?t d1 d2 t4] t4(1) d(7) cl(2,3) by simp
  then show ?thesis using that [OF cd] t3 d(2,4,5,7) by simp
qed

section \<open>Properties\<close>

text \<open>
  C22. Creating a directory of a short name, changing into it and changing back. The name has 1 to 13
  characters, does not start with \<open>.\<close> or a slash, and contains no colon and no byte 0xFF (\<open>plain_name\<close>; longer
  names are created, but listed with their parts in reverse order, so in general they are not found again). On a disk without
  errors, on a volume whose clusters have sectors of their own, with memory, a free cluster, room for two
  records in the current directory, fewer than 64 entries in it and no directory of the name among them,
  \<open>fat32_create_dir\<close> takes the first free cluster, \<open>fat32_change_dir\<close> with the name leads to it, it lists \<open>.\<close> with itself and
  \<open>..\<close> with the directory it was created in and nothing else, and \<open>fat32_change_dir\<close> with \<open>..\<close> leads back there.
\<close>

theorem mkdir_cd_back:
  assumes "block_device dv drive img" and "reliable dv drive" and "writable dv drive" and "fs_sound img s" and "length junk = 512"
    and "terminated name" and "plain_name (cstr name)"
    and "fat_chain (fat_value img s) (current_dir_cluster s) cls" and "2 \<le> unat (current_dir_cluster s)"
    and "laid_out s count (newcl # cls)" and "first_free img s newcl" and "has_room img s cls 2"
    and "kmalloc 64 (fheap s) = Some (p, h)" and "p \<noteq> 0" and "kmalloc 512 (fheap s) = Some (q, g)" and "q \<noteq> 0"
    and "fat32_list_dir dv drive (current_dir_cluster s) 64 s = Some (v, es, s0)" and "length es < 64"
    and "find_dir es name = Some None"
  shows "\<exists>s1 s2 d1 d2 s3 s4. fat32_create_dir dv drive name junk s = Some (0, s1)
    \<and> fat32_change_dir dv drive name s1 = Some (0, s2) \<and> current_dir_cluster s2 = newcl
    \<and> fat32_list_dir dv drive newcl 64 s2 = Some (2, [d1, d2], s3)
    \<and> cstr (e_name d1) = lit ''.'' \<and> e_first_cluster d1 = newcl
    \<and> cstr (e_name d2) = lit ''..'' \<and> e_first_cluster d2 = current_dir_cluster s
    \<and> fat32_change_dir dv drive (zlit ''..'') s2 = Some (0, s4) \<and> current_dir_cluster s4 = current_dir_cluster s"
proof -
  let ?cl = "current_dir_cluster s" and ?xs = "cstr name"
  have name: "?xs \<noteq> []" "length ?xs \<le> 13" "length ?xs \<le> 255" "\<forall>c\<in>set ?xs. c \<noteq> 0xFF"
    using assms(7) by (auto simp: plain_name_def)
  have "1 \<le> length ?xs" using name(1) by (cases ?xs) simp_all
  then have one: "lfn_count (length ?xs) + 1 = 2" using name(2) unfolding lfn_count_def by linarith
  have "heap_inv (fheap s)" using assms(4) by (simp add: fs_sound_def)
  then obtain B L where hok: "heap_ok (fheap s) B L" by (auto simp: heap_inv_def)
  obtain used e0 rest p1 n1 where u: "dir_records img s cls = used @ e0 # rest" "list_all in_use used" "e0 ! 0 = 0"
    "length used mod 16 + (lfn_count (length ?xs) + 1) < 16" "list_records 64 used no_parts 0 [] = Some (False, p1, n1, es)" "parts_ok p1"
    by (rule room_listing [OF assms(1,2,4,8,12,15-18)]) (use one in simp)
  have mem: "kmalloc (of_nat ((lfn_count (length ?xs) + 1) * 32)) (fheap s) = Some (p, h)" unfolding one using assms(13) by simp
  obtain s1 parts e rest2 where s1: "fat32_create_dir dv drive name junk s = Some (0, s1)" "fs_sound img s1"
    "heap_ok (fheap s1) B L" "same_layout s s1" "current_dir_cluster s1 = ?cl"
    "fat_chain (fat_value img s1) ?cl cls" "fat_chain (fat_value img s1) newcl [newcl]"
    "list_records 64 (dir_records img s1 cls) no_parts 0 [] = Some (True, parts, 0, es @ [e])"
    "cstr (e_name e) = take 255 (if length ?xs \<le> 13 then ?xs
                                 else concat (rev (map (name_part_of ?xs) [1..<lfn_count (length ?xs) + 1])))"
    "e_attr e = 0x10" "e_first_cluster e = newcl" "e_size e = 0" "terminated (e_name e)"
    "dir_records img s1 [newcl] = sector_records (dot_record 1 newcl @ dot_record 2 ?cl @ replicate 448 0) @ rest2"
    by (rule create_dir_run [OF assms(1-4) hok assms(5,6) refl name(1,3,4) assms(8,10,11) u(1-4) mem assms(14) u(5,6) assms(18)])
  obtain g1 where g1: "kmalloc 512 (fheap s1) = Some (q, g1)"
    by (rule kmalloc_same_blocks [OF hok s1(3) sector_small assms(15)])
  have nm: "cstr (e_name e) = ?xs" using s1(9) name(2,3) by simp
  have found: "find_dir (es @ [e]) name = Some (Some newcl)"
    using find_dir_append [OF assms(19)] strcasecmp_same [OF s1(13) assms(6) nm] s1(10,11) by simp
  have "?cl \<in> set cls" using assms(8) u(1) by (cases cls) (auto simp: dir_records_def)
  then have apart: "?cl \<noteq> newcl"
    using new_cluster_apart(1) [OF assms(10)] spc_defined [OF assms(4)] u(1) by fastforce
  have len: "length (es @ [e]) \<le> 64" using assms(18) by simp
  show ?thesis
    by (rule enter_and_leave [OF assms(1,2) s1(2,3) g1 assms(16,6,7) s1(5) [symmetric] assms(9) apart s1(6,7)
          first_freeD(1) [OF assms(11)] s1(8) len found s1(14)])
      (use s1(1) in \<open>auto simp: lit_def\<close>)
qed

text \<open>A directory named bin in the root with the file FOO.TXT; cluster 4 is the first free one.\<close>

theorem mkdir_cd_back_witness:
  "\<exists>s1 s2 s4. fat32_create_dir whole_ram 0 (zlit ''bin'') (replicate 512 0) demo_one = Some (0, s1)
    \<and> fat32_change_dir whole_ram 0 (zlit ''bin'') s1 = Some (0, s2) \<and> current_dir_cluster s2 = 4
    \<and> fat32_change_dir whole_ram 0 (zlit ''..'') s2 = Some (0, s4) \<and> current_dir_cluster s4 = 2"
proof -
  obtain h g where h: "kmalloc 512 boot_heap = Some (0x200020, h)" "kmalloc 64 boot_heap = Some (0x200020, g)"
    using boot_heap_kmalloc_512 kmalloc_first_fit [OF boot_heap_ok, of 64]
    by (auto simp: first_fit_def fits_def round16_def carve_def ad_def)
  obtain e1 s0 where s0: "fat32_list_dir whole_ram 0 (current_dir_cluster demo_one) 64 demo_one = Some (1, [e1], s0)" "e_attr e1 = 0x20"
    by (rule demo_one_listing)
  have fat: "fat_value image512 demo_one 3 = 0x0FFFFFFF" "fat_value image512 demo_one 4 = 0"
    by (simp_all add: demo_one_def fat_value_def entry_of_def ent_off_def fat_lba_def image512_def demo_fs_def
        demo_fat_def get32_def nth_append)
  have "next_free_hint demo_one = 3" "total_clusters demo_one = 8" by (simp_all add: demo_one_def demo_fs_def)
  then have free: "first_free image512 demo_one 4"
    using fat by (simp add: first_free_def probe_def upt_rec)
  have sec: "dir_sectors demo_one [4, 2] = [42, 40]"
    by (simp add: dir_sectors_def cluster_sectors_def demo_one_def demo_fs_def bpb_sectors_per_cluster_def fat32_cluster_to_lba_def)
  have out: "laid_out demo_one 1 [4, 2]"
    by (simp add: laid_out_def sec) (simp add: demo_one_def demo_fs_def fats_fit_def in_fat_def)
  have name: "terminated (zlit ''bin'')" "plain_name (cstr (zlit ''bin''))" by (simp_all add: lit_def plain_name_def)
  have room: "has_room image512 demo_one [2] 2"
    by (simp add: has_room_def demo_one_records in_use_def takeWhile_replicate) (simp add: lit_def)
  show ?thesis
    using mkdir_cd_back [where dv = whole_ram and drive = 0 and img = image512 and s = demo_one and junk = "replicate 512 0"
        and name = "zlit ''bin''" and cls = "[2]" and count = 1 and newcl = 4 and p = "0x200020" and h = g and q = "0x200020" and g = h
        and v = 1 and es = "[e1]" and s0 = s0]
      name demo_one_chain free out room h s0 demo_one_sound by auto
qed

end
