(* ===== verification/Fat32_Update.thy ===== *)
theory Fat32_Update
  imports Fat32_Subdir
begin

text \<open>
  Growing a file with \<open>fat32_write_file_data\<close> of drivers/fs/fat32.c: how the call gets to the loop that stores the
  new size in the directory, and that it does not get out of it. The code is in Fat32_Write.
\<close>

section \<open>Writing into the first sector of a file\<close>

lemma cluster_bytes_size:
  assumes "spc \<noteq> 0"
  shows "unat (ucast (spc :: u8) * 512 :: u32) = unat spc * 512" "512 \<le> unat (ucast spc * 512 :: u32)"
proof -
  have "unat spc < 256" using unsigned_less [of spc, where ?'a = nat] by simp
  then show u: "unat (ucast spc * 512 :: u32) = unat spc * 512"
    by (simp add: unat_word_ariths unsigned_ucast_eq take_bit_nat_eq_self)
  have "0 < unat spc" using assms by (simp add: unat_gt_0)
  then show "512 \<le> unat (ucast spc * 512 :: u32)" unfolding u by simp
qed

lemma write_first_sector:
  fixes sz :: u32 and buf :: bytes
  assumes dev: "block_device dv drive img" and rel: "reliable dv drive" and wrt: "writable dv drive"
    and sz: "0 < sz" "unat sz \<le> 512" "unat sz \<le> length buf"
    and lba: "fat32_cluster_to_lba c s = Some fl"
  obtains sec d where "write_loop dv drive buf sz csize c 0 0 sector s = Some (True, sec, s\<lparr>disk := d\<rparr>)"
    "img d = (img (disk s))(fl := blit (img (disk s) fl) 0 (take (unat sz) buf))"
proof -
  let ?b = "blit (img (disk s) fl) 0 (take (unat sz) buf)"
  have len: "length (img (disk s) fl) = 512" by (rule block_deviceD(1) [OF dev])
  have b: "length ?b = 512" using len sz(2) by (simp add: blit_def min_def)
  have last: "write_loop dv drive buf sz csize c sz k sec t = Some (True, sec, t)" for k sec t
    by (subst write_loop.simps) simp
  have "\<exists>sec d. write_chunk dv drive buf sz csize c 0 0 sector s = Some (Some sz, sec, s\<lparr>disk := d\<rparr>)
      \<and> img d = (img (disk s))(fl := ?b)"
  proof (cases "sz \<ge> 512")
    case True
    then have s512: "unat sz = 512" using sz(2) by (simp add: word_le_nat_alt)
    then have eq: "sz = 512" by (intro word_unat_eq_iff [THEN iffD2]) (simp add: s512)
    have data: "?b = take 512 buf" using len sz(3) s512 by (simp add: blit_def)
    obtain d where d: "write_sector dv drive fl ?b s = (0, s\<lparr>disk := d\<rparr>)" "img d = (img (disk s))(fl := ?b)"
      by (rule write_sector_writable [OF dev wrt b])
    then have "write_chunk dv drive buf sz csize c 0 0 sector s = Some (Some sz, sector, s\<lparr>disk := d\<rparr>)"
      using lba sz(3) unfolding data by (simp add: write_chunk_def slice_def eq)
    then show ?thesis using d(2) by blast
  next
    case False
    obtain d where d: "read_sector dv drive fl sector s = (0, img (disk s) fl, s\<lparr>disk := d\<rparr>)" "img d = img (disk s)"
      by (rule read_sector_reliable [OF dev rel])
    obtain e where e: "write_sector dv drive fl ?b (s\<lparr>disk := d\<rparr>) = (0, s\<lparr>disk := d\<rparr>\<lparr>disk := e\<rparr>)"
      "img e = (img (disk (s\<lparr>disk := d\<rparr>)))(fl := ?b)"
      by (rule write_sector_writable [OF dev wrt b])
    have m: "memcpy (img (disk s) fl) 0 buf (unat sz) = Some ?b" using len sz by (simp add: memcpy_blit)
    have "512 > sz" using False by simp
    then have "write_chunk dv drive buf sz csize c 0 0 sector s = Some (Some sz, ?b, s\<lparr>disk := e\<rparr>)"
      using lba False d(1) e(1) m by (simp add: write_chunk_def Let_def)
    then show ?thesis using e(2) d(2) by auto
  qed
  then obtain sec d where "write_chunk dv drive buf sz csize c 0 0 sector s = Some (Some sz, sec, s\<lparr>disk := d\<rparr>)"
    "img d = (img (disk s))(fl := ?b)" by blast
  moreover from this(1) have "write_loop dv drive buf sz csize c 0 0 sector s = Some (True, sec, s\<lparr>disk := d\<rparr>)"
    using sz(1) by (subst write_loop.simps) (simp add: last)
  ultimately show ?thesis using that by blast
qed

section \<open>The way to the update\<close>

text \<open>An existing file of one cluster, and at most a sector of data at its start.\<close>

lemma small_write_contents:
  fixes sz :: u32 and buf junk :: bytes
  assumes dev: "block_device dv drive img" and rel: "reliable dv drive" and wrt: "writable dv drive"
    and ok: "cache_ok img s" and hok: "heap_ok (fheap s) B L" and mem: "kmalloc 512 (fheap s) = Some (q, g)" "q \<noteq> 0"
    and one: "0x0FFFFFF8 \<le> fat_value img s c" and spc: "bpb_sectors_per_cluster s = Some spc" "spc \<noteq> 0"
    and sz: "0 < sz" "unat sz \<le> 512" "unat sz \<le> length buf" and lba: "fat32_cluster_to_lba c s = Some fl"
  obtains t where "write_contents dv drive buf sz 0 junk list c s = Some (Inr t)"
    "img (disk t) = (img (disk s))(fl := blit (img (disk s) fl) 0 (take (unat sz) buf))"
    "same_layout s t" "current_dir_cluster t = current_dir_cluster s" "heap_ok (fheap t) B L"
proof -
  obtain s1 where s1: "fat32_get_next_cluster dv drive c s = Some (fat_value img s c, s1)" "same_but_cache img s s1"
    by (rule get_next_cluster_reliable [OF dev rel ok])
  note same = same_but_cacheD [OF s1(2)]
  let ?cs = "ucast spc * 512 :: u32"
  have cs: "?cs \<noteq> 0" "512 \<le> unat ?cs" "unat ?cs < 2 ^ 17"
    using cluster_bytes_size [OF spc(2)] unsigned_less [of spc, where ?'a = nat] by (auto simp: unat_eq_0 [symmetric])
  have "unat (sz + ?cs - 1) = unat sz + unat ?cs - 1"
  proof -
    have "unat (sz + ?cs) = unat sz + unat ?cs" using sz(2) cs(3) by (simp add: unat_word_ariths)
    moreover have "1 \<le> sz + ?cs" using calculation cs(2) by (simp add: word_le_nat_alt)
    ultimately show ?thesis by (simp add: unat_sub)
  qed
  moreover have "(unat sz + unat ?cs - 1) div unat ?cs = 1"
    using sz(1,2) cs(2) by (intro div_nat_eqI) (auto simp: word_less_nat_alt)
  ultimately have clusters: "(sz + ?cs - 1) div ?cs = 1" by (simp add: word_unat_eq_iff unat_div)
  have ends: "chain_end dv drive c 1 s = Some (c, 1, s1)"
    using s1(1) one by (subst chain_end.simps) simp
  have grow: "grow_chain dv drive junk 1 c 1 s1 = Some (True, s1)"
    by (subst grow_chain.simps) simp
  have hok1: "heap_ok (fheap s1) B L" using hok same(2) by simp
  obtain g1 where g1: "kmalloc 512 (fheap s1) = Some (q, g1)" using mem(1) same(2) by auto
  let ?s = "s1\<lparr>fheap := g1\<rparr>" and ?sec = "load_bytes q 512 (hmem g1)"
  have new: "new_sector s1 = Some (q, ?sec, ?s)" using g1 by (simp add: new_sector_def)
  have "fat32_cluster_to_lba c ?s = Some fl"
    using lba same(3,4,6) by (simp add: fat32_cluster_to_lba_def bpb_sectors_per_cluster_def)
  from write_first_sector [OF dev rel wrt sz this, of ?cs ?sec]
  obtain sec d where w: "write_loop dv drive buf sz ?cs c 0 0 ?sec ?s = Some (True, sec, ?s\<lparr>disk := d\<rparr>)"
    "img d = (img (disk s))(fl := blit (img (disk s) fl) 0 (take (unat sz) buf))"
    using same(1) by auto
  obtain g2 where g2: "kfree q (g1\<lparr>hmem := put_bytes q sec (hmem g1)\<rparr>) = Some g2" "heap_ok g2 B L"
    by (rule kmalloc_kfree_hmem [OF hok1 sector_small g1 mem(2)])
  let ?t = "?s\<lparr>disk := d\<rparr>\<lparr>fheap := g2\<rparr>"
  have "write_contents dv drive buf sz 0 junk list c s = Some (Inr ?t)"
    using spc cs(1) clusters ends grow new w(1) mem(2) g2(1)
    by (simp add: write_contents_def Let_def free_sector_def)
  moreover have "same_layout s ?t" using same_but_cache_layout [OF s1(2)] by (simp add: same_layout_def)
  ultimately show ?thesis using that [of ?t] w(2) g2(2) same(11) by simp
qed

section \<open>The update that goes on\<close>

lemma found_at_heap: "found_at img name need cl k (s\<lparr>fheap := h\<rparr>) = found_at img name need cl k s"
  by (simp add: found_at_def bpb_sectors_per_cluster_def fat32_cluster_to_lba_def)

lemma write_stuck:
  assumes "sz \<noteq> 0" and "open_for_write dv drive name offset junk s0 = Some (Inr (list, ent, first_cluster, s1))"
    and "write_contents dv drive buf sz offset junk list first_cluster s1 = Some (Inr s2)" and "e_size ent < offset + sz"
    and "kmalloc 512 (fheap s2) = Some (q, h)" and "q \<noteq> 0"
    and "update_loop dv drive (e_name ent) (offset + sz) first_cluster (0, load_bytes q 512 (hmem h), s2\<lparr>fheap := h\<rparr>) = None"
  shows "fat32_write_file_data dv drive name buf sz offset junk s0 = None"
  using assms by (simp add: fat32_write_file_data_def update_entry_def new_sector_def)

section \<open>A volume with an empty file\<close>

text \<open>The root has the file FOO.TXT of size 0 with the cluster 3.\<close>

definition empty_foo :: bytes where
  "empty_foo = lit ''FOO     TXT'' @ [0x20] @ replicate 14 0 @ [3, 0, 0, 0, 0, 0] @ replicate 480 0"

definition demo_empty :: "(u32 \<Rightarrow> bytes) fs" where
  "demo_empty = demo_fs\<lparr>disk := (disk demo_fs)(40 := empty_foo)\<rparr>"

lemma demo_empty_sound: "fs_sound image512 demo_empty" "fheap demo_empty = boot_heap" "current_dir_cluster demo_empty = 2"
  by (simp_all add: demo_empty_def fs_sound_def cache_ok_def demo_fs_def boot_heap_inv)

lemma demo_empty_fat: "fat_value image512 demo_empty 2 = 0x0FFFFFFF" "fat_value image512 demo_empty 3 = 0x0FFFFFFF"
  by (simp_all add: demo_empty_def fat_value_def entry_of_def ent_off_def fat_lba_def image512_def demo_fs_def
      demo_fat_def get32_def nth_append)

lemma demo_empty_heap:
  obtains h g where "kmalloc list_size boot_heap = Some (0x200020, h)" "heap_ok h 0x200000 [(0x4300, False), (0xFFBCC0, True)]"
    "kmalloc 512 h = Some (0x204340, g)"
proof -
  obtain h where h: "kmalloc list_size boot_heap = Some (0x200020, h)" "heap_ok h 0x200000 [(0x4300, False), (0xFFBCC0, True)]"
    using kmalloc_first_fit [OF boot_heap_ok, of list_size]
    by (auto simp: list_size_def first_fit_def fits_def round16_def carve_def ad_def)
  obtain g where "kmalloc 512 h = Some (0x204340, g)"
    using kmalloc_first_fit [OF h(2) sector_small]
    by (auto simp: first_fit_def fits_def round16_def carve_def ad_def span_def)
  then show ?thesis by (rule that [OF h])
qed

text \<open>The list of the directory.\<close>

abbreviation foo_record :: bytes where
  "foo_record \<equiv> lit ''FOO     TXT'' @ [0x20] @ replicate 14 0 @ [3, 0, 0, 0, 0, 0]"

lemma demo_empty_entry:
  obtains e where "list_records 64 (dir_records image512 demo_empty [2]) no_parts 0 [] = Some (True, no_parts, 0, [e])"
    "cstr (e_name e) = lit ''FOO.TXT''" "terminated (e_name e)" "e_attr e = 0x20" "e_first_cluster e = 3" "e_size e = 0"
proof -
  have r: "length foo_record = 32" "foo_record ! 11 = 0x20" "record_cluster foo_record = 3" "the (get32 foo_record 28) = 0"
    by (simp_all add: lit_def record_cluster_def get16_def get32_def nth_append)
  have n: "entry_name foo_record no_parts 0 = lit ''FOO.TXT''"
    by (simp add: entry_name_def short_text_def lit_def)
  obtain e where e: "make_entry foo_record 0 no_parts 0 = Some e" "cstr (e_name e) = lit ''FOO.TXT''" "terminated (e_name e)"
    "e_attr e = 0x20" "e_first_cluster e = 3" "e_size e = 0"
    by (rule make_entry_spec [OF r(1) no_parts_ok zero_le]) (simp only: n r(2-4))
  have "dir_sectors demo_empty [2] = [40]"
    by (simp add: dir_sectors_def cluster_sectors_def demo_empty_def demo_fs_def bpb_sectors_per_cluster_def fat32_cluster_to_lba_def)
  then have "dir_records image512 demo_empty [2] = sector_records empty_foo"
    unfolding dir_records_sectors by (simp add: demo_empty_def image512_def empty_foo_def lit_def)
  moreover have "sector_records empty_foo = foo_record # replicate 15 (replicate 32 0)"
    by (simp add: sector_records_def sector_offsets_def record_at_def empty_foo_def lit_def upt_rec)
       (simp add: numeral_eq_Suc)
  moreover have "replicate 15 (replicate 32 (0 :: u8)) = replicate 32 0 # replicate 14 (replicate 32 0)"
    by (simp flip: replicate_Suc)
  ultimately have "list_records 64 (dir_records image512 demo_empty [2]) no_parts 0 [] = Some (True, no_parts, 0, [e])"
    using e(1) by (simp add: lit_def)
  then show ?thesis by (rule that) (use e in simp_all)
qed

lemma foo_first:
  assumes "take 11 (drop 0 a) = n" and "a ! (0 + 11) = 0x20" and "length a = 512" and "offs = 0 # offs1"
    and "shortname_to_string n (replicate 64 0) = Some tmp" and "strcasecmp_ascii tmp name = Some 0"
  shows "\<exists>x. update_in_sector a name need cl offs = Some (Some x)"
  using assms by (simp add: put32_blit put16_blit)

lemma empty_foo_found:
  assumes "cstr name = lit ''FOO.TXT''" and "terminated name"
  shows "\<exists>x. update_in_sector empty_foo name need cl sector_offsets = Some (Some x)"
proof -
  let ?tmp = "blit (replicate 64 0) 0 (short_text (lit ''FOO     TXT'') @ [0])"
  have rec: "take 11 (drop 0 empty_foo) = lit ''FOO     TXT''" "empty_foo ! (0 + 11) = 0x20" "length empty_foo = 512"
    by (simp_all add: empty_foo_def lit_def)
  have tmp: "shortname_to_string (lit ''FOO     TXT'') (replicate 64 0) = Some ?tmp"
    by (rule shortname_to_string_spec) (simp_all add: lit_def)
  have "?tmp = zlit ''FOO.TXT'' @ replicate 56 0" by (simp add: short_text_def lit_def blit_def)
  moreover have "cstr (zlit ''FOO.TXT'' @ replicate 56 0) = lit ''FOO.TXT''" by (simp add: lit_def)
  ultimately have "strcasecmp_ascii ?tmp name = Some 0"
    using assms by (intro strcasecmp_same) (simp_all add: terminated_def lit_def)
  moreover have "sector_offsets = 0 # tl sector_offsets" by (simp add: sector_offsets_def upt_rec)
  ultimately show ?thesis using foo_first [OF rec _ tmp] by blast
qed

lemma demo_empty_run:
  obtains e s1 s2 h where
    "open_for_write whole_ram 0 (zlit ''FOO.TXT'') 0 (replicate 512 0) demo_empty = Some (Inr (0x200020, e, 3, s1))"
    "write_contents whole_ram 0 [1, 2, 3, 4, 5] 5 0 (replicate 512 0) 0x200020 3 s1 = Some (Inr s2)"
    "e_size e = 0" "kmalloc 512 (fheap s2) = Some (0x204340, h)" "found_at image512 (e_name e) 5 3 0 s2"
proof -
  obtain h g where h: "kmalloc list_size boot_heap = Some (0x200020, h)" "heap_ok h 0x200000 [(0x4300, False), (0xFFBCC0, True)]"
    "kmalloc 512 h = Some (0x204340, g)" by (rule demo_empty_heap)
  let ?s = "demo_empty\<lparr>fheap := h\<rparr>"
  have lay: "same_layout demo_empty ?s" by (simp add: same_layout_def)
  have view: "fat_value image512 ?s c = fat_value image512 demo_empty c" "dir_records image512 ?s cls = dir_records image512 demo_empty cls" for c cls
    using fat_value_unchanged [OF lay] dir_records_unchanged [OF lay] by simp_all
  obtain e where e: "list_records 64 (dir_records image512 ?s [2]) no_parts 0 [] = Some (True, no_parts, 0, [e])"
    "cstr (e_name e) = lit ''FOO.TXT''" "terminated (e_name e)" "e_attr e = 0x20" "e_first_cluster e = 3" "e_size e = 0"
    unfolding view by (rule demo_empty_entry)
  have sound: "fs_sound image512 ?s" "heap_ok (fheap ?s) 0x200000 [(0x4300, False), (0xFFBCC0, True)]"
    "kmalloc 512 (fheap ?s) = Some (0x204340, g)" "(0x204340 :: u64) \<noteq> 0"
    using demo_empty_sound(1) h(2,3) by (auto simp: fs_sound_def heap_inv_def cache_ok_def)
  have chain: "fat_chain (fat_value image512 ?s) 2 [2]" by (simp add: view demo_empty_fat)
  obtain s1 where s1: "fat32_list_dir whole_ram 0 2 64 ?s = Some (of_nat (length [e]), [e], s1)" "fs_sound image512 s1"
    "same_volume image512 ?s s1" "heap_ok (fheap s1) 0x200000 [(0x4300, False), (0xFFBCC0, True)]"
    by (rule list_dir_blocks [OF ram_disk_device ram_disk_reliable sound chain e(1)])
  have "strcasecmp_ascii (e_name e) (zlit ''FOO.TXT'') = Some 0"
    using e(2,3) by (intro strcasecmp_same) (simp_all add: terminated_def lit_def)
  then have open_run: "open_for_write whole_ram 0 (zlit ''FOO.TXT'') 0 (replicate 512 0) demo_empty = Some (Inr (0x200020, e, 3, s1))"
    using h(1) s1(1) e(4,5) demo_empty_sound(2,3) by (simp add: open_for_write_def locate_file_def)
  have s1_is: "s1 = ?s\<lparr>disk := disk s1, fheap := fheap s1, cached_fat_sector := cached_fat_sector s1, fat_cache := fat_cache s1\<rparr>"
    and img: "image512 (disk s1) = image512 (disk demo_empty)"
    using s1(3) by (simp_all add: same_volume_def)
  have lay1: "same_layout demo_empty s1" "current_dir_cluster s1 = 2"
    by (subst s1_is, simp add: same_layout_def) (subst s1_is, simp add: demo_empty_sound(3))
  have "fat_value image512 s1 3 = 0x0FFFFFFF"
    using fat_value_unchanged [OF lay1(1)] img demo_empty_fat(2) by simp
  then have one: "0x0FFFFFF8 \<le> fat_value image512 s1 3" by simp
  have lba: "bpb_sectors_per_cluster demo_empty = Some 1" "fat32_cluster_to_lba 3 demo_empty = Some 41" "fat32_cluster_to_lba 2 demo_empty = Some 40"
    by (simp_all add: demo_empty_def demo_fs_def bpb_sectors_per_cluster_def fat32_cluster_to_lba_def)
  have lba1: "bpb_sectors_per_cluster s1 = Some 1" "fat32_cluster_to_lba 3 s1 = Some 41"
    unfolding same_layoutD [OF lay1(1)] by (rule lba)+
  obtain g1 where g1: "kmalloc 512 (fheap s1) = Some (0x204340, g1)"
    by (rule kmalloc_same_blocks [OF h(2) s1(4) sector_small h(3)])
  have ok1: "cache_ok image512 s1" using s1(2) by (simp add: fs_sound_def)
  obtain s2 where s2: "write_contents whole_ram 0 [1, 2, 3, 4, 5] 5 0 (replicate 512 0) 0x200020 3 s1 = Some (Inr s2)"
    "image512 (disk s2) = (image512 (disk s1))(41 := blit (image512 (disk s1) 41) 0 (take (unat (5 :: u32)) [1, 2, 3, 4, 5]))"
    "same_layout s1 s2" "current_dir_cluster s2 = current_dir_cluster s1" "heap_ok (fheap s2) 0x200000 [(0x4300, False), (0xFFBCC0, True)]"
    by (rule small_write_contents [OF ram_disk_device ram_disk_reliable ram_disk_writable ok1 s1(4) g1 sound(4) one lba1(1) _ _ _ _ lba1(2),
        where buf = "[1, 2, 3, 4, 5]" and sz = 5 and junk = "replicate 512 0" and list = "0x200020"]) simp_all
  obtain g2 where g2: "kmalloc 512 (fheap s2) = Some (0x204340, g2)"
    by (rule kmalloc_same_blocks [OF h(2) s2(5) sector_small h(3)])
  have lay2: "same_layout demo_empty s2" by (rule same_layout_trans [OF lay1(1) s2(3)])
  have "image512 (disk s2) 40 = empty_foo"
    using img by (simp add: s2(2)) (simp add: demo_empty_def image512_def empty_foo_def lit_def)
  then have "found_at image512 (e_name e) 5 3 0 s2"
    using empty_foo_found [OF e(2,3), of 5 3] lba(1,3) lay1(2) s2(4)
    by (simp add: found_at_def same_layoutD [OF lay2])
  then show ?thesis by (rule that [OF open_run s2(1) e(6) g2])
qed

section \<open>Properties\<close>

text \<open>
  C32. A write that makes a file larger does not return. Let the file be found or created
  (\<open>open_for_write\<close>) and the data written (\<open>write_contents\<close>), let the new end be behind the size in the entry, let
  there be memory for a sector, and let one of the sectors of the first cluster of the current directory have a record
  with the name of the entry. Then, on a disk without errors, every round of the loop that stores
  the new size succeeds and goes on to a next one, however many there have been, so \<open>fat32_write_file_data\<close> has no
  result: after the record is found \<open>sc = 0xFF\<close> becomes 0 by the \<open>sc++\<close> of the outer loop.
\<close>

theorem update_never_returns:
  assumes "block_device dv drive img" and "reliable dv drive" and "writable dv drive" and "sz \<noteq> 0"
    and "open_for_write dv drive name offset junk s0 = Some (Inr (list, ent, first_cluster, s1))"
    and "write_contents dv drive buf sz offset junk list first_cluster s1 = Some (Inr s2)"
    and "e_size ent < offset + sz" and "kmalloc 512 (fheap s2) = Some (q, h)" and "q \<noteq> 0"
    and "found_at img (e_name ent) (offset + sz) first_cluster k s2"
  shows "(\<forall>n. \<exists>c. update_rounds dv drive (e_name ent) (offset + sz) first_cluster n
      (0, load_bytes q 512 (hmem h), s2\<lparr>fheap := h\<rparr>) = Some (Inr c))
    \<and> fat32_write_file_data dv drive name buf sz offset junk s0 = None"
proof -
  have "found_at img (e_name ent) (offset + sz) first_cluster k (s2\<lparr>fheap := h\<rparr>)" by (simp add: found_at_heap assms(10))
  then have on: "\<forall>n. \<exists>c. update_rounds dv drive (e_name ent) (offset + sz) first_cluster n
      (0, load_bytes q 512 (hmem h), s2\<lparr>fheap := h\<rparr>) = Some (Inr c)"
    using update_rounds_go_on [OF assms(1-3)] by simp
  show ?thesis using on write_stuck [OF assms(4-9) update_loop_stuck [OF on]] by blast
qed

text \<open>Writing five bytes to the empty file FOO.TXT.\<close>

theorem update_never_returns_witness:
  "fat32_write_file_data whole_ram 0 (zlit ''FOO.TXT'') [1, 2, 3, 4, 5] 5 0 (replicate 512 0) demo_empty = None"
proof -
  obtain e s1 s2 h where run:
    "open_for_write whole_ram 0 (zlit ''FOO.TXT'') 0 (replicate 512 0) demo_empty = Some (Inr (0x200020, e, 3, s1))"
    "write_contents whole_ram 0 [1, 2, 3, 4, 5] 5 0 (replicate 512 0) 0x200020 3 s1 = Some (Inr s2)"
    "e_size e = 0" "kmalloc 512 (fheap s2) = Some (0x204340, h)" "found_at image512 (e_name e) 5 3 0 s2"
    by (rule demo_empty_run)
  show ?thesis
    using update_never_returns [where dv = whole_ram and drive = 0 and img = image512 and sz = 5 and offset = 0 and k = 0,
        OF ram_disk_device ram_disk_reliable ram_disk_writable _ run(1,2) _ run(4)] run(3,5) by simp
qed

end
