(* ===== verification/Fat32_Layout.thy ===== *)
theory Fat32_Layout
  imports Fat32_Dir
begin

text \<open>
  The packed structures of include/fat32.h, which the file system lays over the bytes of a sector: the
  boot sector and the two kinds of directory records. The code of drivers/fs/fat32.c is modelled on the bytes; here the
  offsets it uses are shown to be the fields of the structures, and mounting is described with them.
\<close>

section \<open>The structures\<close>

definition le16 :: "bytes \<Rightarrow> nat \<Rightarrow> u16" where
  "le16 b i = ucast (b ! i) OR push_bit 8 (ucast (b ! (i + 1)))"

definition le32 :: "bytes \<Rightarrow> nat \<Rightarrow> u32" where
  "le32 b i = ucast (b ! i) OR push_bit 8 (ucast (b ! (i + 1))) OR push_bit 16 (ucast (b ! (i + 2)))
     OR push_bit 24 (ucast (b ! (i + 3)))"

definition part_of :: "bytes \<Rightarrow> nat \<Rightarrow> nat \<Rightarrow> bytes" where
  "part_of b i n = take n (drop i b)"

record fat32_bpb_t =
  jump_boot :: bytes
  oem_name :: bytes
  bytes_per_sector :: u16
  sectors_per_cluster :: u8
  reserved_sector_count :: u16
  table_count :: u8
  root_entry_count :: u16
  total_sectors_16 :: u16
  media_type :: u8
  table_size_16 :: u16
  sectors_per_track :: u16
  head_side_count :: u16
  hidden_sector_count :: u32
  total_sectors_32 :: u32
  table_size_32 :: u32
  ext_flags :: u16
  fat_version :: u16
  root_cluster :: u32
  fat_info :: u16
  backup_BS_sector :: u16
  reserved_0 :: bytes
  drive_number :: u8
  reserved_1 :: u8
  boot_signature :: u8
  volume_id :: u32
  volume_label :: bytes
  fat_type_label :: bytes

definition bpb_of :: "bytes \<Rightarrow> fat32_bpb_t" where
  "bpb_of b = \<lparr>jump_boot = part_of b 0 3, oem_name = part_of b 3 8, bytes_per_sector = le16 b 11, sectors_per_cluster = b ! 13,
     reserved_sector_count = le16 b 14, table_count = b ! 16, root_entry_count = le16 b 17, total_sectors_16 = le16 b 19,
     media_type = b ! 21, table_size_16 = le16 b 22, sectors_per_track = le16 b 24, head_side_count = le16 b 26,
     hidden_sector_count = le32 b 28, total_sectors_32 = le32 b 32, table_size_32 = le32 b 36, ext_flags = le16 b 40,
     fat_version = le16 b 42, root_cluster = le32 b 44, fat_info = le16 b 48, backup_BS_sector = le16 b 50,
     reserved_0 = part_of b 52 12, drive_number = b ! 64, reserved_1 = b ! 65, boot_signature = b ! 66, volume_id = le32 b 67,
     volume_label = part_of b 71 11, fat_type_label = part_of b 82 8\<rparr>"

definition bpb_bytes :: "fat32_bpb_t \<Rightarrow> bytes" where
  "bpb_bytes s = jump_boot s @ oem_name s @ bytes16 (bytes_per_sector s) @ [sectors_per_cluster s]
     @ bytes16 (reserved_sector_count s) @ [table_count s] @ bytes16 (root_entry_count s) @ bytes16 (total_sectors_16 s)
     @ [media_type s] @ bytes16 (table_size_16 s) @ bytes16 (sectors_per_track s) @ bytes16 (head_side_count s)
     @ bytes32 (hidden_sector_count s) @ bytes32 (total_sectors_32 s) @ bytes32 (table_size_32 s) @ bytes16 (ext_flags s)
     @ bytes16 (fat_version s) @ bytes32 (root_cluster s) @ bytes16 (fat_info s) @ bytes16 (backup_BS_sector s)
     @ reserved_0 s @ [drive_number s, reserved_1 s, boot_signature s] @ bytes32 (volume_id s) @ volume_label s
     @ fat_type_label s"

record fat32_dir_entry_t =
  de_name :: bytes
  de_attr :: u8
  ntres :: u8
  crt_time_tenth :: u8
  crt_time :: u16
  crt_date :: u16
  lst_acc_date :: u16
  first_cluster_high :: u16
  wrt_time :: u16
  wrt_date :: u16
  first_cluster_low :: u16
  file_size :: u32

definition dir_entry_of :: "bytes \<Rightarrow> fat32_dir_entry_t" where
  "dir_entry_of b = \<lparr>de_name = part_of b 0 11, de_attr = b ! 11, ntres = b ! 12, crt_time_tenth = b ! 13, crt_time = le16 b 14,
     crt_date = le16 b 16, lst_acc_date = le16 b 18, first_cluster_high = le16 b 20, wrt_time = le16 b 22, wrt_date = le16 b 24,
     first_cluster_low = le16 b 26, file_size = le32 b 28\<rparr>"

definition dir_entry_bytes :: "fat32_dir_entry_t \<Rightarrow> bytes" where
  "dir_entry_bytes e = de_name e @ [de_attr e, ntres e, crt_time_tenth e] @ bytes16 (crt_time e) @ bytes16 (crt_date e)
     @ bytes16 (lst_acc_date e) @ bytes16 (first_cluster_high e) @ bytes16 (wrt_time e) @ bytes16 (wrt_date e)
     @ bytes16 (first_cluster_low e) @ bytes32 (file_size e)"

record fat32_lfn_entry_t =
  lfn_order :: u8
  name1 :: "u16 list"
  lfn_attr :: u8
  lfn_type :: u8
  lfn_checksum :: u8
  name2 :: "u16 list"
  lfn_cluster_low :: u16
  name3 :: "u16 list"

definition words_of :: "bytes \<Rightarrow> nat \<Rightarrow> nat \<Rightarrow> u16 list" where
  "words_of b i n = map (\<lambda>k. le16 b (i + 2 * k)) [0..<n]"

definition lfn_entry_of :: "bytes \<Rightarrow> fat32_lfn_entry_t" where
  "lfn_entry_of b = \<lparr>lfn_order = b ! 0, name1 = words_of b 1 5, lfn_attr = b ! 11, lfn_type = b ! 12, lfn_checksum = b ! 13,
     name2 = words_of b 14 6, lfn_cluster_low = le16 b 26, name3 = words_of b 28 2\<rparr>"

definition lfn_entry_bytes :: "fat32_lfn_entry_t \<Rightarrow> bytes" where
  "lfn_entry_bytes e = [lfn_order e] @ concat (map bytes16 (name1 e)) @ [lfn_attr e, lfn_type e, lfn_checksum e]
     @ concat (map bytes16 (name2 e)) @ bytes16 (lfn_cluster_low e) @ concat (map bytes16 (name3 e))"

section \<open>Layout\<close>

lemma part_of_append: "part_of b i m @ part_of b (i + m) n = part_of b i (m + n)"
  by (simp add: part_of_def take_add add.commute)

lemma part_of_0 [simp]: "part_of b i 0 = []"
  by (simp add: part_of_def)

lemma part_of_Suc: "i < length b \<Longrightarrow> part_of b i (Suc n) = b ! i # part_of b (Suc i) n"
  by (simp add: part_of_def Cons_nth_drop_Suc [symmetric])

lemma bytes16_le16: "i + 2 \<le> length b \<Longrightarrow> bytes16 (le16 b i) = part_of b i 2"
  unfolding le16_def split16 by (simp add: part_of_Suc numeral_2_eq_2)

lemma split32:
  "bytes32 (ucast a OR push_bit 8 (ucast b) OR push_bit 16 (ucast c) OR push_bit 24 (ucast d)) = [a, b, c, d]"
proof -
  let ?v = "ucast a OR push_bit 8 (ucast b) OR push_bit 16 (ucast c) OR push_bit 24 (ucast d) :: u32"
  have "ucast ?v = a" "ucast (drop_bit 8 ?v) = b" "ucast (drop_bit 16 ?v) = c" "ucast (drop_bit 24 ?v) = d"
    by (rule bit_word_eqI; auto simp: bit_simps dest: bit_imp_le_length)+
  then show ?thesis by (simp add: bytes32_def)
qed

lemma bytes32_le32: "i + 4 \<le> length b \<Longrightarrow> bytes32 (le32 b i) = part_of b i 4"
  unfolding le32_def split32 by (simp add: part_of_Suc numeral_eq_Suc)

lemma byte_part: "i < length b \<Longrightarrow> [b ! i] = part_of b i 1"
  by (simp add: part_of_Suc)

lemma get_le:
  "i + 2 \<le> length b \<Longrightarrow> get16 b i = Some (le16 b i)"
  "i + 4 \<le> length b \<Longrightarrow> get32 b i = Some (le32 b i)"
  by (simp_all add: get16_def get32_def le16_def le32_def)

lemma part_of_all: "length b = n \<Longrightarrow> part_of b 0 n = b"
  by (simp add: part_of_def)

text \<open>Consecutive fields of the given widths are the bytes they cover.\<close>

fun parts :: "bytes \<Rightarrow> nat \<Rightarrow> nat list \<Rightarrow> bytes" where
  "parts b i [] = []"
| "parts b i (n # ns) = part_of b i n @ parts b (i + n) ns"

lemma parts_part_of: "parts b i ns = part_of b i (sum_list ns)"
  by (induction ns arbitrary: i) (simp_all add: part_of_append)

lemma words_of_bytes: "i + 2 * n \<le> length b \<Longrightarrow> concat (map bytes16 (words_of b i n)) = part_of b i (2 * n)"
proof (induction n)
  case (Suc n)
  have "words_of b i (Suc n) = words_of b i n @ [le16 b (i + 2 * n)]" by (simp add: words_of_def)
  then show ?case
    using Suc bytes16_le16 [of "i + 2 * n" b] part_of_append [of b i "2 * n" 2] by simp
qed (simp add: words_of_def)

lemma bpb_layout:
  assumes "90 \<le> length b"
  shows "bpb_bytes (bpb_of b) = take 90 b"
proof -
  have "bpb_bytes (bpb_of b) = parts b 0
      [3, 8, 2, 1, 2, 1, 2, 2, 1, 2, 2, 2, 4, 4, 4, 2, 2, 4, 2, 2, 12, 1, 1, 1, 4, 11, 8]"
    using assms by (simp add: bpb_bytes_def bpb_of_def bytes16_le16 bytes32_le32 part_of_Suc)
  then show ?thesis by (simp add: parts_part_of part_of_def)
qed

lemma dir_entry_layout:
  assumes "length b = 32"
  shows "dir_entry_bytes (dir_entry_of b) = b"
proof -
  have "dir_entry_bytes (dir_entry_of b) = parts b 0 [11, 1, 1, 1, 2, 2, 2, 2, 2, 2, 2, 4]"
    using assms by (simp add: dir_entry_bytes_def dir_entry_of_def bytes16_le16 bytes32_le32 part_of_Suc)
  then show ?thesis using assms by (simp add: parts_part_of part_of_def)
qed

lemma lfn_entry_layout:
  assumes "length b = 32"
  shows "lfn_entry_bytes (lfn_entry_of b) = b"
proof -
  have "lfn_entry_bytes (lfn_entry_of b) = parts b 0 [1, 10, 1, 1, 1, 12, 2, 4]"
    using assms by (simp add: lfn_entry_bytes_def lfn_entry_of_def words_of_bytes bytes16_le16 part_of_Suc)
  then show ?thesis using assms by (simp add: parts_part_of part_of_def)
qed

section \<open>The offsets of the code are the fields\<close>

lemma le_shift:
  "off + i + 2 \<le> length b \<Longrightarrow> i + 2 \<le> n \<Longrightarrow> le16 (part_of b off n) i = le16 b (off + i)"
  "off + i + 4 \<le> length b \<Longrightarrow> i + 4 \<le> n \<Longrightarrow> le32 (part_of b off n) i = le32 b (off + i)"
  by (simp_all add: le16_def le32_def part_of_def add.assoc)

lemma make_entry_fields:
  assumes "off + 32 \<le> length sector"
  shows "make_entry sector off rows n = (let d = dir_entry_of (part_of sector off 32) in do {
    name \<leftarrow> (if n \<noteq> 0 then long_name rows n else shortname_to_string (de_name d) (replicate 256 0));
    Some \<lparr>e_name = name, e_attr = de_attr d, e_first_cluster = push_bit 16 (ucast (first_cluster_high d)) OR ucast (first_cluster_low d),
      e_size = file_size d\<rparr> })"
  using assms
  by (simp add: make_entry_def dir_entry_of_def get_le le_shift Let_def) (simp add: part_of_def min_def take_drop)

lemma le16_low: "ucast (le16 b i) = b ! i"
  unfolding le16_def by (rule bit_word_eqI) (auto simp: bit_simps)

lemma lfn_characters:
  "map (\<lambda>off. b ! off) lfn_offsets = map ucast (name1 (lfn_entry_of b) @ name2 (lfn_entry_of b) @ name3 (lfn_entry_of b))"
  by (simp add: lfn_offsets_def lfn_entry_of_def words_of_def upt_rec le16_low)

section \<open>Mounting\<close>

definition has_signature :: "bytes \<Rightarrow> bool" where
  "has_signature sector \<longleftrightarrow> sector ! 510 = 0x55 \<and> sector ! 511 = 0xAA"

text \<open>The first of the four entries with a FAT32 type; its start, or 0.\<close>

definition fat_partition :: "bytes \<Rightarrow> u32" where
  "fat_partition mbr = (case find (\<lambda>i. mbr ! (450 + 16 * i) \<in> {0x0B, 0x0C}) [0..<4] of
     None \<Rightarrow> 0 | Some i \<Rightarrow> le32 mbr (454 + 16 * i))"

text \<open>
  What a mount returns with the buffer \<open>p\<close>, the results \<open>r0\<close> and \<open>r1\<close> of the reads of sector 0 and of the boot
  sector, and the sectors of the disk: the code of the first check that fails, or 0.
\<close>

definition mount_code :: "u64 \<Rightarrow> i32 \<Rightarrow> i32 \<Rightarrow> (u32 \<Rightarrow> bytes) \<Rightarrow> i32" where
  "mount_code p r0 r1 sectors = (let part = fat_partition (sectors 0) in
     if p = 0 then - 1 else if r0 \<noteq> 0 then - 2 else if \<not> has_signature (sectors 0) then - 3
     else if part = 0 then - 4 else if r1 \<noteq> 0 then - 5 else if \<not> has_signature (sectors part) then - 6
     else if table_size_32 (bpb_of (sectors part)) = 0 then - 7 else 0)"

text \<open>The volume a mount that returns 0 sets.\<close>

definition volume :: "u32 \<Rightarrow> fat32_bpb_t \<Rightarrow> 'd fs \<Rightarrow> bool" where
  "volume part b s \<longleftrightarrow>
     sectors_per_fat s = table_size_32 b \<and> fat_start s = ucast (reserved_sector_count b)
   \<and> cluster_begin_lba s = part + ucast (reserved_sector_count b) + ucast (table_count b) * table_size_32 b
   \<and> root_dir_first_cluster s = (if root_cluster b = 0 then 2 else root_cluster b)
   \<and> current_dir_cluster s = root_dir_first_cluster s
   \<and> total_clusters s = (total_sectors_32 b - cluster_begin_lba s) div ucast (sectors_per_cluster b)
   \<and> bpb_of (fat32_bpb s) = b \<and> cached_fat_sector s = 0xFFFFFFFF \<and> next_free_hint s = 3"

text \<open>A refused mount: all fields are as before, except that on the last check the boot sector is already copied.\<close>

definition refused :: "i32 \<Rightarrow> bytes \<Rightarrow> 'd fs \<Rightarrow> 'd fs \<Rightarrow> bool" where
  "refused code boot s t \<longleftrightarrow>
     t = s\<lparr>fheap := fheap t, disk := disk t, fat32_bpb := (if code = - 7 then take 90 boot else fat32_bpb s)\<rparr>"

lemma signed_ok_signature: "length sector = 512 \<Longrightarrow> signed_ok sector = Some (has_signature sector)"
  by (simp add: signed_ok_def has_signature_def)

lemma find_partition_fat:
  assumes "length mbr = 512"
  shows "find_partition mbr [0..<4] = Some (fat_partition mbr)"
proof -
  have "find_partition mbr is = Some (case find (\<lambda>i. mbr ! (450 + 16 * i) \<in> {0x0B, 0x0C}) is of
      None \<Rightarrow> 0 | Some i \<Rightarrow> le32 mbr (454 + 16 * i))" if "\<forall>i \<in> set is. i < 4" for "is"
    using that
  proof (induction "is")
    case (Cons i js)
    then have "i < 4" by simp
    then have "rd mbr (450 + i * 16) = Some (mbr ! (450 + 16 * i))" "get32 mbr (454 + i * 16) = Some (le32 mbr (454 + 16 * i))"
      using assms by (simp_all add: get_le mult.commute)
    then show ?case using Cons by (auto simp: add.commute add.left_commute)
  qed simp
  then show ?thesis by (simp add: fat_partition_def)
qed

lemma bpb_of_take:
  assumes "90 \<le> length b"
  shows "bpb_of (take 90 b) = bpb_of b"
proof -
  have le: "i < 89 \<Longrightarrow> le16 (take 90 b) i = le16 b i" "i < 87 \<Longrightarrow> le32 (take 90 b) i = le32 b i" for i
    using assms by (simp_all add: le16_def le32_def)
  have "part_of (take 90 b) i n = part_of b i n" if "i + n \<le> 90" for i n
    using that by (simp add: part_of_def drop_take min_def)
  then show ?thesis using assms by (simp add: bpb_of_def le)
qed

text \<open>The volume data of \<open>mount_fields\<close>, in the fields of the boot sector.\<close>

lemma mount_fields_volume:
  assumes "length (fat32_bpb u) = 90" and "bpb_of (fat32_bpb u) = b"
  shows "if sectors_per_cluster b = 0 then mount_fields part u = None
    else \<exists>t. mount_fields part u = Some t \<and> disk t = disk u \<and> fheap t = fheap u \<and> partition_lba t = partition_lba u
      \<and> fat_cache t = fat_cache u
      \<and> (\<forall>g. volume part b (t\<lparr>fheap := g, cached_fat_sector := 0xFFFFFFFF, next_free_hint := 3\<rparr>))"
proof -
  have "le16 (fat32_bpb u) 14 = reserved_sector_count b" "fat32_bpb u ! 16 = table_count b" "le32 (fat32_bpb u) 36 = table_size_32 b"
    "le32 (fat32_bpb u) 44 = root_cluster b" "le32 (fat32_bpb u) 32 = total_sectors_32 b" "fat32_bpb u ! 13 = sectors_per_cluster b"
    by (simp_all add: bpb_of_def assms(2) [symmetric])
  then have f: "get16 (fat32_bpb u) 14 = Some (reserved_sector_count b)" "rd (fat32_bpb u) 16 = Some (table_count b)"
    "get32 (fat32_bpb u) 36 = Some (table_size_32 b)" "get32 (fat32_bpb u) 44 = Some (root_cluster b)"
    "get32 (fat32_bpb u) 32 = Some (total_sectors_32 b)" "bpb_sectors_per_cluster u = Some (sectors_per_cluster b)"
    using assms(1) by (simp_all add: get_le bpb_sectors_per_cluster_def)
  show ?thesis
    by (simp add: mount_fields_def f bind.bind_lunit Let_def volume_def assms(2))
qed

text \<open>The buffer of a mount is given back on every way out.\<close>

lemma mount_quit:
  assumes "heap_inv h" and "live h = insert (unat p, n) (live (fheap s))" and "(unat p, n) \<notin> live (fheap s)"
    and "fheap u = h"
  shows "\<exists>g. free_sector p b u = Some (u\<lparr>fheap := g\<rparr>) \<and> heap_inv g \<and> live g = live (fheap s)"
  by (rule free_sector_ok [of u p n b]) (use assms in auto)

lemma mount_run:
  assumes dev: "block_device dv drive img" and n: "new_sector s = Some (p, sec, s\<lparr>fheap := h\<rparr>)" and p: "p \<noteq> 0"
    and bpb: "length (fat32_bpb s) = 90" and I: "I = img (disk s)" "part = fat_partition (I 0)"
    and rd: "dev_read dv drive 0 sec (disk s) = (r0, b0, d0)" "dev_read dv drive part (I 0) d0 = (r1, b1, d1)"
  shows "fat32_mount dv drive s = (let d = s\<lparr>fheap := h, disk := d0\<rparr>; e = s\<lparr>fheap := h, disk := d1\<rparr>;
      u = e\<lparr>fat32_bpb := take 90 (I part)\<rparr>;
      quit = (\<lambda>b u. do { t \<leftarrow> free_sector p b u; Some (mount_code p r0 r1 I, t) })
    in if r0 \<noteq> 0 then quit b0 d
    else if \<not> has_signature (I 0) \<or> part = 0 then quit (I 0) d
    else if r1 \<noteq> 0 then quit b1 e
    else if \<not> has_signature (I part) then quit (I part) e
    else if table_size_32 (bpb_of (I part)) = 0 then quit (I part) u
    else do { s1 \<leftarrow> mount_fields part u; s2 \<leftarrow> free_sector p (I part) s1;
      Some (0, s2\<lparr>cached_fat_sector := 0xFFFFFFFF, next_free_hint := 3\<rparr>) })"
proof -
  have len: "length (I lba) = 512" for lba using dev I(1) by (simp add: block_device_def)
  have d: "read_sector dv drive 0 sec (s\<lparr>fheap := h\<rparr>) = (r0, b0, s\<lparr>fheap := h, disk := d0\<rparr>)"
    using rd(1) by (simp add: read_sector_def)
  have b0: "img d0 = I" "r0 = 0 \<Longrightarrow> b0 = I 0" using block_deviceD(2) [OF dev rd(1)] I(1) by auto
  have e: "read_sector dv drive part (I 0) (s\<lparr>fheap := h, disk := d0\<rparr>) = (r1, b1, s\<lparr>fheap := h, disk := d1\<rparr>)"
    using rd(2) by (simp add: read_sector_def)
  have b1: "r1 = 0 \<Longrightarrow> b1 = I part" using block_deviceD(2) [OF dev rd(2)] b0(1) by auto
  have copy: "memcpy (fat32_bpb s) 0 (I part) 90 = Some (take 90 (I part))"
    using bpb len [of part] by (simp add: memcpy_blit blit_def)
  have bp: "bpb_of (take 90 (I part)) = bpb_of (I part)" "length (take 90 (I part)) = 90"
    using len [of part] by (simp_all add: bpb_of_take)
  then have size: "get32 (take 90 (I part)) 36 = Some (table_size_32 (bpb_of (I part)))"
    unfolding bp(1) [symmetric] by (simp add: get_le bpb_of_def)
  show ?thesis
  proof (cases "r0 = 0")
    case False
    then show ?thesis using p by (simp add: fat32_mount_def n d mount_code_def)
  next
    case r0: True
    note sig = signed_ok_signature [OF len] find_partition_fat [OF len [of 0], folded I(2)]
    show ?thesis
    proof (cases "r1 = 0")
      case False
      then show ?thesis
        using r0 p b0(2) e sig by (simp add: fat32_mount_def n d Let_def mount_code_def I(2) [symmetric] cong: if_cong)
    next
      case True
      then show ?thesis
        using r0 p b0(2) b1 e sig copy size
        by (simp add: fat32_mount_def n d Let_def mount_code_def I(2) [symmetric] cong: if_cong)
    qed
  qed
qed

lemma mount_spec:
  assumes dev: "block_device dv drive img" and heap: "heap_inv (fheap s)" and bpb: "length (fat32_bpb s) = 90"
    and km: "kmalloc 512 (fheap s) = Some (p, h)"
    and I: "I = img (disk s)" "part = fat_partition (I 0)"
    and rd: "dev_read dv drive 0 (load_bytes p 512 (hmem h)) (disk s) = (r0, b0, d0)" "dev_read dv drive part (I 0) d0 = (r1, b1, d1)"
  shows "if mount_code p r0 r1 I = 0 \<and> sectors_per_cluster (bpb_of (I part)) = 0 then fat32_mount dv drive s = None
    else \<exists>s'. fat32_mount dv drive s = Some (mount_code p r0 r1 I, s') \<and> img (disk s') = I
      \<and> heap_inv (fheap s') \<and> live (fheap s') = live (fheap s)
      \<and> (if mount_code p r0 r1 I = 0
         then volume part (bpb_of (I part)) s' \<and> partition_lba s' = partition_lba s \<and> fat_cache s' = fat_cache s
         else refused (mount_code p r0 r1 I) (I part) s s')"
proof (cases rule: new_sector_cases [OF heap km])
  case (1 sec)
  then show ?thesis
    using heap I(1) by (auto simp: fat32_mount_def mount_code_def refused_def)
next
  case (2 sec n)
  have sec: "sec = load_bytes p 512 (hmem h)" using 2(1,2) km by (auto simp: new_sector_def split: if_splits)
  have img: "img d0 = I" "img d1 = I"
    using block_deviceD(2) [OF dev rd(1)] block_deviceD(2) [OF dev rd(2)] I(1) by auto
  have len: "length (I part) = 512" using dev I(1) by (simp add: block_device_def)
  note run = mount_run [OF dev 2(2,1) bpb I rd(1) [folded sec] rd(2)]
  note free = mount_quit [OF 2(4,5,6)]
  let ?c = "mount_code p r0 r1 I"
  let ?d = "s\<lparr>fheap := h, disk := d0\<rparr>" and ?e = "s\<lparr>fheap := h, disk := d1\<rparr>" and ?u = "s\<lparr>fheap := h, disk := d1, fat32_bpb := take 90 (I part)\<rparr>"
  have quit: "\<exists>s'. do { t \<leftarrow> free_sector p b x; Some (?c, t) } = Some (?c, s') \<and> img (disk s') = I \<and> heap_inv (fheap s')
      \<and> live (fheap s') = live (fheap s) \<and> refused ?c (I part) s s'"
    if "x \<in> {?d, ?e} \<and> ?c \<noteq> - 7 \<or> x = ?u \<and> ?c = - 7" for b x
  proof -
    have "fheap x = h" "img (disk x) = I" "\<And>g. refused ?c (I part) s (x\<lparr>fheap := g\<rparr>)"
      using that img by (auto simp: refused_def)
    then show ?thesis using free [of x b] by auto
  qed
  consider (early) "r0 \<noteq> 0 \<or> \<not> has_signature (I 0) \<or> part = 0"
    | (late) "r0 = 0" "has_signature (I 0)" "part \<noteq> 0" "r1 \<noteq> 0 \<or> \<not> has_signature (I part)"
    | (no_fat) "r0 = 0" "has_signature (I 0)" "part \<noteq> 0" "r1 = 0" "has_signature (I part)" "table_size_32 (bpb_of (I part)) = 0"
    | (ok) "r0 = 0" "has_signature (I 0)" "part \<noteq> 0" "r1 = 0" "has_signature (I part)" "table_size_32 (bpb_of (I part)) \<noteq> 0"
    by blast
  then show ?thesis
  proof cases
    case early
    then have c: "?c \<in> {- 2, - 3, - 4}" using 2(1) I(2) by (auto simp: mount_code_def Let_def)
    obtain b where "fat32_mount dv drive s = do { t \<leftarrow> free_sector p b ?d; Some (?c, t) }"
      unfolding run Let_def using early by (cases "r0 = 0") auto
    then show ?thesis using quit [of ?d b] c by auto
  next
    case late
    then have c: "?c \<in> {- 5, - 6}" using 2(1) I(2) by (auto simp: mount_code_def Let_def)
    obtain b where "fat32_mount dv drive s = do { t \<leftarrow> free_sector p b ?e; Some (?c, t) }"
      unfolding run Let_def using late by (cases "r1 = 0") auto
    then show ?thesis using quit [of ?e b] c by auto
  next
    case no_fat
    then have c: "?c = - 7" using 2(1) I(2) by (simp add: mount_code_def Let_def)
    have "fat32_mount dv drive s = do { t \<leftarrow> free_sector p (I part) ?u; Some (?c, t) }"
      unfolding run Let_def using no_fat by simp
    then show ?thesis using quit [of ?u "I part"] c by auto
  next
    case ok
    then have c: "?c = 0" using 2(1) I(2) by (simp add: mount_code_def Let_def)
    have go: "fat32_mount dv drive s = do { s1 \<leftarrow> mount_fields part ?u; s2 \<leftarrow> free_sector p (I part) s1;
        Some (0, s2\<lparr>cached_fat_sector := 0xFFFFFFFF, next_free_hint := 3\<rparr>) }"
      unfolding run Let_def using ok by simp
    have f: "if sectors_per_cluster (bpb_of (I part)) = 0 then mount_fields part ?u = None
      else \<exists>t. mount_fields part ?u = Some t \<and> disk t = d1 \<and> fheap t = h \<and> partition_lba t = partition_lba s
        \<and> fat_cache t = fat_cache s
        \<and> (\<forall>g. volume part (bpb_of (I part)) (t\<lparr>fheap := g, cached_fat_sector := 0xFFFFFFFF, next_free_hint := 3\<rparr>))"
      using mount_fields_volume [of ?u "bpb_of (I part)" part] len by (simp add: bpb_of_take cong: if_cong)
    show ?thesis
    proof (cases "sectors_per_cluster (bpb_of (I part)) = 0")
      case True
      then show ?thesis using f c by (simp add: go)
    next
      case False
      with f obtain w where w: "mount_fields part ?u = Some w" "disk w = d1" "fheap w = h" "partition_lba w = partition_lba s"
        "fat_cache w = fat_cache s"
        "\<And>g. volume part (bpb_of (I part)) (w\<lparr>fheap := g, cached_fat_sector := 0xFFFFFFFF, next_free_hint := 3\<rparr>)"
        by auto
      obtain g where "free_sector p (I part) w = Some (w\<lparr>fheap := g\<rparr>)" "heap_inv g" "live g = live (fheap s)"
        using free [OF w(3)] by blast
      then show ?thesis using False c w img(2) by (simp add: go)
    qed
  qed
qed

section \<open>Properties\<close>

text \<open>
  C15. What mounting does, for every contents of the disk, every outcome of its two reads and every outcome of
  the allocation. It returns the code of the first check that fails: no buffer (-1), sector 0 unreadable (-2), no
  boot signature (-3), no FAT32 partition (-4), boot sector unreadable (-5), no signature in it (-6), no FAT (-7);
  the volume is then as it was, except that on -7 the boot sector has already replaced \<open>fat32_bpb\<close>. When
  all checks pass it returns 0 with the volume that the fields of the boot sector describe, unless
  \<open>sectors_per_cluster\<close> is 0: then it divides by zero. Wherever it returns, the disk is not changed and the
  buffer is given back.
\<close>

theorem mount_reads_volume:
  assumes "block_device dv drive img" and "heap_inv (fheap s)" and "length (fat32_bpb s) = 90"
    and "kmalloc 512 (fheap s) = Some (p, h)"
    and "I = img (disk s)" and "part = fat_partition (I 0)"
    and "dev_read dv drive 0 (load_bytes p 512 (hmem h)) (disk s) = (r0, b0, d0)"
    and "dev_read dv drive part (I 0) d0 = (r1, b1, d1)"
  shows "if mount_code p r0 r1 I = 0 \<and> sectors_per_cluster (bpb_of (I part)) = 0 then fat32_mount dv drive s = None
    else \<exists>s'. fat32_mount dv drive s = Some (mount_code p r0 r1 I, s') \<and> img (disk s') = I
      \<and> heap_inv (fheap s') \<and> live (fheap s') = live (fheap s)
      \<and> (if mount_code p r0 r1 I = 0
         then volume part (bpb_of (I part)) s' \<and> partition_lba s' = partition_lba s \<and> fat_cache s' = fat_cache s
         else refused (mount_code p r0 r1 I) (I part) s s')"
  by (rule mount_spec [OF assms])

text \<open>A disk with one partition from sector 63 on: 32 reserved sectors, two FATs of 8 sectors, root cluster 2.\<close>

definition demo_mbr :: bytes where
  "demo_mbr = (replicate 512 0)[450 := 0x0C, 454 := 63, 510 := 0x55, 511 := 0xAA]"

definition demo_boot :: bytes where
  "demo_boot = (replicate 512 0)[13 := 1, 14 := 32, 16 := 2, 33 := 1, 36 := 8, 44 := 2, 510 := 0x55, 511 := 0xAA]"

theorem mount_reads_volume_witness:
  "\<exists>s'. fat32_mount whole_ram 0 (demo_fs\<lparr>disk := (\<lambda>lba. if lba = 0 then demo_mbr else demo_boot)\<rparr>) = Some (0, s')
    \<and> fat_start s' = 32 \<and> cluster_begin_lba s' = 111 \<and> root_dir_first_cluster s' = 2 \<and> total_clusters s' = 145"
proof -
  obtain h where h: "kmalloc 512 boot_heap = Some (0x200020, h)" using boot_heap_kmalloc_512 by blast
  let ?I = "\<lambda>lba. if lba = 0 then demo_mbr else demo_boot"
  have I: "image512 ?I = ?I" by (auto simp: fun_eq_iff image512_def demo_mbr_def demo_boot_def)
  have part: "fat_partition demo_mbr = 63" by (simp add: fat_partition_def demo_mbr_def upt_rec le32_def)
  have sig: "has_signature demo_mbr" "has_signature demo_boot" by (simp_all add: has_signature_def demo_mbr_def demo_boot_def)
  have b: "sectors_per_cluster (bpb_of demo_boot) = 1" "reserved_sector_count (bpb_of demo_boot) = 32" "table_count (bpb_of demo_boot) = 2"
    "table_size_32 (bpb_of demo_boot) = 8" "root_cluster (bpb_of demo_boot) = 2" "total_sectors_32 (bpb_of demo_boot) = 256"
    by (simp_all add: bpb_of_def demo_boot_def le16_def le32_def)
  have "mount_code 0x200020 0 0 ?I = 0" using part sig b by (simp add: mount_code_def)
  moreover have "dev_read whole_ram 0 lba buf ?I = (0, ?I lba, ?I)" for lba buf
    using I reliableD [OF ram_disk_reliable, of 0 lba buf ?I] by (auto simp: ram_disk_def split: if_splits)
  ultimately obtain s' where "fat32_mount whole_ram 0 (demo_fs\<lparr>disk := ?I\<rparr>) = Some (0, s')" "volume 63 (bpb_of demo_boot) s'"
    using mount_reads_volume [where dv = whole_ram and drive = 0 and img = image512 and s = "demo_fs\<lparr>disk := ?I\<rparr>" and p = "0x200020"
        and h = h and I = ?I and part = 63 and ?d0.0 = ?I and ?r0.0 = 0 and ?r1.0 = 0
        and ?b0.0 = demo_mbr and ?b1.0 = demo_boot and ?d1.0 = ?I] I h part b boot_heap_inv
    by (auto simp: demo_fs_def)
  then show ?thesis using b by (intro exI [of _ s']) (simp add: volume_def)
qed

text \<open>
  The packed structures are the bytes the code reads: writing out the fields of a boot sector or of a directory
  record gives back the 90 or 32 bytes they were read from, without gap or overlap.
\<close>

theorem packed_roundtrip:
  assumes "90 \<le> length sector" and "length record = 32"
  shows "bpb_bytes (bpb_of sector) = take 90 sector \<and> dir_entry_bytes (dir_entry_of record) = record
    \<and> lfn_entry_bytes (lfn_entry_of record) = record"
  using bpb_layout [OF assms(1)] dir_entry_layout [OF assms(2)] lfn_entry_layout [OF assms(2)] by simp

theorem packed_roundtrip_witness:
  "bpb_bytes (bpb_of demo_boot) = take 90 demo_boot \<and> dir_entry_bytes (dir_entry_of (replicate 32 65)) = replicate 32 65
    \<and> lfn_entry_bytes (lfn_entry_of (replicate 32 65)) = replicate 32 65"
  by (rule packed_roundtrip) (simp_all add: demo_boot_def)

end
