(* ===== verification/Fat32_Listing.thy ===== *)
theory Fat32_Listing
  imports Fat32_Layout
begin

text \<open>
  What a directory lists, said of the packed structures of include/fat32.h alone, and the theorem that
  \<open>fat32_list_dir\<close> of drivers/fs/fat32.c returns just that. The description shares no routine with the code: it keeps
  the long-name records seen so far as a list instead of the array \<open>lfn_parts\<close>, puts a name together from it, and
  cuts the whole listing instead of counting.
\<close>

section \<open>The listing of a directory\<close>

text \<open>A long-name record: the index of its part, whether it opens a new name, and the part.\<close>

definition part_index :: "fat32_lfn_entry_t \<Rightarrow> nat" where
  "part_index e = unat (lfn_order e) mod 32"

definition opens_name :: "fat32_lfn_entry_t \<Rightarrow> bool" where
  "opens_name e \<longleftrightarrow> bit (lfn_order e) 6"

definition part_text :: "fat32_lfn_entry_t \<Rightarrow> bytes" where
  "part_text e = takeWhile (\<lambda>c. c \<noteq> 0 \<and> c \<noteq> 0xFF) (map ucast (name1 e @ name2 e @ name3 e))"

text \<open>
  The name made of the long-name records \<open>hs\<close> before an entry, the latest first: the records back to the
  last one that opens a name hold the parts, and the last one that opens a name of 1 to 20 parts says how many. The parts
  are put together from the highest index down to 1.
\<close>

definition recent :: "fat32_lfn_entry_t list \<Rightarrow> fat32_lfn_entry_t list" where
  "recent hs = takeWhile (\<lambda>e. \<not> opens_name e) hs @ take 1 (dropWhile (\<lambda>e. \<not> opens_name e) hs)"

definition part_at :: "fat32_lfn_entry_t list \<Rightarrow> nat \<Rightarrow> bytes" where
  "part_at hs j = (case find (\<lambda>e. part_index e = j) (recent hs) of Some e \<Rightarrow> part_text e | None \<Rightarrow> [])"

definition part_count :: "fat32_lfn_entry_t list \<Rightarrow> nat" where
  "part_count hs = (case find (\<lambda>e. opens_name e \<and> part_index e \<in> {1..20}) hs of Some e \<Rightarrow> part_index e | None \<Rightarrow> 0)"

definition listed_name :: "fat32_lfn_entry_t list \<Rightarrow> fat32_dir_entry_t \<Rightarrow> bytes" where
  "listed_name hs d = (if part_count hs = 0 then cstr (short_text (de_name d))
     else take 255 (concat (map (part_at hs) (rev [1..<part_count hs + 1]))))"

text \<open>What is listed of a record: name, attributes, first cluster and size.\<close>

definition first_cluster :: "fat32_dir_entry_t \<Rightarrow> u32" where
  "first_cluster d = of_nat (65536 * unat (first_cluster_high d) + unat (first_cluster_low d))"

fun listing :: "fat32_lfn_entry_t list \<Rightarrow> bytes list \<Rightarrow> (bytes \<times> u8 \<times> u32 \<times> u32) list" where
  "listing hs [] = []"
| "listing hs (r # rs) = (let d = dir_entry_of r in
     if hd (de_name d) = 0 then []
     else if de_attr d = 0x0F then listing (lfn_entry_of r # hs) rs
     else if bit (de_attr d) 3 then listing [] rs
     else (listed_name hs d, de_attr d, first_cluster d, file_size d) # listing [] rs)"

definition shown :: "fat32_entry \<Rightarrow> bytes \<times> u8 \<times> u32 \<times> u32" where
  "shown e = (cstr (e_name e), e_attr e, e_first_cluster e, e_size e)"

section \<open>The code keeps the parts of the name\<close>

lemma part_at_Cons:
  "part_at (e # hs) j = (if part_index e = j then part_text e else if opens_name e then [] else part_at hs j)"
  by (simp add: part_at_def recent_def)

lemma part_count_Cons:
  "part_count (e # hs) = (if opens_name e \<and> part_index e \<in> {1..20} then part_index e else part_count hs)"
  by (simp add: part_count_def)

lemma part_count_opened: "part_count hs \<noteq> 0 \<Longrightarrow> \<exists>e\<in>set hs. opens_name e"
  by (auto simp: part_count_def find_Some_iff split: option.splits)

lemma part_count_le: "part_count hs \<le> 20"
  by (auto simp: part_count_def find_Some_iff split: option.splits)

lemma lfn_fields:
  "unat (r ! 0 AND 0x1F) = part_index (lfn_entry_of r)" "r ! 0 AND 0x40 \<noteq> 0 \<longleftrightarrow> opens_name (lfn_entry_of r)"
  "lfn_text r = part_text (lfn_entry_of r)"
proof -
  have "r ! 0 AND 0x1F = take_bit 5 (r ! 0)" by (simp add: take_bit_eq_mask mask_eq_exp_minus_1)
  then show "unat (r ! 0 AND 0x1F) = part_index (lfn_entry_of r)"
    by (simp add: part_index_def lfn_entry_of_def unsigned_take_bit_eq take_bit_eq_mod unat_mod_distrib)
  have "r ! 0 AND 0x40 \<noteq> 0 \<longleftrightarrow> bit (r ! 0) 6"
  proof -
    have "(0x40 :: u8) = push_bit 6 1" by simp
    then show ?thesis by (simp add: bit_iff_and_push_bit_not_eq_0 del: push_bit_of_1)
  qed
  then show "r ! 0 AND 0x40 \<noteq> 0 \<longleftrightarrow> opens_name (lfn_entry_of r)" by (simp add: opens_name_def lfn_entry_of_def)
  show "lfn_text r = part_text (lfn_entry_of r)"
    by (simp add: lfn_text_def part_text_def lfn_characters)
qed

text \<open>The array \<open>lfn_parts\<close> and \<open>lfn_present\<close> after the records \<open>hs\<close>.\<close>

definition holds_parts :: "bytes list \<Rightarrow> nat \<Rightarrow> fat32_lfn_entry_t list \<Rightarrow> bool" where
  "holds_parts rows present hs \<longleftrightarrow> parts_ok rows \<and> present = part_count hs
     \<and> ((\<exists>e\<in>set hs. opens_name e) \<longrightarrow> (\<forall>j. 1 \<le> j \<and> j \<le> 20 \<longrightarrow> cstr (rows ! (j - 1)) = part_at hs j))"

lemma holds_parts_Nil: "parts_ok rows \<Longrightarrow> holds_parts rows 0 []"
  by (simp add: holds_parts_def part_count_def)

lemma cstr_no_parts: "i < 20 \<Longrightarrow> cstr (no_parts ! i) = []"
  by (simp add: no_parts_def cstr_def takeWhile_replicate)

lemma lfn_record_holds:
  assumes "length r = 32" and "holds_parts rows present hs"
  shows "\<exists>rows1 present1. lfn_record r rows present = Some (rows1, present1)
    \<and> holds_parts rows1 present1 (lfn_entry_of r # hs)"
proof -
  let ?e = "lfn_entry_of r"
  define rows0 where "rows0 = (if opens_name ?e then no_parts else rows)"
  have h: "parts_ok rows" "present = part_count hs"
    "\<And>j. \<exists>e\<in>set hs. opens_name e \<Longrightarrow> 1 \<le> j \<Longrightarrow> j \<le> 20 \<Longrightarrow> cstr (rows ! (j - 1)) = part_at hs j"
    using assms(2) by (simp_all add: holds_parts_def)
  have ok: "parts_ok rows0" using h(1) by (simp add: rows0_def)
  have before: "cstr (rows0 ! (j - 1)) = (if opens_name ?e then [] else part_at hs j)"
    if "\<exists>e\<in>set (?e # hs). opens_name e" "1 \<le> j" "j \<le> 20" for j
    using that h(3) [of j] cstr_no_parts [of "j - 1"] by (auto simp: rows0_def)
  have unf: "lfn_record r rows present = (if part_index ?e \<in> {1..20} then do {
       row \<leftarrow> rd rows0 (part_index ?e - 1);
       row1 \<leftarrow> lfn_copy_part row r;
       Some (rows0[part_index ?e - 1 := row1], part_count (?e # hs)) }
     else Some (rows0, part_count (?e # hs)))"
    using assms(1) lfn_fields(1,2) [of r]
    by (auto simp: lfn_record_def Let_def rows0_def part_count_Cons h(2) Suc_le_eq)
  show ?thesis
  proof (cases "part_index ?e \<in> {1..20}")
    case True
    then have k: "part_index ?e - 1 < 20" "1 \<le> part_index ?e" by auto
    have row: "length (rows0 ! (part_index ?e - 1)) = 14" "part_index ?e - 1 < length rows0"
      using parts_ok_nth [OF ok k(1)] k ok by (simp_all add: parts_ok_def)
    obtain d where d: "lfn_copy_part (rows0 ! (part_index ?e - 1)) r = Some d" "length d = 14" "terminated d" "cstr d = part_text ?e"
      using lfn_copy_part_spec [OF row(1) assms(1)] lfn_fields(3) [of r] by auto
    let ?p = "rows0[part_index ?e - 1 := d]"
    have "parts_ok ?p"
      using ok d(2,3) set_update_subset_insert [of rows0 "part_index ?e - 1" d] by (auto simp: parts_ok_def)
    moreover have "cstr (?p ! (j - 1)) = part_at (?e # hs) j" if "\<exists>e\<in>set (?e # hs). opens_name e" "1 \<le> j" "j \<le> 20" for j
      using before [OF that] that(2) d(4) row(2) k(2)
      by (cases "part_index ?e = j") (auto simp: part_at_Cons)
    ultimately have "holds_parts ?p (part_count (?e # hs)) (?e # hs)" by (simp add: holds_parts_def)
    then show ?thesis unfolding unf using True row(2) d(1) by simp
  next
    case False
    have "cstr (rows0 ! (j - 1)) = part_at (?e # hs) j" if "\<exists>e\<in>set (?e # hs). opens_name e" "1 \<le> j" "j \<le> 20" for j
      using before [OF that] that(2,3) False by (auto simp: part_at_Cons)
    then have "holds_parts rows0 (part_count (?e # hs)) (?e # hs)" using ok by (simp add: holds_parts_def)
    moreover have "lfn_record r rows present = Some (rows0, part_count (?e # hs))"
      unfolding unf using False by (rule if_not_P)
    ultimately show ?thesis by blast
  qed
qed

section \<open>The code lists what is described\<close>

lemma cluster_join: "push_bit 16 (ucast h) OR ucast l = (of_nat (65536 * unat h + unat l) :: u32)" for h l :: u16
proof -
  have "(push_bit 16 (ucast h :: u32)) AND ucast l = 0"
    by (rule bit_word_eqI) (auto simp: bit_simps dest: bit_imp_le_length)
  then have "push_bit 16 (ucast h) OR ucast l = (push_bit 16 (ucast h) + ucast l :: u32)"
    by (simp add: disjunctive_add_eq_or)
  also have "\<dots> = of_nat (65536 * unat h + unat l)"
    by (simp add: push_bit_eq_mult)
  finally show ?thesis .
qed

lemma make_entry_shown:
  assumes "length r = 32" and "holds_parts rows present hs"
  obtains e where "make_entry r 0 rows present = Some e" "length (e_name e) = 256" "terminated (e_name e)"
    "shown e = (let d = dir_entry_of r in (listed_name hs d, de_attr d, first_cluster d, file_size d))"
proof -
  have ok: "parts_ok rows" "present = part_count hs" "present \<le> 20"
    using assms(2) part_count_le [of hs] by (simp_all add: holds_parts_def)
  obtain e where e: "make_entry r 0 rows present = Some e" "cstr (e_name e) = entry_name r rows present"
    "length (e_name e) = 256" "terminated (e_name e)" "e_attr e = r ! 11" "e_first_cluster e = record_cluster r"
    "e_size e = the (get32 r 28)"
    by (rule make_entry_spec [OF assms(1) ok(1,3)])
  have long: "map (part_at hs) (rev [1..<present + 1]) = rev (map cstr (take present rows))" if "present \<noteq> 0"
  proof -
    have "map (part_at hs) [1..<present + 1] = map cstr (take present rows)"
    proof (rule nth_equalityI)
      fix i assume "i < length (map (part_at hs) [1..<present + 1])"
      then have i: "i < present" by (simp del: upt_Suc)
      have "1 \<le> Suc i" "Suc i \<le> 20" "\<exists>e\<in>set hs. opens_name e"
        using i ok(2,3) part_count_opened [of hs] that by simp_all
      then have "cstr (rows ! (Suc i - 1)) = part_at hs (Suc i)"
        using assms(2) unfolding holds_parts_def by blast
      then show "map (part_at hs) [1..<present + 1] ! i = map cstr (take present rows) ! i"
        using i ok(1,3) by (simp add: parts_ok_def del: upt_Suc)
    qed (use ok in \<open>simp add: parts_ok_def\<close>)
    then show ?thesis by (metis rev_map)
  qed
  have "entry_name r rows present = listed_name hs (dir_entry_of r)"
    using long ok(2) by (simp add: entry_name_def listed_name_def dir_entry_of_def part_of_def)
  moreover have "record_cluster r = first_cluster (dir_entry_of r)"
    using assms(1) by (simp add: record_cluster_def get_le first_cluster_def dir_entry_of_def cluster_join del: of_nat_add of_nat_mult)
  moreover have "the (get32 r 28) = file_size (dir_entry_of r)" "r ! 11 = de_attr (dir_entry_of r)"
    using assms(1) by (simp_all add: get_le dir_entry_of_def)
  ultimately show ?thesis using that e by (simp add: shown_def Let_def)
qed

lemma record_tests:
  assumes "length r = 32"
  shows "r ! 0 = hd (de_name (dir_entry_of r))" "r ! 11 = de_attr (dir_entry_of r)"
    "de_attr (dir_entry_of r) AND 0x08 = 0x08 \<longleftrightarrow> bit (de_attr (dir_entry_of r)) 3"
proof -
  show "r ! 0 = hd (de_name (dir_entry_of r))"
    using assms by (cases r) (simp_all add: dir_entry_of_def part_of_def)
  show "r ! 11 = de_attr (dir_entry_of r)" by (simp add: dir_entry_of_def)
  have "(0x08 :: u8) = push_bit 3 1" by simp
  moreover have "x AND push_bit 3 1 = push_bit 3 1 \<longleftrightarrow> bit x 3" for x :: u8
  proof
    assume "x AND push_bit 3 1 = push_bit 3 1"
    then have "bit (x AND push_bit 3 1) 3 = bit (push_bit 3 1 :: u8) 3" by simp
    then show "bit x 3" by (simp add: bit_and_iff bit_push_bit_iff)
  next
    assume "bit x 3"
    then show "x AND push_bit 3 1 = push_bit 3 1"
      by (intro bit_word_eqI, simp only: bit_and_iff bit_push_bit_iff bit_1_iff) auto
  qed
  ultimately show "de_attr (dir_entry_of r) AND 0x08 = 0x08 \<longleftrightarrow> bit (de_attr (dir_entry_of r)) 3" by simp
qed

lemma list_records_listing:
  assumes "\<forall>r\<in>set rs. length r = 32" and "holds_parts rows present hs" and "length es \<le> mx"
    and "\<forall>e\<in>set es. terminated (e_name e)"
    and "list_records mx rs rows present es = Some (stop, p, n, es1)"
  shows "map shown es1 = map shown es @ take (mx - length es) (listing hs rs) \<and> (\<forall>e\<in>set es1. terminated (e_name e))"
  using assms
proof (induction rs arbitrary: rows present hs es)
  case Nil
  then show ?case by simp
next
  case (Cons r rs)
  let ?d = "dir_entry_of r"
  have r: "length r = 32" and rs: "\<forall>r\<in>set rs. length r = 32" using Cons.prems(1) by simp_all
  note t = record_tests [OF r]
  note IH = Cons.IH [OF rs]
  have ok: "holds_parts rows 0 []"
    using Cons.prems(2) by (simp add: holds_parts_def part_count_def)
  have run: "list_records mx (r # rs) rows present es =
     (if hd (de_name ?d) = 0 then Some (True, rows, present, es)
      else if de_attr ?d = 0x0F then do {
        (rows1, present1) \<leftarrow> lfn_record r rows present;
        list_records mx rs rows1 present1 es }
      else if bit (de_attr ?d) 3 then list_records mx rs rows 0 es
      else if length es \<ge> mx then Some (True, rows, present, es)
      else do {
        e \<leftarrow> make_entry r 0 rows present;
        list_records mx rs rows 0 (es @ [e]) })"
    unfolding list_records.simps t ..
  consider (stop) "hd (de_name ?d) = 0" | (long) "hd (de_name ?d) \<noteq> 0" "de_attr ?d = 0x0F"
    | (label) "hd (de_name ?d) \<noteq> 0" "de_attr ?d \<noteq> 0x0F" "bit (de_attr ?d) 3"
    | (full) "hd (de_name ?d) \<noteq> 0" "de_attr ?d \<noteq> 0x0F" "\<not> bit (de_attr ?d) 3" "length es = mx"
    | (entry) "hd (de_name ?d) \<noteq> 0" "de_attr ?d \<noteq> 0x0F" "\<not> bit (de_attr ?d) 3" "length es < mx"
    using Cons.prems(3) by fastforce
  then show ?case
  proof cases
    case stop
    then show ?thesis using Cons.prems(4,5) unfolding run by simp
  next
    case long
    obtain rows1 present1 where l: "lfn_record r rows present = Some (rows1, present1)"
      "holds_parts rows1 present1 (lfn_entry_of r # hs)"
      using lfn_record_holds [OF r Cons.prems(2)] by blast
    then have "list_records mx rs rows1 present1 es = Some (stop, p, n, es1)"
      using long Cons.prems(5) unfolding run by simp
    from IH [OF l(2) Cons.prems(3,4) this] show ?thesis using long by (simp add: Let_def)
  next
    case label
    then have "list_records mx rs rows 0 es = Some (stop, p, n, es1)"
      using Cons.prems(5) unfolding run by simp
    from IH [OF ok Cons.prems(3,4) this] show ?thesis using label by (simp add: Let_def)
  next
    case full
    then show ?thesis using Cons.prems(4,5) unfolding run by simp
  next
    case entry
    obtain e where e: "make_entry r 0 rows present = Some e" "terminated (e_name e)"
      "shown e = (listed_name hs ?d, de_attr ?d, first_cluster ?d, file_size ?d)"
      using make_entry_shown [OF r Cons.prems(2)] unfolding Let_def by metis
    have "list_records mx rs rows 0 (es @ [e]) = Some (stop, p, n, es1)"
      using entry e(1) Cons.prems(5) unfolding run by simp
    moreover have "length (es @ [e]) \<le> mx" "\<forall>x\<in>set (es @ [e]). terminated (e_name x)"
      using entry(4) Cons.prems(4) e(2) by auto
    ultimately have "map shown es1 = map shown (es @ [e]) @ take (mx - length (es @ [e])) (listing [] rs)
        \<and> (\<forall>e\<in>set es1. terminated (e_name e))"
      using IH [OF ok] by blast
    moreover have "mx - length es = Suc (mx - length (es @ [e]))" using entry(4) by simp
    ultimately show ?thesis using entry(1-3) e(3) by (simp add: Let_def)
  qed
qed

section \<open>Properties\<close>

text \<open>
  C20. \<open>fat32_list_dir\<close> returns the listing of its directory, for every contents of the directory, every
  chain of finite length and every room for entries. The listing is made of the fields of the packed records
  before the end mark: long-name records and volume labels are not listed; every other record (also one marked
  deleted, whose mark the code never sees) is listed with its attributes, its first cluster, its size and its
  name; and it is cut to \<open>max_entries\<close>. A name is the 8.3 name without blanks or, after long-name records,
  their parts from the highest index down, cut to 255 characters: names of one part are right, longer
  ones come out with their parts in reverse order. The value returned is the number of entries, -1 without
  memory, and the state is as before.
\<close>

theorem list_dir_lists:
  assumes "block_device dv drive img" and "reliable dv drive" and "fs_sound img s"
    and "kmalloc 512 (fheap s) = Some (p, h)" and "fat_chain (fat_value img s) cl cls"
  shows "\<exists>es s'. fat32_list_dir dv drive cl mx s = Some (if p = 0 then (- 1, [], s') else (of_nat (length es), es, s'))
    \<and> map shown es = take mx (listing [] (dir_records img s cls)) \<and> (\<forall>e\<in>set es. terminated (e_name e))
    \<and> fs_sound img s' \<and> same_volume img s s'"
proof -
  obtain stop rows present es s' where
    l: "list_records mx (dir_records img s cls) no_parts 0 [] = Some (stop, rows, present, es)"
    and r: "fat32_list_dir dv drive cl mx s = Some (if p = 0 then (- 1, [], s') else (of_nat (length es), es, s'))"
      "fs_sound img s'" "same_volume img s s'"
    using list_dir_spec [OF assms] by blast
  show ?thesis
    using list_records_listing [OF dir_records_length [OF assms(1)] holds_parts_Nil [OF no_parts_ok] _ _ l] r by auto
qed

text \<open>The small directory lists foo.txt and, with its first byte 0xE5, the deleted file.\<close>

theorem list_dir_lists_witness:
  "\<exists>es s'. fat32_list_dir whole_ram 0 2 64 demo_dir = Some (2, es, s')
    \<and> map shown es = [(lit ''FOO.TXT'', 0x20, 3, 512), (0xE5 # lit ''AR.TXT'', 0x20, 5, 512)]"
proof -
  obtain h where h: "kmalloc 512 boot_heap = Some (0x200020, h)" using boot_heap_kmalloc_512 by blast
  have e: "listing [] (replicate n (replicate 32 0)) = []" for n
    by (cases n) (simp_all add: Let_def dir_entry_of_def part_of_def)
  have l: "listing [] (dir_records image512 demo_dir [2]) = [(lit ''FOO.TXT'', 0x20, 3, 512), (0xE5 # lit ''AR.TXT'', 0x20, 5, 512)]"
    unfolding demo_dir_records
    by (simp add: lit_def Let_def dir_entry_of_def part_of_def le16_def le32_def listed_name_def part_count_def
        short_text_def first_cluster_def nth_append e)
  obtain es s' where "fat32_list_dir whole_ram 0 2 64 demo_dir = Some (of_nat (length es), es, s')"
    "map shown es = take 64 (listing [] (dir_records image512 demo_dir [2]))"
    using list_dir_lists [where dv = whole_ram and drive = 0 and img = image512 and s = demo_dir
        and p = "0x200020" and h = h and cl = 2 and cls = "[2]" and mx = 64] h demo_dir_sound
    by (auto simp: demo_dir_fat)
  then have es: "map shown es = [(lit ''FOO.TXT'', 0x20, 3, 512), (0xE5 # lit ''AR.TXT'', 0x20, 5, 512)]"
    "fat32_list_dir whole_ram 0 2 64 demo_dir = Some (of_nat (length es), es, s')"
    unfolding l by simp_all
  have "length (map shown es) = 2" unfolding es(1) by simp
  then have "length es = 2" by simp
  then show ?thesis using es by (intro exI [of _ es] exI [of _ s']) simp
qed

end
