(* ===== verification/Ata.thy ===== *)
theory Ata
  imports Ports Cstring Fat32
begin

text \<open>
  The ATA disk driver, drivers/storage/ata.c, in programmed input and output. The controller is reached
  through the port bus. The table \<open>drives\<close> is kept as the bytes of its four structures, because the
  driver writes behind the ends of their name fields.
\<close>

section \<open>The drive table\<close>

text \<open>
  \<open>ata_drive_t\<close> has 112 bytes: \<open>present\<close> at 0, \<open>type\<close> at 1, \<open>sectors\<close> at 4, \<open>size\<close> at 8, \<open>name\<close> at 12,
  \<open>vendor\<close> at 52 and \<open>serial\<close> at 92.
\<close>

definition drive_at :: "u8 \<Rightarrow> nat" where
  "drive_at drive = 112 * unat drive"

definition present :: "bytes \<Rightarrow> u8 \<Rightarrow> bool option" where
  "present drives drive = do { b \<leftarrow> rd drives (drive_at drive); Some (b \<noteq> 0) }"

definition ata_get_drive :: "u8 \<Rightarrow> bytes \<Rightarrow> nat option option" where
  "ata_get_drive drive drives =
     (if drive \<ge> 4 then Some None
      else do { here \<leftarrow> present drives drive; Some (if here then Some (drive_at drive) else None) })"

section \<open>Waiting\<close>

text \<open>\<open>do { status = inb } while (busy && --timeout)\<close>, by the rounds left.\<close>

fun ata_wait_loop :: "'d bus \<Rightarrow> u16 \<Rightarrow> nat \<Rightarrow> 'd \<Rightarrow> 'd" where
  "ata_wait_loop bus base 0 d = d"
| "ata_wait_loop bus base (Suc n) d = (
     let (status, d1) = inb bus (base + 7) d
     in if n = 0 then d1
        else if status AND 0x80 \<noteq> 0 then ata_wait_loop bus base n d1 else d1)"

definition ata_wait :: "'d bus \<Rightarrow> u16 \<Rightarrow> 'd \<Rightarrow> 'd" where
  "ata_wait bus base d = ata_wait_loop bus base 1000000 d"

definition ata_check_error :: "'d bus \<Rightarrow> u16 \<Rightarrow> 'd \<Rightarrow> i32 \<times> 'd" where
  "ata_check_error bus base d = (
     let (status, d1) = inb bus (base + 7) d in (if status AND 0x01 \<noteq> 0 then - 1 else 0, d1))"

definition ata_select_drive :: "'d bus \<Rightarrow> u16 \<Rightarrow> u8 \<Rightarrow> 'd \<Rightarrow> 'd" where
  "ata_select_drive bus base drive d = ata_wait bus base (outb bus (base + 6) (0xE0 OR push_bit 4 drive) d)"

text \<open>
  \<open>do { status = inb } while (P status && --timeout)\<close>: the last status, whether the timeout ran out, and
  the devices.
\<close>

fun poll :: "'d bus \<Rightarrow> u16 \<Rightarrow> (u8 \<Rightarrow> bool) \<Rightarrow> nat \<Rightarrow> 'd \<Rightarrow> u8 \<times> bool \<times> 'd" where
  "poll bus base P 0 d = (0, True, d)"
| "poll bus base P (Suc n) d = (
     let (status, d1) = inb bus (base + 7) d
     in if P status then (if n = 0 then (status, True, d1) else poll bus base P n d1)
        else (status, False, d1))"

text \<open>\<open>while (P status && (--timeout != 0)) status = inb\<close>\<close>

fun poll_more :: "'d bus \<Rightarrow> u16 \<Rightarrow> (u8 \<Rightarrow> bool) \<Rightarrow> u8 \<Rightarrow> nat \<Rightarrow> 'd \<Rightarrow> u8 \<times> bool \<times> 'd" where
  "poll_more bus base P status 0 d = (status, True, d)"
| "poll_more bus base P status (Suc n) d =
     (if P status
      then (if n = 0 then (status, True, d)
            else (let (status1, d1) = inb bus (base + 7) d in poll_more bus base P status1 n d1))
      else (status, False, d))"

fun read_words :: "'d bus \<Rightarrow> u16 \<Rightarrow> nat \<Rightarrow> 'd \<Rightarrow> u16 list \<times> 'd" where
  "read_words bus base 0 d = ([], d)"
| "read_words bus base (Suc n) d = (
     let (w, d1) = inw bus base d; (ws, d2) = read_words bus base n d1 in (w # ws, d2))"

section \<open>Identification\<close>

text \<open>\<open>n\<close> words from \<open>i\<close> on, each high byte first.\<close>

definition word_text :: "u16 list \<Rightarrow> nat \<Rightarrow> nat \<Rightarrow> bytes option" where
  "word_text buffer i n = (if i + n \<le> length buffer
     then Some (concat (map (\<lambda>w. [ucast (drop_bit 8 w AND 0xFF), ucast (w AND 0xFF)]) (take n (drop i buffer))))
     else None)"

text \<open>
  \<open>for (i = 0; i < 40 && model[i] != 0; i++) ...\<close> and the loop that cuts trailing blanks, which the copy
  has none of.
\<close>

fun vendor_copy :: "bytes \<Rightarrow> bytes \<Rightarrow> nat \<Rightarrow> nat \<Rightarrow> (bytes \<times> nat) option" where
  "vendor_copy model vendor vi 0 = Some (vendor, vi)"
| "vendor_copy model vendor vi (Suc n) = do {
     c \<leftarrow> rd model (39 - n);
     if c = 0 \<or> c = 32 \<or> c = 45 then Some (vendor, vi)
     else do { v1 \<leftarrow> wr vendor vi c; vendor_copy model v1 (vi + 1) n } }"

definition vendor_name :: "bytes \<Rightarrow> bytes option" where
  "vendor_name model = do {
     (v, vi) \<leftarrow> vendor_copy model (replicate 41 0) 0 40;
     v1 \<leftarrow> wr v vi 0;
     trim_tail v1 vi }"

text \<open>The entry of a drive that answered, from the 256 words of its answer.\<close>

definition fill_drive :: "u8 \<Rightarrow> u16 list \<Rightarrow> bytes \<Rightarrow> bytes option" where
  "fill_drive drive buffer drives = do {
     let at = drive_at drive;
     t \<leftarrow> wr drives at 1;
     t \<leftarrow> wr t (at + 1) 1;
     lo \<leftarrow> rd buffer 60; hi \<leftarrow> rd buffer 61;
     let sectors = (ucast lo OR push_bit 16 (ucast hi) :: u32);
     t \<leftarrow> put32 t (at + 4) sectors;
     t \<leftarrow> put32 t (at + 8) (sectors * 512);
     m \<leftarrow> word_text buffer 27 20;
     model \<leftarrow> trim (m @ [0]);
     t \<leftarrow> strncpy t (at + 12) model 40;
     t \<leftarrow> wr t (at + 12 + 40) 0;
     s \<leftarrow> word_text buffer 10 10;
     serial \<leftarrow> trim (s @ [0]);
     t \<leftarrow> strncpy t (at + 92) serial 20;
     t \<leftarrow> wr t (at + 92 + 20) 0;
     vendor \<leftarrow> vendor_name model;
     t \<leftarrow> strncpy t (at + 52) vendor 40;
     wr t (at + 52 + 40) 0 }"

definition ata_init_drive :: "'d bus \<Rightarrow> u16 \<Rightarrow> u8 \<Rightarrow> bytes \<Rightarrow> 'd \<Rightarrow> (i32 \<times> bytes \<times> 'd) option" where
  "ata_init_drive bus base drive drives d = (
     let d1 = ata_select_drive bus base drive d;
         d2 = ata_wait bus base (outb bus (base + 7) 0xEC d1);
         (status, d3) = inb bus (base + 7) d2;
         (status, out, d4) = poll_more bus base (\<lambda>st. st AND 0x80 \<noteq> 0) status 1000000 d3
     in if out then Some (- 1, drives, d4)
        else (let (err, d5) = ata_check_error bus base d4
              in if err \<noteq> 0 then Some (- 1, drives, d5)
                 else (let (status, out, d6) =
                           poll_more bus base (\<lambda>st. \<not> (st AND 0x08 \<noteq> 0 \<or> st AND 0x01 \<noteq> 0)) status 1000000 d5
                       in if out \<or> status AND 0x01 \<noteq> 0 then Some (- 1, drives, d6)
                          else (let (buffer, d7) = read_words bus base 256 d6
                                in do { t \<leftarrow> fill_drive drive buffer drives; Some (0, t, d7) }))))"

definition ata_init :: "'d bus \<Rightarrow> bytes \<Rightarrow> 'd \<Rightarrow> (bytes \<times> 'd) option" where
  "ata_init bus drives0 d0 = do {
     drives \<leftarrow> memset drives0 0 0 448;
     (_, t, d) \<leftarrow> ata_init_drive bus 0x1F0 0 drives d0;
     (_, t, d) \<leftarrow> ata_init_drive bus 0x1F0 1 t d;
     (_, t, d) \<leftarrow> ata_init_drive bus 0x170 0 t d;
     (_, t, d) \<leftarrow> ata_init_drive bus 0x170 1 t d;
     Some (t, d) }"

text \<open>
  Two older routines that nothing calls. In the first the names come from the bytes of the words with
  each pair swapped, and trailing blanks are cut; in the second the model array has 41 bytes.
\<close>

definition read_device_info :: "'d bus \<Rightarrow> u16 \<Rightarrow> bytes \<Rightarrow> 'd \<Rightarrow> (bytes \<times> 'd) option" where
  "read_device_info bus base model d = (
     let d1 = ata_wait bus base (outb bus (base + 7) 0xEC d);
         (err, d2) = ata_check_error bus base d1
     in if err \<noteq> 0 then do { m \<leftarrow> strcpy model 0 (zlit ''Unknown''); Some (m, d2) }
        else (let (buffer, d3) = read_words bus base 256 d2
              in do {
                   t \<leftarrow> word_text buffer 27 20;
                   m \<leftarrow> memcpy model 0 (t @ [0]) 41;
                   len \<leftarrow> strlen m;
                   m1 \<leftarrow> trim_tail m len;
                   Some (m1, d3) }))"

fun cut_blanks :: "bytes \<Rightarrow> nat \<Rightarrow> bytes option" where
  "cut_blanks m 0 = Some m"
| "cut_blanks m (Suc n) = do {
     c \<leftarrow> rd m n;
     if c = 32 then do { m1 \<leftarrow> wr m n 0; cut_blanks m1 n } else Some m }"

definition ata_identify_device :: "'d bus \<Rightarrow> u16 \<Rightarrow> u8 \<Rightarrow> bytes \<Rightarrow> 'd \<Rightarrow> (i32 \<times> bytes \<times> 'd) option" where
  "ata_identify_device bus base drive model d = (
     let d1 = outb bus (base + 6) (0xA0 OR push_bit 4 drive) d;
         (_, d2) = inb bus (base + 7) d1;
         (_, _, d3) = poll bus base (\<lambda>st. st AND 0x80 \<noteq> 0) 1000 d2;
         d4 = outb bus (base + 7) 0xEC d3;
         (status, _, d5) = poll bus base (\<lambda>st. \<not> (st AND 0x80 = 0 \<and> st AND 0x08 \<noteq> 0)) 1000 d4
     in if status AND 0x08 = 0 then Some (- 1, model, d5)
        else (let (buffer, d6) = read_words bus base 256 d5
              in do {
                   t \<leftarrow> word_text buffer 27 20;
                   m \<leftarrow> memcpy model 0 (t @ [0]) 41;
                   m1 \<leftarrow> cut_blanks m 40;
                   Some (0, m1, d6) }))"

section \<open>Transfers\<close>

text \<open>The task file of a transfer of one sector, up to the command.\<close>

definition task_file :: "'d bus \<Rightarrow> u16 \<Rightarrow> u8 \<Rightarrow> u32 \<Rightarrow> u8 \<Rightarrow> 'd \<Rightarrow> 'd" where
  "task_file bus base head lba command d = (
     let d = ata_select_drive bus base head d;
         d = outb bus (base + 2) 1 d;
         d = outb bus (base + 3) (ucast (lba AND 0xFF)) d;
         d = outb bus (base + 4) (ucast (drop_bit 8 lba AND 0xFF)) d;
         d = outb bus (base + 5) (ucast (drop_bit 16 lba AND 0xFF)) d;
         d = outb bus (base + 6) (0xE0 OR push_bit 4 head OR ucast (drop_bit 24 lba AND 0x0F)) d
     in outb bus (base + 7) command d)"

definition channel :: "u8 \<Rightarrow> u16" where
  "channel drive = (if drive < 2 then 0x1F0 else 0x170)"

definition ata_read_sector :: "'d bus \<Rightarrow> u8 \<Rightarrow> u32 \<Rightarrow> bytes \<Rightarrow> bytes \<Rightarrow> 'd \<Rightarrow> (i32 \<times> bytes \<times> 'd) option" where
  "ata_read_sector bus drive lba buffer drives d =
     (if drive \<ge> 4 then Some (- 1, buffer, d)
      else do {
        here \<leftarrow> present drives drive;
        if \<not> here then Some (- 1, buffer, d)
        else do {
          let base = channel drive;
          let d1 = ata_wait bus base (task_file bus base (drive mod 2) lba 0x20 d);
          let (err, d2) = ata_check_error bus base d1;
          if err \<noteq> 0 then Some (- 1, buffer, d2)
          else do {
            (b, d3) \<leftarrow> insw bus base buffer 0 256 d2;
            Some (0, b, d3) } } })"

definition ata_write_sector :: "'d bus \<Rightarrow> u8 \<Rightarrow> u32 \<Rightarrow> bytes \<Rightarrow> bytes \<Rightarrow> 'd \<Rightarrow> (i32 \<times> 'd) option" where
  "ata_write_sector bus drive lba buffer drives d =
     (if drive \<ge> 4 then Some (- 1, d)
      else do {
        here \<leftarrow> present drives drive;
        if \<not> here then Some (- 1, d)
        else do {
          let base = channel drive;
          let (status, out, d1) = poll bus base (\<lambda>st. st AND 0x80 \<noteq> 0 \<or> st AND 0x08 = 0) 1000000
                                    (task_file bus base (drive mod 2) lba 0x30 d);
          if out \<or> status AND 0x01 \<noteq> 0 then Some (- 1, d1)
          else do {
            d2 \<leftarrow> outsw bus base buffer 0 256 d1;
            let (status, out, d3) = poll bus base (\<lambda>st. st AND 0x80 \<noteq> 0) 1000000 d2;
            Some (if out \<or> status AND 0x01 \<noteq> 0 then - 1 else 0, d3) } } })"

section \<open>The controller\<close>

text \<open>
  What the driver relies on of a channel in programmed input and output, as the ATA standard has it: the
  task file, the busy bit for some status reads after each command, the 256 words of a sector through
  the data port, and two drives of sectors with 28-bit addresses. \<open>lag\<close> is the number of status reads
  for which the controller stays busy.
\<close>

record controller =
  r_num :: u8
  r_low :: u8
  r_high :: u8
  r_drive :: u8
  busy :: nat
  lag :: nat
  to_host :: "u16 list"
  wanted :: nat
  from_host :: "u16 list"
  units :: "bool \<Rightarrow> u32 \<Rightarrow> u16 list"

definition ctl_lba :: "controller \<Rightarrow> u32" where
  "ctl_lba c = push_bit 24 (ucast (r_drive c AND 0x0F)) OR push_bit 16 (ucast (r_high c))
     OR push_bit 8 (ucast (r_low c)) OR ucast (r_num c)"

definition ctl_unit :: "controller \<Rightarrow> bool" where
  "ctl_unit c \<longleftrightarrow> r_drive c AND 0x10 \<noteq> 0"

definition ctl_command :: "u8 \<Rightarrow> controller \<Rightarrow> controller" where
  "ctl_command v c = (if v = 0x20 then c\<lparr>busy := lag c, to_host := units c (ctl_unit c) (ctl_lba c), wanted := 0\<rparr>
     else if v = 0x30 then c\<lparr>busy := lag c, to_host := [], wanted := 256, from_host := []\<rparr> else c)"

definition ctl_out :: "nat \<Rightarrow> u8 \<Rightarrow> controller \<Rightarrow> controller" where
  "ctl_out k v c = (if k = 3 then c\<lparr>r_num := v\<rparr> else if k = 4 then c\<lparr>r_low := v\<rparr> else if k = 5 then c\<lparr>r_high := v\<rparr>
     else if k = 6 then c\<lparr>r_drive := v\<rparr> else if k = 7 then ctl_command v c else c)"

definition ctl_status :: "controller \<Rightarrow> u8 \<times> controller" where
  "ctl_status c = (case busy c of Suc n \<Rightarrow> (0x80, c\<lparr>busy := n\<rparr>)
     | 0 \<Rightarrow> (if to_host c \<noteq> [] \<or> 0 < wanted c then 0x48 else 0x40, c))"

definition ctl_inw :: "controller \<Rightarrow> u16 \<times> controller" where
  "ctl_inw c = (case to_host c of [] \<Rightarrow> (0, c) | w # ws \<Rightarrow> (w, c\<lparr>to_host := ws\<rparr>))"

definition ctl_outw :: "u16 \<Rightarrow> controller \<Rightarrow> controller" where
  "ctl_outw w c = (case wanted c of 0 \<Rightarrow> c
     | Suc 0 \<Rightarrow> c\<lparr>wanted := 0, from_host := [], busy := lag c,
         units := (units c)(ctl_unit c := (units c (ctl_unit c))(ctl_lba c := from_host c @ [w]))\<rparr>
     | Suc n \<Rightarrow> c\<lparr>wanted := n, from_host := from_host c @ [w]\<rparr>)"

text \<open>The bus reaches a controller at \<open>base\<close>, seen through \<open>view\<close>.\<close>

definition ata_channel :: "'d bus \<Rightarrow> u16 \<Rightarrow> ('d \<Rightarrow> controller) \<Rightarrow> bool" where
  "ata_channel bus base view \<longleftrightarrow>
     (\<forall>d k v. k < 8 \<longrightarrow> view (port_outb bus (base + of_nat k) v d) = ctl_out k v (view d))
   \<and> (\<forall>d. fst (port_inb bus (base + 7) d) = fst (ctl_status (view d))
        \<and> view (snd (port_inb bus (base + 7) d)) = snd (ctl_status (view d)))
   \<and> (\<forall>d. fst (port_inw bus base d) = fst (ctl_inw (view d))
        \<and> view (snd (port_inw bus base d)) = snd (ctl_inw (view d)))
   \<and> (\<forall>d w. view (port_outw bus base w d) = ctl_outw w (view d))"

text \<open>Sectors have 256 words, and the controller is not busy for longer than the driver waits.\<close>

definition ctl_ok :: "controller \<Rightarrow> bool" where
  "ctl_ok c \<longleftrightarrow> lag c < 1000000 \<and> busy c \<le> lag c \<and> (\<forall>u lba. length (units c u lba) = 256)"

definition sector_bytes :: "u16 list \<Rightarrow> bytes" where
  "sector_bytes ws = concat (map bytes16 ws)"

definition sector_words :: "bytes \<Rightarrow> nat \<Rightarrow> u16 list" where
  "sector_words buffer n = map (\<lambda>i. the (get16 buffer (2 * i))) [0..<n]"

section \<open>The driver on the controller\<close>

lemma channel_out:
  assumes "ata_channel bus base view"
  shows "view (outb bus (base + 2) v d) = view d" "view (outb bus (base + 3) v d) = (view d)\<lparr>r_num := v\<rparr>"
    "view (outb bus (base + 4) v d) = (view d)\<lparr>r_low := v\<rparr>" "view (outb bus (base + 5) v d) = (view d)\<lparr>r_high := v\<rparr>"
    "view (outb bus (base + 6) v d) = (view d)\<lparr>r_drive := v\<rparr>" "view (outb bus (base + 7) v d) = ctl_command v (view d)"
proof -
  have out: "view (outb bus (base + of_nat k) v d) = ctl_out k v (view d)" if "k < 8" for k
    using assms that by (simp add: ata_channel_def outb_def)
  show "view (outb bus (base + 2) v d) = view d" "view (outb bus (base + 3) v d) = (view d)\<lparr>r_num := v\<rparr>"
    "view (outb bus (base + 4) v d) = (view d)\<lparr>r_low := v\<rparr>" "view (outb bus (base + 5) v d) = (view d)\<lparr>r_high := v\<rparr>"
    "view (outb bus (base + 6) v d) = (view d)\<lparr>r_drive := v\<rparr>" "view (outb bus (base + 7) v d) = ctl_command v (view d)"
    using out [of 2] out [of 3] out [of 4] out [of 5] out [of 6] out [of 7] by (simp_all add: ctl_out_def)
qed

lemma channel_status:
  assumes "ata_channel bus base view"
  obtains d1 where "inb bus (base + 7) d = (fst (ctl_status (view d)), d1)" "view d1 = snd (ctl_status (view d))"
  using assms that [of "snd (inb bus (base + 7) d)"] by (simp add: ata_channel_def inb_def prod_eq_iff)

lemma channel_inw:
  assumes "ata_channel bus base view"
  obtains d1 where "inw bus base d = (fst (ctl_inw (view d)), d1)" "view d1 = snd (ctl_inw (view d))"
  using assms that [of "snd (inw bus base d)"] by (simp add: ata_channel_def inw_def prod_eq_iff)

lemma channel_outw: "ata_channel bus base view \<Longrightarrow> view (outw bus base w d) = ctl_outw w (view d)"
  by (simp add: ata_channel_def outw_def)

lemma ata_wait_loop_view:
  assumes "ata_channel bus base view"
  shows "busy (view d) < n \<Longrightarrow> view (ata_wait_loop bus base n d) = (view d)\<lparr>busy := 0\<rparr>"
proof (induction n arbitrary: d)
  case 0
  then show ?case by simp
next
  case (Suc n)
  obtain d1 where d1: "inb bus (base + 7) d = (fst (ctl_status (view d)), d1)" "view d1 = snd (ctl_status (view d))"
    by (rule channel_status [OF assms])
  show ?case
  proof (cases "busy (view d)")
    case 0
    then show ?thesis using d1 by (simp add: ctl_status_def)
  next
    case (Suc b)
    then show ?thesis using d1 Suc.IH [of d1] Suc.prems by (auto simp: ctl_status_def)
  qed
qed

lemma ata_wait_view:
  "ata_channel bus base view \<Longrightarrow> busy (view d) < 1000000 \<Longrightarrow> view (ata_wait bus base d) = (view d)\<lparr>busy := 0\<rparr>"
  unfolding ata_wait_def by (rule ata_wait_loop_view)

lemma poll_view:
  assumes "ata_channel bus base view" and "P 0x80"
    and "\<not> P (if to_host (view d) \<noteq> [] \<or> 0 < wanted (view d) then 0x48 else 0x40)"
  shows "busy (view d) < n \<Longrightarrow> \<exists>d1. poll bus base P n d
      = (if to_host (view d) \<noteq> [] \<or> 0 < wanted (view d) then 0x48 else 0x40, False, d1)
    \<and> view d1 = (view d)\<lparr>busy := 0\<rparr>"
  using assms(3)
proof (induction n arbitrary: d)
  case 0
  then show ?case by simp
next
  case (Suc n)
  obtain d1 where d1: "inb bus (base + 7) d = (fst (ctl_status (view d)), d1)" "view d1 = snd (ctl_status (view d))"
    by (rule channel_status [OF assms(1)])
  show ?case
  proof (cases "busy (view d)")
    case 0
    then show ?thesis using d1 Suc.prems(2) by (simp add: ctl_status_def)
  next
    case (Suc b)
    then show ?thesis using d1 Suc.IH [of d1] Suc.prems assms(2) by (auto simp: ctl_status_def)
  qed
qed

lemma task_lba:
  "push_bit 24 (ucast ((0xE0 OR push_bit 4 head OR ucast (drop_bit 24 lba AND 0x0F)) AND 0x0F :: u8))
     OR push_bit 16 (ucast (ucast (drop_bit 16 lba AND 0xFF) :: u8))
     OR push_bit 8 (ucast (ucast (drop_bit 8 lba AND 0xFF) :: u8))
     OR ucast (ucast (lba AND 0xFF) :: u8) = (lba AND 0x0FFFFFFF :: u32)"
proof (rule bit_word_eqI)
  fix n assume n: "n < LENGTH(32)"
  have m: "(0x0FFFFFFF :: u32) = mask 28" "(0xFF :: u32) = mask 8" "(0x0F :: u32) = mask 4" "(0x0F :: u8) = mask 4"
    "(0xE0 :: u8) = push_bit 5 (mask 3)"
    by (simp_all add: mask_eq_exp_minus_1)
  consider "n < 8" | "8 \<le> n" "n < 16" | "16 \<le> n" "n < 24" | "24 \<le> n" "n < 28" | "28 \<le> n" by linarith
  then show "bit (push_bit 24 (ucast ((0xE0 OR push_bit 4 head OR ucast (drop_bit 24 lba AND 0x0F)) AND 0x0F :: u8))
     OR push_bit 16 (ucast (ucast (drop_bit 16 lba AND 0xFF) :: u8))
     OR push_bit 8 (ucast (ucast (drop_bit 8 lba AND 0xFF) :: u8))
     OR ucast (ucast (lba AND 0xFF) :: u8) :: u32) n = bit (lba AND 0x0FFFFFFF) n"
    unfolding m using n by cases (auto simp: bit_simps)
qed

lemma task_unit: "(0xE0 OR push_bit 4 (drive mod 2) OR ucast (drop_bit 24 lba AND 0x0F) :: u8) AND 0x10 \<noteq> 0 \<longleftrightarrow> odd drive"
  for drive :: u8 and lba :: u32
proof -
  have m: "(0x0F :: u32) = mask 4" "(0xE0 :: u8) = push_bit 5 (mask 3)" "drive mod 2 = drive AND 1"
    by (simp_all add: mask_eq_exp_minus_1 and_one_eq)
  have "bit (push_bit 4 1 :: int) n \<longleftrightarrow> n = 4" for n
    unfolding bit_push_bit_iff bit_1_iff by auto
  then have b16: "bit (0x10 :: int) n \<longleftrightarrow> n = 4" for n by simp
  have "(0xE0 OR push_bit 4 (drive mod 2) OR ucast (drop_bit 24 lba AND 0x0F) :: u8) AND 0x10 = push_bit 4 (drive AND 1)"
    unfolding m by (rule bit_word_eqI) (auto simp: bit_simps b16)
  moreover have "push_bit 4 (drive AND 1) \<noteq> 0 \<longleftrightarrow> odd drive"
    by (cases "odd drive") (simp_all add: and_one_eq odd_iff_mod_2_eq_one even_iff_mod_2_eq_zero)
  ultimately show ?thesis by (simp only:)
qed

definition task_drive :: "u8 \<Rightarrow> u32 \<Rightarrow> u8" where
  "task_drive head lba = 0xE0 OR push_bit 4 head OR ucast (drop_bit 24 lba AND 0x0F)"

lemma task_file_view:
  assumes "ata_channel bus base view" and "busy (view d) < 1000000"
  shows "view (task_file bus base head lba command d) = ctl_command command ((view d)\<lparr>busy := 0,
    r_num := ucast (lba AND 0xFF), r_low := ucast (drop_bit 8 lba AND 0xFF), r_high := ucast (drop_bit 16 lba AND 0xFF),
    r_drive := task_drive head lba\<rparr>)"
proof -
  have "view (ata_select_drive bus base head d) = (view d)\<lparr>r_drive := 0xE0 OR push_bit 4 head, busy := 0\<rparr>"
    using assms by (simp add: ata_select_drive_def ata_wait_view channel_out)
  then show ?thesis
    using assms(1) by (simp add: task_file_def Let_def channel_out task_drive_def)
qed

lemma task_target:
  assumes "r_drive c = task_drive (drive mod 2) lba" and "r_num c = ucast (lba AND 0xFF)"
    and "r_low c = ucast (drop_bit 8 lba AND 0xFF)" and "r_high c = ucast (drop_bit 16 lba AND 0xFF)"
  shows "ctl_lba c = lba AND 0x0FFFFFFF" and "ctl_unit c \<longleftrightarrow> odd drive"
  unfolding ctl_lba_def ctl_unit_def assms task_drive_def by (rule task_lba, rule task_unit)

lemma insw_view:
  assumes "ata_channel bus base view"
  shows "to_host (view d) = ws \<Longrightarrow> i + 2 * length ws \<le> length buf \<Longrightarrow>
    \<exists>d1. insw bus base buf i (length ws) d = Some (blit buf i (sector_bytes ws), d1) \<and> view d1 = (view d)\<lparr>to_host := []\<rparr>"
proof (induction ws arbitrary: buf i d)
  case Nil
  then show ?case by (simp add: sector_bytes_def)
next
  case (Cons w ws)
  obtain d1 where d1: "inw bus base d = (w, d1)" "view d1 = (view d)\<lparr>to_host := ws\<rparr>"
    using channel_inw [OF assms, of d] Cons.prems(1) by (auto simp: ctl_inw_def)
  have b: "put16 buf i w = Some (blit buf i (bytes16 w))" using Cons.prems(2) by (simp add: put16_blit)
  have len: "length (blit buf i (bytes16 w)) = length buf" using Cons.prems(2) by simp
  obtain d2 where d2: "insw bus base (blit buf i (bytes16 w)) (i + 2) (length ws) d1
      = Some (blit (blit buf i (bytes16 w)) (i + 2) (sector_bytes ws), d2)" "view d2 = (view d1)\<lparr>to_host := []\<rparr>"
    using Cons.IH [of d1 "i + 2" "blit buf i (bytes16 w)"] d1(2) len Cons.prems(2) by auto
  have "length (sector_bytes ws) = 2 * length ws" by (induction ws) (simp_all add: sector_bytes_def)
  then have "blit (blit buf i (bytes16 w)) (i + 2) (sector_bytes ws) = blit buf i (sector_bytes (w # ws))"
    using blit_blit_next [of i "bytes16 w" "sector_bytes ws" buf] Cons.prems(2) by (simp add: sector_bytes_def)
  then show ?case using d1 d2 b by simp
qed

definition ctl_commit :: "controller \<Rightarrow> u16 list \<Rightarrow> controller" where
  "ctl_commit c ws = c\<lparr>wanted := 0, from_host := [], busy := lag c,
     units := (units c)(ctl_unit c := (units c (ctl_unit c))(ctl_lba c := ws))\<rparr>"

lemma ctl_outw_Suc:
  "wanted c = Suc 0 \<Longrightarrow> ctl_outw w c = ctl_commit c (from_host c @ [w])"
  "wanted c = Suc (Suc n) \<Longrightarrow> ctl_outw w c = c\<lparr>wanted := Suc n, from_host := from_host c @ [w]\<rparr>"
  by (simp_all add: ctl_outw_def ctl_commit_def)

lemma ctl_commit_next: "ctl_commit (c\<lparr>wanted := n, from_host := xs\<rparr>) ws = ctl_commit c ws"
  by (simp add: ctl_commit_def ctl_lba_def ctl_unit_def)

lemma outsw_Suc: "get16 buf i = Some w \<Longrightarrow> outsw bus port buf i (Suc n) d = outsw bus port buf (i + 2) n (outw bus port w d)"
  by simp

lemma outsw_view:
  assumes "ata_channel bus base view"
  shows "wanted (view d) = Suc n \<Longrightarrow> i + 2 * Suc n \<le> length buf \<Longrightarrow>
    \<exists>d1. outsw bus base buf i (Suc n) d = Some d1
      \<and> view d1 = ctl_commit (view d) (from_host (view d) @ map (\<lambda>j. the (get16 buf (i + 2 * j))) [0..<Suc n])"
proof (induction n arbitrary: i d)
  case 0
  then obtain w where w: "get16 buf i = Some w" using get16_defined [of i buf] by auto
  then show ?case using channel_outw [OF assms, of w d] 0 by (simp add: outsw_Suc ctl_outw_Suc)
next
  case (Suc n)
  obtain w where w: "get16 buf i = Some w" using get16_defined [of i buf] Suc.prems(2) by auto
  have v1: "view (outw bus base w d) = (view d)\<lparr>wanted := Suc n, from_host := from_host (view d) @ [w]\<rparr>"
    using channel_outw [OF assms, of w d] Suc.prems(1) by (simp add: ctl_outw_Suc)
  obtain d1 where d1: "outsw bus base buf (i + 2) (Suc n) (outw bus base w d) = Some d1"
    "view d1 = ctl_commit (view (outw bus base w d)) (from_host (view (outw bus base w d))
      @ map (\<lambda>j. the (get16 buf (i + 2 + 2 * j))) [0..<Suc n])"
    using Suc.IH [of "outw bus base w d" "i + 2"] Suc.prems(2) v1 by auto
  have mp: "map (\<lambda>j. the (get16 buf (i + 2 * j))) [0..<Suc (Suc n)] = w # map (\<lambda>j. the (get16 buf (i + 2 + 2 * j))) [0..<Suc n]"
    using w by (simp add: map_upt_Suc del: upt_Suc)
  show ?case using d1 unfolding outsw_Suc [OF w] v1 ctl_commit_next mp
    by (intro exI [of _ d1]) (simp del: upt_Suc outsw.simps)
qed

lemma four_drives: "drive < 4 \<Longrightarrow> (drive \<ge> 4) = False" for drive :: u8
  by (simp add: not_le)

lemma sector_words_length [simp]: "length (sector_words buffer n) = n"
  by (simp add: sector_words_def)

lemma sector_bytes_words:
  assumes "2 * n \<le> length buffer"
  shows "sector_bytes (sector_words buffer n) = take (2 * n) buffer"
  using assms
proof (induction n)
  case 0
  then show ?case by (simp add: sector_bytes_def sector_words_def)
next
  case (Suc n)
  have "bytes16 (the (get16 buffer (2 * n))) = [buffer ! (2 * n), buffer ! (2 * n + 1)]"
    using Suc.prems by (simp add: get16_def split16)
  moreover have "take (2 * Suc n) buffer = take (2 * n) buffer @ [buffer ! (2 * n), buffer ! (2 * n + 1)]"
    using Suc.prems by (simp add: take_Suc_conv_app_nth)
  ultimately show ?case using Suc by (simp add: sector_bytes_def sector_words_def)
qed

section \<open>Filling an entry\<close>

text \<open>A store that leaves everything outside \<open>lo .. hi\<close> as it was.\<close>

definition within :: "nat \<Rightarrow> nat \<Rightarrow> bytes \<Rightarrow> bytes \<Rightarrow> bool" where
  "within lo hi a b \<longleftrightarrow> length b = length a \<and> (\<forall>k. k < lo \<or> hi < k \<longrightarrow> b ! k = a ! k)"

lemma strncpy_within:
  assumes "terminated s" and "i + n < length d"
  obtains r where "strncpy d i s n = Some r" "within i (i + n) d r"
proof -
  let ?bs = "take n (cstr s) @ [0]"
  have r: "strncpy d i s n = Some (blit d i ?bs)" using assms by (intro strncpy_blit) auto
  have "(blit d i ?bs) ! k = d ! k" if "k < i \<or> i + n < k" "k < length d" for k
    using that assms(2) by (subst nth_blit) auto
  moreover have "length (blit d i ?bs) = length d" using assms(2) by simp
  moreover have "(blit d i ?bs) ! k = d ! k" if "\<not> k < length d" for k
    using that assms(2) by (auto simp: blit_def nth_append)
  ultimately show ?thesis using that [OF r] unfolding within_def by blast
qed

lemma word_text_ok: "i + n \<le> length ws \<Longrightarrow> \<exists>t. word_text ws i n = Some t \<and> length t = 2 * n"
proof -
  assume a: "i + n \<le> length ws"
  have "length (concat (map (\<lambda>w. [ucast (drop_bit 8 w AND 0xFF), ucast (w AND 0xFF) :: u8]) xs)) = 2 * length xs" for xs :: "u16 list"
    by (induction xs) simp_all
  from this [of "take n (drop i ws)"] show ?thesis using a unfolding word_text_def by simp
qed

lemma vendor_copy_ok:
  assumes "length model = 41" and "terminated model"
  shows "length v = 41 \<Longrightarrow> vi = 40 - n \<Longrightarrow> n \<le> 40 \<Longrightarrow>
    \<exists>w k. vendor_copy model v vi n = Some (w, k) \<and> length w = 41 \<and> k \<le> 40"
proof (induction n arbitrary: v vi)
  case 0
  then show ?case by simp
next
  case (Suc n)
  let ?c = "model ! (39 - n)"
  have rd: "rd model (39 - n) = Some ?c" using assms(1) Suc.prems(3) by simp
  show ?case
  proof (cases "?c = 0 \<or> ?c = 32 \<or> ?c = 45")
    case True
    then show ?thesis using rd Suc.prems by auto
  next
    case False
    have "vi + 1 = 40 - n" "vi < 41" using Suc.prems(2,3) by linarith+
    then show ?thesis using rd Suc.prems Suc.IH [of "v[vi := ?c]" "vi + 1"] False by simp
  qed
qed

lemma trim_tail_length: "k \<le> length s \<Longrightarrow> \<exists>t. trim_tail s k = Some t \<and> length t = length s"
proof (induction s k rule: trim_tail.induct)
  case (2 s n)
  then show ?case using 2(1) [of "s ! n" "s[n := 0]"] by (cases "s ! n = 32") simp_all
qed simp

lemma trim_tail_zero: "trim_tail s k = Some t \<Longrightarrow> terminated s \<Longrightarrow> terminated t"
proof (induction s k rule: trim_tail.induct)
  case (2 s n)
  show ?case
  proof (cases "s ! n = 32")
    case True
    then have "trim_tail (s[n := 0]) n = Some t" "n < length s" using 2(2) by (auto simp: bind_eq_Some_conv rd_eq_Some wr_eq_Some split: if_splits)
    moreover from this have "terminated (s[n := 0])" by (simp add: terminated_def set_update_memI)
    ultimately show ?thesis using 2 True by (auto simp: wr_eq_Some)
  next
    case False
    then show ?thesis using 2 by (auto simp: bind_eq_Some_conv rd_eq_Some split: if_splits)
  qed
qed simp

lemma vendor_name_ok:
  assumes "length model = 41" and "terminated model"
  shows "\<exists>v. vendor_name model = Some v \<and> terminated v"
proof -
  obtain w k where w: "vendor_copy model (replicate 41 0) 0 40 = Some (w, k)" "length w = 41" "k \<le> 40"
    using vendor_copy_ok [OF assms, of "replicate 41 0" 0 40] by auto
  obtain v where v: "trim_tail (w[k := 0]) k = Some v" using trim_tail_length [of k "w[k := 0]"] w(2,3) by auto
  have "terminated (w[k := 0])" using w(2,3) by (simp add: terminated_def set_update_memI)
  then show ?thesis using trim_tail_zero [OF v] v w by (simp add: vendor_name_def)
qed

lemma within_nth: "within lo hi a b \<Longrightarrow> k < lo \<or> hi < k \<Longrightarrow> b ! k = a ! k"
  unfolding within_def by blast

lemma fill_drive_spec:
  assumes "length buffer = 256" and "length drives = 448" and "drive < 3"
  shows "\<exists>t. fill_drive drive buffer drives = Some t \<and> length t = 448 \<and> t ! drive_at drive = 1
    \<and> t ! (drive_at drive + 92) = 0 \<and> t ! (drive_at drive + 112) = 0"
proof -
  let ?at = "drive_at drive"
  have at: "?at + 112 < 448"
    using assms(3) by (simp add: drive_at_def word_less_nat_alt)
  obtain m s where ms: "word_text buffer 27 20 = Some m" "length m = 40" "word_text buffer 10 10 = Some s" "length s = 20"
    using word_text_ok [of 27 20 buffer] word_text_ok [of 10 10 buffer] assms(1) by auto
  obtain model where model: "trim (m @ [0]) = Some model" "length model = 41" "terminated model"
    using trim_spec [of "m @ [0]"] ms(2) by auto
  obtain serial where serial: "trim (s @ [0]) = Some serial" "terminated serial" using trim_spec [of "s @ [0]"] by auto
  obtain vendor where vendor: "vendor_name model = Some vendor" "terminated vendor" using vendor_name_ok [OF model(2,3)] by blast
  let ?sectors = "ucast (buffer ! 60) OR push_bit 16 (ucast (buffer ! 61)) :: u32"
  define t4 where "t4 = blit (blit (drives[?at := 1, ?at + 1 := 1]) (?at + 4) (bytes32 ?sectors)) (?at + 8) (bytes32 (?sectors * 512))"
  have t4: "length t4 = 448" "t4 ! ?at = 1"
    using at assms(2) by (simp_all add: t4_def nth_blit)
  obtain t5 where t5: "strncpy t4 (?at + 12) model 40 = Some t5" "within (?at + 12) (?at + 12 + 40) t4 t5"
    by (rule strncpy_within [OF model(3), of "?at + 12" 40 t4]) (use at t4(1) in auto)
  have l5: "length t5 = 448" using t5(2) t4(1) by (simp add: within_def)
  let ?t6 = "t5[?at + 12 + 40 := 0]"
  obtain t7 where t7: "strncpy ?t6 (?at + 92) serial 20 = Some t7" "within (?at + 92) (?at + 92 + 20) ?t6 t7"
    by (rule strncpy_within [OF serial(2), of "?at + 92" 20 ?t6]) (use at l5 in auto)
  have l7: "length t7 = 448" using t7(2) l5 by (simp add: within_def)
  let ?t8 = "t7[?at + 92 + 20 := 0]"
  obtain t9 where t9: "strncpy ?t8 (?at + 52) vendor 40 = Some t9" "within (?at + 52) (?at + 52 + 40) ?t8 t9"
    by (rule strncpy_within [OF vendor(2), of "?at + 52" 40 ?t8]) (use at l7 in auto)
  have l9: "length t9 = 448" using t9(2) l7 by (simp add: within_def)
  let ?t = "t9[?at + 52 + 40 := 0]"
  have run: "fill_drive drive buffer drives = Some ?t"
    using at assms(1,2) ms model(1) serial(1) vendor(1) t5(1) t7(1) t9(1) t4(1) l5 l7 l9
    unfolding fill_drive_def Let_def by (simp add: put32_blit t4_def)
  have "?t ! ?at = 1"
    using within_nth [OF t9(2), of ?at] within_nth [OF t7(2), of ?at] within_nth [OF t5(2), of ?at] t4(2) by simp
  moreover have "?t ! (?at + 92) = 0"
  proof -
    have e: "?at + 52 + 40 = ?at + 92" by simp
    show ?thesis unfolding e using l9 at by simp
  qed
  moreover have "?t ! (?at + 112) = 0"
  proof -
    have e: "?at + 92 + 20 = ?at + 112" by simp
    have "?t8 ! (?at + 112) = 0" unfolding e using l7 at by simp
    then show ?thesis using within_nth [OF t9(2), of "?at + 112"] by simp
  qed
  ultimately show ?thesis using run l9 by simp
qed

text \<open>A controller as the whole of the devices, at both bases.\<close>

definition controller_bus :: "controller bus" where
  "controller_bus = \<lparr>port_outb = (\<lambda>port v c. ctl_out (unat (port AND 7)) v c), port_inb = (\<lambda>port c. ctl_status c),
     port_outw = (\<lambda>port w c. ctl_outw w c), port_inw = (\<lambda>port c. ctl_inw c), port_outl = (\<lambda>_ _ c. c), port_inl = (\<lambda>_ c. (0, c))\<rparr>"

lemma low_port: "k < 8 \<Longrightarrow> unat ((channel drive + of_nat k) AND 7 :: u16) = k"
proof -
  assume "k < 8"
  then consider "k = 0" | "k = 1" | "k = 2" | "k = 3" | "k = 4" | "k = 5" | "k = 6" | "k = 7" by linarith
  then show ?thesis by cases (simp_all add: channel_def)
qed

lemma controller_bus_channel: "ata_channel controller_bus (channel drive) (\<lambda>c. c)"
  by (simp add: ata_channel_def controller_bus_def low_port)

definition demo_controller :: controller where
  "demo_controller = \<lparr>r_num = 0, r_low = 0, r_high = 0, r_drive = 0, busy = 0, lag = 3, to_host = [], wanted = 0,
     from_host = [], units = (\<lambda>u lba. replicate 256 (if u then 0x4142 else 0x4344))\<rparr>"

definition demo_drives :: bytes where
  "demo_drives = replicate 448 1"

lemma demo_controller_ok: "ctl_ok demo_controller" "present demo_drives drive = Some True" if "drive < 4"
  using that by (simp_all add: ctl_ok_def demo_controller_def present_def demo_drives_def drive_at_def word_less_nat_alt)


lemma poll_more_stop: "\<not> P st \<Longrightarrow> 0 < n \<Longrightarrow> poll_more bus base P st n d = (st, False, d)"
  by (cases n) simp_all

section \<open>Properties\<close>

lemma ata_read_spec:
  assumes "ata_channel bus (channel drive) view" and "ctl_ok (view d)" and "drive < 4"
    and "present drives drive = Some True" and "512 \<le> length buffer"
  shows "\<exists>d1. ata_read_sector bus drive lba buffer drives d =
      Some (0, blit buffer 0 (sector_bytes (units (view d) (odd drive) (lba AND 0x0FFFFFFF))), d1)
    \<and> ctl_ok (view d1) \<and> units (view d1) = units (view d)"
proof -
  let ?base = "channel drive" and ?c = "view d"
  let ?t = "?c\<lparr>busy := 0, r_num := ucast (lba AND 0xFF), r_low := ucast (drop_bit 8 lba AND 0xFF),
    r_high := ucast (drop_bit 16 lba AND 0xFF), r_drive := task_drive (drive mod 2) lba\<rparr>"
  let ?ws = "units ?c (odd drive) (lba AND 0x0FFFFFFF)"
  have busy: "busy ?c < 1000000" "lag ?c < 1000000" and words: "length ?ws = 256"
    using assms(2) by (simp_all add: ctl_ok_def)
  have target: "ctl_lba ?t = lba AND 0x0FFFFFFF" "ctl_unit ?t \<longleftrightarrow> odd drive"
    using task_target [of ?t drive lba] by simp_all
  define d0 where "d0 = task_file bus ?base (drive mod 2) lba 0x20 d"
  have v0: "view d0 = ?t\<lparr>busy := lag ?c, to_host := ?ws, wanted := 0\<rparr>"
    unfolding d0_def task_file_view [OF assms(1) busy(1)] ctl_command_def using target by simp
  define d1 where "d1 = ata_wait bus ?base d0"
  have v1: "view d1 = ?t\<lparr>to_host := ?ws, wanted := 0\<rparr>"
    unfolding d1_def using ata_wait_view [OF assms(1), of d0] v0 busy(2) by simp
  have "?ws \<noteq> []" using words by fastforce
  then have st: "ctl_status (view d1) = (0x48, view d1)" unfolding v1 by (simp add: ctl_status_def)
  obtain d2 where d2: "inb bus (?base + 7) d1 = (0x48, d2)" "view d2 = view d1"
    by (rule channel_status [OF assms(1), of d1]) (simp add: st)
  obtain d3 where d3: "insw bus ?base buffer 0 256 d2 = Some (blit buffer 0 (sector_bytes ?ws), d3)"
    "view d3 = (view d2)\<lparr>to_host := []\<rparr>"
  proof -
    have "to_host (view d2) = ?ws" unfolding d2(2) v1 by simp
    then show ?thesis using insw_view [OF assms(1), of d2 ?ws 0 buffer] that assms(5) unfolding words by auto
  qed
  have "ata_check_error bus ?base d1 = (0, d2)" using d2(1) by (simp add: ata_check_error_def)
  then have "ata_read_sector bus drive lba buffer drives d = Some (0, blit buffer 0 (sector_bytes ?ws), d3)"
    using four_drives [OF assms(3)] assms(4) d3(1)
    by (simp add: ata_read_sector_def Let_def d0_def [symmetric] d1_def [symmetric])
  then show ?thesis using d3(2) d2(2) v1 assms(2) by (intro exI [of _ d3]) (simp add: ctl_ok_def)
qed

text \<open>
  C30. On a channel that follows the standard, \<open>ata_read_sector\<close> of a present drive returns 0 and delivers
  the 512 bytes of the sector with the low 28 bits of the address on the unit the number selects,
  however long the controller stays busy below the driver's timeout; the disk does not change.
\<close>

theorem ata_read_delivers:
  assumes "ata_channel bus (channel drive) view" and "ctl_ok (view d)" and "drive < 4"
    and "present drives drive = Some True" and "512 \<le> length buffer"
  shows "\<exists>d1. ata_read_sector bus drive lba buffer drives d =
      Some (0, blit buffer 0 (sector_bytes (units (view d) (odd drive) (lba AND 0x0FFFFFFF))), d1)
    \<and> ctl_ok (view d1) \<and> units (view d1) = units (view d)"
  by (rule ata_read_spec [OF assms])

theorem ata_read_delivers_witness:
  "\<exists>c. ata_read_sector controller_bus 1 0xF0000005 (replicate 512 0) demo_drives demo_controller
    = Some (0, blit (replicate 512 0) 0 (sector_bytes (replicate 256 0x4142)), c)"
  using ata_read_delivers [OF controller_bus_channel [of 1], of demo_controller demo_drives "replicate 512 0" "0xF0000005"]
    demo_controller_ok [of 1]
  by (auto simp: demo_controller_def)

lemma ata_write_spec:
  assumes "ata_channel bus (channel drive) view" and "ctl_ok (view d)" and "drive < 4"
    and "present drives drive = Some True" and "512 \<le> length buffer"
  shows "\<exists>d1. ata_write_sector bus drive lba buffer drives d = Some (0, d1) \<and> ctl_ok (view d1)
    \<and> units (view d1) = (units (view d))(odd drive := (units (view d) (odd drive))(lba AND 0x0FFFFFFF := sector_words buffer 256))
    \<and> sector_bytes (sector_words buffer 256) = take 512 buffer"
proof -
  let ?base = "channel drive" and ?c = "view d"
  let ?t = "?c\<lparr>busy := 0, r_num := ucast (lba AND 0xFF), r_low := ucast (drop_bit 8 lba AND 0xFF),
    r_high := ucast (drop_bit 16 lba AND 0xFF), r_drive := task_drive (drive mod 2) lba\<rparr>"
  let ?w = "?t\<lparr>busy := lag ?c, to_host := [], wanted := 256, from_host := []\<rparr>"
  have busy: "busy ?c < 1000000" "lag ?c < 1000000" using assms(2) by (simp_all add: ctl_ok_def)
  have target: "ctl_lba ?w = lba AND 0x0FFFFFFF" "ctl_unit ?w \<longleftrightarrow> odd drive"
    using task_target [of ?w drive lba] by simp_all
  define d0 where "d0 = task_file bus ?base (drive mod 2) lba 0x30 d"
  have v0: "view d0 = ?w" unfolding d0_def task_file_view [OF assms(1) busy(1)] ctl_command_def by simp
  obtain d1 where d1: "poll bus ?base (\<lambda>st. st AND 0x80 \<noteq> 0 \<or> st AND 0x08 = 0) 1000000 d0 = (0x48, False, d1)"
    "view d1 = ?w\<lparr>busy := 0\<rparr>"
    using poll_view [OF assms(1), of "\<lambda>st. st AND 0x80 \<noteq> 0 \<or> st AND 0x08 = 0" d0 1000000] v0 busy(2) by auto
  obtain d2 where d2: "outsw bus ?base buffer 0 256 d1 = Some d2"
    "view d2 = ctl_commit (view d1) (from_host (view d1) @ sector_words buffer 256)"
    using outsw_view [OF assms(1), of d1 255 0 buffer] d1(2) assms(5) by (auto simp: sector_words_def)
  have v2: "view d2 = ctl_commit ?w (sector_words buffer 256)"
    unfolding d2(2) d1(2) by (simp add: ctl_commit_def ctl_lba_def ctl_unit_def)
  then have idle: "to_host (view d2) = []" "wanted (view d2) = 0" "busy (view d2) = lag ?c" by (simp_all add: ctl_commit_def)
  obtain d3 where d3: "poll bus ?base (\<lambda>st. st AND 0x80 \<noteq> 0) 1000000 d2 = (0x40, False, d3)"
    "view d3 = (view d2)\<lparr>busy := 0\<rparr>"
    using poll_view [OF assms(1), of "\<lambda>st. st AND 0x80 \<noteq> 0" d2 1000000] idle busy(2) by auto
  have run: "ata_write_sector bus drive lba buffer drives d = Some (0, d3)"
    using four_drives [OF assms(3)] assms(4) d1(1) d2(1) d3(1)
    by (simp add: ata_write_sector_def Let_def d0_def [symmetric])
  have "units (view d3) = (units ?c)(odd drive := (units ?c (odd drive))(lba AND 0x0FFFFFFF := sector_words buffer 256))"
    unfolding d3(2) v2 ctl_commit_def target by simp
  moreover from this have "ctl_ok (view d3)"
    using assms(2) unfolding d3(2) v2 by (simp add: ctl_ok_def ctl_commit_def)
  ultimately show ?thesis using run sector_bytes_words [of 256 buffer] assms(5) by (intro exI [of _ d3]) simp
qed

text \<open>
  C31. \<open>ata_write_sector\<close> of a present drive returns 0 and replaces exactly one sector, the one with the
  low 28 bits of the address, by the first 512 bytes of the buffer.
\<close>

theorem ata_write_replaces:
  assumes "ata_channel bus (channel drive) view" and "ctl_ok (view d)" and "drive < 4"
    and "present drives drive = Some True" and "512 \<le> length buffer"
  shows "\<exists>d1. ata_write_sector bus drive lba buffer drives d = Some (0, d1) \<and> ctl_ok (view d1)
    \<and> units (view d1) = (units (view d))(odd drive := (units (view d) (odd drive))(lba AND 0x0FFFFFFF := sector_words buffer 256))
    \<and> sector_bytes (sector_words buffer 256) = take 512 buffer"
  by (rule ata_write_spec [OF assms])

theorem ata_write_replaces_witness:
  "\<exists>c. ata_write_sector controller_bus 3 7 (replicate 512 9) demo_drives demo_controller = Some (0, c)
    \<and> units c True 7 = sector_words (replicate 512 9) 256"
  using ata_write_replaces [OF controller_bus_channel [of 3], of demo_controller demo_drives "replicate 512 9" 7]
    demo_controller_ok [of 3]
  by auto

text \<open>
  C34. A drive that answers the identification is marked present, but its serial number is stored empty
  and the drive after it in the table is marked absent: the terminators of the name fields go one byte
  behind the 40 and 20 bytes the fields have.
\<close>

theorem init_overruns:
  assumes "ata_init_drive bus base drive drives d = Some (r, t, d1)" and "r = 0"
    and "length drives = 448" and "drive < 3"
  shows "present t drive = Some True \<and> cstr (drop (drive_at drive + 92) t) = [] \<and> present t (drive + 1) = Some False"
proof -
  obtain buffer where fill: "length buffer = 256" "fill_drive drive buffer drives = Some t"
  proof -
    have len: "length (fst (read_words bus base n e)) = n" for n e
      by (induction n arbitrary: e) (simp_all split: prod.split, metis fst_conv)
    show ?thesis
      using assms(1,2) that len [of 256] unfolding ata_init_drive_def Let_def
      by (auto simp: bind_eq_Some_conv split: prod.splits if_splits) (metis fst_conv)
  qed
  have t: "length t = 448" "t ! drive_at drive = 1" "t ! (drive_at drive + 92) = 0" "t ! (drive_at drive + 112) = 0"
    using fill_drive_spec [OF fill(1) assms(3,4)] fill(2) by auto
  have at: "drive_at drive + 112 < 448" "drive_at (drive + 1) = drive_at drive + 112"
    using assms(4) by (simp_all add: drive_at_def word_less_nat_alt unat_word_ariths)
  have "drop (drive_at drive + 92) t = 0 # drop (Suc (drive_at drive + 92)) t"
    using t(1,3) at(1) by (subst Cons_nth_drop_Suc [symmetric]) auto
  then show ?thesis using t at by (simp add: present_def)
qed

text \<open>A bus on which every status reads as ready with data, and every word as two letters A.\<close>

definition ready_bus :: "unit bus" where
  "ready_bus = \<lparr>port_outb = (\<lambda>_ _ d. d), port_inb = (\<lambda>_ d. (0x48, d)), port_outw = (\<lambda>_ _ d. d),
     port_inw = (\<lambda>_ d. (0x4141, d)), port_outl = (\<lambda>_ _ d. d), port_inl = (\<lambda>_ d. (0, d))\<rparr>"

theorem init_overruns_witness:
  "\<exists>t. ata_init_drive ready_bus 0x1F0 0 (replicate 448 1) () = Some (0, t, ())
    \<and> present t 0 = Some True \<and> present t 1 = Some False"
proof -
  have io: "inb ready_bus p d = (0x48, ())" "outb ready_bus p v d = ()" for p v d
    by (simp_all add: inb_def ready_bus_def)
  have rw: "read_words ready_bus base n d = (replicate n 0x4141, ())" for base n d
    by (induction n arbitrary: d) (simp_all add: inw_def ready_bus_def)
  obtain t where "fill_drive 0 (replicate 256 0x4141) (replicate 448 1) = Some t"
    using fill_drive_spec [of "replicate 256 0x4141" "replicate 448 1" 0] by auto
  then have "ata_init_drive ready_bus 0x1F0 0 (replicate 448 1) () = Some (0, t, ())"
    by (simp add: ata_init_drive_def Let_def io poll_more_stop ata_check_error_def rw)
  then show ?thesis using init_overruns [of ready_bus "0x1F0" 0 "replicate 448 1" "()" 0 t "()"] by simp
qed

end
