(* ===== verification/Disk_Stack.thy ===== *)
theory Disk_Stack
  imports Fat32_Dir Ata
begin

text \<open>
  The file system on the disk driver. fat32.c reaches the disk only through \<open>ata_read_sector\<close> and
  \<open>ata_write_sector\<close>. The locale is the contract of that interface for reading; the operations that only
  read are proved in it to do on the driver what they do on a plain array of sectors, and the driver of
  drivers/storage/ata.c is shown to keep the contract on a channel that follows the standard.
\<close>

section \<open>The driver as a block device\<close>

text \<open>
  The block device the file system calls is the driver with the table of drives that \<open>ata_init\<close> filled. The
  driver is undefined only for a buffer or a table that is too short.
\<close>

definition ata_disk :: "'d bus \<Rightarrow> bytes \<Rightarrow> 'd blockdev" where
  "ata_disk bus table = \<lparr>
     dev_read = (\<lambda>drive lba buf d. the (ata_read_sector bus drive lba buf table d)),
     dev_write = (\<lambda>drive lba buf d. the (ata_write_sector bus drive lba buf table d))\<rparr>"

text \<open>The sectors of a drive as the driver reaches them: the controller sees 28 bits of the address.\<close>

definition ata_image :: "('d \<Rightarrow> controller) \<Rightarrow> u8 \<Rightarrow> 'd \<Rightarrow> u32 \<Rightarrow> bytes" where
  "ata_image view drive d lba = sector_bytes (units (view d) (odd drive) (lba AND 0x0FFFFFFF))"

section \<open>The contract\<close>

text \<open>The state of the file system with the disk replaced by the array of its sectors.\<close>

definition fs_image :: "('d \<Rightarrow> u32 \<Rightarrow> bytes) \<Rightarrow> 'd fs \<Rightarrow> (u32 \<Rightarrow> bytes) fs" where
  "fs_image img s = \<lparr>disk = img (disk s), fheap = fheap s, fat32_bpb = fat32_bpb s, fat_start = fat_start s,
     root_dir_first_cluster = root_dir_first_cluster s, current_dir_cluster = current_dir_cluster s,
     cluster_begin_lba = cluster_begin_lba s, sectors_per_fat = sectors_per_fat s, total_clusters = total_clusters s,
     partition_lba = partition_lba s, next_free_hint = next_free_hint s, cached_fat_sector = cached_fat_sector s,
     fat_cache = fat_cache s\<rparr>"

lemma fs_image_fields [simp]:
  "disk (fs_image img s) = img (disk s)" "fheap (fs_image img s) = fheap s" "fat32_bpb (fs_image img s) = fat32_bpb s"
  "fat_start (fs_image img s) = fat_start s" "cluster_begin_lba (fs_image img s) = cluster_begin_lba s"
  "partition_lba (fs_image img s) = partition_lba s" "cached_fat_sector (fs_image img s) = cached_fat_sector s"
  "fat_cache (fs_image img s) = fat_cache s" "bpb_sectors_per_cluster (fs_image img s) = bpb_sectors_per_cluster s"
  "fat32_cluster_to_lba cl (fs_image img s) = fat32_cluster_to_lba cl s"
  by (simp_all add: fs_image_def bpb_sectors_per_cluster_def fat32_cluster_to_lba_def)

lemma fs_image_heap:
  "new_sector (fs_image img s) = map_option (\<lambda>(p, b, t). (p, b, fs_image img t)) (new_sector s)"
  "free_sector p sec (fs_image img s) = map_option (fs_image img) (free_sector p sec s)"
  by (auto simp: new_sector_def free_sector_def fs_image_def split: Option.bind_split prod.split)

lemma new_sector_length: "new_sector s = Some (p, b, t) \<Longrightarrow> length b = 512 \<and> disk t = disk s \<and> fat_cache t = fat_cache s"
  by (auto simp: new_sector_def load_bytes_def bind_eq_Some_conv)

lemma free_sector_disk: "free_sector p sec s = Some t \<Longrightarrow> disk t = disk s \<and> fat_cache t = fat_cache s"
  by (auto simp: free_sector_def bind_eq_Some_conv)

lemma fs_image_mount_fields:
  "mount_fields part (fs_image img s) = map_option (fs_image img) (mount_fields part s)"
  by (auto simp: mount_fields_def fs_image_def bpb_sectors_per_cluster_def Let_def split: Option.bind_split)

lemma mount_fields_disk: "mount_fields part s = Some t \<Longrightarrow> disk t = disk s \<and> fat_cache t = fat_cache s"
  by (auto simp: mount_fields_def Let_def bind_eq_Some_conv split: if_splits)

locale sector_reader =
  fixes dv :: "'d blockdev" and drive :: u8 and ok :: "'d \<Rightarrow> bool" and img :: "'d \<Rightarrow> u32 \<Rightarrow> bytes"
  assumes read: "ok d \<Longrightarrow> length buf = 512 \<Longrightarrow>
      \<exists>d1. dev_read dv drive lba buf d = (0, img d lba, d1) \<and> ok d1 \<and> img d1 = img d"
    and sector_length: "ok d \<Longrightarrow> length (img d lba) = 512"
begin

definition good :: "'d fs \<Rightarrow> bool" where
  "good s \<longleftrightarrow> ok (disk s) \<and> length (fat_cache s) = 512"

text \<open>The states that look like \<open>s\<close> and hold the same sectors.\<close>

definition keeps :: "'d fs \<Rightarrow> 'd fs \<Rightarrow> bool" where
  "keeps s t \<longleftrightarrow> good t \<and> img (disk t) = img (disk s)"

lemma keeps_trans: "keeps s t \<Longrightarrow> keeps t u \<Longrightarrow> keeps s u"
  by (simp add: keeps_def)

lemma keeps_good: "keeps s t \<Longrightarrow> good t"
  by (simp add: keeps_def)

lemma reads:
  assumes "good s" and "length buf = 512"
  obtains d where "read_sector dv drive lba buf s = (0, img (disk s) lba, s\<lparr>disk := d\<rparr>)"
    "keeps s (s\<lparr>disk := d\<rparr>)" "fs_image img (s\<lparr>disk := d\<rparr>) = fs_image img s"
    "read_sector whole_ram n lba buf (fs_image img s) = (0, img (disk s) lba, fs_image img s)"
    "length (img (disk s) lba) = 512"
proof -
  have ok: "ok (disk s)" using assms(1) by (simp add: good_def)
  obtain d where d: "dev_read dv drive lba buf (disk s) = (0, img (disk s) lba, d)" "ok d" "img d = img (disk s)"
    using read [OF ok assms(2)] by blast
  have len: "length (img (disk s) lba) = 512" using sector_length [OF ok] .
  have "lba \<le> (0xFFFFFFFF :: u32)" using unsigned_less [of lba, where ?'a = nat] by (simp add: word_le_nat_alt)
  then have ram: "dev_read whole_ram n lba buf (img (disk s)) = (0, img (disk s) lba, img (disk s))"
    using len by (simp add: ram_disk_def image512_def)
  show thesis
    by (rule that [of d]) (use d ram len assms(1) in \<open>simp_all add: read_sector_def keeps_def good_def fs_image_def\<close>)
qed

lemma good_keeps: "good s \<Longrightarrow> keeps s s"
  by (simp add: keeps_def)

lemma next_cluster:
  assumes "good s" and "fat32_get_next_cluster whole_ram n cl (fs_image img s) = Some (v, t')"
  obtains t where "fat32_get_next_cluster dv drive cl s = Some (v, t)" "keeps s t" "fs_image img t = t'"
proof -
  let ?sec = "partition_lba s + fat_start s + cl * 4 div 512"
  show thesis
  proof (cases "?sec = cached_fat_sector s")
    case True
    then show ?thesis
      using assms that [of s] good_keeps by (auto simp: fat32_get_next_cluster_def Let_def bind_eq_Some_conv)
  next
    case False
    have "length (fat_cache s) = 512" using assms(1) by (simp add: good_def)
    then obtain d where d: "read_sector dv drive ?sec (fat_cache s) s = (0, img (disk s) ?sec, s\<lparr>disk := d\<rparr>)"
      "keeps s (s\<lparr>disk := d\<rparr>)" "fs_image img (s\<lparr>disk := d\<rparr>) = fs_image img s"
      "read_sector whole_ram n ?sec (fat_cache s) (fs_image img s) = (0, img (disk s) ?sec, fs_image img s)"
      "length (img (disk s) ?sec) = 512"
      by (rule reads [OF assms(1)])
    let ?t = "s\<lparr>disk := d, fat_cache := img (disk s) ?sec, cached_fat_sector := ?sec\<rparr>"
    have img: "fs_image img ?t = (fs_image img s)\<lparr>fat_cache := img (disk s) ?sec, cached_fat_sector := ?sec\<rparr>"
      using d(2) by (simp add: fs_image_def keeps_def)
    have "keeps s ?t" using d(2,5) by (simp add: keeps_def good_def)
    then show ?thesis
      using assms(2) False d(1,4) img that [of ?t]
      by (auto simp: fat32_get_next_cluster_def Let_def bind_eq_Some_conv)
  qed
qed

lemma file_cluster:
  assumes "good s" and "length sector = 512"
    and "read_file_cluster whole_ram n sz cl is buf done_b sector (fs_image img s) = Some (b, dn, sec, t')"
  shows "\<exists>t. read_file_cluster dv drive sz cl is buf done_b sector s = Some (b, dn, sec, t)
    \<and> keeps s t \<and> fs_image img t = t' \<and> length sec = 512"
  using assms
proof (induction "is" arbitrary: buf done_b sector s)
  case Nil
  then show ?case by (auto intro: good_keeps)
next
  case (Cons i js)
  obtain lba where lba: "fat32_cluster_to_lba cl s = Some lba"
    using Cons.prems(3) by (auto simp: bind_eq_Some_conv)
  let ?l = "lba + of_nat i"
  obtain d where d: "read_sector dv drive ?l sector s = (0, img (disk s) ?l, s\<lparr>disk := d\<rparr>)"
    "keeps s (s\<lparr>disk := d\<rparr>)" "fs_image img (s\<lparr>disk := d\<rparr>) = fs_image img s"
    "read_sector whole_ram n ?l sector (fs_image img s) = (0, img (disk s) ?l, fs_image img s)"
    "length (img (disk s) ?l) = 512"
    by (rule reads [OF Cons.prems(1,2)])
  let ?copy = "if sz - done_b > 512 then 512 else sz - done_b" and ?s = "s\<lparr>disk := d\<rparr>"
  have step: "read_file_cluster dv drive sz cl (i # js) buf done_b sector s = do {
      buf1 \<leftarrow> memcpy buf (unat done_b) (img (disk s) ?l) (unat ?copy);
      if done_b + ?copy \<ge> sz then Some (buf1, done_b + ?copy, img (disk s) ?l, ?s)
      else read_file_cluster dv drive sz cl js buf1 (done_b + ?copy) (img (disk s) ?l) ?s }"
    using lba d(1) by (simp add: Let_def)
  have "do {
      buf1 \<leftarrow> memcpy buf (unat done_b) (img (disk s) ?l) (unat ?copy);
      if done_b + ?copy \<ge> sz then Some (buf1, done_b + ?copy, img (disk s) ?l, fs_image img s)
      else read_file_cluster whole_ram n sz cl js buf1 (done_b + ?copy) (img (disk s) ?l) (fs_image img s) }
    = Some (b, dn, sec, t')"
    using Cons.prems(3) lba d(4) by (simp add: Let_def)
  then obtain buf1 where b1: "memcpy buf (unat done_b) (img (disk s) ?l) (unat ?copy) = Some buf1"
    "(if done_b + ?copy \<ge> sz then Some (buf1, done_b + ?copy, img (disk s) ?l, fs_image img s)
      else read_file_cluster whole_ram n sz cl js buf1 (done_b + ?copy) (img (disk s) ?l) (fs_image img s))
    = Some (b, dn, sec, t')"
    unfolding bind_eq_Some_conv by blast
  show ?case
  proof (cases "done_b + ?copy \<ge> sz")
    case True
    then show ?thesis
      using b1(2) d(2,3,5) unfolding step b1(1) by (intro exI [of _ ?s]) (simp del: fs_image_fields)
  next
    case False
    then have "read_file_cluster whole_ram n sz cl js buf1 (done_b + ?copy) (img (disk s) ?l) (fs_image img ?s) = Some (b, dn, sec, t')"
      using b1(2) d(3) by (simp del: fs_image_fields)
    from Cons.IH [OF keeps_good [OF d(2)] d(5) this] show ?thesis
      using False keeps_trans [OF d(2)] unfolding step b1(1) by auto
  qed
qed

lemma file_loop:
  assumes "read_file_loop whole_ram n sz cl buf done_b sector (fs_image img s) = Some (b, dn, sec, t')"
    and "good s" and "length sector = 512"
  shows "\<exists>t. read_file_loop dv drive sz cl buf done_b sector s = Some (b, dn, sec, t) \<and> keeps s t \<and> fs_image img t = t'"
proof -
  define P where "P dw (m :: u8) sz cl buf done_b sector s0 r \<longleftrightarrow> (dw = whole_ram \<longrightarrow> (\<forall>s. s0 = fs_image img s \<and> good s \<and> length sector = 512 \<longrightarrow>
    (\<exists>b dn sec t. read_file_loop dv drive sz cl buf done_b sector s = Some (b, dn, sec, t) \<and> keeps s t
      \<and> r = (b, dn, sec, fs_image img t))))" for dw m sz cl buf done_b sector s0 r
  have "P whole_ram n sz cl buf done_b sector (fs_image img s) (b, dn, sec, t')"
  proof (rule read_file_loop.raw_induct [OF _ assms(1), where P = P], goal_cases)
    case (1 loop dw m sz cl buf done_b sector s0 r)
    show ?case unfolding P_def
    proof (intro impI allI, elim conjE)
      fix s assume dw: "dw = whole_ram" and s: "s0 = fs_image img s" "good s" "length sector = 512"
      show "\<exists>b dn sec t. read_file_loop dv drive sz cl buf done_b sector s = Some (b, dn, sec, t) \<and> keeps s t
        \<and> r = (b, dn, sec, fs_image img t)"
      proof (cases "cl < 0x0FFFFFF8 \<and> done_b < sz")
        case False
        then show ?thesis using 1(2) s good_keeps by (subst read_file_loop.simps) auto
      next
        case True
        then obtain spc b1 dn1 sec1 s1' nxt s2' where go: "bpb_sectors_per_cluster s = Some spc"
          "read_file_cluster whole_ram m sz cl [0..<unat spc] buf done_b sector (fs_image img s) = Some (b1, dn1, sec1, s1')"
          "fat32_get_next_cluster whole_ram m cl s1' = Some (nxt, s2')" "loop whole_ram m sz nxt b1 dn1 sec1 s2' = Some r"
          using 1(2) s(1) dw by (auto simp: bind_eq_Some_conv)
        obtain s1 where s1: "read_file_cluster dv drive sz cl [0..<unat spc] buf done_b sector s = Some (b1, dn1, sec1, s1)"
          "keeps s s1" "fs_image img s1 = s1'" "length sec1 = 512"
          using file_cluster [OF s(2,3) go(2)] by blast
        obtain s2 where s2: "fat32_get_next_cluster dv drive cl s1 = Some (nxt, s2)" "keeps s1 s2" "fs_image img s2 = s2'"
          using next_cluster [OF keeps_good [OF s1(2)], of m cl nxt s2'] go(3) s1(3) by blast
        have "P whole_ram m sz nxt b1 dn1 sec1 s2' r" using 1(1) go(4) by blast
        then obtain b dn sec t where "read_file_loop dv drive sz nxt b1 dn1 sec1 s2 = Some (b, dn, sec, t)" "keeps s2 t"
          "r = (b, dn, sec, fs_image img t)"
          using s1(4) s2(3) keeps_good [OF s2(2)] unfolding P_def by blast
        moreover have "read_file_loop dv drive sz cl buf done_b sector s = read_file_loop dv drive sz nxt b1 dn1 sec1 s2"
          by (subst read_file_loop.simps) (simp add: True go(1) s1(1) s2(1))
        moreover have "keeps s2 t \<Longrightarrow> keeps s t" for t using s1(2) s2(2) keeps_trans by blast
        ultimately show ?thesis by auto
      qed
    qed
  qed
  then show ?thesis using assms(2,3) unfolding P_def by blast
qed

text \<open>Borrowing a sector buffer from the heap and giving it back, on both sides.\<close>

lemma borrow:
  assumes "good s" and "new_sector (fs_image img s) = Some (p, b, t')"
  obtains t where "new_sector s = Some (p, b, t)" "keeps s t" "fs_image img t = t'" "length b = 512"
proof -
  obtain t where t: "new_sector s = Some (p, b, t)" "fs_image img t = t'" using assms(2) by (auto simp: fs_image_heap)
  then show thesis using that new_sector_length [OF t(1)] assms(1) by (simp add: keeps_def good_def)
qed

lemma return:
  assumes "good s" and "free_sector p b (fs_image img s) = Some t'"
  obtains t where "free_sector p b s = Some t" "keeps s t" "fs_image img t = t'"
proof -
  obtain t where t: "free_sector p b s = Some t" "fs_image img t = t'" using assms(2) by (auto simp: fs_image_heap)
  then show thesis using that free_sector_disk [OF t(1)] assms(1) by (simp add: keeps_def good_def)
qed

text \<open>The second run follows the first: it returns what the first returns, in a state with the same image.\<close>

definition follows :: "'d fs \<Rightarrow> ('a \<times> (u32 \<Rightarrow> bytes) fs) option \<Rightarrow> ('a \<times> 'd fs) option \<Rightarrow> bool" where
  "follows s x y \<longleftrightarrow> (\<forall>r t'. x = Some (r, t') \<longrightarrow> (\<exists>t. y = Some (r, t) \<and> keeps s t \<and> fs_image img t = t'))"

lemma followsD: "follows s x y \<Longrightarrow> x = Some (r, t') \<Longrightarrow> \<exists>t. y = Some (r, t) \<and> keeps s t \<and> fs_image img t = t'"
  by (simp add: follows_def)

lemma follows_Some: "keeps s t \<Longrightarrow> fs_image img t = t' \<Longrightarrow> follows s (Some (r, t')) (Some (r, t))"
  by (simp add: follows_def)

lemma follows_bind: "(\<And>v. m = Some v \<Longrightarrow> follows s (f v) (g v)) \<Longrightarrow> follows s (m \<bind> f) (m \<bind> g)"
  by (cases m) (simp_all add: follows_def)

lemma follows_bind_map:
  "(\<And>v. m = Some v \<Longrightarrow> follows s (f (h v)) (g v)) \<Longrightarrow> follows s (map_option h m \<bind> f) (m \<bind> g)"
  by (cases m) (simp_all add: follows_def)

lemma follows_if:
  "(c \<Longrightarrow> follows s a b) \<Longrightarrow> (\<not> c \<Longrightarrow> follows s a' b') \<Longrightarrow> follows s (if c then a else a') (if c then b else b')"
  by simp

lemma follows_give_back:
  assumes "keeps s u" and "\<And>t. keeps s t \<Longrightarrow> keeps s (g t) \<and> fs_image img (g t) = h (fs_image img t)"
  shows "follows s (free_sector p b (fs_image img u) \<bind> (\<lambda>t. Some (r, h t))) (free_sector p b u \<bind> (\<lambda>t. Some (r, g t)))"
  unfolding fs_image_heap
proof (rule follows_bind_map)
  fix t assume "free_sector p b u = Some t"
  from free_sector_disk [OF this] have "keeps s t" using assms(1) by (simp add: keeps_def good_def)
  then show "follows s (Some (r, h (fs_image img t))) (Some (r, g t))" using assms(2) by (intro follows_Some) auto
qed

lemma file_read:
  assumes "good s" and "fat32_read_file whole_ram n first buf sz (fs_image img s) = Some (r, b, t')"
  shows "\<exists>t. fat32_read_file dv drive first buf sz s = Some (r, b, t) \<and> keeps s t \<and> fs_image img t = t'"
proof (cases "first < 2")
  case True
  then show ?thesis using assms good_keeps by (auto simp: fat32_read_file_def)
next
  case False
  then obtain p sec0 s1' where n: "new_sector (fs_image img s) = Some (p, sec0, s1')"
    using assms(2) by (auto simp: fat32_read_file_def bind_eq_Some_conv)
  obtain s1 where s1: "new_sector s = Some (p, sec0, s1)" "keeps s s1" "fs_image img s1 = s1'" "length sec0 = 512"
    by (rule borrow [OF assms(1) n])
  show ?thesis
  proof (cases "p = 0")
    case True
    then show ?thesis using assms(2) False n s1(1-3) by (auto simp: fat32_read_file_def)
  next
    case p: False
    obtain dn sec s2' where l: "read_file_loop whole_ram n sz first buf 0 sec0 (fs_image img s1) = Some (b, dn, sec, s2')"
      "free_sector p sec s2' = Some t'" "r = dn"
      using assms(2) False n p s1(3) by (auto simp: fat32_read_file_def bind_eq_Some_conv)
    obtain s2 where s2: "read_file_loop dv drive sz first buf 0 sec0 s1 = Some (b, dn, sec, s2)" "keeps s1 s2" "fs_image img s2 = s2'"
      using file_loop [OF l(1) keeps_good [OF s1(2)] s1(4)] by blast
    obtain t where t: "free_sector p sec s2 = Some t" "keeps s2 t" "fs_image img t = t'"
      by (rule return [OF keeps_good [OF s2(2)], of p sec t']) (use l(2) s2(3) in auto)
    have "fat32_read_file dv drive first buf sz s = Some (r, b, t)"
      using False p s1(1) s2(1) t(1) l(3) by (simp add: fat32_read_file_def)
    moreover have "keeps s t" using keeps_trans [OF s1(2) keeps_trans [OF s2(2) t(2)]] .
    ultimately show ?thesis using t(3) by blast
  qed
qed

lemma mount:
  assumes "good s"
  shows "follows s (fat32_mount whole_ram n (fs_image img s)) (fat32_mount dv drive s)"
proof (cases "new_sector s")
  case None
  then show ?thesis by (simp add: follows_def fat32_mount_def fs_image_heap)
next
  case (Some v)
  then obtain p sec0 s1 where v: "new_sector s = Some (p, sec0, s1)" by (cases v) auto
  then have n: "new_sector (fs_image img s) = Some (p, sec0, fs_image img s1)" by (simp add: fs_image_heap)
  have k: "keeps s s1" "length sec0 = 512"
    using new_sector_length [OF v] assms by (simp_all add: keeps_def good_def)
  let ?S = "\<lambda>lba. img (disk s1) lba"
  obtain d where d: "read_sector dv drive 0 sec0 s1 = (0, ?S 0, s1\<lparr>disk := d\<rparr>)" "keeps s1 (s1\<lparr>disk := d\<rparr>)"
    "fs_image img (s1\<lparr>disk := d\<rparr>) = fs_image img s1"
    "read_sector whole_ram n 0 sec0 (fs_image img s1) = (0, ?S 0, fs_image img s1)" "length (?S 0) = 512"
    by (rule reads [OF keeps_good [OF k(1)] k(2)])
  let ?s1 = "s1\<lparr>disk := d\<rparr>"
  have ks: "keeps s ?s1" by (rule keeps_trans [OF k(1) d(2)])
  have "\<exists>e. read_sector dv drive lba (?S 0) ?s1 = (0, ?S lba, s1\<lparr>disk := e\<rparr>) \<and> keeps s (s1\<lparr>disk := e\<rparr>)
    \<and> fs_image img (s1\<lparr>disk := e\<rparr>) = fs_image img s1 \<and> read_sector whole_ram n lba (?S 0) (fs_image img s1) = (0, ?S lba, fs_image img s1)"
    for lba
  proof (rule reads [OF keeps_good [OF ks] d(5), of lba n])
    fix e assume e: "read_sector dv drive lba (?S 0) ?s1 = (0, img (disk ?s1) lba, ?s1\<lparr>disk := e\<rparr>)"
      "keeps ?s1 (?s1\<lparr>disk := e\<rparr>)" "fs_image img (?s1\<lparr>disk := e\<rparr>) = fs_image img ?s1"
      "read_sector whole_ram n lba (?S 0) (fs_image img ?s1) = (0, img (disk ?s1) lba, fs_image img ?s1)"
    have "img (disk ?s1) = img (disk s1)" using d(2) by (simp add: keeps_def)
    then show ?thesis using e d(3) keeps_trans [OF ks e(2)] by (intro exI [of _ e]) simp
  qed
  then obtain e where e: "\<And>lba. read_sector dv drive lba (?S 0) ?s1 = (0, ?S lba, s1\<lparr>disk := e lba\<rparr>)"
    "\<And>lba. keeps s (s1\<lparr>disk := e lba\<rparr>)" "\<And>lba. fs_image img (s1\<lparr>disk := e lba\<rparr>) = fs_image img s1"
    "\<And>lba. read_sector whole_ram n lba (?S 0) (fs_image img s1) = (0, ?S lba, fs_image img s1)"
    by metis
  have bpb: "(fs_image img s1)\<lparr>fat32_bpb := b\<rparr> = fs_image img (s1\<lparr>disk := e lba, fat32_bpb := b\<rparr>)"
    "fat32_bpb (s1\<lparr>disk := e lba\<rparr>) = fat32_bpb s1" "fat32_bpb (fs_image img s1) = fat32_bpb s1"
    "keeps s (s1\<lparr>disk := e lba, fat32_bpb := b\<rparr>)" for b lba
    using e(2,3) [of lba] by (simp_all add: fs_image_def keeps_def good_def)
  have quit: "follows s (free_sector p b u' \<bind> (\<lambda>t. Some (r, t))) (free_sector p b u \<bind> (\<lambda>t. Some (r, t)))"
    if "keeps s u" "fs_image img u = u'" for u u' b and r :: i32
    using follows_give_back [of s u "\<lambda>t. t" "\<lambda>t. t" p b r] that by simp
  have last: "follows s (mount_fields part u' \<bind> (\<lambda>s1. free_sector p b s1 \<bind>
        (\<lambda>s2. Some (0 :: i32, s2\<lparr>cached_fat_sector := 0xFFFFFFFF, next_free_hint := 3\<rparr>))))
      (mount_fields part u \<bind> (\<lambda>s1. free_sector p b s1 \<bind> (\<lambda>s2. Some (0, s2\<lparr>cached_fat_sector := 0xFFFFFFFF, next_free_hint := 3\<rparr>))))"
    if "keeps s u" "fs_image img u = u'" for u u' part b
    unfolding that(2) [symmetric] fs_image_mount_fields
  proof (rule follows_bind_map, rule follows_give_back)
    fix w assume "mount_fields part u = Some w"
    from mount_fields_disk [OF this] show "keeps s w" using that(1) by (simp add: keeps_def good_def)
  qed (simp_all add: keeps_def good_def fs_image_def)
  show ?thesis
    unfolding fat32_mount_def v n bind.bind_lunit case_prod_conv Let_def d(1,4) e(1,4) d(3)
    by (rule follows_if, rule follows_Some [OF k(1) refl], simp only: simp_thms if_False)
      (rule follows_bind follows_if quit [OF ks d(3)] quit [OF e(2,3)] quit [OF bpb(4) bpb(1) [symmetric]]
        last [OF bpb(4) bpb(1) [symmetric]], (unfold bpb(2,3))?)+
qed

lemma list_cluster:
  assumes "good s" and "length sector = 512"
    and "list_dir_cluster whole_ram n mx cl is parts here es sector (fs_image img s) = Some (r, parts1, here1, es1, sec, t')"
  shows "\<exists>t. list_dir_cluster dv drive mx cl is parts here es sector s = Some (r, parts1, here1, es1, sec, t)
    \<and> keeps s t \<and> fs_image img t = t' \<and> length sec = 512"
  using assms
proof (induction "is" arbitrary: parts here es sector s)
  case Nil
  then show ?case by (auto intro: good_keeps)
next
  case (Cons i js)
  obtain lba where lba: "fat32_cluster_to_lba cl s = Some lba"
    using Cons.prems(3) by (auto simp: bind_eq_Some_conv)
  let ?l = "lba + of_nat i"
  obtain d where d: "read_sector dv drive ?l sector s = (0, img (disk s) ?l, s\<lparr>disk := d\<rparr>)"
    "keeps s (s\<lparr>disk := d\<rparr>)" "fs_image img (s\<lparr>disk := d\<rparr>) = fs_image img s"
    "read_sector whole_ram n ?l sector (fs_image img s) = (0, img (disk s) ?l, fs_image img s)"
    "length (img (disk s) ?l) = 512"
    by (rule reads [OF Cons.prems(1,2)])
  let ?s = "s\<lparr>disk := d\<rparr>" and ?S = "img (disk s) ?l"
  obtain stop p2 h2 e2 where l: "list_dir_sector ?S mx sector_offsets parts here es = Some (stop, p2, h2, e2)"
    "(if stop then Some (Some (of_nat (length e2)), p2, h2, e2, ?S, fs_image img s)
      else list_dir_cluster whole_ram n mx cl js p2 h2 e2 ?S (fs_image img s)) = Some (r, parts1, here1, es1, sec, t')"
    using Cons.prems(3) lba d(4) by (auto simp: Let_def bind_eq_Some_conv simp del: fs_image_fields(1))
  have step: "list_dir_cluster dv drive mx cl (i # js) parts here es sector s =
      (if stop then Some (Some (of_nat (length e2)), p2, h2, e2, ?S, ?s) else list_dir_cluster dv drive mx cl js p2 h2 e2 ?S ?s)"
    using lba d(1) l(1) by (simp add: Let_def)
  show ?case
  proof (cases stop)
    case True
    then show ?thesis using l(2) d(2,3,5) unfolding step by (intro exI [of _ ?s]) auto
  next
    case False
    then have "list_dir_cluster whole_ram n mx cl js p2 h2 e2 ?S (fs_image img ?s) = Some (r, parts1, here1, es1, sec, t')"
      using l(2) d(3) by simp
    from Cons.IH [OF keeps_good [OF d(2)] d(5) this] show ?thesis
      using False keeps_trans [OF d(2)] unfolding step by auto
  qed
qed

lemma list_loop:
  assumes "list_dir_loop whole_ram n mx cl parts here es sector (fs_image img s) = Some (v, es', sec, t')"
    and "good s" and "length sector = 512"
  shows "\<exists>t. list_dir_loop dv drive mx cl parts here es sector s = Some (v, es', sec, t) \<and> keeps s t \<and> fs_image img t = t'"
proof -
  define P where "P dw (m :: u8) mx cl parts here es sector s0 r \<longleftrightarrow> (dw = whole_ram \<longrightarrow> (\<forall>s. s0 = fs_image img s \<and> good s \<and> length sector = 512 \<longrightarrow>
    (\<exists>v es' sec t. list_dir_loop dv drive mx cl parts here es sector s = Some (v, es', sec, t) \<and> keeps s t
      \<and> r = (v, es', sec, fs_image img t))))" for dw m mx cl parts here es sector s0 r
  have "P whole_ram n mx cl parts here es sector (fs_image img s) (v, es', sec, t')"
  proof (rule list_dir_loop.raw_induct [OF _ assms(1), where P = P], goal_cases)
    case (1 loop dw m mx cl parts here es sector s0 r)
    show ?case unfolding P_def
    proof (intro impI allI, elim conjE)
      fix s assume dw: "dw = whole_ram" and s: "s0 = fs_image img s" "good s" "length sector = 512"
      show "\<exists>v es' sec t. list_dir_loop dv drive mx cl parts here es sector s = Some (v, es', sec, t) \<and> keeps s t
        \<and> r = (v, es', sec, fs_image img t)"
      proof (cases "cl < 0x0FFFFFF8")
        case False
        then show ?thesis using 1(2) s good_keeps by (subst list_dir_loop.simps) auto
      next
        case True
        then obtain spc q p1 h1 e1 sec1 s1' where go: "bpb_sectors_per_cluster s = Some spc"
          "list_dir_cluster whole_ram m mx cl [0..<unat spc] parts here es sector (fs_image img s) = Some (q, p1, h1, e1, sec1, s1')"
          "(case q of Some v \<Rightarrow> Some (v, e1, sec1, s1')
            | None \<Rightarrow> do { (nxt, s2) \<leftarrow> fat32_get_next_cluster whole_ram m cl s1'; loop whole_ram m mx nxt p1 h1 e1 sec1 s2 }) = Some r"
          using 1(2) s(1) dw by (auto simp: bind_eq_Some_conv)
        obtain s1 where s1: "list_dir_cluster dv drive mx cl [0..<unat spc] parts here es sector s = Some (q, p1, h1, e1, sec1, s1)"
          "keeps s s1" "fs_image img s1 = s1'" "length sec1 = 512"
          using list_cluster [OF s(2,3) go(2)] by blast
        note enter = list_dir_loop.simps [of dv drive mx cl parts here es sector s]
        show ?thesis
        proof (cases q)
          case (Some v)
          then have "list_dir_loop dv drive mx cl parts here es sector s = Some (v, e1, sec1, s1)"
            by (subst enter) (simp add: True go(1) s1(1))
          then show ?thesis using Some go(3) s1(2,3) by auto
        next
          case None
          then obtain nxt s2' where nx: "fat32_get_next_cluster whole_ram m cl s1' = Some (nxt, s2')"
            "loop whole_ram m mx nxt p1 h1 e1 sec1 s2' = Some r"
            using go(3) by (auto simp: bind_eq_Some_conv)
          obtain s2 where s2: "fat32_get_next_cluster dv drive cl s1 = Some (nxt, s2)" "keeps s1 s2" "fs_image img s2 = s2'"
            using next_cluster [OF keeps_good [OF s1(2)], of m cl nxt s2'] nx(1) s1(3) by blast
          have "P whole_ram m mx nxt p1 h1 e1 sec1 s2' r" using 1(1) nx(2) by blast
          then obtain v es' sec t where "list_dir_loop dv drive mx nxt p1 h1 e1 sec1 s2 = Some (v, es', sec, t)" "keeps s2 t"
            "r = (v, es', sec, fs_image img t)"
            using s1(4) s2(3) keeps_good [OF s2(2)] unfolding P_def by blast
          moreover have "list_dir_loop dv drive mx cl parts here es sector s = list_dir_loop dv drive mx nxt p1 h1 e1 sec1 s2"
            by (subst enter) (simp add: True go(1) s1(1) None s2(1))
          moreover have "keeps s2 t \<Longrightarrow> keeps s t" for t using s1(2) s2(2) keeps_trans by blast
          ultimately show ?thesis by auto
        qed
      qed
    qed
  qed
  then show ?thesis using assms(2,3) unfolding P_def by blast
qed

lemma listing:
  assumes "good s" and "fat32_list_dir whole_ram n cl mx (fs_image img s) = Some (r, es, t')"
  shows "\<exists>t. fat32_list_dir dv drive cl mx s = Some (r, es, t) \<and> keeps s t \<and> fs_image img t = t'"
proof -
  obtain p sec0 s1' where n: "new_sector (fs_image img s) = Some (p, sec0, s1')"
    using assms(2) by (auto simp: fat32_list_dir_def bind_eq_Some_conv)
  obtain s1 where s1: "new_sector s = Some (p, sec0, s1)" "keeps s s1" "fs_image img s1 = s1'" "length sec0 = 512"
    by (rule borrow [OF assms(1) n])
  show ?thesis
  proof (cases "p = 0")
    case True
    then show ?thesis using assms(2) n s1(1-3) by (auto simp: fat32_list_dir_def)
  next
    case p: False
    obtain sec s2' where l: "list_dir_loop whole_ram n mx cl no_parts 0 [] sec0 (fs_image img s1) = Some (r, es, sec, s2')"
      "free_sector p sec s2' = Some t'"
      using assms(2) n p s1(3) by (auto simp: fat32_list_dir_def bind_eq_Some_conv)
    obtain s2 where s2: "list_dir_loop dv drive mx cl no_parts 0 [] sec0 s1 = Some (r, es, sec, s2)" "keeps s1 s2" "fs_image img s2 = s2'"
      using list_loop [OF l(1) keeps_good [OF s1(2)] s1(4)] by blast
    obtain t where t: "free_sector p sec s2 = Some t" "keeps s2 t" "fs_image img t = t'"
      by (rule return [OF keeps_good [OF s2(2)], of p sec t']) (use l(2) s2(3) in auto)
    have "fat32_list_dir dv drive cl mx s = Some (r, es, t)"
      using p s1(1) s2(1) t(1) by (simp add: fat32_list_dir_def)
    moreover have "keeps s t" using keeps_trans [OF s1(2) keeps_trans [OF s2(2) t(2)]] .
    ultimately show ?thesis using t(3) by blast
  qed
qed

end

section \<open>The driver keeps the contract\<close>

lemma sector_bytes_length: "length (sector_bytes ws) = 2 * length ws"
  by (induction ws) (simp_all add: sector_bytes_def)

lemma blit_whole: "length b = length xs \<Longrightarrow> blit b 0 xs = xs"
  by (simp add: blit_def)

lemma ata_reader:
  assumes "ata_channel bus (channel drive) view" and "drive < 4" and "present table drive = Some True"
  shows "sector_reader (ata_disk bus table) drive (\<lambda>d. ctl_ok (view d)) (ata_image view drive)"
proof unfold_locales
  fix d :: 'a assume ok: "ctl_ok (view d)"
  show len: "length (ata_image view drive d lba) = 512" for lba
    using ok by (simp add: ata_image_def sector_bytes_length ctl_ok_def)
  fix lba :: u32 and buf :: bytes assume "length buf = 512"
  then show "\<exists>d1. dev_read (ata_disk bus table) drive lba buf d = (0, ata_image view drive d lba, d1)
      \<and> ctl_ok (view d1) \<and> ata_image view drive d1 = ata_image view drive d"
    using ata_read_spec [OF assms(1) ok assms(2,3), of buf lba] len [of lba]
    by (auto simp: ata_disk_def ata_image_def [abs_def] blit_whole)
qed

interpretation ram: sector_reader whole_ram drive "\<lambda>d. \<forall>lba. length (d lba) = 512" "\<lambda>d. d" for drive
proof unfold_locales
  fix d :: "u32 \<Rightarrow> bytes" and lba buf assume "\<forall>lba. length (d lba) = 512"
  moreover have "lba \<le> (0xFFFFFFFF :: u32)" using unsigned_less [of lba, where ?'a = nat] by (simp add: word_le_nat_alt)
  ultimately show "\<exists>d1. dev_read whole_ram drive lba buf d = (0, d lba, d1) \<and> (\<forall>lba. length (d1 lba) = 512) \<and> d1 = d"
    by (simp add: ram_disk_def image512_def)
qed simp

interpretation first_drive: sector_reader "ata_disk controller_bus demo_drives" 0 ctl_ok "ata_image (\<lambda>c. c) 0"
  using ata_reader [OF controller_bus_channel [of 0], of demo_drives] demo_controller_ok(2) [of 0] by simp

text \<open>The driver is defined for every buffer of a sector, whatever the devices answer.\<close>

lemma insw_defined: "i + 2 * n \<le> length buf \<Longrightarrow> insw bus port buf i n d \<noteq> None"
proof (induction n arbitrary: i buf d)
  case (Suc n)
  obtain w d1 where w: "inw bus port d = (w, d1)" by (cases "inw bus port d")
  have "put16 buf i w = Some (blit buf i (bytes16 w))" using Suc.prems by (simp add: put16_blit)
  then show ?case using w Suc.IH [of "i + 2" "blit buf i (bytes16 w)" d1] Suc.prems by simp
qed simp

lemma outsw_defined: "i + 2 * n \<le> length buf \<Longrightarrow> outsw bus port buf i n d \<noteq> None"
proof (induction n arbitrary: i d)
  case (Suc n)
  obtain w where "get16 buf i = Some w" using get16_defined [of i buf] Suc.prems by auto
  then show ?case using Suc.IH [of "i + 2" "outw bus port w d"] Suc.prems by simp
qed simp

lemma ata_disk_defined:
  assumes "length table = 448" and "512 \<le> length buf"
  shows "ata_read_sector bus drive lba buf table d \<noteq> None \<and> ata_write_sector bus drive lba buf table d \<noteq> None"
proof -
  have here: "present table drive \<noteq> None" if "\<not> drive \<ge> 4"
    using that assms(1) by (simp add: present_def drive_at_def word_le_nat_alt bind_eq_None_conv)
  have "insw bus port buf 0 256 e = Some (the (insw bus port buf 0 256 e))"
    "outsw bus port buf 0 256 e = Some (the (outsw bus port buf 0 256 e))" for port e
    using insw_defined [of 0 256 buf bus port e] outsw_defined [of 0 256 buf bus port e] assms(2) by auto
  then obtain f g where "\<And>port e. insw bus port buf 0 256 e = Some (f port e)" "\<And>port e. outsw bus port buf 0 256 e = Some (g port e)"
    using that [of "\<lambda>port e. the (insw bus port buf 0 256 e)" "\<lambda>port e. the (outsw bus port buf 0 256 e)"] by blast
  then show ?thesis using here
    by (auto simp: ata_read_sector_def ata_write_sector_def Let_def split: prod.splits if_splits)
qed

section \<open>Properties\<close>

text \<open>
  C17. Through the driver, on a channel that follows the standard, the file system does exactly what it
  does on the array of the drive's sectors: mounting, listing a directory and reading a file return the same
  results and leave the same state, with the sectors as they were.
\<close>

theorem file_system_on_driver:
  assumes "ata_channel bus (channel drive) view" and "drive < 4" and "present table drive = Some True"
    and "ctl_ok (view (disk s))" and "length (fat_cache s) = 512" and "I = ata_image view drive"
  shows "(\<forall>r t'. fat32_mount whole_ram n (fs_image I s) = Some (r, t') \<longrightarrow>
      (\<exists>t. fat32_mount (ata_disk bus table) drive s = Some (r, t) \<and> fs_image I t = t' \<and> I (disk t) = I (disk s)))
    \<and> (\<forall>cl mx r es t'. fat32_list_dir whole_ram n cl mx (fs_image I s) = Some (r, es, t') \<longrightarrow>
      (\<exists>t. fat32_list_dir (ata_disk bus table) drive cl mx s = Some (r, es, t) \<and> fs_image I t = t' \<and> I (disk t) = I (disk s)))
    \<and> (\<forall>cl buf sz r b t'. fat32_read_file whole_ram n cl buf sz (fs_image I s) = Some (r, b, t') \<longrightarrow>
      (\<exists>t. fat32_read_file (ata_disk bus table) drive cl buf sz s = Some (r, b, t) \<and> fs_image I t = t' \<and> I (disk t) = I (disk s)))"
proof -
  note drv = ata_reader [OF assms(1-3)]
  have good: "sector_reader.good (\<lambda>d. ctl_ok (view d)) s" using assms(4,5) by (simp add: sector_reader.good_def [OF drv])
  note keeps = sector_reader.keeps_def [OF drv]
  show ?thesis
    using sector_reader.followsD [OF drv sector_reader.mount [OF drv good]] sector_reader.listing [OF drv good]
      sector_reader.file_read [OF drv good]
    unfolding assms(6) keeps by blast
qed

text \<open>The small volume of the file system's examples, as the sectors of a drive.\<close>

definition demo_unit :: controller where
  "demo_unit = demo_controller\<lparr>units := (\<lambda>u lba. sector_words (image512 (disk demo_fs) lba) 256)\<rparr>"

definition unit_fs :: "controller fs" where
  "unit_fs = \<lparr>disk = demo_unit, fheap = boot_heap, fat32_bpb = fat32_bpb demo_fs,
     fat_start = 32, root_dir_first_cluster = 2, current_dir_cluster = 2, cluster_begin_lba = 40,
     sectors_per_fat = 8, total_clusters = 8, partition_lba = 0, next_free_hint = 3,
     cached_fat_sector = 0xFFFFFFFF, fat_cache = replicate 512 0\<rparr>"

lemma demo_unit_ok: "ctl_ok demo_unit"
  by (simp add: demo_unit_def ctl_ok_def demo_controller_def)

lemma demo_unit_image: "ata_image (\<lambda>c. c) drive demo_unit lba = image512 (disk demo_fs) (lba AND 0x0FFFFFFF)"
  using sector_bytes_words [of 256 "image512 (disk demo_fs) (lba AND 0x0FFFFFFF)"]
  by (simp add: ata_image_def demo_unit_def image512_def)

theorem file_system_on_driver_witness:
  "\<exists>t. fat32_read_file (ata_disk controller_bus demo_drives) 0 3 (replicate 600 0) 600 unit_fs
    = Some (512, replicate 512 65 @ replicate 88 0, t)"
proof -
  obtain h where h: "kmalloc 512 boot_heap = Some (0x200020, h)" using boot_heap_kmalloc_512 by blast
  let ?v = "fs_image (ata_image (\<lambda>c. c) 0) unit_fs"
  have img: "image512 (disk ?v) lba = image512 (disk demo_fs) (lba AND 0x0FFFFFFF)" for lba
    by (simp add: unit_fs_def demo_unit_image) (simp add: image512_def)
  have f: "partition_lba unit_fs = 0" "fat_start unit_fs = 32" "cluster_begin_lba unit_fs = 40" "fheap unit_fs = boot_heap"
    "bpb_sectors_per_cluster unit_fs = Some 1" "length (fat32_bpb unit_fs) = 90" "fat_cache unit_fs = replicate 512 0"
    "disk unit_fs = demo_unit" "cached_fat_sector unit_fs = 0xFFFFFFFF"
    using demo_fields by (simp_all add: unit_fs_def bpb_sectors_per_cluster_def demo_fs_def)
  have lba: "fat_lba ?v 3 = 32" "fat_lba demo_fs 3 = 32" by (simp_all add: fat_lba_def f)
  have fat: "fat_value image512 ?v 3 = 0x0FFFFFFF"
    using demo_fat_entries(1) unfolding fat_value_def lba img by simp
  have "image512 (disk demo_fs) 41 = replicate 512 65" by (simp add: image512_def demo_fs_def)
  then have bytes: "chain_bytes image512 ?v [3] = replicate 512 65"
    by (simp add: chain_bytes_def cluster_bytes_def fat32_cluster_to_lba_def f img del: fs_image_fields(1))
  have sound: "fs_sound image512 ?v" by (simp add: fs_sound_def cache_ok_def f boot_heap_inv)
  obtain s' where "fat32_read_file whole_ram 0 3 (replicate 600 0) 600 ?v = Some (512, replicate 512 65 @ replicate 88 0, s')"
    using read_file_spec [where dv = whole_ram and drive = 0 and img = image512 and s = ?v and p = "0x200020" and h = h
      and first = 3 and cls = "[3]" and sz = 600 and buf = "replicate 600 0"] h sound bytes fat
    by (auto simp: f blit_def)
  then show ?thesis
    using file_system_on_driver [OF controller_bus_channel [of 0], of demo_drives unit_fs _ 0] demo_controller_ok(2) [of 0] demo_unit_ok
    by (fastforce simp: f)
qed

end
