(* ===== verification/Descriptors.thy ===== *)
theory Descriptors
  imports Cstring
begin

text \<open>
  The tables the processor reads: the page table of mem/paging.c, the segment descriptors of
  kernel/gdt.c with the task state segment of cpu/tss.c, and the interrupt gates of cpu/idt.c.
  The tables are lists of the entries; addresses of objects the linker places are arguments. The
  readers \<open>entry_base\<close>, \<open>entry_limit\<close>, \<open>tss_base\<close>, \<open>gate_handler\<close> and \<open>page_walk\<close> say how the
  processor puts the scattered fields together.
\<close>

section \<open>Paging\<close>

definition pt_index :: "u64 \<Rightarrow> nat" where
  "pt_index a = unat (drop_bit 12 a AND 0x1FF)"

definition map_self :: "u64 \<Rightarrow> u64 list \<Rightarrow> u64 list option" where
  "map_self a pt = wr pt (pt_index a) (a OR 0x1 OR 0x2 OR 0x4)"

function paging_loop :: "u64 \<Rightarrow> u64 list \<Rightarrow> u64 list option" where
  "paging_loop addr pt =
     (if addr < 0x2000000 then do { pt1 \<leftarrow> map_self addr pt; paging_loop (addr + 4096) pt1 } else Some pt)"
  by pat_completeness auto
termination
  by (relation "measure (\<lambda>(addr, pt). 0x2000000 - unat addr)")
     (auto simp: word_less_nat_alt unat_word_ariths)

declare paging_loop.simps [simp del]

definition paging_init :: "u64 \<Rightarrow> u64 \<Rightarrow> u64 \<Rightarrow> u64 \<Rightarrow> u64 list \<Rightarrow> u64 list option" where
  "paging_init pml4 pdpt pd pt_at pt = do {
     t0 \<leftarrow> paging_loop 0 pt;
     t1 \<leftarrow> map_self 0xB8000 t0;
     t2 \<leftarrow> map_self pml4 t1;
     t3 \<leftarrow> map_self pdpt t2;
     t4 \<leftarrow> map_self pd t3;
     map_self pt_at t4 }"

definition paging_map_page :: "u64 \<Rightarrow> u64 \<Rightarrow> u64 \<Rightarrow> u64 list \<Rightarrow> u64 list option" where
  "paging_map_page virt_addr phys_addr flags pt =
     wr pt (pt_index virt_addr) ((phys_addr AND NOT 0xFFF) OR (flags AND 0xFFF))"

section \<open>Segments\<close>

record gdt_entry =
  limit_low :: u16
  base_low :: u16
  base_mid :: u8
  access :: u8
  flags_limit :: u8
  base_high :: u8

record gdt_descriptor =
  gdtr_size :: u16
  gdtr_offset :: u64

definition zero_entry :: gdt_entry where
  "zero_entry = \<lparr>limit_low = 0, base_low = 0, base_mid = 0, access = 0, flags_limit = 0, base_high = 0\<rparr>"

definition gdt_set_entry :: "nat \<Rightarrow> u32 \<Rightarrow> u32 \<Rightarrow> u8 \<Rightarrow> u8 \<Rightarrow> gdt_entry list \<Rightarrow> gdt_entry list option" where
  "gdt_set_entry idx base limit acc flags gdt = wr gdt idx \<lparr>
     limit_low = ucast (limit AND 0xFFFF),
     base_low = ucast (base AND 0xFFFF),
     base_mid = ucast (drop_bit 16 base AND 0xFF),
     access = acc,
     flags_limit = ucast ((drop_bit 16 limit AND 0x0F) OR push_bit 4 (ucast flags)),
     base_high = ucast (drop_bit 24 base AND 0xFF)\<rparr>"

text \<open>The table as \<open>lgdt\<close> is told of it; the reload of the segment registers changes nothing in memory.\<close>

definition gdt_init :: "u64 \<Rightarrow> gdt_entry list \<Rightarrow> (gdt_descriptor \<times> gdt_entry list) option" where
  "gdt_init at gdt = do {
     g0 \<leftarrow> gdt_set_entry 0 0 0 0 0 gdt;
     g1 \<leftarrow> gdt_set_entry 1 0 0xFFFFFFFF (0x80 OR 0x00 OR 0x18 OR 0x02) (0x8 OR 0x2) g0;
     g2 \<leftarrow> gdt_set_entry 2 0 0xFFFFFFFF (0x80 OR 0x00 OR 0x10 OR 0x02) 0x8 g1;
     g3 \<leftarrow> gdt_set_entry 3 0 0xFFFFFFFF (0x80 OR 0x60 OR 0x10 OR 0x02) 0x8 g2;
     g4 \<leftarrow> gdt_set_entry 4 0 0xFFFFFFFF (0x80 OR 0x60 OR 0x18 OR 0x02) (0x8 OR 0x2) g3;
     Some (\<lparr>gdtr_size = 7 * 8 - 1, gdtr_offset = at\<rparr>, g4) }"

definition gdt_set_tss_entry :: "nat \<Rightarrow> u64 \<Rightarrow> u32 \<Rightarrow> gdt_entry list \<Rightarrow> gdt_entry list option" where
  "gdt_set_tss_entry idx base limit gdt = do {
     g1 \<leftarrow> wr gdt idx \<lparr>
       limit_low = ucast (limit AND 0xFFFF),
       base_low = ucast (base AND 0xFFFF),
       base_mid = ucast (drop_bit 16 base AND 0xFF),
       access = 0x89,
       flags_limit = ucast (drop_bit 16 limit AND 0x0F),
       base_high = ucast (drop_bit 24 base AND 0xFF)\<rparr>;
     wr g1 (idx + 1) \<lparr>
       limit_low = ucast (drop_bit 32 base AND 0xFFFF),
       base_low = ucast (drop_bit 48 base AND 0xFFFF),
       base_mid = 0, access = 0, flags_limit = 0, base_high = 0\<rparr> }"

text \<open>
  The task state segment has 104 bytes with \<open>rsp0\<close> at offset 4. The result is the segment, the
  table and the value loaded into the task register.
\<close>

definition tss_init :: "u64 \<Rightarrow> u64 \<Rightarrow> bytes \<Rightarrow> gdt_entry list \<Rightarrow> (bytes \<times> gdt_entry list \<times> u16) option" where
  "tss_init stack tss_at tss gdt = do {
     t0 \<leftarrow> memset tss 0 0 104;
     t1 \<leftarrow> put32 t0 4 (ucast (stack + 8192));
     t2 \<leftarrow> put32 t1 8 (ucast (drop_bit 32 (stack + 8192)));
     g \<leftarrow> gdt_set_tss_entry 5 tss_at (104 - 1) gdt;
     Some (t2, g, 5 * 8) }"

section \<open>Interrupt gates\<close>

record idt_entry =
  offset_low :: u16
  selector :: u16
  ist :: u8
  type_attr :: u8
  offset_mid :: u16
  offset_high :: u32
  idt_zero :: u32

record idt_descriptor =
  idtr_size :: u16
  idtr_offset :: u64

definition zero_gate :: idt_entry where
  "zero_gate = \<lparr>offset_low = 0, selector = 0, ist = 0, type_attr = 0, offset_mid = 0, offset_high = 0, idt_zero = 0\<rparr>"

definition idt_set_gate :: "u8 \<Rightarrow> u64 \<Rightarrow> u8 \<Rightarrow> idt_entry list \<Rightarrow> idt_entry list option" where
  "idt_set_gate vector handler flags idt = wr idt (unat vector) \<lparr>
     offset_low = ucast (handler AND 0xFFFF),
     selector = 0x08,
     ist = 0,
     type_attr = flags,
     offset_mid = ucast (drop_bit 16 handler AND 0xFFFF),
     offset_high = ucast (drop_bit 32 handler AND 0xFFFFFFFF),
     idt_zero = 0\<rparr>"

definition init_gate :: "u64 list \<Rightarrow> nat \<Rightarrow> idt_entry list \<Rightarrow> idt_entry list option" where
  "init_gate isr_stub_table i idt = do {
     h \<leftarrow> rd isr_stub_table i;
     idt_set_gate (of_nat i) h (if i = 0x80 then 0xEE else 0x8E) idt }"

definition idt_init :: "u64 list \<Rightarrow> u64 \<Rightarrow> idt_entry list \<Rightarrow> (idt_descriptor \<times> idt_entry list) option" where
  "idt_init isr_stub_table at idt = do {
     t \<leftarrow> iter (init_gate isr_stub_table) [0..<256] (replicate (length idt) zero_gate);
     Some (\<lparr>idtr_size = 256 * 16 - 1, idtr_offset = at\<rparr>, t) }"

section \<open>What the processor reads\<close>

definition page_walk :: "u64 list \<Rightarrow> u64 \<Rightarrow> u64" where
  "page_walk pt a = (pt ! pt_index a AND NOT 0xFFF) OR (a AND 0xFFF)"

definition entry_base :: "gdt_entry \<Rightarrow> u32" where
  "entry_base e = ucast (base_low e) OR push_bit 16 (ucast (base_mid e)) OR push_bit 24 (ucast (base_high e))"

definition entry_limit :: "gdt_entry \<Rightarrow> u32" where
  "entry_limit e = ucast (limit_low e) OR push_bit 16 (ucast (flags_limit e AND 0x0F))"

definition entry_flags :: "gdt_entry \<Rightarrow> u8" where
  "entry_flags e = drop_bit 4 (flags_limit e)"

definition tss_base :: "gdt_entry \<Rightarrow> gdt_entry \<Rightarrow> u64" where
  "tss_base e f = ucast (entry_base e) OR push_bit 32 (ucast (limit_low f)) OR push_bit 48 (ucast (base_low f))"

definition gate_handler :: "idt_entry \<Rightarrow> u64" where
  "gate_handler g = ucast (offset_low g) OR push_bit 16 (ucast (offset_mid g)) OR push_bit 32 (ucast (offset_high g))"

section \<open>The fields put together\<close>

lemma join_base: "ucast (ucast (b AND 0xFFFF) :: u16) OR push_bit 16 (ucast (ucast (drop_bit 16 b AND 0xFF) :: u8))
    OR push_bit 24 (ucast (ucast (drop_bit 24 b AND 0xFF) :: u8)) = (b :: u32)"
proof (rule bit_word_eqI)
  fix n assume n: "n < LENGTH(32)"
  then consider "n < 16" | "16 \<le> n" "n < 24" | "24 \<le> n" "n < 32" by fastforce
  then show "bit (ucast (ucast (b AND 0xFFFF) :: u16) OR push_bit 16 (ucast (ucast (drop_bit 16 b AND 0xFF) :: u8))
      OR push_bit 24 (ucast (ucast (drop_bit 24 b AND 0xFF) :: u8)) :: u32) n = bit b n"
    unfolding low_masks by cases (auto simp: bit_simps)
qed

lemma join_limit: "ucast (ucast (l AND 0xFFFF) :: u16)
    OR push_bit 16 (ucast ((ucast ((drop_bit 16 l AND 0x0F) OR push_bit 4 (ucast (f :: u8))) :: u8) AND 0x0F)) = (l :: u32) AND 0xFFFFF"
proof (rule bit_word_eqI)
  have m: "(0xFFFFF :: u32) = mask 20" by (simp add: mask_eq_exp_minus_1)
  fix n assume n: "n < LENGTH(32)"
  then consider "n < 16" | "16 \<le> n" "n < 20" | "20 \<le> n" "n < 32" by fastforce
  then show "bit (ucast (ucast (l AND 0xFFFF) :: u16)
      OR push_bit 16 (ucast ((ucast ((drop_bit 16 l AND 0x0F) OR push_bit 4 (ucast f)) :: u8) AND 0x0F)) :: u32) n
    = bit (l AND 0xFFFFF) n"
    unfolding low_masks m by cases (auto simp: bit_simps)
qed

lemma join_flags: "drop_bit 4 (ucast ((drop_bit 16 (l :: u32) AND 0x0F) OR push_bit 4 (ucast (f :: u8))) :: u8) = f AND 0x0F"
proof (rule bit_word_eqI)
  fix n assume n: "n < LENGTH(8)"
  then consider "n < 4" | "4 \<le> n" "n < 8" by fastforce
  then show "bit (drop_bit 4 (ucast ((drop_bit 16 l AND 0x0F) OR push_bit 4 (ucast f)) :: u8)) n = bit (f AND 0x0F) n"
    unfolding low_masks by cases (auto simp: bit_simps)
qed

lemma join_handler: "ucast (ucast (h AND 0xFFFF) :: u16) OR push_bit 16 (ucast (ucast (drop_bit 16 h AND 0xFFFF) :: u16))
    OR push_bit 32 (ucast (ucast (drop_bit 32 h AND 0xFFFFFFFF) :: u32)) = (h :: u64)"
proof (rule bit_word_eqI)
  fix n assume n: "n < LENGTH(64)"
  then consider "n < 16" | "16 \<le> n" "n < 32" | "32 \<le> n" "n < 64" by fastforce
  then show "bit (ucast (ucast (h AND 0xFFFF) :: u16) OR push_bit 16 (ucast (ucast (drop_bit 16 h AND 0xFFFF) :: u16))
      OR push_bit 32 (ucast (ucast (drop_bit 32 h AND 0xFFFFFFFF) :: u32)) :: u64) n = bit h n"
    unfolding low_masks by cases (auto simp: bit_simps)
qed

lemma set_entry_fields:
  assumes "idx < length gdt"
  shows "\<exists>e. gdt_set_entry idx base limit acc flags gdt = Some (gdt[idx := e])
    \<and> entry_base e = base \<and> entry_limit e = limit AND 0xFFFFF \<and> access e = acc \<and> entry_flags e = flags AND 0x0F"
  using assms unfolding gdt_set_entry_def
  by (intro exI conjI, rule wr_Some) (simp_all add: entry_base_def entry_limit_def entry_flags_def join_base join_limit join_flags)

lemma join_64: "ucast (b32 :: u32) OR push_bit 32 (ucast (ucast (drop_bit 32 b AND 0xFFFF) :: u16))
    OR push_bit 48 (ucast (ucast (drop_bit 48 b AND 0xFFFF) :: u16)) = (b :: u64)" if "b32 = ucast b"
proof (rule bit_word_eqI)
  fix n assume n: "n < LENGTH(64)"
  then consider "n < 32" | "32 \<le> n" "n < 48" | "48 \<le> n" "n < 64" by fastforce
  then show "bit (ucast b32 OR push_bit 32 (ucast (ucast (drop_bit 32 b AND 0xFFFF) :: u16))
    OR push_bit 48 (ucast (ucast (drop_bit 48 b AND 0xFFFF) :: u16)) :: u64) n = bit b n"
    unfolding low_masks that by cases (auto simp: bit_simps)
qed

lemma low_base: "ucast (ucast (b AND 0xFFFF) :: u16) OR push_bit 16 (ucast (ucast (drop_bit 16 b AND 0xFF) :: u8))
    OR push_bit 24 (ucast (ucast (drop_bit 24 b AND 0xFF) :: u8)) = (ucast (b :: u64) :: u32)"
proof (rule bit_word_eqI)
  fix n assume n: "n < LENGTH(32)"
  then consider "n < 16" | "16 \<le> n" "n < 24" | "24 \<le> n" "n < 32" by fastforce
  then show "bit (ucast (ucast (b AND 0xFFFF) :: u16) OR push_bit 16 (ucast (ucast (drop_bit 16 b AND 0xFF) :: u8))
      OR push_bit 24 (ucast (ucast (drop_bit 24 b AND 0xFF) :: u8)) :: u32) n = bit (ucast b :: u32) n"
    unfolding low_masks by cases (auto simp: bit_simps)
qed

lemma tss_entry_fields:
  assumes "idx + 1 < length gdt"
  shows "\<exists>e f. gdt_set_tss_entry idx base limit gdt = Some (gdt[idx := e, idx + 1 := f])
    \<and> entry_limit e = limit AND 0xFFFFF \<and> access e = 0x89 \<and> tss_base e f = base"
proof -
  let ?e = "\<lparr>limit_low = ucast (limit AND 0xFFFF), base_low = ucast (base AND 0xFFFF),
    base_mid = ucast (drop_bit 16 base AND 0xFF), access = 0x89, flags_limit = ucast (drop_bit 16 limit AND 0x0F),
    base_high = ucast (drop_bit 24 base AND 0xFF)\<rparr>"
  let ?f = "\<lparr>limit_low = ucast (drop_bit 32 base AND 0xFFFF), base_low = ucast (drop_bit 48 base AND 0xFFFF),
    base_mid = 0, access = 0, flags_limit = 0, base_high = 0\<rparr>"
  have "entry_limit ?e = limit AND 0xFFFFF"
    using join_limit [of limit 0] by (simp add: entry_limit_def)
  moreover have "tss_base ?e ?f = base"
    using join_64 [OF low_base] by (simp add: tss_base_def entry_base_def)
  ultimately show ?thesis
    using assms by (intro exI [of _ ?e] exI [of _ ?f]) (simp add: gdt_set_tss_entry_def)
qed

lemma init_gate_entry:
  assumes "i < length isr_stub_table" and "i < length idt" and "i < 256"
  shows "\<exists>g. init_gate isr_stub_table i idt = Some (idt[i := g]) \<and> gate_handler g = isr_stub_table ! i
    \<and> selector g = 8 \<and> ist g = 0 \<and> type_attr g = (if i = 0x80 then 0xEE else 0x8E)"
proof -
  have "unat (of_nat i :: u8) = i" using assms(3) by (simp add: unat_of_nat take_bit_nat_eq_self)
  then have run: "init_gate isr_stub_table i idt = wr idt i \<lparr>
     offset_low = ucast (isr_stub_table ! i AND 0xFFFF), selector = 0x08, ist = 0,
     type_attr = (if i = 0x80 then 0xEE else 0x8E), offset_mid = ucast (drop_bit 16 (isr_stub_table ! i) AND 0xFFFF),
     offset_high = ucast (drop_bit 32 (isr_stub_table ! i) AND 0xFFFFFFFF), idt_zero = 0\<rparr>"
    using assms(1) by (simp add: init_gate_def idt_set_gate_def)
  show ?thesis
    unfolding run
    by (intro exI conjI, rule wr_Some [OF assms(2)]) (simp_all add: gate_handler_def join_handler)
qed

lemma init_gates:
  assumes "length isr_stub_table = 256" and "length idt = 256" and "n \<le> 256"
  shows "\<exists>t. iter (init_gate isr_stub_table) [0..<n] idt = Some t \<and> length t = 256
    \<and> (\<forall>i < n. gate_handler (t ! i) = isr_stub_table ! i \<and> selector (t ! i) = 8 \<and> ist (t ! i) = 0
        \<and> type_attr (t ! i) = (if i = 0x80 then 0xEE else 0x8E))"
  using assms(3)
proof (induction n)
  case 0
  then show ?case using assms(2) by simp
next
  case (Suc n)
  then obtain t where t: "iter (init_gate isr_stub_table) [0..<n] idt = Some t" "length t = 256"
    "\<forall>i < n. gate_handler (t ! i) = isr_stub_table ! i \<and> selector (t ! i) = 8 \<and> ist (t ! i) = 0
        \<and> type_attr (t ! i) = (if i = 0x80 then 0xEE else 0x8E)"
    by auto
  obtain g where g: "init_gate isr_stub_table n t = Some (t[n := g])" "gate_handler g = isr_stub_table ! n"
    "selector g = 8" "ist g = 0" "type_attr g = (if n = 0x80 then 0xEE else 0x8E)"
    using init_gate_entry [of n isr_stub_table t] assms(1) t(2) Suc.prems by auto
  show ?case
    using t g Suc.prems by (auto simp: iter_append less_Suc_eq nth_list_update)
qed

text \<open>The loop of \<open>paging_init\<close> goes round the table sixteen times; the last round stays.\<close>

lemma unat_page: "k < 2 ^ 20 \<Longrightarrow> unat (of_nat (k * 4096) :: u64) = k * 4096"
  unfolding unat_of_nat by (simp add: take_bit_nat_eq_self)

lemma pt_index_page: "k < 2 ^ 20 \<Longrightarrow> pt_index (of_nat (k * 4096)) = k mod 512"
proof -
  assume k: "k < 2 ^ 20"
  have "drop_bit 12 (of_nat (k * 4096) :: u64) = of_nat k"
    unfolding word_unat_eq_iff unat_drop_bit_eq unat_page [OF k] using k
    by (simp add: drop_bit_eq_div unat_of_nat take_bit_nat_eq_self)
  moreover have "(of_nat k :: u64) AND 0x1FF = take_bit 9 (of_nat k)"
    by (simp add: low_masks take_bit_eq_mask)
  moreover have "unat (take_bit 9 (of_nat k :: u64)) = k mod 512"
    unfolding unsigned_take_bit_eq unat_of_nat using k by (simp add: take_bit_nat_eq_self take_bit_eq_mod)
  ultimately show ?thesis unfolding pt_index_def by (simp only:)
qed

definition self_entry :: "nat \<Rightarrow> u64" where
  "self_entry k = of_nat (k * 4096) OR 0x1 OR 0x2 OR 0x4"

lemma paging_loop_fills:
  assumes "length pt = 512" and "k \<le> 8192"
  shows "\<exists>t. paging_loop (of_nat (k * 4096)) pt = Some t \<and> length t = 512
    \<and> (\<forall>i < 512. t ! i = (if k \<le> 7680 + i then self_entry (7680 + i) else pt ! i))"
  using assms
proof (induction "8192 - k" arbitrary: k pt)
  case 0
  then have "k = 8192" by simp
  then show ?case using 0 by (subst paging_loop.simps) simp
next
  case (Suc n)
  then have k: "k < 8192" by simp
  have less: "of_nat (k * 4096) < (0x2000000 :: u64)"
    using k unfolding word_less_nat_alt by (subst unat_page) simp_all
  have nxt: "of_nat (k * 4096) + 4096 = (of_nat (Suc k * 4096) :: u64)" by simp
  let ?pt = "pt[k mod 512 := self_entry k]"
  have m: "map_self (of_nat (k * 4096)) pt = Some ?pt"
    using k Suc.prems(1) unfolding map_self_def self_entry_def by (subst pt_index_page) simp_all
  obtain t where t: "paging_loop (of_nat (Suc k * 4096)) ?pt = Some t" "length t = 512"
    "\<forall>i < 512. t ! i = (if Suc k \<le> 7680 + i then self_entry (7680 + i) else ?pt ! i)"
  proof -
    have "n = 8192 - Suc k" "length ?pt = 512" "Suc k \<le> 8192" using Suc.hyps(2) Suc.prems k by simp_all
    from Suc.hyps(1) [OF this] that show ?thesis by blast
  qed
  have "t ! i = (if k \<le> 7680 + i then self_entry (7680 + i) else pt ! i)" if i: "i < 512" for i
  proof (cases "k = 7680 + i")
    case True
    have "(7680 + i) mod 512 = i" using i mod_mult_self1 [of i 15 512] by (simp add: add.commute)
    then show ?thesis using t(3) [rule_format, OF i] Suc.prems(1) i unfolding True by simp
  next
    case False
    show ?thesis
    proof (cases "k \<le> 7680 + i")
      case True
      then show ?thesis using False t(3) i by simp
    next
      case out: False
      then obtain j where j: "k = j + 15 * 512" "i < j" "j < 512"
        using k that [of "k - 7680"] by simp
      have "k mod 512 \<noteq> i" unfolding j(1) mod_mult_self1 using j(2,3) by simp
      then show ?thesis using t(3) i out by simp
    qed
  qed
  moreover have "paging_loop (of_nat (k * 4096) + 4096) ?pt = Some t" unfolding nxt by (rule t(1))
  ultimately show ?case using t(2) less m by (subst paging_loop.simps) auto
qed

lemma map_self_Some: "length pt = 512 \<Longrightarrow> map_self a pt = Some (pt[pt_index a := a OR 7])"
  and pt_index_less: "pt_index a < 512"
proof -
  have e: "drop_bit 12 a AND 0x1FF = take_bit 9 (drop_bit 12 a)" by (simp add: low_masks take_bit_eq_mask)
  show less: "pt_index a < 512"
    unfolding pt_index_def e unsigned_take_bit_eq using take_bit_nat_less_exp [of 9 "unat (drop_bit 12 a)"] by simp
  have "a OR 0x1 OR 0x2 OR 0x4 = a OR 7" by (simp add: or.assoc)
  then show "length pt = 512 \<Longrightarrow> map_self a pt = Some (pt[pt_index a := a OR 7])"
    using less by (simp add: map_self_def)
qed

lemma iter_fun: "iter f [] = Some" "iter f (x # xs) = (\<lambda>s. do { s1 \<leftarrow> f x s; iter f xs s1 })"
  by (rule ext; simp)+

lemma map_self_all:
  assumes "length t = 512"
  shows "\<exists>u. iter map_self as t = Some u \<and> length u = 512
    \<and> (\<forall>i < 512. i \<notin> pt_index ` set as \<longrightarrow> u ! i = t ! i)
    \<and> (\<forall>a \<in> set as. \<exists>b \<in> set as. pt_index b = pt_index a \<and> u ! pt_index a = b OR 7)"
proof (induction as rule: rev_induct)
  case Nil
  then show ?case using assms by simp
next
  case (snoc a as)
  then obtain u where u: "iter map_self as t = Some u" "length u = 512"
    "\<forall>i < 512. i \<notin> pt_index ` set as \<longrightarrow> u ! i = t ! i"
    "\<forall>a \<in> set as. \<exists>b \<in> set as. pt_index b = pt_index a \<and> u ! pt_index a = b OR 7"
    by blast
  let ?u = "u[pt_index a := a OR 7]"
  have "\<exists>b \<in> set (as @ [a]). pt_index b = pt_index c \<and> ?u ! pt_index c = b OR 7" if "c \<in> set (as @ [a])" for c
    using that u(2,4) pt_index_less [of a] by (cases "pt_index c = pt_index a") auto
  moreover have "iter map_self (as @ [a]) t = Some ?u" using u(1,2) by (simp add: iter_append map_self_Some)
  moreover have "\<forall>i < 512. i \<notin> pt_index ` set (as @ [a]) \<longrightarrow> ?u ! i = t ! i" using u(3) by auto
  ultimately show ?case using u(2) by auto
qed

lemma walk_entry:
  "((p AND NOT 0xFFF) OR (f AND 0xFFF)) AND NOT 0xFFF = p AND NOT (0xFFF :: u64)"
  "((p AND NOT 0xFFF) OR (f AND 0xFFF)) AND 0xFFF = f AND (0xFFF :: u64)"
  by (rule bit_word_eqI; auto simp: bit_simps low_masks)+

section \<open>Properties\<close>

text \<open>
  \<open>paging_init\<close> stays inside the table. What it leaves is not an identity map of the low memory:
  the loop goes round the 512 entries sixteen times, and apart from the slots of the screen and of the
  four tables every page i is mapped to the page i of the last round, 30 MB higher.
\<close>

theorem paging_maps_high:
  assumes "length pt = 512"
  shows "\<exists>t. paging_init pml4 pdpt pd pt_at pt = Some t \<and> length t = 512
    \<and> (\<forall>i < 512. i \<notin> pt_index ` {0xB8000, pml4, pdpt, pd, pt_at} \<longrightarrow> t ! i = of_nat ((7680 + i) * 4096) OR 7)
    \<and> (\<forall>a \<in> {0xB8000, pml4, pdpt, pd, pt_at}. \<exists>b \<in> {0xB8000, pml4, pdpt, pd, pt_at}.
          pt_index b = pt_index a \<and> t ! pt_index a = b OR 7)"
proof -
  obtain t0 where t0: "paging_loop 0 pt = Some t0" "length t0 = 512" "\<forall>i < 512. t0 ! i = self_entry (7680 + i)"
    using paging_loop_fills [of pt 0] assms by auto
  have e: "self_entry k = of_nat (k * 4096) OR 7" for k by (simp add: self_entry_def or.assoc)
  obtain t where t: "iter map_self [0xB8000, pml4, pdpt, pd, pt_at] t0 = Some t" "length t = 512"
    "\<forall>i < 512. i \<notin> pt_index ` set [0xB8000, pml4, pdpt, pd, pt_at] \<longrightarrow> t ! i = t0 ! i"
    "\<forall>a \<in> set [0xB8000, pml4, pdpt, pd, pt_at]. \<exists>b \<in> set [0xB8000, pml4, pdpt, pd, pt_at].
       pt_index b = pt_index a \<and> t ! pt_index a = b OR 7"
    using map_self_all [OF t0(2), of "[0xB8000, pml4, pdpt, pd, pt_at]"] by blast
  have "paging_init pml4 pdpt pd pt_at pt = Some t"
    using t0(1) t(1) by (simp add: paging_init_def iter_fun)
  then show ?thesis
    using t(2-4) t0(3) unfolding list.set e by (intro exI [of _ t] conjI) (assumption | simp only: | simp)+
qed

theorem paging_maps_high_witness:
  "\<exists>t. paging_init 0x110000 0x111000 0x112000 0x113000 (replicate 512 0) = Some t \<and> t ! 0 = 0x1E00007"
proof -
  have "0 \<notin> pt_index ` {0xB8000, 0x110000, 0x111000, 0x112000, 0x113000}" by (simp add: pt_index_def)
  moreover obtain t where "paging_init 0x110000 0x111000 0x112000 0x113000 (replicate 512 0) = Some t"
    "\<forall>i < 512. i \<notin> pt_index ` {0xB8000, 0x110000, 0x111000, 0x112000, 0x113000} \<longrightarrow> t ! i = of_nat ((7680 + i) * 4096) OR 7"
    using paging_maps_high [OF length_replicate, of "0x110000" "0x111000" "0x112000" "0x113000"] by blast
  ultimately show ?thesis by auto
qed

text \<open>
  After \<open>paging_map_page\<close> every address of the virtual page is translated into the physical page
  with the offset kept, the low twelve bits of the entry are the flags asked for, and the addresses
  of all other pages of the table are translated as before.
\<close>

theorem map_page_translates:
  assumes "length pt = 512"
  shows "\<exists>t. paging_map_page virt phys flags pt = Some t \<and> t ! pt_index virt AND 0xFFF = flags AND 0xFFF
    \<and> (\<forall>a. page_walk t a = (if pt_index a = pt_index virt then (phys AND NOT 0xFFF) OR (a AND 0xFFF) else page_walk pt a))"
proof -
  let ?e = "(phys AND NOT 0xFFF) OR (flags AND 0xFFF)"
  have "page_walk (pt[pt_index virt := ?e]) a
      = (if pt_index a = pt_index virt then (phys AND NOT 0xFFF) OR (a AND 0xFFF) else page_walk pt a)" for a
    unfolding page_walk_def using pt_index_less [of virt] assms by (auto simp only: nth_list_update walk_entry split: if_splits)
  moreover have "pt[pt_index virt := ?e] ! pt_index virt AND 0xFFF = flags AND 0xFFF"
    using pt_index_less [of virt] assms by (simp only: nth_list_update_eq walk_entry)
  ultimately show ?thesis
    using pt_index_less [of virt] assms unfolding paging_map_page_def
    by (simp only: wr_Some option.inject ex_simps simp_thms)
qed

theorem map_page_translates_witness:
  "\<exists>t. paging_map_page 0x5000 0xABC123 3 (replicate 512 0) = Some t \<and> page_walk t 0x5678 = 0xABC678"
  using map_page_translates [of "replicate 512 0" "0x5000" "0xABC123" 3]
  by (auto simp: pt_index_def)

text \<open>
  \<open>gdt_init\<close> and \<open>tss_init\<close> fill a table of seven entries: a null entry, code and data segments for
  rings 0 and 3 that span the whole memory, and the descriptor of the task state segment, which
  reads back as its 64-bit address, the limit 103 and the type of an available segment.
\<close>

theorem segments_installed:
  assumes "length gdt = 7" and "length tss = 104"
  shows "\<exists>d g t g2. gdt_init at gdt = Some (d, g) \<and> gdtr_size d = 55 \<and> gdtr_offset d = at
    \<and> tss_init stack tss_at tss g = Some (t, g2, 0x28) \<and> length g2 = 7
    \<and> g2 ! 0 = zero_entry
    \<and> (\<forall>i \<in> {1, 2, 3, 4}. entry_base (g2 ! i) = 0 \<and> entry_limit (g2 ! i) = 0xFFFFF)
    \<and> map access (take 5 (tl g2)) = [0x9A, 0x92, 0xF2, 0xFA, 0x89]
    \<and> map entry_flags (take 4 (tl g2)) = [0xA, 0x8, 0x8, 0xA]
    \<and> tss_base (g2 ! 5) (g2 ! 6) = tss_at \<and> entry_limit (g2 ! 5) = 103"
proof -
  have z: "gdt_set_entry 0 0 0 0 0 gdt = Some (gdt[0 := zero_entry])"
    using assms(1) by (simp add: gdt_set_entry_def zero_entry_def)
  let ?f = "\<lambda>e acc fl. entry_base e = 0 \<and> entry_limit e = 0xFFFFF \<and> access e = acc \<and> entry_flags e = fl"
  obtain e1 where e1: "gdt_set_entry 1 0 0xFFFFFFFF 0x9A 0xA (gdt[0 := zero_entry]) = Some (gdt[0 := zero_entry, 1 := e1])"
    "?f e1 0x9A 0xA" using set_entry_fields [of 1 "gdt[0 := zero_entry]" 0 "0xFFFFFFFF" "0x9A" "0xA"] assms(1) by auto
  obtain e2 where e2: "gdt_set_entry 2 0 0xFFFFFFFF 0x92 8 (gdt[0 := zero_entry, 1 := e1])
      = Some (gdt[0 := zero_entry, 1 := e1, 2 := e2])" "?f e2 0x92 8"
    using set_entry_fields [of 2 "gdt[0 := zero_entry, 1 := e1]" 0 "0xFFFFFFFF" "0x92" 8] assms(1) by auto
  obtain e3 where e3: "gdt_set_entry 3 0 0xFFFFFFFF 0xF2 8 (gdt[0 := zero_entry, 1 := e1, 2 := e2])
      = Some (gdt[0 := zero_entry, 1 := e1, 2 := e2, 3 := e3])" "?f e3 0xF2 8"
    using set_entry_fields [of 3 "gdt[0 := zero_entry, 1 := e1, 2 := e2]" 0 "0xFFFFFFFF" "0xF2" 8] assms(1) by auto
  let ?g3 = "gdt[0 := zero_entry, 1 := e1, 2 := e2, 3 := e3]"
  obtain e4 where e4: "gdt_set_entry 4 0 0xFFFFFFFF 0xFA 0xA ?g3 = Some (?g3[4 := e4])" "?f e4 0xFA 0xA"
    using set_entry_fields [of 4 ?g3 0 "0xFFFFFFFF" "0xFA" "0xA"] assms(1) by auto
  have init: "gdt_init at gdt = Some (\<lparr>gdtr_size = 55, gdtr_offset = at\<rparr>, ?g3[4 := e4])"
    using z e1(1) e2(1) e3(1) e4(1) by (simp add: gdt_init_def)
  obtain e5 e6 where tss: "gdt_set_tss_entry 5 tss_at 103 (?g3[4 := e4]) = Some (?g3[4 := e4, 5 := e5, 6 := e6])"
    "entry_limit e5 = 103" "access e5 = 0x89" "tss_base e5 e6 = tss_at"
    using tss_entry_fields [of 5 "?g3[4 := e4]" tss_at 103] assms(1) by auto
  obtain t where t: "memset tss 0 0 104 = Some (replicate 104 0)"
    using memset_blit [of 0 104 tss 0] assms(2) by (simp add: blit_def)
  have "\<exists>t. tss_init stack tss_at tss (?g3[4 := e4]) = Some (t, ?g3[4 := e4, 5 := e5, 6 := e6], 0x28)"
    using t tss(1) by (simp add: tss_init_def put32_blit)
  moreover obtain a b c d e f g where "gdt = [a, b, c, d, e, f, g]"
    using assms(1) by (auto simp: length_Suc_conv numeral_eq_Suc)
  ultimately show ?thesis using init e1(2) e2(2) e3(2) e4(2) tss(2-4) by (auto simp: numeral_eq_Suc)
qed

theorem segments_installed_witness:
  "\<exists>d g t g2. gdt_init 0x101000 (replicate 7 zero_entry) = Some (d, g)
    \<and> tss_init 0x200000 0x1122334455667788 (replicate 104 1) g = Some (t, g2, 0x28)
    \<and> tss_base (g2 ! 5) (g2 ! 6) = 0x1122334455667788"
  using segments_installed [of "replicate 7 zero_entry" "replicate 104 1" "0x101000" "0x200000" "0x1122334455667788"]
  by auto

text \<open>
  \<open>idt_init\<close> gives every one of the 256 vectors a gate of the kernel's code segment whose three
  offset fields put together are the address of the vector's stub; only the gate of vector 0x80
  may be entered from ring 3.
\<close>

theorem gates_installed:
  assumes "length stubs = 256" and "length idt = 256"
  shows "\<exists>t. idt_init stubs at idt = Some (\<lparr>idtr_size = 4095, idtr_offset = at\<rparr>, t) \<and> length t = 256
    \<and> (\<forall>v :: u8. gate_handler (t ! unat v) = stubs ! unat v \<and> selector (t ! unat v) = 8 \<and> ist (t ! unat v) = 0
        \<and> type_attr (t ! unat v) = (if v = 0x80 then 0xEE else 0x8E))"
proof -
  obtain t where t: "iter (init_gate stubs) [0..<256] (replicate 256 zero_gate) = Some t" "length t = 256"
    "\<forall>i < 256. gate_handler (t ! i) = stubs ! i \<and> selector (t ! i) = 8 \<and> ist (t ! i) = 0
        \<and> type_attr (t ! i) = (if i = 0x80 then 0xEE else 0x8E)"
    using init_gates [OF assms(1), of "replicate 256 zero_gate" 256] by auto
  have "unat v < 256" "unat v = 0x80 \<longleftrightarrow> v = 0x80" for v :: u8
    using unsigned_less [of v] word_unat_eq_iff [of v "0x80"] by simp_all
  then show ?thesis using t assms(2) by (simp add: idt_init_def)
qed

theorem gates_installed_witness:
  "\<exists>d t. idt_init (map (\<lambda>i. of_nat i * 0x123456789) [0..<256]) 0 (replicate 256 zero_gate) = Some (d, t)
    \<and> gate_handler (t ! unat (33 :: u8)) = 33 * 0x123456789"
proof -
  obtain t where "idt_init (map (\<lambda>i. of_nat i * 0x123456789) [0..<256]) 0 (replicate 256 zero_gate)
      = Some (\<lparr>idtr_size = 4095, idtr_offset = 0\<rparr>, t)"
    "\<forall>v :: u8. gate_handler (t ! unat v) = map (\<lambda>i. of_nat i * 0x123456789) [0..<256] ! unat v"
    using gates_installed [of "map (\<lambda>i. of_nat i * 0x123456789) [0..<256]" "replicate 256 zero_gate" 0] by auto
  then show ?thesis by (auto dest!: spec [where x = 33])
qed

end
