(* ===== verification/Interrupts.thy ===== *)
theory Interrupts
  imports Ports Thread Keyboard Format
begin

text \<open>
  Interrupts and time: the interrupt controllers (cpu/8259a.c), the dispatcher of cpu/idt.c with the
  handlers the kernel registers, the timer (cpu/timer.c) and the speaker (cpu/pc_speaker.c).
  The chips are reached by ports; what the 8259 and the 8253 do with the bytes is stated as a law
  of the bus (\<open>pic_pair\<close>, \<open>pit_ports\<close>) over the records \<open>chip\<close> and \<open>pit\<close>.
\<close>

section \<open>The interrupt controllers\<close>

definition pic_remap :: "'d bus \<Rightarrow> i32 \<Rightarrow> i32 \<Rightarrow> 'd \<Rightarrow> 'd" where
  "pic_remap bus offset1 offset2 d = (
     let (a1, d) = inb bus 0x21 d;
         (a2, d) = inb bus 0xA1 d;
         d = outb bus 0x20 (0x10 OR 0x01) d;
         d = outb bus 0xA0 (0x10 OR 0x01) d;
         d = outb bus 0x21 (ucast offset1) d;
         d = outb bus 0xA1 (ucast offset2) d;
         d = outb bus 0x21 4 d;
         d = outb bus 0xA1 2 d;
         d = outb bus 0x21 0x01 d;
         d = outb bus 0xA1 0x01 d;
         d = outb bus 0x21 a1 d
     in outb bus 0xA1 a2 d)"

definition pic_send_eoi :: "'d bus \<Rightarrow> u8 \<Rightarrow> 'd \<Rightarrow> 'd" where
  "pic_send_eoi bus irq d = (
     let d = (if 8 \<le> irq then outb bus 0xA0 0x20 d else d)
     in outb bus 0x20 0x20 d)"

definition mask_port :: "u8 \<Rightarrow> u16" where
  "mask_port irq_line = (if irq_line < 8 then 0x21 else 0xA1)"

definition pic_set_mask :: "'d bus \<Rightarrow> u8 \<Rightarrow> 'd \<Rightarrow> 'd" where
  "pic_set_mask bus irq_line d = (
     let port = mask_port irq_line; (v, d) = inb bus port d
     in outb bus port (v OR push_bit (unat (irq_line AND 7)) 1) d)"

definition pic_clear_mask :: "'d bus \<Rightarrow> u8 \<Rightarrow> 'd \<Rightarrow> 'd" where
  "pic_clear_mask bus irq_line d = (
     let port = mask_port irq_line; (v, d) = inb bus port d
     in outb bus port (v AND NOT (push_bit (unat (irq_line AND 7)) 1)) d)"

text \<open>The masks as \<open>kernel_main\<close> sets them: all lines, then timer and keyboard again.\<close>

definition kernel_masks :: "'d bus \<Rightarrow> 'd \<Rightarrow> 'd" where
  "kernel_masks bus d =
     pic_clear_mask bus 1 (pic_clear_mask bus 0 (fold (\<lambda>irq. pic_set_mask bus (of_nat irq)) [0..<16] d))"

definition remap_pic :: "'d bus \<Rightarrow> 'd \<Rightarrow> 'd" where
  "remap_pic bus d = (
     let d = outb bus 0x20 0x11 d; d = outb bus 0x21 0x20 d; d = outb bus 0x21 0x04 d; d = outb bus 0x21 0x01 d
     in outb bus 0x21 0xFE d)"

section \<open>Timer and speaker\<close>

text \<open>\<open>hz\<close> 0 divides by zero.\<close>

definition set_pit_frequency :: "'d bus \<Rightarrow> u16 \<Rightarrow> 'd \<Rightarrow> 'd option" where
  "set_pit_frequency bus hz d =
     (if hz = 0 then None
      else (
        let divisor = (ucast ((1193180 :: u32) div ucast hz) :: u16);
            d = outb bus 0x43 0x36 d;
            d = outb bus 0x40 (ucast (divisor AND 0xFF)) d
        in Some (outb bus 0x40 (ucast (drop_bit 8 divisor AND 0xFF)) d)))"

definition init_timer :: "'d bus \<Rightarrow> 'd \<Rightarrow> 'd option" where
  "init_timer bus d = set_pit_frequency bus 1000 d"

text \<open>
  \<open>timer_ticks\<close> changes by interrupts while \<open>wait\<close> reads it: \<open>clock n\<close> is the value of the n-th read.
  The result is the number of the read that ends the loop.
\<close>

partial_function (option) wait_loop :: "(nat \<Rightarrow> u32) \<Rightarrow> u32 \<Rightarrow> u32 \<Rightarrow> nat \<Rightarrow> nat option" where
  "wait_loop clock start ms n = (if clock n - start < ms then wait_loop clock start ms (Suc n) else Some n)"

definition wait :: "(nat \<Rightarrow> u32) \<Rightarrow> u32 \<Rightarrow> nat option" where
  "wait clock ms = wait_loop clock (clock 0) ms 1"

definition pc_speaker_nosound :: "'d bus \<Rightarrow> 'd \<Rightarrow> 'd" where
  "pc_speaker_nosound bus d = (let (tmp, d) = inb bus 0x61 d in outb bus 0x61 (tmp AND 0xFC) d)"

definition pc_speaker_play_sound :: "'d bus \<Rightarrow> u32 \<Rightarrow> 'd \<Rightarrow> 'd" where
  "pc_speaker_play_sound bus frequency d =
     (if frequency = 0 then pc_speaker_nosound bus d
      else (
        let divisor = 1193180 div frequency;
            d = outb bus 0x43 0xB6 d;
            d = outb bus 0x42 (ucast (divisor AND 0xFF)) d;
            d = outb bus 0x42 (ucast (drop_bit 8 divisor AND 0xFF)) d;
            (tmp, d) = inb bus 0x61 d
        in if tmp \<noteq> tmp OR 3 then outb bus 0x61 (tmp OR 3) d else d))"

definition pc_speaker_beep :: "'d bus \<Rightarrow> (nat \<Rightarrow> u32) \<Rightarrow> u32 \<Rightarrow> u32 \<Rightarrow> 'd \<Rightarrow> 'd option" where
  "pc_speaker_beep bus clock frequency duration d = do {
     let d = pc_speaker_play_sound bus frequency d;
     wait clock duration;
     Some (pc_speaker_nosound bus d) }"

section \<open>The dispatcher\<close>

text \<open>The functions the program passes to \<open>idt_register_handler\<close>.\<close>

datatype handler = Idle_irq1 | Timer_isr_wrapper | Keyboard_handler

text \<open>
  Where a thread goes on when the scheduler switches to it; \<open>context_switch\<close> ends in a \<open>ret\<close> on the stack of
  the new thread. A thread that has not run yet starts in the trampoline, one that gave up the processor itself
  goes on behind its call of \<open>thread_yield\<close>, and one that was interrupted by the timer goes on behind the call
  of \<open>thread_yield\<close> in the timer handler, inside the dispatcher's call for the vector of that interrupt.
\<close>

datatype point = At_start | In_yield | In_isr u8

record 'd machine =
  con :: "'d console"
  kthreads :: sched
  keys :: keyboard
  interrupt_handlers :: "handler option list"
  suspended :: "u64 \<Rightarrow> point"

definition idt_register_handler :: "u8 \<Rightarrow> handler \<Rightarrow> 'd machine \<Rightarrow> 'd machine option" where
  "idt_register_handler vector h m = do {
     t \<leftarrow> wr (interrupt_handlers m) (unat vector) (Some h);
     Some (m\<lparr>interrupt_handlers := t\<rparr>) }"

definition idt_uninstall_handler :: "u8 \<Rightarrow> 'd machine \<Rightarrow> 'd machine option" where
  "idt_uninstall_handler vector m = do {
     t \<leftarrow> wr (interrupt_handlers m) (unat vector) None;
     Some (m\<lparr>interrupt_handlers := t\<rparr>) }"

definition on_dev :: "('d \<Rightarrow> 'd) \<Rightarrow> 'd machine \<Rightarrow> 'd machine" where
  "on_dev f m = m\<lparr>con := (con m)\<lparr>dev := f (dev (con m))\<rparr>\<rparr>"

definition timer_handler :: "'d machine \<Rightarrow> 'd machine" where
  "timer_handler m = m\<lparr>kthreads := (kthreads m)\<lparr>timer_ticks := timer_ticks (kthreads m) + 1\<rparr>\<rparr>"

text \<open>A call of \<open>thread_yield\<close> by the current thread, which is found at \<open>w\<close> if it loses the processor there.\<close>

definition yield_at :: "point \<Rightarrow> 'd machine \<Rightarrow> 'd machine option" where
  "yield_at w m = do {
     k \<leftarrow> thread_yield (kthreads m);
     Some (m\<lparr>kthreads := k, suspended := (suspended m)(current (kthreads m) := w)\<rparr>) }"

text \<open>Where control is after it: the point of the thread that is now the current one, which may be the same.\<close>

definition goes_on :: "'d machine \<Rightarrow> point" where
  "goes_on m = suspended m (current (kthreads m))"

text \<open>
  The handler switches the context before its end of interrupt. So the rest of it runs only if the thread
  that goes on was itself interrupted by the timer (or is the same thread), and then it returns to
  the dispatcher's call of that thread, for the vector given back. Otherwise control is in the code of a
  thread outside of any interrupt (\<open>None\<close>), and this call of the handler stays where it is.
\<close>

definition timer_isr_wrapper :: "'d bus \<Rightarrow> u8 \<Rightarrow> 'd machine \<Rightarrow> (u8 option \<times> 'd machine) option" where
  "timer_isr_wrapper bus vec m = do {
     let m1 = timer_handler m;
     m2 \<leftarrow> yield_at (In_isr vec) m1;
     Some (case goes_on m2 of
         In_isr v \<Rightarrow> (Some v, on_dev (pic_send_eoi bus 0) m2)
       | _ \<Rightarrow> (None, m2)) }"

definition idle_irq1 :: "'d bus \<Rightarrow> 'd machine \<Rightarrow> 'd machine" where
  "idle_irq1 bus m = on_dev (\<lambda>d. snd (inb bus 0x60 d)) m"

definition keyboard_isr :: "'d bus \<Rightarrow> 'd machine \<Rightarrow> 'd machine option" where
  "keyboard_isr bus m = do {
     let (scancode, d) = inb bus 0x60 (dev (con m));
     k \<leftarrow> keyboard_handler scancode (keys m);
     Some (on_dev (\<lambda>_. d) (m\<lparr>keys := k\<rparr>)) }"

fun run_handler :: "'d bus \<Rightarrow> u8 \<Rightarrow> handler \<Rightarrow> 'd machine \<Rightarrow> (u8 option \<times> 'd machine) option" where
  "run_handler bus vec Idle_irq1 m = Some (Some vec, idle_irq1 bus m)"
| "run_handler bus vec Timer_isr_wrapper m = timer_isr_wrapper bus vec m"
| "run_handler bus vec Keyboard_handler m = do { m1 \<leftarrow> keyboard_isr bus m; Some (Some vec, m1) }"

definition exception_messages :: "bytes list" where
  "exception_messages = map zlit [
     ''Division By Zero'', ''Debug'', ''Non Maskable Interrupt'', ''Breakpoint'', ''Into Detected Overflow'',
     ''Out of Bounds'', ''Invalid Opcode'', ''No Coprocessor'', ''Double fault'', ''Coprocessor Segment Overrun'',
     ''Bad TSS'', ''Segment not present'', ''Stack fault'', ''General protection fault'', ''Page fault'',
     ''Unknown Interrupt'', ''Coprocessor Fault'', ''Alignment Fault'', ''Machine Check''] @ replicate 13 (zlit ''Reserved'')"

definition on_con :: "('d console \<Rightarrow> 'd console option) \<Rightarrow> 'd machine \<Rightarrow> 'd machine option" where
  "on_con f m = do { c \<leftarrow> f (con m); Some (m\<lparr>con := c\<rparr>) }"

definition kernel_panic :: "'d bus \<Rightarrow> u8 \<Rightarrow> u64 \<Rightarrow> 'd machine \<Rightarrow> 'd machine option" where
  "kernel_panic bus vec rip m = do {
     msg \<leftarrow> rd exception_messages (unat vec);
     m1 \<leftarrow> on_con (kprintf bus ([10] @ lit ''kernel panic: %s'' @ [10, 0]) [Str msg]) m;
     m2 \<leftarrow> on_con (kprintf bus (lit ''RIP: 0x%016X'' @ [10, 0]) [Num rip]) m1;
     on_con (kprintf bus (zlit ''kernel halted'') []) m2 }"

text \<open>
  The outcomes of an interrupt: the kernel stays in the endless loop; the dispatcher returns in the thread
  that is current now, to the code that was interrupted there; or control is in the current thread
  outside of any interrupt, and the call of the dispatcher stays suspended with its thread.
\<close>

datatype 'd outcome = Halted "'d machine" | Returned "'d machine" | Switched "'d machine"

definition isr_end :: "'d bus \<Rightarrow> u8 \<Rightarrow> 'd machine \<Rightarrow> 'd machine" where
  "isr_end bus vec m = (if 32 \<le> vec \<and> vec \<le> 47 then on_dev (pic_send_eoi bus (vec - 32)) m else m)"

definition isr_finish :: "'d bus \<Rightarrow> u8 \<Rightarrow> 'd machine \<Rightarrow> 'd outcome option" where
  "isr_finish bus vec m = do {
     h \<leftarrow> rd (interrupt_handlers m) (unat vec);
     (back, m1) \<leftarrow> (case h of None \<Rightarrow> Some (Some vec, m) | Some f \<Rightarrow> run_handler bus vec f m);
     Some (case back of Some v \<Rightarrow> Returned (isr_end bus v m1) | None \<Rightarrow> Switched m1) }"

definition isr_dispatch :: "'d bus \<Rightarrow> u64 \<Rightarrow> u64 \<Rightarrow> 'd machine \<Rightarrow> 'd outcome option" where
  "isr_dispatch bus int_no rip m = (
     let vec = (ucast int_no :: u8)
     in if vec = 46 then do {
          m1 \<leftarrow> on_con (kprintf bus (lit ''Page fault!'' @ [10] @ lit ''EIP: %08X'' @ [10, 0]) [Num rip]) m;
          isr_finish bus vec m1 }
        else if vec = 32 \<or> vec = 33 then isr_finish bus vec m
        else map_option Halted (kernel_panic bus vec rip m))"

text \<open>
  A thread's own call of \<open>thread_yield\<close>. If it switches to a thread that was interrupted by the timer, the rest of that
  thread's timer handler and of its call of the dispatcher run before it goes on.
\<close>

definition own_yield :: "'d bus \<Rightarrow> 'd machine \<Rightarrow> 'd machine option" where
  "own_yield bus m = do {
     m1 \<leftarrow> yield_at In_yield m;
     Some (case goes_on m1 of
         In_isr v \<Rightarrow> isr_end bus v (on_dev (pic_send_eoi bus 0) m1)
       | _ \<Rightarrow> m1) }"

section \<open>The chips\<close>

text \<open>
  An 8259: an initialisation command starts a sequence of three data bytes (the vector base, the
  cascade lines, the mode) and clears the mask; outside of it the data port is the mask.
\<close>

record chip =
  imr :: u8
  icw2 :: u8
  icw3 :: u8
  icw4 :: u8
  stage :: nat
  eois :: nat

definition chip_command :: "u8 \<Rightarrow> chip \<Rightarrow> chip" where
  "chip_command v c =
     (if v = 0x11 then c\<lparr>imr := 0, stage := 1\<rparr>
      else if v = 0x20 then c\<lparr>eois := eois c + 1\<rparr> else c)"

definition chip_data :: "u8 \<Rightarrow> chip \<Rightarrow> chip" where
  "chip_data v c =
     (if stage c = 1 then c\<lparr>icw2 := v AND 0xF8, stage := 2\<rparr>
      else if stage c = 2 then c\<lparr>icw3 := v, stage := 3\<rparr>
      else if stage c = 3 then c\<lparr>icw4 := v, stage := 0\<rparr>
      else c\<lparr>imr := v\<rparr>)"

definition pic_pair :: "'d bus \<Rightarrow> ('d \<Rightarrow> chip) \<Rightarrow> ('d \<Rightarrow> chip) \<Rightarrow> bool" where
  "pic_pair bus m s \<longleftrightarrow>
     (\<forall>d v. m (port_outb bus 0x20 v d) = chip_command v (m d) \<and> s (port_outb bus 0x20 v d) = s d)
   \<and> (\<forall>d v. s (port_outb bus 0xA0 v d) = chip_command v (s d) \<and> m (port_outb bus 0xA0 v d) = m d)
   \<and> (\<forall>d v. m (port_outb bus 0x21 v d) = chip_data v (m d) \<and> s (port_outb bus 0x21 v d) = s d)
   \<and> (\<forall>d v. s (port_outb bus 0xA1 v d) = chip_data v (s d) \<and> m (port_outb bus 0xA1 v d) = m d)
   \<and> (\<forall>d. fst (port_inb bus 0x21 d) = imr (m d) \<and> fst (port_inb bus 0xA1 d) = imr (s d))
   \<and> (\<forall>d p. p = 0x21 \<or> p = 0xA1 \<longrightarrow> m (snd (port_inb bus p d)) = m d \<and> s (snd (port_inb bus p d)) = s d)"

text \<open>The interrupt lines that are masked.\<close>

definition masked :: "chip \<Rightarrow> chip \<Rightarrow> nat \<Rightarrow> bool" where
  "masked m s irq \<longleftrightarrow> (if irq < 8 then bit (imr m) irq else bit (imr s) (irq - 8))"

text \<open>
  The parts of the timer chip and of port 0x61 the code uses: the reload values of the channels 0
  and 2, each written low byte first after the command byte.
\<close>

record pit =
  reload0 :: u16
  reload2 :: u16
  low_byte :: "u8 option"
  gate :: u8

definition pit_write :: "(u16 \<Rightarrow> pit \<Rightarrow> pit) \<Rightarrow> u8 \<Rightarrow> pit \<Rightarrow> pit" where
  "pit_write upd v t = (case low_byte t of
     None \<Rightarrow> t\<lparr>low_byte := Some v\<rparr>
   | Some l \<Rightarrow> (upd (ucast l OR push_bit 8 (ucast v)) t)\<lparr>low_byte := None\<rparr>)"

definition pit_ports :: "'d bus \<Rightarrow> ('d \<Rightarrow> pit) \<Rightarrow> bool" where
  "pit_ports bus t \<longleftrightarrow>
     (\<forall>d v. t (port_outb bus 0x43 v d) = (t d)\<lparr>low_byte := None\<rparr>)
   \<and> (\<forall>d v. t (port_outb bus 0x40 v d) = pit_write (\<lambda>w. reload0_update (\<lambda>_. w)) v (t d))
   \<and> (\<forall>d v. t (port_outb bus 0x42 v d) = pit_write (\<lambda>w. reload2_update (\<lambda>_. w)) v (t d))
   \<and> (\<forall>d v. t (port_outb bus 0x61 v d) = (t d)\<lparr>gate := v\<rparr>)
   \<and> (\<forall>d. fst (port_inb bus 0x61 d) = gate (t d) \<and> t (snd (port_inb bus 0x61 d)) = t d)"

lemma pic_pairD:
  assumes "pic_pair bus m s"
  shows "m (outb bus 0x20 v d) = chip_command v (m d)" "s (outb bus 0x20 v d) = s d"
    "s (outb bus 0xA0 v d) = chip_command v (s d)" "m (outb bus 0xA0 v d) = m d"
    "m (outb bus 0x21 v d) = chip_data v (m d)" "s (outb bus 0x21 v d) = s d"
    "s (outb bus 0xA1 v d) = chip_data v (s d)" "m (outb bus 0xA1 v d) = m d"
    "fst (inb bus 0x21 d) = imr (m d)" "fst (inb bus 0xA1 d) = imr (s d)"
    "m (snd (inb bus 0x21 d)) = m d" "s (snd (inb bus 0x21 d)) = s d"
    "m (snd (inb bus 0xA1 d)) = m d" "s (snd (inb bus 0xA1 d)) = s d"
  using assms by (simp_all add: pic_pair_def outb_def inb_def)

lemma pit_portsD:
  assumes "pit_ports bus t"
  shows "t (outb bus 0x43 v d) = (t d)\<lparr>low_byte := None\<rparr>"
    "t (outb bus 0x40 v d) = pit_write (\<lambda>w. reload0_update (\<lambda>_. w)) v (t d)"
    "t (outb bus 0x42 v d) = pit_write (\<lambda>w. reload2_update (\<lambda>_. w)) v (t d)"
    "t (outb bus 0x61 v d) = (t d)\<lparr>gate := v\<rparr>"
    "fst (inb bus 0x61 d) = gate (t d)" "t (snd (inb bus 0x61 d)) = t d"
  using assms by (simp_all add: pit_ports_def outb_def inb_def)

lemma line_bit: "irq < 16 \<Longrightarrow> unat (of_nat irq AND 7 :: u8) = (if irq < 8 then irq else irq - 8)"
proof -
  assume irq: "irq < 16"
  then have "irq mod 8 = (if irq < 8 then irq else irq - 8)" by (simp add: mod_if)
  moreover from irq have "unat (of_nat irq :: u8) = irq" by (simp add: unat_of_nat take_bit_nat_eq_self)
  moreover have "(of_nat irq AND 7 :: u8) = take_bit 3 (of_nat irq)"
    by (simp add: take_bit_eq_mask mask_eq_exp_minus_1)
  ultimately show ?thesis by (simp only: unsigned_take_bit_eq) (simp add: take_bit_eq_mod)
qed

lemma line_low: "irq < 16 \<Longrightarrow> (of_nat irq :: u8) < 8 \<longleftrightarrow> irq < 8"
  by (simp add: word_less_nat_alt unat_of_nat take_bit_nat_eq_self)

lemma set_mask_masked:
  assumes "pic_pair bus m s" and "stage (m d) = 0" and "stage (s d) = 0" and "irq < 16"
  shows "stage (m (pic_set_mask bus (of_nat irq) d)) = 0 \<and> stage (s (pic_set_mask bus (of_nat irq) d)) = 0
    \<and> (\<forall>j < 16. masked (m (pic_set_mask bus (of_nat irq) d)) (s (pic_set_mask bus (of_nat irq) d)) j
          \<longleftrightarrow> j = irq \<or> masked (m d) (s d) j)"
  using assms
  by (auto simp: pic_set_mask_def mask_port_def Let_def split_beta pic_pairD [OF assms(1)] chip_data_def masked_def
      line_bit line_low bit_simps split: if_splits)

lemma clear_mask_masked:
  assumes "pic_pair bus m s" and "stage (m d) = 0" and "stage (s d) = 0" and "irq < 16"
  shows "stage (m (pic_clear_mask bus (of_nat irq) d)) = 0 \<and> stage (s (pic_clear_mask bus (of_nat irq) d)) = 0
    \<and> (\<forall>j < 16. masked (m (pic_clear_mask bus (of_nat irq) d)) (s (pic_clear_mask bus (of_nat irq) d)) j
          \<longleftrightarrow> j \<noteq> irq \<and> masked (m d) (s d) j)"
  using assms
  by (auto simp: pic_clear_mask_def mask_port_def Let_def split_beta pic_pairD [OF assms(1)] chip_data_def masked_def
      line_bit line_low bit_simps split: if_splits)

lemma set_masks_masked:
  assumes "pic_pair bus m s" and "stage (m d) = 0" and "stage (s d) = 0" and "n \<le> 16"
  shows "let d1 = fold (\<lambda>irq. pic_set_mask bus (of_nat irq)) [0..<n] d
    in stage (m d1) = 0 \<and> stage (s d1) = 0 \<and> (\<forall>j < n. masked (m d1) (s d1) j)"
  using assms(4)
proof (induction n)
  case 0
  then show ?case using assms(2,3) by simp
next
  case (Suc n)
  let ?d = "fold (\<lambda>irq. pic_set_mask bus (of_nat irq)) [0..<n] d"
  show ?case
    using set_mask_masked [OF assms(1), of ?d n] Suc by (auto simp: Let_def less_Suc_eq)
qed

text \<open>The loop of \<open>wait\<close> ends at the first read that is late enough.\<close>

lemma wait_loop_ends:
  assumes "\<And>i. n \<le> i \<Longrightarrow> i < k \<Longrightarrow> clock i - start < ms" and "\<not> clock k - start < ms" and "n \<le> k"
  shows "wait_loop clock start ms n = Some k"
  using assms
proof (induction "k - n" arbitrary: n)
  case 0
  then show ?case by (subst wait_loop.simps) simp
next
  case (Suc i)
  then have "n < k" by simp
  then show ?case using Suc by (subst wait_loop.simps) simp
qed

section \<open>Properties\<close>

text \<open>
  \<open>pic_remap\<close> moves the vectors of both controllers to the bases asked for, sets up the cascade
  and the 8086 mode, and gives both back the masks they had.
\<close>

theorem pic_remap_installs:
  assumes "pic_pair bus m s"
  shows "m (pic_remap bus o1 o2 d) = (m d)\<lparr>icw2 := ucast o1 AND 0xF8, icw3 := 4, icw4 := 1, stage := 0\<rparr>
    \<and> s (pic_remap bus o1 o2 d) = (s d)\<lparr>icw2 := ucast o2 AND 0xF8, icw3 := 2, icw4 := 1, stage := 0\<rparr>"
  by (cases "m d"; cases "s d")
    (simp add: pic_remap_def Let_def split_beta pic_pairD [OF assms] chip_command_def chip_data_def)

text \<open>Two controllers as the whole of the devices.\<close>

definition two_pics :: "(chip \<times> chip) bus" where
  "two_pics = \<lparr>
     port_outb = (\<lambda>p v (m, s). if p = 0x20 then (chip_command v m, s) else if p = 0x21 then (chip_data v m, s)
       else if p = 0xA0 then (m, chip_command v s) else if p = 0xA1 then (m, chip_data v s) else (m, s)),
     port_inb = (\<lambda>p (m, s). (if p = 0x21 then imr m else if p = 0xA1 then imr s else 0, (m, s))),
     port_outw = (\<lambda>_ _ d. d), port_inw = (\<lambda>_ d. (0, d)), port_outl = (\<lambda>_ _ d. d), port_inl = (\<lambda>_ d. (0, d))\<rparr>"

definition idle_chip :: chip where
  "idle_chip = \<lparr>imr = 0xB8, icw2 = 0, icw3 = 0, icw4 = 0, stage = 0, eois = 0\<rparr>"

lemma two_pics_pair: "pic_pair two_pics fst snd"
  by (auto simp: pic_pair_def two_pics_def split_beta)

theorem pic_remap_installs_witness:
  "fst (pic_remap two_pics 0x20 0x28 (idle_chip, idle_chip))
    = idle_chip\<lparr>icw2 := 0x20, icw3 := 4, icw4 := 1, stage := 0\<rparr>"
  using pic_remap_installs [OF two_pics_pair, of "0x20" "0x28" "(idle_chip, idle_chip)"] by simp

text \<open>
  After the masking sequence of \<open>kernel_main\<close> exactly the lines of the timer and the keyboard
  are open, whatever the masks were before.
\<close>

theorem kernel_masks_open:
  assumes "pic_pair bus m s" and "stage (m d) = 0" and "stage (s d) = 0"
  shows "\<forall>j < 16. masked (m (kernel_masks bus d)) (s (kernel_masks bus d)) j \<longleftrightarrow> j \<noteq> 0 \<and> j \<noteq> 1"
proof -
  let ?d1 = "fold (\<lambda>irq. pic_set_mask bus (of_nat irq)) [0..<16] d"
  have d1: "stage (m ?d1) = 0" "stage (s ?d1) = 0" "\<forall>j < 16. masked (m ?d1) (s ?d1) j"
    using set_masks_masked [OF assms, of 16] by (simp_all add: Let_def)
  let ?d2 = "pic_clear_mask bus 0 ?d1"
  have d2: "stage (m ?d2) = 0" "stage (s ?d2) = 0" "\<forall>j < 16. masked (m ?d2) (s ?d2) j \<longleftrightarrow> j \<noteq> 0"
    using clear_mask_masked [OF assms(1) d1(1,2), of 0] d1(3) by simp_all
  then show ?thesis
    using clear_mask_masked [OF assms(1) d2(1,2), of 1] unfolding kernel_masks_def by auto
qed

theorem kernel_masks_open_witness:
  "masked (fst (kernel_masks two_pics (idle_chip, idle_chip))) (snd (kernel_masks two_pics (idle_chip, idle_chip))) 2
    \<and> \<not> masked (fst (kernel_masks two_pics (idle_chip, idle_chip))) (snd (kernel_masks two_pics (idle_chip, idle_chip))) 1"
  using kernel_masks_open [OF two_pics_pair, of "(idle_chip, idle_chip)"] by (simp add: idle_chip_def)

text \<open>
  The dispatcher returns only for the vectors 32, 33 and 46. An exception (a vector below 32) never
  returns to the interrupted code; for every other vector above 33 the panic message is taken from
  behind the table of 32 messages. The timer and keyboard vectors without a handler end in one end of
  interrupt at the master controller.
\<close>

theorem dispatch_outcomes:
  assumes "length (interrupt_handlers m) = 256"
  shows "(ucast int_no < (32 :: u8) \<longrightarrow> (\<forall>r. isr_dispatch bus int_no rip m = Some r \<longrightarrow> (\<exists>m1. r = Halted m1)))
    \<and> (33 < (ucast int_no :: u8) \<and> ucast int_no \<noteq> (46 :: u8) \<longrightarrow> isr_dispatch bus int_no rip m = None)
    \<and> (ucast int_no \<in> {32, 33 :: u8} \<and> interrupt_handlers m ! unat (ucast int_no :: u8) = None \<longrightarrow>
      isr_dispatch bus int_no rip m = Some (Returned (on_dev (outb bus 0x20 0x20) m)))"
proof (intro conjI impI; (elim conjE)?)
  have len: "length exception_messages = 32" by (simp add: exception_messages_def)
  show "ucast int_no < (32 :: u8) \<Longrightarrow> \<forall>r. isr_dispatch bus int_no rip m = Some r \<longrightarrow> (\<exists>m1. r = Halted m1)"
    by (auto simp: isr_dispatch_def Let_def)
  show "isr_dispatch bus int_no rip m = None" if "33 < (ucast int_no :: u8)" "ucast int_no \<noteq> (46 :: u8)"
  proof -
    have "32 \<le> unat (ucast int_no :: u8)" using that(1) by (simp add: word_less_nat_alt)
    then have "kernel_panic bus (ucast int_no) rip m = None" by (simp add: kernel_panic_def len)
    then show ?thesis using that by (auto simp: isr_dispatch_def Let_def)
  qed
  show "isr_dispatch bus int_no rip m = Some (Returned (on_dev (outb bus 0x20 0x20) m))"
    if "ucast int_no \<in> {32, 33 :: u8}" "interrupt_handlers m ! unat (ucast int_no :: u8) = None"
  proof -
    have "\<not> 8 \<le> (1 :: u8)" by (simp add: word_le_nat_alt)
    then have e: "pic_send_eoi bus 0 = outb bus 0x20 0x20" "pic_send_eoi bus 1 = outb bus 0x20 0x20"
      by (auto simp: fun_eq_iff pic_send_eoi_def)
    show ?thesis
      using that assms by (auto simp: isr_dispatch_def isr_finish_def isr_end_def Let_def e)
  qed
qed

definition demo_machine :: "(chip \<times> chip) machine" where
  "demo_machine = \<lparr>con = \<lparr>vram = replicate 4000 0, dev = (idle_chip, idle_chip), color = 7\<rparr>, kthreads = two_sched,
     keys = boot_keyboard, interrupt_handlers = (replicate 256 None)[32 := Some Timer_isr_wrapper], suspended = (\<lambda>_. At_start)\<rparr>"

theorem dispatch_outcomes_witness:
  "isr_dispatch two_pics 14 0 demo_machine \<noteq> Some (Returned demo_machine) \<and> isr_dispatch two_pics 64 0 demo_machine = None
    \<and> (\<exists>m1. isr_dispatch two_pics 33 0 demo_machine = Some (Returned m1))"
  using dispatch_outcomes [of demo_machine 14 two_pics 0] dispatch_outcomes [of demo_machine 64 two_pics 0]
    dispatch_outcomes [of demo_machine 33 two_pics 0]
  by (auto simp: demo_machine_def)

section \<open>The timer interrupt and the context switch\<close>

text \<open>The timer's handler is registered for vector 32 only, so that is the vector of every suspended handler.\<close>

definition timer_frames :: "'d machine \<Rightarrow> bool" where
  "timer_frames m \<longleftrightarrow> (\<forall>p v. suspended m p = In_isr v \<longrightarrow> v = 32)"

text \<open>One timer interrupt: the tick, the schedule, and the ends of interrupt of the thread that goes on.\<close>

lemma timer_dispatch:
  assumes pics: "pic_pair bus mc sc" and inv: "thread_inv (kthreads m)" and frames: "timer_frames m"
    and handlers: "length (interrupt_handlers m) = 256" "interrupt_handlers m ! 32 = Some Timer_isr_wrapper"
  obtains k m1 where "thread_schedule ((kthreads m)\<lparr>timer_ticks := timer_ticks (kthreads m) + 1\<rparr>) = Some k"
    "thread_inv k" "kept ((kthreads m)\<lparr>timer_ticks := timer_ticks (kthreads m) + 1\<rparr>) k"
    "isr_dispatch bus 32 rip m = Some (if goes_on m1 = In_isr 32 then Returned m1 else Switched m1)"
    "kthreads m1 = k" "suspended m1 = (suspended m)(current (kthreads m) := In_isr 32)" "timer_frames m1"
    "mc (dev (con m1)) = (mc (dev (con m)))\<lparr>eois := eois (mc (dev (con m))) + (if goes_on m1 = In_isr 32 then 2 else 0)\<rparr>"
    "sc (dev (con m1)) = sc (dev (con m))" "vram (con m1) = vram (con m)" "keys m1 = keys m"
    "interrupt_handlers m1 = interrupt_handlers m"
proof -
  let ?k = "(kthreads m)\<lparr>timer_ticks := timer_ticks (kthreads m) + 1\<rparr>"
  have tick: "thread_inv ?k" using inv_tick [OF inv] .
  then obtain k where k: "thread_schedule ?k = Some k" "thread_inv k" "kept ?k k"
    using thread_schedule_view [OF tick] inv_becomes by (fastforce simp: becomes_def)
  let ?m = "m\<lparr>kthreads := k, suspended := (suspended m)(current (kthreads m) := In_isr 32)\<rparr>"
  let ?d = "outb bus 0x20 0x20 (outb bus 0x20 0x20 (dev (con m)))"
  have yield: "yield_at (In_isr 32) (timer_handler m) = Some ?m"
    using k(1) by (simp add: yield_at_def timer_handler_def thread_yield_def)
  have frames1: "timer_frames ?m" using frames by (auto simp: timer_frames_def)
  have eoi: "pic_send_eoi bus 0 = outb bus 0x20 0x20" by (simp add: fun_eq_iff pic_send_eoi_def)
  have run: "isr_dispatch bus 32 rip m = do {
      (back, m1) \<leftarrow> timer_isr_wrapper bus 32 m;
      Some (case back of Some v \<Rightarrow> Returned (isr_end bus v m1) | None \<Rightarrow> Switched m1) }"
    using handlers by (simp add: isr_dispatch_def isr_finish_def)
  show ?thesis
  proof (cases "goes_on ?m = In_isr 32")
    case True
    let ?m1 = "?m\<lparr>con := (con m)\<lparr>dev := ?d\<rparr>\<rparr>"
    have "isr_dispatch bus 32 rip m = Some (Returned ?m1)"
      unfolding run using yield True by (simp add: timer_isr_wrapper_def isr_end_def on_dev_def eoi)
    moreover have "goes_on ?m1 = In_isr 32" using True by (simp add: goes_on_def)
    moreover have "timer_frames ?m1" using frames1 by (simp add: timer_frames_def)
    ultimately show ?thesis
      using that [OF k, of ?m1] by (simp add: pic_pairD [OF pics] chip_command_def)
  next
    case False
    then have "goes_on ?m \<in> {At_start, In_yield}"
      using frames1 by (cases "goes_on ?m") (auto simp: goes_on_def timer_frames_def)
    then have "isr_dispatch bus 32 rip m = Some (Switched ?m)"
      unfolding run using yield by (auto simp: timer_isr_wrapper_def)
    then show ?thesis using that [OF k, of ?m] False frames1 by simp
  qed
qed

lemma own_yield_run:
  assumes pics: "pic_pair bus mc sc" and inv: "thread_inv (kthreads m)" and frames: "timer_frames m"
  obtains k m1 where "thread_schedule (kthreads m) = Some k" "thread_inv k" "kept (kthreads m) k"
    "own_yield bus m = Some m1" "kthreads m1 = k" "suspended m1 = (suspended m)(current (kthreads m) := In_yield)" "timer_frames m1"
    "mc (dev (con m1)) = (mc (dev (con m)))\<lparr>eois := eois (mc (dev (con m))) + (if goes_on m1 = In_isr 32 then 2 else 0)\<rparr>"
    "interrupt_handlers m1 = interrupt_handlers m"
proof -
  obtain k where k: "thread_schedule (kthreads m) = Some k" "thread_inv k" "kept (kthreads m) k"
    using thread_schedule_view [OF inv] inv_becomes [OF inv] by (fastforce simp: becomes_def)
  let ?m = "m\<lparr>kthreads := k, suspended := (suspended m)(current (kthreads m) := In_yield)\<rparr>"
  let ?d = "outb bus 0x20 0x20 (outb bus 0x20 0x20 (dev (con m)))"
  have yield: "yield_at In_yield m = Some ?m" using k(1) by (simp add: yield_at_def thread_yield_def)
  have frames1: "timer_frames ?m" using frames by (auto simp: timer_frames_def)
  have eoi: "pic_send_eoi bus 0 = outb bus 0x20 0x20" by (simp add: fun_eq_iff pic_send_eoi_def)
  show ?thesis
  proof (cases "goes_on ?m = In_isr 32")
    case True
    let ?m1 = "?m\<lparr>con := (con m)\<lparr>dev := ?d\<rparr>\<rparr>"
    have "own_yield bus m = Some ?m1"
      using yield True by (simp add: own_yield_def isr_end_def on_dev_def eoi)
    moreover have "goes_on ?m1 = In_isr 32" using True by (simp add: goes_on_def)
    moreover have "timer_frames ?m1" using frames1 by (simp add: timer_frames_def)
    ultimately show ?thesis
      using that [OF k, of ?m1] by (simp add: pic_pairD [OF pics] chip_command_def)
  next
    case False
    then have "goes_on ?m \<in> {At_start, In_yield}"
      using frames1 by (cases "goes_on ?m") (auto simp: goes_on_def timer_frames_def)
    then have "own_yield bus m = Some ?m" using yield by (auto simp: own_yield_def)
    then show ?thesis using that [OF k, of ?m] False frames1 by simp
  qed
qed

text \<open>
  C36. A timer interrupt counts one tick and runs the scheduler on a table that stays well formed; the
  interrupted thread is kept at its place in the timer handler. Then it depends on the thread that goes on. If that is the same
  thread, or one that was itself interrupted by the timer, the dispatcher returns and the master controller
  has got two ends of interrupt, one of the handler and one of the dispatcher. If it is a thread that has not run
  yet or that had given up the processor itself, control is in its code and no end of interrupt was
  sent for this interrupt.
\<close>

theorem timer_interrupt:
  assumes "pic_pair bus mc sc" and "thread_inv (kthreads m)" and "timer_frames m"
    and "length (interrupt_handlers m) = 256" and "interrupt_handlers m ! 32 = Some Timer_isr_wrapper"
  shows "\<exists>k m1. thread_schedule ((kthreads m)\<lparr>timer_ticks := timer_ticks (kthreads m) + 1\<rparr>) = Some k \<and> thread_inv k
    \<and> isr_dispatch bus 32 rip m = Some (
        if current k = current (kthreads m) \<or> suspended m (current k) = In_isr 32 then Returned m1 else Switched m1)
    \<and> kthreads m1 = k \<and> suspended m1 = (suspended m)(current (kthreads m) := In_isr 32) \<and> timer_frames m1
    \<and> mc (dev (con m1)) = (mc (dev (con m)))\<lparr>eois := eois (mc (dev (con m)))
        + (if current k = current (kthreads m) \<or> suspended m (current k) = In_isr 32 then 2 else 0)\<rparr>
    \<and> sc (dev (con m1)) = sc (dev (con m)) \<and> vram (con m1) = vram (con m) \<and> keys m1 = keys m"
proof (rule timer_dispatch [OF assms, of rip], goal_cases)
  case (1 k m1)
  have "goes_on m1 = In_isr 32 \<longleftrightarrow> current k = current (kthreads m) \<or> suspended m (current k) = In_isr 32"
    using 1(5,6) by (simp add: goes_on_def)
  then show ?case using 1 by (intro exI [of _ k] exI [of _ m1]) simp
qed

text \<open>
  The first interrupt of the idle thread starts the shell, and nothing is acknowledged.
\<close>

theorem timer_interrupt_witness:
  "\<exists>m1. isr_dispatch two_pics 32 0x100000 demo_machine = Some (Switched m1) \<and> eois (fst (dev (con m1))) = 0
     \<and> cur (kthreads m1) = 1"
proof -
  let ?k = "two_sched\<lparr>timer_ticks := timer_ticks two_sched + 1\<rparr>"
  have inv: "thread_inv (kthreads demo_machine)" "thread_inv ?k"
    using two_sched_facts(2) inv_tick by (simp_all add: demo_machine_def)
  have v: "view ?k = view two_sched" "cur ?k = cur two_sched" "thread_count ?k = 2"
    using two_sched_facts(3) by (simp_all add: view_def thr_def [abs_def] cur_def)
  have len: "length (view two_sched) = 2" using two_sched_facts(3) by simp
  then obtain a b where ab: "view two_sched = [a, b]" by (metis length_0_conv length_Suc_conv numeral_2_eq_2)
  have st: "t_state a = THREAD_RUNNING" "t_state b = THREAD_READY" using two_sched_facts(5,6) ab by simp_all
  have turn: "next_ready 0 (map (wake now) [a, b]) = Some 1" for now
    using st by (simp add: next_ready_def wake_def upt_rec)
  then have "snd (round_robin (timer_ticks ?k) (cpu ?k) (cur ?k) (view ?k)) = 1"
    using v ab two_sched_facts(4) by (simp add: round_robin_def)
  then obtain k where k: "thread_schedule ?k = Some k" "thread_inv k" "kept ?k k" "cur k = 1"
    using thread_schedule_view [OF inv(2)] inv_becomes [OF inv(2)] by (fastforce simp: becomes_def)
  have "current k = threads two_sched ! 1" "current two_sched = threads two_sched ! 0"
    using table_cur(2) [OF inv_table [OF k(2)]] table_cur(2) [OF inv_table [OF two_sched_facts(2)]] k(3,4) two_sched_facts(4)
    by (simp_all add: kept_def)
  then have "current k \<noteq> current two_sched"
    using table_inject [OF inv_table [OF two_sched_facts(2)], of 1 0] two_sched_facts(3) by simp
  then show ?thesis
    using timer_interrupt [OF two_pics_pair inv(1), of "0x100000"] k(1,4)
    by (auto simp: demo_machine_def idle_chip_def timer_frames_def)
qed

text \<open>
  While the timer keeps ticking \<open>wait\<close> returns, at the first read of the counter that is at least
  \<open>ms\<close> ticks after its first one; also when the 32-bit counter wraps in between. (The counter is read
  at least once per tick.)
\<close>

theorem wait_ends:
  assumes "\<And>i. clock i = c0 + of_nat (f i)" and "f 0 = 0" and "\<And>i. f i \<le> f (Suc i) \<and> f (Suc i) \<le> f i + 1"
    and "unat ms \<le> f k"
  shows "\<exists>n \<ge> 1. wait clock ms = Some n \<and> unat ms \<le> f n \<and> (\<forall>i < n. 1 \<le> i \<longrightarrow> f i < unat ms)"
proof -
  let ?P = "\<lambda>n. 1 \<le> n \<and> unat ms \<le> f n"
  have "unat ms \<le> f (Suc k)" using assms(3) [of k] assms(4) by linarith
  then have ex: "?P (Suc k)" by simp
  define n where "n = (LEAST n. ?P n)"
  have n: "1 \<le> n" "unat ms \<le> f n" using LeastI [of ?P, OF ex] by (simp_all add: n_def)
  have before: "f i < unat ms" if "1 \<le> i" "i < n" for i
    using not_less_Least [of i ?P] that unfolding n_def by auto
  have ms: "unat ms < 2 ^ 32" using unsigned_less [of ms] by simp
  have elapsed: "clock i - clock 0 = of_nat (f i)" for i using assms(1,2) by simp
  have late: "f n < 2 ^ 32"
  proof (cases "n = 1")
    case True
    then show ?thesis using assms(2) assms(3) [of 0] by simp
  next
    case False
    then have "f (n - 1) < unat ms" using before [of "n - 1"] n(1) by simp
    then show ?thesis using assms(3) [of "n - 1"] n(1) ms by simp
  qed
  have less: "(of_nat (f i) :: u32) < ms \<longleftrightarrow> f i < unat ms" if "f i < 2 ^ 32" for i
    using that by (simp add: word_less_nat_alt unat_of_nat take_bit_nat_eq_self)
  have "wait_loop clock (clock 0) ms 1 = Some n"
  proof (rule wait_loop_ends)
    show "clock i - clock 0 < ms" if "1 \<le> i" "i < n" for i
      using before [OF that] less [of i] ms unfolding elapsed by simp
    show "\<not> clock n - clock 0 < ms" using less [OF late] n(2) unfolding elapsed by simp
  qed (rule n(1))
  then show ?thesis using n before unfolding wait_def by blast
qed

theorem wait_ends_witness:
  "\<exists>n. wait (\<lambda>i. 0xFFFFFFFE + of_nat (i div 2)) 3 = Some n \<and> 3 \<le> n div 2"
  using wait_ends [of "\<lambda>i. 0xFFFFFFFE + of_nat (i div 2)" "0xFFFFFFFE" "\<lambda>i. i div 2" 3 6] by force

lemma two_bytes: "ucast (ucast (v AND 0xFF) :: u8) OR push_bit 8 (ucast (ucast (drop_bit 8 v AND 0xFF) :: u8)) = (ucast (v :: u32) :: u16)"
proof (rule bit_word_eqI)
  fix n assume "n < LENGTH(16)"
  then consider "n < 8" | "8 \<le> n" "n < 16" by fastforce
  then show "bit (ucast (ucast (v AND 0xFF) :: u8) OR push_bit 8 (ucast (ucast (drop_bit 8 v AND 0xFF) :: u8)) :: u16) n
      = bit (ucast v :: u16) n"
    unfolding low_masks by cases (auto simp: bit_simps)
qed

lemma play_sound_pit:
  assumes "pit_ports bus t" and "frequency \<noteq> 0"
  shows "t (pc_speaker_play_sound bus frequency d)
    = (t d)\<lparr>reload2 := ucast (1193180 div frequency), low_byte := None, gate := gate (t d) OR 3\<rparr>"
proof -
  let ?v = "1193180 div frequency"
  let ?d = "outb bus 0x42 (ucast (drop_bit 8 ?v AND 0xFF)) (outb bus 0x42 (ucast (?v AND 0xFF)) (outb bus 0x43 0xB6 d))"
  have d: "t ?d = (t d)\<lparr>reload2 := ucast ?v, low_byte := None\<rparr>"
    unfolding pit_portsD [OF assms(1)] pit_write_def by (simp add: two_bytes)
  obtain d1 where d1: "inb bus 0x61 ?d = (gate (t d), d1)" "t d1 = t ?d"
    using pit_portsD(5,6) [OF assms(1), of ?d] unfolding d by (cases "inb bus 0x61 ?d") auto
  have "pc_speaker_play_sound bus frequency d
      = (if gate (t d) \<noteq> gate (t d) OR 3 then outb bus 0x61 (gate (t d) OR 3) d1 else d1)"
    using assms(2) d1(1) by (simp add: pc_speaker_play_sound_def Let_def)
  then show ?thesis using d1(2) d by (cases "t d") (simp add: pit_portsD [OF assms(1)])
qed

lemma nosound_pit: "pit_ports bus t \<Longrightarrow> t (pc_speaker_nosound bus d) = (t d)\<lparr>gate := gate (t d) AND 0xFC\<rparr>"
  by (simp add: pc_speaker_nosound_def split_beta pit_portsD)

text \<open>
  A beep of a frequency of at least 19 Hz loads channel 2 of the timer with the rounded quotient
  of the timer's clock, ends with the speaker off when \<open>wait\<close> returns, and changes neither the
  channel that drives the interrupts nor the other bits of port 0x61.
\<close>

theorem beep_programs_speaker:
  assumes "pit_ports bus t" and "19 \<le> unat frequency" and "pc_speaker_beep bus clock frequency duration d = Some d1"
  shows "unat (reload2 (t (pc_speaker_play_sound bus frequency d))) = 1193180 div unat frequency"
    and "gate (t (pc_speaker_play_sound bus frequency d)) AND 3 = 3"
    and "t d1 = (t d)\<lparr>reload2 := ucast (1193180 div frequency), low_byte := None, gate := gate (t d) AND 0xFC\<rparr>"
proof -
  have nz: "frequency \<noteq> 0" using assms(2) by auto
  note play = play_sound_pit [OF assms(1) nz, of d]
  have "1193180 div unat frequency \<le> 1193180 div 19" using assms(2) by (rule div_le_mono2 [OF zero_less_numeral])
  then show "unat (reload2 (t (pc_speaker_play_sound bus frequency d))) = 1193180 div unat frequency"
    unfolding play by (simp add: unsigned_ucast_eq unat_div take_bit_nat_eq_self)
  show "gate (t (pc_speaker_play_sound bus frequency d)) AND 3 = 3"
    unfolding play by (simp add: or.commute)
  have "(gate (t d) OR 3) AND 0xFC = gate (t d) AND 0xFC"
    by (simp add: and.commute [of _ "0xFC"] bit.conj_disj_distrib)
  moreover have "d1 = pc_speaker_nosound bus (pc_speaker_play_sound bus frequency d)"
    using assms(3) by (auto simp: pc_speaker_beep_def Option.bind_eq_Some_conv)
  ultimately show "t d1 = (t d)\<lparr>reload2 := ucast (1193180 div frequency), low_byte := None, gate := gate (t d) AND 0xFC\<rparr>"
    by (simp add: nosound_pit [OF assms(1)] play)
qed

text \<open>A timer chip as the whole of the devices.\<close>

definition pit_bus :: "pit bus" where
  "pit_bus = \<lparr>
     port_outb = (\<lambda>p v t. if p = 0x43 then t\<lparr>low_byte := None\<rparr>
       else if p = 0x40 then pit_write (\<lambda>w. reload0_update (\<lambda>_. w)) v t
       else if p = 0x42 then pit_write (\<lambda>w. reload2_update (\<lambda>_. w)) v t
       else if p = 0x61 then t\<lparr>gate := v\<rparr> else t),
     port_inb = (\<lambda>p t. (if p = 0x61 then gate t else 0, t)),
     port_outw = (\<lambda>_ _ d. d), port_inw = (\<lambda>_ d. (0, d)), port_outl = (\<lambda>_ _ d. d), port_inl = (\<lambda>_ d. (0, d))\<rparr>"

lemma pit_bus_ports: "pit_ports pit_bus (\<lambda>t. t)"
  by (simp add: pit_ports_def pit_bus_def)

theorem beep_programs_speaker_witness:
  "\<exists>d. pc_speaker_beep pit_bus of_nat 400 2 \<lparr>reload0 = 1193, reload2 = 0, low_byte = None, gate = 0x31\<rparr> = Some d
    \<and> gate d = 0x30 \<and> reload0 d = 1193"
proof -
  have "wait of_nat 2 = Some 2"
    unfolding wait_def by (rule wait_loop_ends) (auto simp: less_Suc_eq numeral_eq_Suc)
  then obtain d where d: "pc_speaker_beep pit_bus of_nat 400 2 \<lparr>reload0 = 1193, reload2 = 0, low_byte = None, gate = 0x31\<rparr> = Some d"
    by (simp add: pc_speaker_beep_def)
  then show ?thesis using beep_programs_speaker(3) [OF pit_bus_ports _ d] by simp
qed

end
