(* ===== verification/Numbers.thy ===== *)
theory Numbers
  imports Format
begin

text \<open>
  The number printing of drivers/video/vga_default.c (\<open>int_to_str\<close>, \<open>kprinti\<close>, \<open>kprint_hex\<close> and their
  variants) and the log lines of kernel/debug.c. The main fact is that \<open>int_to_str\<close>, which writes the
  digits backwards and reverses them in place, gives the same numeral as \<open>itoa\<close>.
\<close>

section \<open>Copying\<close>

definition vga_memcpy :: "bytes \<Rightarrow> bytes \<Rightarrow> nat \<Rightarrow> bytes option" where
  "vga_memcpy src dest n = iter (\<lambda>i d. do { x \<leftarrow> rd src i; wr d i x }) [0..<n] dest"

section \<open>Hexadecimal\<close>

text \<open>The digits are stored from the last place to the first.\<close>

fun hex_store :: "nat \<Rightarrow> u32 \<Rightarrow> bytes \<Rightarrow> bytes option" where
  "hex_store 0 value hex_str = Some hex_str"
| "hex_store (Suc i) value hex_str = do {
     let digit = (ucast (value AND 0xF) :: u8);
     b \<leftarrow> wr hex_str i (if digit < 10 then 48 + digit else 65 + (digit - 10));
     hex_store i (drop_bit 4 value) b }"

definition kprint_hex :: "'d bus \<Rightarrow> bytes \<Rightarrow> u32 \<Rightarrow> 'd console \<Rightarrow> 'd console option" where
  "kprint_hex bus junk value s = do {
     b0 \<leftarrow> wr junk 8 0;
     hex_str \<leftarrow> hex_store 8 value b0;
     iter (\<lambda>i s. do { c \<leftarrow> rd hex_str i; putchar bus c 7 s }) [0..<8] s }"

definition kprint_hex_w :: "'d bus \<Rightarrow> bytes \<Rightarrow> u32 \<Rightarrow> 'd console \<Rightarrow> 'd console option" where
  "kprint_hex_w bus junk value s = do {
     b0 \<leftarrow> wr junk 4 0;
     hex_str \<leftarrow> hex_store 4 value b0;
     iter (\<lambda>i s. do {
       c \<leftarrow> rd hex_str i;
       s1 \<leftarrow> putchar bus c 7 s;
       let (p, s2) = get_cursor bus s1;
       Some (set_cursor bus (p + 2) s2) }) [0..<4] s }"

section \<open>Decimal\<close>

lemma cdiv_less: "num \<noteq> 0 \<Longrightarrow> nat \<bar>sint (cdiv num 10)\<bar> < nat \<bar>sint num\<bar>"
proof -
  assume nz: "num \<noteq> 0"
  let ?x = "sint num"
  have range: "- (2 ^ 31) \<le> ?x" "?x < 2 ^ 31"
    using sint_range_size [of num] by (simp_all add: word_size)
  have q: "\<bar>?x sdiv 10\<bar> = \<bar>?x\<bar> div 10"
    by (simp add: signed_divide_int_def abs_mult sgn_if)
  then have b: "\<bar>?x sdiv 10\<bar> \<le> \<bar>?x\<bar> div 10" "\<bar>?x\<bar> \<le> 2 ^ 31" using range by simp_all
  moreover have "\<bar>?x\<bar> div 10 \<le> 2 ^ 31 div 10" using b(2) by (rule zdiv_mono1) simp
  ultimately have "\<bar>?x sdiv 10\<bar> < 2 ^ 31" by simp
  then have "- (2 ^ 31) \<le> ?x sdiv 10" "?x sdiv 10 < 2 ^ 31" by linarith+
  then have "sint (cdiv num 10) = ?x sdiv 10"
    by (simp add: cdiv_def signed_of_int signed_take_bit_int_eq_self)
  moreover have "\<bar>?x\<bar> div 10 < \<bar>?x\<bar>" using nz by (intro int_div_less_self) simp_all
  ultimately show ?thesis using q nz by simp
qed

function digit_loop :: "bytes \<Rightarrow> nat \<Rightarrow> i32 \<Rightarrow> (bytes \<times> nat) option" where
  "digit_loop str i num =
     (if num = 0 then Some (str, i)
      else do { s1 \<leftarrow> wr str i (ucast (cmod num 10 + 48)); digit_loop s1 (i + 1) (cdiv num 10) })"
  by pat_completeness auto
termination
  by (relation "measure (\<lambda>(str, i, num). nat \<bar>sint num\<bar>)") (use cdiv_less in auto)

declare digit_loop.simps [simp del]

definition swap :: "nat \<Rightarrow> nat \<Rightarrow> bytes \<Rightarrow> bytes option" where
  "swap i j str = do {
     temp \<leftarrow> rd str j;
     x \<leftarrow> rd str (i - j - 1);
     s1 \<leftarrow> wr str j x;
     wr s1 (i - j - 1) temp }"

definition int_to_str :: "i32 \<Rightarrow> bytes \<Rightarrow> bytes option" where
  "int_to_str num str =
     (if num = 0 then do { s1 \<leftarrow> wr str 0 48; wr s1 1 0 }
      else do {
        let is_negative = sint num < 0;
        (s1, i) \<leftarrow> digit_loop str 0 (if is_negative then - num else num);
        (s2, i) \<leftarrow> (if is_negative then do { s2 \<leftarrow> wr s1 i 45; Some (s2, i + 1) } else Some (s1, i));
        s3 \<leftarrow> wr s2 i 0;
        iter (swap i) [0..<i div 2] s3 })"

definition kprinti :: "'d bus \<Rightarrow> bytes \<Rightarrow> i32 \<Rightarrow> 'd console \<Rightarrow> 'd console option" where
  "kprinti bus junk number s = do { buffer \<leftarrow> int_to_str number junk; kprint bus buffer s }"

definition kprintci :: "'d bus \<Rightarrow> bytes \<Rightarrow> i32 \<Rightarrow> u8 \<Rightarrow> 'd console \<Rightarrow> 'd console option" where
  "kprintci bus junk number attr s = do { buffer \<leftarrow> int_to_str number junk; kprintc bus buffer attr s }"

text \<open>The text window from 0xB8000 on; \<open>offset\<close> plus twice the index is computed as an \<open>int\<close>.\<close>

fun vidmem_loop :: "bytes \<Rightarrow> u8 \<Rightarrow> i32 \<Rightarrow> bytes \<Rightarrow> bytes option" where
  "vidmem_loop [] attr offset video = None"
| "vidmem_loop (c # str) attr offset video =
     (if c = 0 then Some video
      else if sint offset < 0 then None
      else do {
        v1 \<leftarrow> wr video (unat offset) c;
        v2 \<leftarrow> wr v1 (unat offset + 1) attr;
        vidmem_loop str attr (offset + 2) v2 })"

definition kprintci_vidmem :: "bytes \<Rightarrow> i32 \<Rightarrow> u8 \<Rightarrow> i32 \<Rightarrow> 'd console \<Rightarrow> 'd console option" where
  "kprintci_vidmem junk number attr offset s = do {
     buffer \<leftarrow> int_to_str number junk;
     v \<leftarrow> vidmem_loop buffer attr offset (vram s);
     Some (s\<lparr>vram := v\<rparr>) }"

definition kprinti_vidmem :: "bytes \<Rightarrow> i32 \<Rightarrow> i32 \<Rightarrow> 'd console \<Rightarrow> 'd console option" where
  "kprinti_vidmem junk number offset s = do {
     buffer \<leftarrow> int_to_str number junk;
     v \<leftarrow> vidmem_loop buffer 7 offset (vram s);
     Some (s\<lparr>vram := v\<rparr>) }"

section \<open>Log lines\<close>

definition kdbg_prefix :: "i32 \<Rightarrow> bytes" where
  "kdbg_prefix lvl =
     (if lvl = 1 then zlit ''<(0F)>[INFO]:<(07)> ''
      else if lvl = 2 then zlit ''<(0E)>[WARN]:<(07)> ''
      else if lvl = 3 then zlit ''<(0C)>[ERR]:<(07)> ''
      else if lvl = 4 then zlit ''<(04)>[PANIC]:<(07)> ''
      else zlit ''<(07)>[DBG]:<(08)> '')"

definition kdbg :: "'d bus \<Rightarrow> i32 \<Rightarrow> bytes \<Rightarrow> varg list \<Rightarrow> 'd console \<Rightarrow> 'd console option" where
  "kdbg bus lvl fmt args s = do {
     s1 \<leftarrow> kprintf bus (kdbg_prefix lvl) [] s;
     s2 \<leftarrow> kvprintf bus fmt args s1;
     kprintf bus (zlit ''<(07)>'') [] s2 }"

section \<open>The digits and their reversal\<close>

lemma digit_loop_decz:
  assumes "m < 2 ^ 31" and "i + length (decz m) \<le> length str"
  shows "digit_loop str i (word_of_nat m) = Some (blit str i (rev (decz m)), i + length (decz m))"
  using assms
proof (induction m arbitrary: str i rule: less_induct)
  case (less m)
  show ?case
  proof (cases "m = 0")
    case True
    then show ?thesis by (simp add: digit_loop.simps)
  next
    case False
    have nz: "(word_of_nat m :: i32) \<noteq> 0"
      using False less.prems sint_word_of_nat32 [of m] by (metis of_nat_0_eq_iff signed_0)
    let ?b = "str[i := 48 + of_nat (m mod 10)]"
    have "digit_loop ?b (i + 1) (word_of_nat (m div 10))
        = Some (blit ?b (i + 1) (rev (decz (m div 10))), i + 1 + length (decz (m div 10)))"
      using less.IH [of "m div 10" "i + 1" ?b] less.prems False by (simp add: decz_Suc)
    then show ?thesis
      using less.prems nz False
      by (subst digit_loop.simps) (simp add: cdivmod_nat digit_byte decz_Suc blit_Cons)
  qed
qed

lemma swaps:
  assumes "i \<le> length s" and "k \<le> i div 2"
  shows "\<exists>t. iter (swap i) [0..<k] s = Some t \<and> length t = length s
    \<and> (\<forall>j < length s. t ! j = (if j < k \<or> i - k \<le> j \<and> j < i then s ! (i - 1 - j) else s ! j))"
  using assms(2)
proof (induction k)
  case 0
  then show ?case by auto
next
  case (Suc k)
  then obtain t where t: "iter (swap i) [0..<k] s = Some t" "length t = length s"
    "\<forall>j < length s. t ! j = (if j < k \<or> i - k \<le> j \<and> j < i then s ! (i - 1 - j) else s ! j)"
    by auto
  have k: "k < i - k - 1" "i - k - 1 < length s" using Suc.prems assms(1) by linarith+
  have at: "t ! k = s ! k" "t ! (i - k - 1) = s ! (i - k - 1)" using t(3) k by auto
  have "swap i k t = Some (t[k := s ! (i - k - 1), i - k - 1 := s ! k])"
    using k t(2) at by (simp add: swap_def)
  moreover have "\<forall>j < length s. t[k := s ! (i - k - 1), i - k - 1 := s ! k] ! j
      = (if j < Suc k \<or> i - Suc k \<le> j \<and> j < i then s ! (i - 1 - j) else s ! j)"
    using t(2,3) k by (auto simp: nth_list_update)
  ultimately show ?case using t(1,2) by (simp add: iter_append)
qed

lemma reverse_prefix:
  assumes "i \<le> length s"
  shows "\<exists>t. iter (swap i) [0..<i div 2] s = Some t \<and> t = rev (take i s) @ drop i s"
proof -
  obtain t where t: "iter (swap i) [0..<i div 2] s = Some t" "length t = length s"
    "\<forall>j < length s. t ! j = (if j < i div 2 \<or> i - i div 2 \<le> j \<and> j < i then s ! (i - 1 - j) else s ! j)"
    using swaps [OF assms, of "i div 2"] by auto
  have "t = rev (take i s) @ drop i s"
  proof (rule nth_equalityI)
    show "length t = length (rev (take i s) @ drop i s)" using t(2) assms by simp
    fix j assume "j < length t"
    then have j: "j < length s" using t(2) by simp
    consider "j < i div 2 \<or> i - i div 2 \<le> j \<and> j < i" | "j < i" "j = i - 1 - j" | "i \<le> j" by linarith
    then show "t ! j = (rev (take i s) @ drop i s) ! j"
      using j assms t(3) by cases (auto simp: nth_append rev_nth)
  qed
  with t(1) show ?thesis by blast
qed

lemma put_next:
  "length bs < length str \<Longrightarrow> (bs @ drop (length bs) str)[length bs := x] = (bs @ [x]) @ drop (length (bs @ [x])) str"
  by (simp add: Cons_nth_drop_Suc [symmetric])

lemma length_numeral: "num \<noteq> 0x80000000 \<Longrightarrow> length (numeral_of num) \<le> 11"
  and nat_abs_num: "num \<noteq> 0x80000000 \<Longrightarrow> nat \<bar>sint num\<bar> < 2 ^ 31"
proof -
  assume nm: "num \<noteq> 0x80000000"
  have range: "- (2 ^ 31) \<le> sint num" "sint num < 2 ^ 31"
    using sint_range_size [of num] by (simp_all add: word_size)
  have "sint num \<noteq> sint (0x80000000 :: i32)" unfolding sint_inject using nm .
  then have "sint num \<noteq> - (2 ^ 31)" by simp
  then show m: "nat \<bar>sint num\<bar> < 2 ^ 31" using range by simp
  have "length (decz n) \<le> 11" "length (decz n) \<le> 10" if "n < 2 ^ 31" for n using that length_decz [of n 10] by simp_all
  then show "length (numeral_of num) \<le> 11"
    using m range by (auto simp: numeral_of_def dec_def abs_if split: if_splits intro: le_SucI)
qed

lemma int_to_str_numeral:
  assumes "length str = 12" and "num \<noteq> 0x80000000"
  shows "int_to_str num str = Some (numeral_of num @ 0 # drop (Suc (length (numeral_of num))) str)"
proof (cases "num = 0")
  case True
  obtain a b r where "str = a # b # r" using assms(1) by (auto simp: length_Suc_conv numeral_eq_Suc)
  then show ?thesis using True by (simp add: int_to_str_def numeral_of_def dec_def)
next
  case nz: False
  define m where "m = nat \<bar>sint num\<bar>"
  let ?D = "decz m" and ?neg = "sint num < 0"
  have m31: "m < 2 ^ 31" using nat_abs_num [OF assms(2)] by (simp add: m_def)
  have m0: "0 < m" using nz by (simp add: m_def)
  have len: "length ?D \<le> 10" using m31 by (intro length_decz) simp
  have arg: "(if ?neg then - num else num) = word_of_nat m" by (simp add: m_def)
  let ?digits = "rev ?D @ (if ?neg then [45] else [])"
  have num: "numeral_of num = rev ?digits"
    using m0 by (auto simp: numeral_of_def dec_def m_def)
  have loop: "digit_loop str 0 (word_of_nat m) = Some (rev ?D @ drop (length (rev ?D)) str, length ?D)"
    using digit_loop_decz [OF m31, of 0 str] len assms(1) by (simp add: blit_def)
  have sign: "(if ?neg then do { s2 \<leftarrow> wr (rev ?D @ drop (length (rev ?D)) str) (length ?D) 45; Some (s2, length ?D + 1) }
      else Some (rev ?D @ drop (length (rev ?D)) str, length ?D))
    = Some (?digits @ drop (length ?digits) str, length ?digits)"
    using put_next [of "rev ?D" str 45] len assms(1) by simp
  have l: "length ?digits < length str" using len assms(1) by simp
  have stop: "wr (?digits @ drop (length ?digits) str) (length ?digits) 0
      = Some ((?digits @ [0]) @ drop (length (?digits @ [0])) str)"
    using put_next [OF l, of 0] l by (simp add: wr_def)
  obtain t where t: "iter (swap (length ?digits)) [0..<length ?digits div 2] ((?digits @ [0]) @ drop (length (?digits @ [0])) str) = Some t"
    "t = rev ?digits @ 0 # drop (Suc (length ?digits)) str"
    using reverse_prefix [of "length ?digits" "(?digits @ [0]) @ drop (length (?digits @ [0])) str"] by auto
  have "int_to_str num str = Some t"
    unfolding int_to_str_def Let_def arg using nz by (simp only: loop sign stop t(1) if_False bind.bind_lunit prod.case)
  then show ?thesis by (simp add: t(2) num)
qed

section \<open>What a log line shows\<close>

text \<open>The label of a level, its colour, and the colour of the text behind it.\<close>

definition kdbg_style :: "i32 \<Rightarrow> bytes \<times> u8 \<times> u8" where
  "kdbg_style lvl =
     (if lvl = 1 then (lit ''[INFO]:'', 15, 7) else if lvl = 2 then (lit ''[WARN]:'', 14, 7)
      else if lvl = 3 then (lit ''[ERR]:'', 12, 7) else if lvl = 4 then (lit ''[PANIC]:'', 4, 7)
      else (lit ''[DBG]:'', 7, 8))"

lemma literal_render:
  "0 \<notin> set f \<Longrightarrow> 37 \<notin> set f \<Longrightarrow> render m T (f @ [0]) args = Some f"
  by (induction f) auto

lemma kprintf_literal:
  assumes "0 \<notin> set f" and "37 \<notin> set f" and "length f \<le> 255"
  shows "kprintf bus (f @ [0]) args s = kprint bus (f @ [0]) s"
  using format_loop_render [OF literal_render [OF assms(1,2)], of "[]" LongBoth args] assms(3)
  by (simp add: kprintf_def)

lemma kdbg_prefix_tokens:
  assumes "kdbg_style lvl = (label, k, b)"
  shows "\<exists>f. kdbg_prefix lvl = f @ [0] \<and> 0 \<notin> set f \<and> 37 \<notin> set f \<and> 8 \<notin> set f \<and> length f \<le> 255
    \<and> tokens col f = (map (\<lambda>c. (c, k)) label @ [(32, b)], b)"
  using assms unfolding kdbg_style_def kdbg_prefix_def
  by (auto simp: lit_def starts_escape_def escape_color_def hex_digit_def hex_value_def split: if_splits)

lemma kprint_plain:
  assumes "crtc bus idx reg" and "screen reg rest s t" and "0 \<notin> set f" and "8 \<notin> set f"
    and "tokens (color s) f = (ts, k)"
  shows "\<exists>s'. kprint bus (f @ [0]) s = Some s' \<and> screen reg rest s' (show_tokens ts t) \<and> color s' = k"
  using kprint_screen [OF assms(1,2), of "f @ [0]"] assms(3-5) by auto

text \<open>
  \<open>int_to_str\<close> and \<open>itoa\<close> are equivalent: for every \<open>int\<close> but \<open>INT_MIN\<close> both stay inside their 12-byte
  buffers and produce the same string, the decimal numeral with a minus sign where needed.
\<close>

theorem int_to_str_itoa:
  assumes "length str = 12" and "length buf = 12" and "num \<noteq> 0x80000000"
  shows "\<exists>b c i. int_to_str num str = Some b \<and> itoa buf num = Some (c, i) \<and> length b = 12 \<and> length c = 12
    \<and> cstr b = numeral_of num \<and> cstr (drop i c) = numeral_of num"
proof -
  obtain c i where c: "itoa buf num = Some (c, i)" "length c = 12" "drop i c = numeral_of num @ [0]"
    using itoa_numeral [OF assms(2,3)] by blast
  have "0 \<notin> set (numeral_of num)" using decz_no_zero by (auto simp: numeral_of_def dec_def)
  then show ?thesis
    using int_to_str_numeral [OF assms(1,3)] c length_numeral [OF assms(3)] assms(1) by simp
qed

theorem int_to_str_itoa_witness:
  "\<exists>b. int_to_str (- 408) (replicate 12 1) = Some b \<and> cstr b = lit ''-408''"
proof -
  have "numeral_of (- 408) = lit ''-408''" by (simp add: numeral_of_def decz.simps lit_def)
  then show ?thesis
    using int_to_str_itoa [of "replicate 12 1" "replicate 12 0" "- 408"] by auto
qed

text \<open>
  \<open>kdbg\<close> prints the label of its level in the level's colour, then the formatted text with its own
  colour escapes, and leaves the colour light grey, whatever escapes the text had; this for every text
  of at most 255 characters.
\<close>

theorem kdbg_prints:
  assumes "crtc bus idx reg" and "screen reg rest s t" and "render LongLong kprintf_text fmt args = Some q"
    and "length q \<le> 255" and "0 \<notin> set q" and "8 \<notin> set q" and "kdbg_style lvl = (label, k, b)"
  shows "\<exists>s'. kdbg bus lvl fmt args s = Some s' \<and> color s' = 7
    \<and> screen reg rest s' (show_tokens (fst (tokens b q)) (show_tokens (map (\<lambda>c. (c, k)) label @ [(32, b)]) t))"
proof -
  obtain f where f: "kdbg_prefix lvl = f @ [0]" "0 \<notin> set f" "37 \<notin> set f" "8 \<notin> set f" "length f \<le> 255"
    "tokens (color s) f = (map (\<lambda>c. (c, k)) label @ [(32, b)], b)"
    using kdbg_prefix_tokens [OF assms(7), of "color s"] by blast
  let ?t1 = "show_tokens (map (\<lambda>c. (c, k)) label @ [(32, b)]) t"
  obtain s1 where s1: "kprint bus (f @ [0]) s = Some s1" "screen reg rest s1 ?t1" "color s1 = b"
    using kprint_plain [OF assms(1,2) f(2,4,6)] by blast
  obtain s2 where s2: "kprint bus (q @ [0]) s1 = Some s2" "screen reg rest s2 (show_tokens (fst (tokens b q)) ?t1)"
    using kprint_plain [OF assms(1) s1(2) assms(5,6), of "fst (tokens b q)" "snd (tokens b q)"] s1(3) by auto
  have e: "tokens c (lit ''<(07)>'') = ([], 7)" for c
    by (simp add: lit_def starts_escape_def escape_color_def hex_digit_def hex_value_def)
  have z: "0 \<notin> set (lit ''<(07)>'')" "8 \<notin> set (lit ''<(07)>'')" "37 \<notin> set (lit ''<(07)>'')" by (simp_all add: lit_def)
  obtain s3 where s3: "kprint bus (zlit ''<(07)>'') s2 = Some s3" "color s3 = 7"
    "screen reg rest s3 (show_tokens [] (show_tokens (fst (tokens b q)) ?t1))"
    using kprint_plain [OF assms(1) s2(2) z(1,2) e] by blast
  have "kvprintf bus fmt args s1 = kprint bus (q @ [0]) s1"
    using format_loop_render [OF assms(3), of "[]"] assms(4) by (simp add: kvprintf_def)
  then have "kdbg bus lvl fmt args s = Some s3"
    using s1(1) s2(1) s3(1) by (simp add: kdbg_def f(1) kprintf_literal f(2,3,5) z)
  then show ?thesis using s3(2,3) by (auto simp: show_tokens_def)
qed

theorem kdbg_prints_witness:
  "\<exists>s'. kdbg crt_bus 3 (zlit ''no'') [] boot_console = Some s' \<and> color s' = 7"
proof -
  have "render LongLong kprintf_text (zlit ''no'') [] = Some (lit ''no'')" by (simp add: lit_def)
  then show ?thesis
    using kdbg_prints [OF crt_bus_crtc boot_console_screen, of "zlit ''no''" "[]" "lit ''no''" 3]
    by (auto simp: kdbg_style_def lit_def)
qed

end
