(* ===== verification/Pci.thy ===== *)
theory Pci
  imports Numbers
begin

text \<open>
  The PCI bus (drivers/pci/pci.c), the report of USB controllers (drivers/usb/usb.c) and the detection
  of the display controller (drivers/video/videocard.c). The configuration space is behind the ports
  0xCF8 and 0xCFC (law \<open>config_ports\<close>); the registers of a graphics card are memory that no code of
  the repository describes, the parameters \<open>mm\<close> (reading) and \<open>mw\<close> (writing).
\<close>

section \<open>Configuration space\<close>

definition config_address :: "u8 \<Rightarrow> u8 \<Rightarrow> u8 \<Rightarrow> u8 \<Rightarrow> u32" where
  "config_address bus device function offset =
     push_bit 31 1 OR push_bit 16 (ucast bus) OR push_bit 11 (ucast device) OR push_bit 8 (ucast function)
       OR ucast (offset AND 0xFC)"

definition pci_config_read32 :: "'d bus \<Rightarrow> u8 \<Rightarrow> u8 \<Rightarrow> u8 \<Rightarrow> u8 \<Rightarrow> 'd \<Rightarrow> u32 \<times> 'd" where
  "pci_config_read32 io bus device function offset d =
     inl io 0xCFC (outl io 0xCF8 (config_address bus device function offset) d)"

definition pci_config_read16 :: "'d bus \<Rightarrow> u8 \<Rightarrow> u8 \<Rightarrow> u8 \<Rightarrow> u8 \<Rightarrow> 'd \<Rightarrow> u16 \<times> 'd" where
  "pci_config_read16 io bus device function offset d = (
     let (v, d) = pci_config_read32 io bus device function offset d
     in (ucast (drop_bit (unat ((offset AND 2) * 8)) v AND 0xFFFF), d))"

definition pci_config_read8 :: "'d bus \<Rightarrow> u8 \<Rightarrow> u8 \<Rightarrow> u8 \<Rightarrow> u8 \<Rightarrow> 'd \<Rightarrow> u8 \<times> 'd" where
  "pci_config_read8 io bus device function offset d = (
     let (v, d) = pci_config_read32 io bus device function offset d
     in (ucast (drop_bit (unat ((offset AND 3) * 8)) v AND 0xFF), d))"

text \<open>An access from a routine that also prints.\<close>

definition on_bus :: "('d \<Rightarrow> 'a \<times> 'd) \<Rightarrow> 'd console \<Rightarrow> 'a \<times> 'd console" where
  "on_bus f s = (let (v, d) = f (dev s) in (v, s\<lparr>dev := d\<rparr>))"

abbreviation num8 :: "u8 \<Rightarrow> varg" where
  "num8 v \<equiv> Num (ucast v)"

definition usb_init :: "'d bus \<Rightarrow> 'd console \<Rightarrow> 'd console option" where
  "usb_init io s = kdbg io 1 (lit ''USB subsystem initialized.'' @ [10, 0]) [] s"

definition usb_handle_pci_device :: "'d bus \<Rightarrow> u8 \<Rightarrow> u8 \<Rightarrow> u8 \<Rightarrow> u8 \<Rightarrow> u8 \<Rightarrow> u8 \<Rightarrow> u32 \<Rightarrow> 'd console \<Rightarrow> 'd console option" where
  "usb_handle_pci_device io bus device function class_code subclass prog_if bar0 s =
     (if class_code = 0x0C \<and> subclass = 0x03 then do {
        s \<leftarrow> kdbg io 1 (lit ''Found USB Host Controller: bus=%x device=%x function=%x (Class: %x, Subclass: %x, ProgIF: %x, BAR0: %x)''
          @ [10, 0]) [num8 bus, num8 device, num8 function, num8 class_code, num8 subclass, num8 prog_if, Num (ucast bar0)] s;
        kdbg io 1 (
          (if prog_if = 0x00 then lit ''  -> UHCI Controller''
           else if prog_if = 0x10 then lit ''  -> OHCI Controller''
           else if prog_if = 0x20 then lit ''  -> EHCI Controller''
           else if prog_if = 0x30 then lit ''  -> XHCI Controller''
           else lit ''  -> Unknown USB Controller'') @ [10, 0]) [] s }
      else Some s)"

definition pci_print_device :: "'d bus \<Rightarrow> u8 \<Rightarrow> u8 \<Rightarrow> u8 \<Rightarrow> 'd console \<Rightarrow> 'd console option" where
  "pci_print_device io bus device function s = (
     let (vendor_id, s) = on_bus (pci_config_read16 io bus device function 0x00) s
     in if vendor_id = 0xFFFF then Some s
     else do {
       let (device_id, s) = on_bus (pci_config_read16 io bus device function 0x02) s;
       let (class_code, s) = on_bus (pci_config_read8 io bus device function 0x0B) s;
       let (subclass, s) = on_bus (pci_config_read8 io bus device function 0x0A) s;
       let (prog_if, s) = on_bus (pci_config_read8 io bus device function 0x09) s;
       let (revision_id, s) = on_bus (pci_config_read8 io bus device function 0x08) s;
       s \<leftarrow> kdbg io 1 (lit ''pci: %04x:%04x bus=%04x func=%04x cl=%04x subcl=%04x'' @ [10, 0])
         [Num (ucast vendor_id), Num (ucast device_id), num8 bus, num8 function, num8 class_code, num8 subclass] s;
       if class_code = 0x0C \<and> subclass = 0x03 then do {
         let (bar0, s) = on_bus (pci_config_read32 io bus device function 0x10) s;
         s \<leftarrow> kdbg io 1 (lit ''  BAR0: 0x%x'' @ [10, 0]) [Num (ucast bar0)] s;
         usb_handle_pci_device io bus device function class_code subclass prog_if bar0 s }
       else Some s })"

definition pci_scan_function :: "'d bus \<Rightarrow> u8 \<Rightarrow> u8 \<Rightarrow> nat \<Rightarrow> 'd console \<Rightarrow> 'd console option" where
  "pci_scan_function io bus device function s = (
     let (vendor_id, s) = on_bus (pci_config_read16 io bus device (of_nat function) 0x00) s
     in if vendor_id = 0xFFFF then Some s else pci_print_device io bus device (of_nat function) s)"

definition pci_scan_device :: "'d bus \<Rightarrow> u8 \<Rightarrow> nat \<Rightarrow> 'd console \<Rightarrow> 'd console option" where
  "pci_scan_device io bus device s = (
     let (vendor_id, s) = on_bus (pci_config_read16 io bus (of_nat device) 0 0x00) s
     in if vendor_id = 0xFFFF then Some s
     else (
       let (header_type, s) = on_bus (pci_config_read8 io bus (of_nat device) 0 0x0E) s
       in if header_type AND 0x80 \<noteq> 0 then iter (pci_scan_function io bus (of_nat device)) [0..<8] s
          else pci_print_device io bus (of_nat device) 0 s))"

definition pci_init :: "'d bus \<Rightarrow> 'd console \<Rightarrow> 'd console option" where
  "pci_init io s = iter (\<lambda>bus. iter (pci_scan_device io (of_nat bus)) [0..<32]) [0..<2] s"

section \<open>The graphics card\<close>

type_synonym 'd mmio_read = "u64 \<Rightarrow> 'd \<Rightarrow> u32 \<times> 'd"

definition gpu_mmio_read32 :: "'d mmio_read \<Rightarrow> u64 \<Rightarrow> u32 \<Rightarrow> 'd \<Rightarrow> u32 \<times> 'd" where
  "gpu_mmio_read32 mm base offset d = mm (base + ucast offset) d"

definition gpu_mmio_write32 :: "(u64 \<Rightarrow> u32 \<Rightarrow> 'd \<Rightarrow> 'd) \<Rightarrow> u64 \<Rightarrow> u32 \<Rightarrow> u32 \<Rightarrow> 'd \<Rightarrow> 'd" where
  "gpu_mmio_write32 mw base offset v d = mw (base + ucast offset) v d"

record gpu_info =
  vendor_id :: u16
  device_id :: u16
  gpu_bus :: u8
  gpu_slot :: u8
  gpu_func :: u8
  mmio_base :: u64
  mmio_size :: u32
  gpu_name :: bytes

definition series_text :: "bytes \<Rightarrow> u32 \<Rightarrow> (u32 \<times> u32 \<times> string) list \<Rightarrow> bytes option" where
  "series_text series_name series_id known =
     (case find (\<lambda>(lo, hi, _). lo \<le> series_id \<and> series_id \<le> hi) known of
        Some (_, _, t) \<Rightarrow> strcpy series_name 0 (zlit t)
      | None \<Rightarrow> map_option (blit series_name 0) (snprintf 32 32 (zlit ''%04X'') [Num (ucast series_id)]))"

text \<open>The three name buffers of 32 bytes, from the identification and the registers read.\<close>

definition classify_gpu :: "u16 \<Rightarrow> u16 \<Rightarrow> u32 \<Rightarrow> u32 \<Rightarrow> u32 \<Rightarrow> u32 \<Rightarrow> u32 \<Rightarrow> u32 \<Rightarrow> u32 \<Rightarrow> u32 \<Rightarrow> (bytes \<times> bytes \<times> bytes) option" where
  "classify_gpu vendor device gpu_id1 gpu_id2 model_reg1 model_reg2 svga_reg1 svga_reg2 qemu_reg1 qemu_reg2 = (
     let vendor_name = lit ''Unknown'' @ replicate 25 0;
         model_name = lit ''GPU'' @ replicate 29 0;
         series_name = replicate 32 0;
         series_id = drop_bit 16 model_reg2 AND 0xFFFF;
         named = (\<lambda>v m f. do {
           vn \<leftarrow> strcpy vendor_name 0 (zlit v); mn \<leftarrow> strcpy model_name 0 (zlit m);
           sn \<leftarrow> f series_name; Some (vn, mn, sn) })
     in if vendor = 0x1234 \<and> device = 0x1111
        then named ''QEMU'' ''VGA'' (\<lambda>b. strcpy b 0 (zlit ''Bochs''))
        else if vendor = 0x15AD
        then named ''VMware'' ''SVGA'' (\<lambda>b. strcpy b 0 (zlit ''3D''))
        else if svga_reg1 = 0x90000000 \<or> svga_reg2 = 0x90000000
             \<or> svga_reg1 AND 0xFFFF0000 = 0x15AD0000 \<or> svga_reg2 AND 0xFFFF0000 = 0x15AD0000
        then named ''VMware'' ''SVGA'' (\<lambda>b. strcpy b 0 (zlit ''3D''))
        else if qemu_reg1 = 0x11111234 \<or> qemu_reg2 = 0x11111234
             \<or> gpu_id1 AND 0xFFFF = 0x1234 \<or> gpu_id2 AND 0xFFFF = 0x1111
             \<or> model_reg1 AND 0xFFFF = 0x1234 \<or> model_reg2 AND 0xFFFF = 0x1111
        then named ''QEMU'' ''VGA'' (\<lambda>b. strcpy b 0 (zlit ''Bochs''))
        else if gpu_id1 AND 0xFF000000 = 0x10000000 \<or> model_reg1 AND 0xFF000000 = 0x10000000
        then named ''NVIDIA'' ''GeForce'' (\<lambda>b. series_text b series_id
          [(0x2000, 0x2FFF, ''RTX 4000''), (0x3000, 0x3FFF, ''RTX 3000''), (0x4000, 0x4FFF, ''GTX 1600''), (0x5000, 0x5FFF, ''GTX 1000'')])
        else if gpu_id1 AND 0xFF000000 = 0x20000000 \<or> model_reg1 AND 0xFF000000 = 0x20000000
        then named ''AMD'' ''Radeon'' (\<lambda>b. series_text b series_id [(0x6000, 0x6FFF, ''RX 6000''), (0x5000, 0x5FFF, ''RX 5000'')])
        else if gpu_id1 AND 0xFF000000 = 0x30000000 \<or> model_reg1 AND 0xFF000000 = 0x30000000
        then named ''Intel'' ''Graphics'' (\<lambda>b. series_text b series_id [(0x4000, 0x4FFF, ''Arc A''), (0x3000, 0x3FFF, ''UHD'')])
        else Some (vendor_name, model_name, series_name))"

definition get_gpu_name_from_registers :: "'d mmio_read \<Rightarrow> u64 \<Rightarrow> u16 \<Rightarrow> u16 \<Rightarrow> nat \<Rightarrow> 'd \<Rightarrow> (bytes \<times> 'd) option" where
  "get_gpu_name_from_registers mm base vendor device name_size d = (
     let rd32 = gpu_mmio_read32 mm base;
         (gpu_id1, d) = rd32 0x0000 d; (gpu_id2, d) = rd32 0x0004 d; (gpu_id3, d) = rd32 0x0008 d; (gpu_id4, d) = rd32 0x000C d;
         (model_reg1, d) = rd32 0x1000 d; (model_reg2, d) = rd32 0x1004 d;
         (model_reg3, d) = rd32 0x1008 d; (model_reg4, d) = rd32 0x100C d;
         (version_reg, d) = rd32 0x2000 d; (revision_reg, d) = rd32 0x2004 d;
         (mem_reg1, d) = rd32 0x3000 d; (mem_reg2, d) = rd32 0x3004 d;
         (config_reg1, d) = rd32 0x4000 d; (config_reg2, d) = rd32 0x4004 d;
         (svga_reg1, d) = rd32 0x0000 d; (svga_reg2, d) = rd32 0x0004 d; (svga_reg3, d) = rd32 0x0008 d;
         (qemu_reg1, d) = rd32 0x3C0 d; (qemu_reg2, d) = rd32 0x3C4 d; (qemu_reg3, d) = rd32 0x3C8 d
     in do {
       (vendor_name, model_name, series_name) \<leftarrow>
         classify_gpu vendor device gpu_id1 gpu_id2 model_reg1 model_reg2 svga_reg1 svga_reg2 qemu_reg1 qemu_reg2;
       l \<leftarrow> strlen series_name;
       name \<leftarrow> (if 0 < l
         then snprintf 64 name_size (zlit ''%s %s %s'') [Str vendor_name, Str model_name, Str series_name]
         else snprintf 64 name_size (zlit ''%s %s %08X'') [Str vendor_name, Str model_name, Num (ucast gpu_id2)]);
       Some (name, d) })"

text \<open>One function of one slot: the information, or nothing when it is no display controller.\<close>

definition gpu_probe :: "'d bus \<Rightarrow> 'd mmio_read \<Rightarrow> u8 \<Rightarrow> u8 \<Rightarrow> u8 \<Rightarrow> 'd \<Rightarrow> (gpu_info option \<times> 'd) option" where
  "gpu_probe io mm bus slot func d = (
     let (vendor, d) = pci_config_read16 io bus slot func 0x00 d
     in if vendor = 0xFFFF then Some (None, d)
     else (
       let (device, d) = pci_config_read16 io bus slot func 0x02 d;
           (class_code, d) = pci_config_read8 io bus slot func 0x0B d;
           (subclass, d) = pci_config_read8 io bus slot func 0x0A d
       in if class_code = 0x03 then (
         let (bar0_low, d) = pci_config_read32 io bus slot func 0x10 d;
             base0 = (ucast (bar0_low AND NOT 0xF) :: u64);
             (bar1, d) = pci_config_read32 io bus slot func 0x14 d;
             base = (if bar0_low AND 0x6 = 0x4 then base0 OR push_bit 32 (ucast bar1) else base0)
         in do {
           (name, d) \<leftarrow> get_gpu_name_from_registers mm base vendor device 64 d;
           Some (Some \<lparr>vendor_id = vendor, device_id = device, gpu_bus = bus, gpu_slot = slot, gpu_func = func,
             mmio_base = base, mmio_size = 0, gpu_name = blit (replicate 64 0) 0 name\<rparr>, d) })
       else Some (None, d)))"

fun gpu_scan :: "'d bus \<Rightarrow> 'd mmio_read \<Rightarrow> u8 \<Rightarrow> (u8 \<times> u8) list \<Rightarrow> 'd \<Rightarrow> (gpu_info option \<times> 'd) option" where
  "gpu_scan io mm bus [] d = Some (None, d)"
| "gpu_scan io mm bus ((slot, func) # places) d = do {
     (r, d) \<leftarrow> gpu_probe io mm bus slot func d;
     case r of Some g \<Rightarrow> Some (Some g, d) | None \<Rightarrow> gpu_scan io mm bus places d }"

definition places :: "(u8 \<times> u8) list" where
  "places = concat (map (\<lambda>slot. map (\<lambda>func. (of_nat slot, of_nat func)) [0..<8]) [0..<32])"

text \<open>The counter \<open>bus\<close> is a \<open>uint8_t\<close>, which is always below 256.\<close>

partial_function (option) gpu_loop :: "'d bus \<Rightarrow> 'd mmio_read \<Rightarrow> u8 \<Rightarrow> 'd \<Rightarrow> (i32 \<times> gpu_info option \<times> 'd) option" where
  "gpu_loop io mm bus d =
     (if unat bus < 256 then do {
        (r, d) \<leftarrow> gpu_scan io mm bus places d;
        case r of Some g \<Rightarrow> Some (0, Some g, d) | None \<Rightarrow> gpu_loop io mm (bus + 1) d }
      else Some (- 1, None, d))"

definition gpu_init :: "'d bus \<Rightarrow> 'd mmio_read \<Rightarrow> 'd \<Rightarrow> (i32 \<times> gpu_info option \<times> 'd) option" where
  "gpu_init io mm d = gpu_loop io mm 0 d"

definition gpu_print_info :: "'d bus \<Rightarrow> gpu_info \<Rightarrow> 'd console \<Rightarrow> 'd console option" where
  "gpu_print_info io g s = kdbg io 1 (lit ''found gpu: %s, mmio: 0x016x'' @ [10, 0]) [Str (gpu_name g), Num (mmio_base g)] s"

section \<open>The mechanism behind the ports\<close>

text \<open>Port 0xCF8 selects an address of the configuration space \<open>cfg\<close>, port 0xCFC reads it.\<close>

definition config_ports :: "'d bus \<Rightarrow> ('d \<Rightarrow> u32) \<Rightarrow> (u32 \<Rightarrow> u32) \<Rightarrow> bool" where
  "config_ports io addr cfg \<longleftrightarrow>
     (\<forall>d a. addr (port_outl io 0xCF8 a d) = a) \<and> (\<forall>d. fst (port_inl io 0xCFC d) = cfg (addr d))"

definition cfg16 :: "(u32 \<Rightarrow> u32) \<Rightarrow> u8 \<Rightarrow> u8 \<Rightarrow> u8 \<Rightarrow> u8 \<Rightarrow> u16" where
  "cfg16 cfg b s f offset = ucast (drop_bit (unat ((offset AND 2) * 8)) (cfg (config_address b s f offset)) AND 0xFFFF)"

definition cfg8 :: "(u32 \<Rightarrow> u32) \<Rightarrow> u8 \<Rightarrow> u8 \<Rightarrow> u8 \<Rightarrow> u8 \<Rightarrow> u8" where
  "cfg8 cfg b s f offset = ucast (drop_bit (unat ((offset AND 3) * 8)) (cfg (config_address b s f offset)) AND 0xFF)"

text \<open>A display controller: a function that exists and has class 3.\<close>

definition display :: "(u32 \<Rightarrow> u32) \<Rightarrow> u8 \<Rightarrow> u8 \<times> u8 \<Rightarrow> bool" where
  "display cfg b p \<longleftrightarrow> cfg16 cfg b (fst p) (snd p) 0 \<noteq> 0xFFFF \<and> cfg8 cfg b (fst p) (snd p) 0x0B = 3"

lemma config_read:
  assumes "config_ports io addr cfg"
  shows "\<exists>e. pci_config_read32 io b s f offset d = (cfg (config_address b s f offset), e)"
    and "\<exists>e. pci_config_read16 io b s f offset d = (cfg16 cfg b s f offset, e)"
    and "\<exists>e. pci_config_read8 io b s f offset d = (cfg8 cfg b s f offset, e)"
proof -
  have a: "addr (outl io 0xCF8 a d) = a" "fst (inl io 0xCFC d) = cfg (addr d)" for a d
    using assms by (simp_all add: config_ports_def outl_def inl_def)
  show r: "\<exists>e. pci_config_read32 io b s f offset d = (cfg (config_address b s f offset), e)"
    using a(2) [of "outl io 0xCF8 (config_address b s f offset) d"] a(1)
    unfolding pci_config_read32_def by (metis prod.collapse)
  then obtain e where e: "pci_config_read32 io b s f offset d = (cfg (config_address b s f offset), e)" by blast
  show "\<exists>e. pci_config_read16 io b s f offset d = (cfg16 cfg b s f offset, e)"
    unfolding pci_config_read16_def e cfg16_def by simp
  show "\<exists>e. pci_config_read8 io b s f offset d = (cfg8 cfg b s f offset, e)"
    unfolding pci_config_read8_def e cfg8_def by simp
qed

section \<open>The name always fits\<close>

lemma snprintf_fits:
  assumes "0 < sz" and "sz \<le> cap" and "render NoMods snprintf_text fmt args = Some r"
  shows "snprintf cap sz fmt args = Some (take (sz - 1) r @ [0])"
  using snprintf_loop_render [OF assms(2,3), of "[]"] assms(1,2) by (simp add: snprintf_def room_def)

definition name_buf :: "bytes \<Rightarrow> bool" where
  "name_buf b \<longleftrightarrow> length b = 32 \<and> terminated b"

lemma strcpy_name:
  assumes "length b = 32" and "0 \<notin> set t" and "length t < 32"
  shows "\<exists>c. strcpy b 0 (t @ [0]) = Some c \<and> name_buf c \<and> cstr c = t"
proof -
  have "strcpy b 0 (t @ [0]) = Some (blit b 0 (t @ [0]))"
    using strcpy_blit [of "t @ [0]" 0 b] assms by simp
  then show ?thesis using assms by (simp add: name_buf_def blit_def)
qed

lemma lit_no_zero: "list_all (\<lambda>c. of_char c \<noteq> (0 :: u8)) t \<Longrightarrow> 0 \<notin> set (lit t)"
  by (auto simp: lit_def list_all_iff)

lemma series_text_ok:
  assumes "length b = 32" and "\<forall>(lo, hi, t) \<in> set known. 0 \<notin> set (lit t) \<and> length t < 32"
  shows "\<exists>c. series_text b sid known = Some c \<and> name_buf c"
proof (cases "find (\<lambda>(lo, hi, _). lo \<le> sid \<and> sid \<le> hi) known")
  case None
  have "\<exists>r. render NoMods snprintf_text (zlit ''%04X'') [Num (ucast sid)] = Some r"
    by (simp add: lit_def parse_flags_def parse_len_def snprintf_text_def Let_def)
  then obtain r where "snprintf 32 32 (zlit ''%04X'') [Num (ucast sid)] = Some (take 31 r @ [0])"
    using snprintf_fits [of 32 32] by auto
  then show ?thesis using None assms(1) by (simp add: series_text_def name_buf_def blit_def)
next
  case (Some x)
  obtain lo hi t where x: "x = (lo, hi, t)" by (cases x)
  have "x \<in> set known" using Some by (auto simp: find_Some_iff in_set_conv_nth)
  then have "0 \<notin> set (lit t)" "length (lit t) < 32" using assms(2) x by auto
  then show ?thesis using strcpy_name [OF assms(1), of "lit t"] Some x by (auto simp: series_text_def)
qed

definition names_ok :: "(bytes \<times> bytes \<times> bytes) option \<Rightarrow> bool" where
  "names_ok x \<longleftrightarrow> (\<exists>v m n. x = Some (v, m, n) \<and> name_buf v \<and> name_buf m \<and> name_buf n)"

lemma names_ok_if: "names_ok x \<Longrightarrow> names_ok y \<Longrightarrow> names_ok (if c then x else y)"
  by simp

lemma classify_ok: "names_ok (classify_gpu vendor device i1 i2 m1 m2 s1 s2 q1 q2)"
proof -
  let ?v = "lit ''Unknown'' @ replicate 25 0" and ?m = "lit ''GPU'' @ replicate 29 0" and ?s = "replicate 32 0 :: bytes"
  have len: "length ?v = 32" "length ?m = 32" "length ?s = 32" by simp_all
  have bufs: "name_buf ?v" "name_buf ?m" "name_buf ?s" by (simp_all add: name_buf_def lit_def terminated_def)
  have named: "names_ok (do { vn \<leftarrow> strcpy ?v 0 (zlit a); mn \<leftarrow> strcpy ?m 0 (zlit b); sn \<leftarrow> f ?s; Some (vn, mn, sn) })"
    if prems: "0 \<notin> set (lit a)" "0 \<notin> set (lit b)" "length a < 32" "length b < 32" "\<exists>c. f ?s = Some c \<and> name_buf c" for a b f
  proof -
    obtain c where c: "f ?s = Some c" "name_buf c" using prems(5) by blast
    obtain vn mn where "strcpy ?v 0 (zlit a) = Some vn" "name_buf vn" "strcpy ?m 0 (zlit b) = Some mn" "name_buf mn"
      using strcpy_name [OF len(1), of "lit a"] strcpy_name [OF len(2), of "lit b"] prems(1-4) by auto
    with c show ?thesis by (simp add: names_ok_def)
  qed
  have fix_name: "\<exists>c. strcpy ?s 0 (zlit t) = Some c \<and> name_buf c" if "0 \<notin> set (lit t)" "length t < 32" for t
    using strcpy_name [OF len(3), of "lit t"] that by auto
  have nz: "0 \<notin> set (lit t)" if "t \<in> {''QEMU'', ''VGA'', ''Bochs'', ''VMware'', ''SVGA'', ''3D'', ''NVIDIA'', ''GeForce'', ''AMD'',
      ''Radeon'', ''Intel'', ''Graphics'', ''RTX 4000'', ''RTX 3000'', ''GTX 1600'', ''GTX 1000'', ''RX 6000'', ''RX 5000'', ''Arc A'', ''UHD''}" for t
    using that by (auto simp: lit_def)
  show ?thesis
    unfolding classify_gpu_def Let_def
    by (intro names_ok_if named fix_name series_text_ok)
      (simp_all add: nz names_ok_def bufs)
qed

lemma gpu_name_ok:
  "\<exists>name e. get_gpu_name_from_registers mm base vendor device 64 d = Some (name, e) \<and> length name \<le> 64 \<and> terminated name"
proof -
  have fits: "\<exists>name. snprintf 64 64 fmt args = Some name \<and> length name \<le> 64 \<and> terminated name"
    if "render NoMods snprintf_text fmt args = Some r" for fmt args r
    using snprintf_fits [OF _ _ that, of 64 64] by (simp add: min_def)
  have three: "\<exists>r. render NoMods snprintf_text (zlit ''%s %s %s'') [Str v, Str m, Str n] = Some r"
    if "terminated v" "terminated m" "terminated n" for v m n
    using that by (simp add: lit_def parse_flags_def parse_len_def snprintf_text_def Let_def)
  have two: "\<exists>r. render NoMods snprintf_text (zlit ''%s %s %08X'') [Str v, Str m, Num x] = Some r"
    if "terminated v" "terminated m" for v m x
    using that by (simp add: lit_def parse_flags_def parse_len_def snprintf_text_def Let_def)
  have pick: "\<exists>name e'. (do { (vn, mn, sn) \<leftarrow> c; l \<leftarrow> strlen sn;
        name \<leftarrow> (if 0 < l then snprintf 64 64 (zlit ''%s %s %s'') [Str vn, Str mn, Str sn]
          else snprintf 64 64 (zlit ''%s %s %08X'') [Str vn, Str mn, Num x]);
        Some (name, e) }) = Some (name, e') \<and> length name \<le> 64 \<and> terminated name"
    if c: "names_ok c" for c x and e :: 'a
  proof -
    obtain v m n where n: "c = Some (v, m, n)" "terminated v" "terminated m" "terminated n"
      using c by (auto simp: names_ok_def name_buf_def)
    obtain r1 r2 where "render NoMods snprintf_text (zlit ''%s %s %s'') [Str v, Str m, Str n] = Some r1"
      "render NoMods snprintf_text (zlit ''%s %s %08X'') [Str v, Str m, Num x] = Some r2"
      using three two n(2-4) by blast
    with fits obtain n1 n2 where "snprintf 64 64 (zlit ''%s %s %s'') [Str v, Str m, Str n] = Some n1" "length n1 \<le> 64" "terminated n1"
      "snprintf 64 64 (zlit ''%s %s %08X'') [Str v, Str m, Num x] = Some n2" "length n2 \<le> 64" "terminated n2" by blast
    then show ?thesis using n strlen_cstr [OF n(4)] by simp
  qed
  show ?thesis
    unfolding get_gpu_name_from_registers_def Let_def
    by ((split prod.split, intro allI impI)+, rule pick [OF classify_ok])
qed

definition describes :: "(u32 \<Rightarrow> u32) \<Rightarrow> u8 \<Rightarrow> u8 \<times> u8 \<Rightarrow> gpu_info \<Rightarrow> bool" where
  "describes cfg b p g \<longleftrightarrow> vendor_id g = cfg16 cfg b (fst p) (snd p) 0 \<and> device_id g = cfg16 cfg b (fst p) (snd p) 2
     \<and> gpu_bus g = b \<and> gpu_slot g = fst p \<and> gpu_func g = snd p \<and> mmio_base g AND 0xF = 0
     \<and> length (gpu_name g) = 64 \<and> terminated (gpu_name g)"

lemma gpu_probe_display:
  assumes "config_ports io addr cfg"
  shows "if display cfg b (s, f) then \<exists>g e. gpu_probe io mm b s f d = Some (Some g, e) \<and> describes cfg b (s, f) g
    else \<exists>e. gpu_probe io mm b s f d = Some (None, e)"
proof (cases "cfg16 cfg b s f 0 = 0xFFFF")
  case True
  then show ?thesis using config_read(2) [OF assms, of b s f 0 d] by (auto simp: gpu_probe_def display_def)
next
  case False
  obtain d1 where d1: "pci_config_read16 io b s f 0 d = (cfg16 cfg b s f 0, d1)" using config_read(2) [OF assms] by blast
  obtain d2 where d2: "pci_config_read16 io b s f 2 d1 = (cfg16 cfg b s f 2, d2)" using config_read(2) [OF assms] by blast
  obtain d3 where d3: "pci_config_read8 io b s f 0x0B d2 = (cfg8 cfg b s f 0x0B, d3)" using config_read(3) [OF assms] by blast
  obtain d4 where d4: "pci_config_read8 io b s f 0x0A d3 = (cfg8 cfg b s f 0x0A, d4)" using config_read(3) [OF assms] by blast
  obtain low d5 where d5: "pci_config_read32 io b s f 0x10 d4 = (low, d5)" by fastforce
  obtain high d6 where d6: "pci_config_read32 io b s f 0x14 d5 = (high, d6)" by fastforce
  let ?base = "if low AND 0x6 = 0x4 then ucast (low AND NOT 0xF) OR push_bit 32 (ucast high) else ucast (low AND NOT 0xF) :: u64"
  have aligned: "?base AND 0xF = 0"
    by (rule bit_word_eqI) (auto simp: bit_simps low_masks)
  obtain name e where name: "get_gpu_name_from_registers mm ?base (cfg16 cfg b s f 0) (cfg16 cfg b s f 2) 64 d6 = Some (name, e)"
    "length name \<le> 64" "terminated name"
    using gpu_name_ok [of mm ?base "cfg16 cfg b s f 0" "cfg16 cfg b s f 2" d6] by blast
  have probe: "gpu_probe io mm b s f d = (if cfg8 cfg b s f 0x0B = 3
      then Some (Some \<lparr>vendor_id = cfg16 cfg b s f 0, device_id = cfg16 cfg b s f 2, gpu_bus = b, gpu_slot = s, gpu_func = f,
        mmio_base = ?base, mmio_size = 0, gpu_name = blit (replicate 64 0) 0 name\<rparr>, e)
      else Some (None, d4))"
    unfolding gpu_probe_def d1 prod.case Let_def d2 d3 d4 d5 d6 name(1) using False by simp
  have "terminated (blit (replicate 64 0) 0 name)" using name(3) by (simp add: blit_def)
  then show ?thesis
    using probe False aligned name(2) by (simp add: display_def describes_def)
qed

lemma gpu_scan_first:
  assumes "config_ports io addr cfg"
  shows "case find (display cfg b) ps of
      None \<Rightarrow> \<exists>e. gpu_scan io mm b ps d = Some (None, e)
    | Some p \<Rightarrow> \<exists>g e. gpu_scan io mm b ps d = Some (Some g, e) \<and> describes cfg b p g"
proof (induction ps arbitrary: d)
  case (Cons p ps)
  obtain s f where p: "p = (s, f)" by fastforce
  show ?case
  proof (cases "display cfg b p")
    case True
    then show ?thesis using gpu_probe_display [OF assms, of b s f mm d] p by auto
  next
    case False
    then obtain e where "gpu_probe io mm b s f d = Some (None, e)"
      using gpu_probe_display [OF assms, of b s f mm d] p by auto
    then have scan: "gpu_scan io mm b (p # ps) d = gpu_scan io mm b ps e" by (simp add: p)
    show ?thesis unfolding scan using Cons [of e] False by simp
  qed
qed simp

lemma unat_lt_256: "unat (b :: u8) < 256"
  using unsigned_less [of b] by simp

lemma gpu_loop_forever:
  assumes "gpu_loop io mm b d = Some r"
  shows "\<not> (config_ports io addr cfg \<and> (\<forall>b. find (display cfg b) places = None))"
proof (rule gpu_loop.raw_induct [OF _ assms, where
    P = "\<lambda>io mm b d r. \<not> (config_ports io addr cfg \<and> (\<forall>b. find (display cfg b) places = None))"], goal_cases)
  case (1 loop io mm b d r)
  show ?case
  proof
    assume a: "config_ports io addr cfg \<and> (\<forall>b. find (display cfg b) places = None)"
    then have io: "config_ports io addr cfg" and f: "find (display cfg b) places = None" by blast+
    obtain e where e: "gpu_scan io mm b places d = Some (None, e)"
      using gpu_scan_first [OF io, where b = b and ps = places and mm = mm and d = d] unfolding f by auto
    have "loop io mm (b + 1) e = Some r" using 1(2) unat_lt_256 [of b] e by simp
    then show False using 1(1) a by blast
  qed
qed

lemma gpu_loop_finds:
  assumes "config_ports io addr cfg" and "find (display cfg (of_nat n)) places = Some p"
    and "\<And>k. k < n \<Longrightarrow> find (display cfg (of_nat k)) places = None" and "k \<le> n"
  shows "\<exists>g e. gpu_loop io mm (of_nat k) d = Some (0, Some g, e) \<and> describes cfg (of_nat n) p g"
  using assms(4)
proof (induction "n - k" arbitrary: k d)
  case 0
  then show ?case
    using gpu_scan_first [OF assms(1), where b = "of_nat k" and ps = places and mm = mm and d = d] assms(2) unat_lt_256 [of "of_nat k"]
    by (subst gpu_loop.simps) auto
next
  case (Suc i)
  then obtain e where e: "gpu_scan io mm (of_nat k) places d = Some (None, e)"
    using gpu_scan_first [OF assms(1), where b = "of_nat k" and ps = places and mm = mm and d = d] assms(3) [of k] by auto
  have "i = n - Suc k" "Suc k \<le> n" using Suc.hyps(2) by simp_all
  from Suc.hyps(1) [OF this] obtain g f
    where "gpu_loop io mm (of_nat (Suc k)) e = Some (0, Some g, f)" "describes cfg (of_nat n) p g" by blast
  then show ?case
    using e unat_lt_256 [of "of_nat k"] by (subst gpu_loop.simps) (simp add: add.commute)
qed

section \<open>Properties\<close>

text \<open>
  The typed readers agree with the doubleword they are cut from: at an aligned offset the two
  halves and the four bytes are those of the doubleword, least significant first. The functions of
  the bus are apart: the address holds the bus, the device, the function and the register number.
\<close>

theorem config_fields:
  assumes "config_ports io addr cfg" and "offset AND 3 = 0"
    and "pci_config_read32 io b s f offset d = (v, d0)"
  shows "fst (pci_config_read16 io b s f offset e) = ucast v"
    and "fst (pci_config_read16 io b s f (offset OR 2) e) = ucast (drop_bit 16 v)"
    and "map (\<lambda>i. fst (pci_config_read8 io b s f (offset OR i) e)) [0, 1, 2, 3]
      = [ucast v, ucast (drop_bit 8 v), ucast (drop_bit 16 v), ucast (drop_bit 24 v)]"
    and "s < 32 \<Longrightarrow> f < 8 \<Longrightarrow> ucast (drop_bit 16 (config_address b s f offset)) = b
      \<and> ucast (drop_bit 11 (config_address b s f offset)) AND 31 = s
      \<and> ucast (drop_bit 8 (config_address b s f offset)) AND 7 = f
      \<and> ucast (config_address b s f offset) = offset"
proof -
  have v: "v = cfg (config_address b s f offset)" using config_read(1) [OF assms(1), of b s f offset d] assms(3) by auto
  have low: "(offset OR w) AND m = (offset AND m) OR (w AND m)" for w m by (rule bit.conj_disj_distrib2)
  have "(3 AND 2 :: u8) = 2" by simp
  then have two: "offset AND 2 = 0" using assms(2) and.assoc [of offset 3 2] by simp
  have "offset AND (0xFC OR 3) = (offset AND 0xFC) OR (offset AND 3)" by (rule bit.conj_disj_distrib)
  moreover have "(0xFC OR 3 :: u8) = - 1" by simp
  ultimately have al: "offset AND 0xFC = offset" unfolding assms(2) by (metis and.right_neutral or.right_neutral)
  have at: "config_address b s f (offset OR w) = config_address b s f offset" if "w AND 0xFC = 0" for w
    unfolding config_address_def low that by simp
  have r16: "fst (pci_config_read16 io b s f o1 e) = cfg16 cfg b s f o1" for o1
    using config_read(2) [OF assms(1), of b s f o1 e] by auto
  have r8: "fst (pci_config_read8 io b s f o1 e) = cfg8 cfg b s f o1" for o1
    using config_read(3) [OF assms(1), of b s f o1 e] by auto
  have cut16: "ucast (w AND 0xFFFF) = (ucast w :: u16)" for w :: u32
    by (rule bit_word_eqI) (auto simp: bit_simps low_masks)
  have cut8: "ucast (w AND 0xFF) = (ucast w :: u8)" for w :: u32
    by (rule bit_word_eqI) (auto simp: bit_simps low_masks)
  show "fst (pci_config_read16 io b s f offset e) = ucast v"
    unfolding r16 cfg16_def two cut16 v by simp
  show "fst (pci_config_read16 io b s f (offset OR 2) e) = ucast (drop_bit 16 v)"
    using at [of 2] unfolding r16 cfg16_def low two cut16 v by simp
  have "cfg8 cfg b s f (offset OR w) = ucast (drop_bit (unat ((w AND 3) * 8)) v)" if "w AND 0xFC = 0" for w
    unfolding cfg8_def low assms(2) cut8 v at [OF that] by simp
  from this [of 0] this [of 1] this [of 2] this [of 3]
  show "map (\<lambda>i. fst (pci_config_read8 io b s f (offset OR i) e)) [0, 1, 2, 3]
      = [ucast v, ucast (drop_bit 8 v), ucast (drop_bit 16 v), ucast (drop_bit 24 v)]"
    unfolding r8 by simp
  assume "s < 32" "f < 8"
  then have sf: "take_bit 5 s = s" "take_bit 3 f = f" by (simp_all add: word_unat_eq_iff unsigned_take_bit_eq take_bit_nat_eq_self_iff word_less_nat_alt)
  have m: "w AND 31 = take_bit 5 w" "w AND 7 = take_bit 3 w" for w :: u8
    by (simp_all add: take_bit_eq_mask mask_eq_exp_minus_1)
  obtain x where x: "x = (1 :: u32)" by blast
  let ?a = "push_bit 31 x OR push_bit 16 (ucast b) OR push_bit 11 (ucast (take_bit 5 s)) OR push_bit 8 (ucast (take_bit 3 f))
    OR ucast offset :: u32"
  have a: "config_address b s f offset = ?a" unfolding config_address_def al sf x ..
  have "ucast (drop_bit 16 ?a) = b"
    by (rule bit_word_eqI) (auto simp: bit_simps dest: bit_imp_le_length)
  moreover have "take_bit 5 (ucast (drop_bit 11 ?a)) = take_bit 5 s"
    by (rule bit_word_eqI) (auto simp: bit_simps dest: bit_imp_le_length)
  moreover have "take_bit 3 (ucast (drop_bit 8 ?a)) = take_bit 3 f"
    by (rule bit_word_eqI) (auto simp: bit_simps dest: bit_imp_le_length)
  moreover have "ucast ?a = offset"
    by (rule bit_word_eqI) (auto simp: bit_simps)
  ultimately show "ucast (drop_bit 16 (config_address b s f offset)) = b
      \<and> ucast (drop_bit 11 (config_address b s f offset)) AND 31 = s
      \<and> ucast (drop_bit 8 (config_address b s f offset)) AND 7 = f
      \<and> ucast (config_address b s f offset) = offset"
    unfolding a m using sf by simp
qed

text \<open>A bus whose configuration space has, in slot 1, function 1 of bus 0, one display controller.\<close>

definition demo_cfg :: "u32 \<Rightarrow> u32" where
  "demo_cfg a = (if a = config_address 0 1 1 0 then 0x11111234 else if a = config_address 0 1 1 8 then 0x03000000 else 0xFFFFFFFF)"

definition config_bus :: "(u32 \<Rightarrow> u32) \<Rightarrow> u32 bus" where
  "config_bus cfg = \<lparr>port_outb = (\<lambda>_ _ a. a), port_inb = (\<lambda>_ a. (0, a)), port_outw = (\<lambda>_ _ a. a), port_inw = (\<lambda>_ a. (0, a)),
     port_outl = (\<lambda>p v a. if p = 0xCF8 then v else a), port_inl = (\<lambda>p a. (if p = 0xCFC then cfg a else 0, a))\<rparr>"

lemma config_bus_ports: "config_ports (config_bus cfg) (\<lambda>a. a) cfg"
  by (simp add: config_ports_def config_bus_def)

theorem config_fields_witness:
  "fst (pci_config_read16 (config_bus demo_cfg) 0 1 1 (0 OR 2) 5) = 0x1111"
  by (subst config_fields(2) [OF config_bus_ports [of demo_cfg], where d = 0 and v = "0x11111234" and ?d0.0 = "config_address 0 1 1 0"])
    (simp_all add: pci_config_read32_def config_bus_def outl_def inl_def demo_cfg_def)

text \<open>
  C37. \<open>gpu_init\<close> returns exactly when the bus has a display controller: it returns 0 and describes the
  first one in the order of buses, slots and functions, with a terminated name inside its 64 bytes.
  Without one it never returns: the counter of the buses is a \<open>uint8_t\<close>, always below 256.
\<close>

theorem gpu_init_first:
  assumes "config_ports io addr cfg"
  shows "(gpu_init io mm d = None \<longleftrightarrow> (\<forall>b. \<forall>p \<in> set places. \<not> display cfg b p))
    \<and> (find (display cfg (of_nat n)) places = Some p \<and> (\<forall>k < n. \<forall>q \<in> set places. \<not> display cfg (of_nat k) q) \<longrightarrow>
      (\<exists>g e. gpu_init io mm d = Some (0, Some g, e) \<and> describes cfg (of_nat n) p g))"
proof (intro conjI)
  have none: "find (display cfg b) places = None \<longleftrightarrow> (\<forall>p \<in> set places. \<not> display cfg b p)" for b
    by (auto simp: find_None_iff)
  have first: "\<exists>g e. gpu_init io mm d = Some (0, Some g, e) \<and> describes cfg (of_nat n) p g"
    if "find (display cfg (of_nat n)) places = Some p" "\<forall>k < n. \<forall>q \<in> set places. \<not> display cfg (of_nat k) q" for n p
    using gpu_loop_finds [OF assms that(1), of 0 mm d] that(2) none by (auto simp: gpu_init_def)
  then show "find (display cfg (of_nat n)) places = Some p \<and> (\<forall>k < n. \<forall>q \<in> set places. \<not> display cfg (of_nat k) q) \<longrightarrow>
      (\<exists>g e. gpu_init io mm d = Some (0, Some g, e) \<and> describes cfg (of_nat n) p g)" by blast
  show "gpu_init io mm d = None \<longleftrightarrow> (\<forall>b. \<forall>p \<in> set places. \<not> display cfg b p)"
  proof
    assume "\<forall>b. \<forall>p \<in> set places. \<not> display cfg b p"
    then show "gpu_init io mm d = None"
      using gpu_loop_forever [of io mm 0 d _ addr cfg] assms none by (cases "gpu_loop io mm 0 d") (auto simp: gpu_init_def)
  next
    assume a: "gpu_init io mm d = None"
    show "\<forall>b. \<forall>p \<in> set places. \<not> display cfg b p"
    proof (rule ccontr)
      assume "\<not> (\<forall>b. \<forall>p \<in> set places. \<not> display cfg b p)"
      then obtain b where "find (display cfg b) places \<noteq> None" using none by blast
      then have b: "find (display cfg (of_nat (unat b))) places \<noteq> None" by simp
      define n where "n = (LEAST n. find (display cfg (of_nat n)) places \<noteq> None)"
      have n: "find (display cfg (of_nat n)) places \<noteq> None" unfolding n_def
        by (rule LeastI [of "\<lambda>n. find (display cfg (of_nat n)) places \<noteq> None", OF b])
      then obtain p where p: "find (display cfg (of_nat n)) places = Some p" by blast
      have "find (display cfg (of_nat k)) places = None" if "k < n" for k
        using not_less_Least [OF that [unfolded n_def]] by blast
      then have "\<forall>k < n. \<forall>q \<in> set places. \<not> display cfg (of_nat k) q" using none by blast
      then show False using first [OF p] a by auto
    qed
  qed
qed

theorem gpu_init_first_witness:
  "gpu_init (config_bus (\<lambda>_. 0xFFFFFFFF)) (\<lambda>_ d. (0, d)) 0 = None"
  using gpu_init_first [OF config_bus_ports [of "\<lambda>_. 0xFFFFFFFF"], of "\<lambda>_ d. (0, d)" 0]
  by (simp add: display_def cfg16_def)

end
