(* ===== verification/Tasks.thy ===== *)
theory Tasks
  imports Numbers Thread
begin

text \<open>
  The kernel's background threads, kernel/tasks/gui.c: the clock, the display of the time and the
  status bar with the processor usage. Each endless loop is given by its body; a run is an iteration
  of it. \<open>timer_ticks\<close>, declared there with 64 bits, is read as the 32-bit counter it is.
\<close>

section \<open>The clock\<close>

record wall_clock =
  sys_seconds :: u64
  sys_minutes :: u64
  sys_hours :: u64

definition calc_time_step :: "wall_clock \<Rightarrow> wall_clock" where
  "calc_time_step c = (
     let c = c\<lparr>sys_seconds := sys_seconds c + 1\<rparr>;
         c = (if sys_seconds c = 60 then c\<lparr>sys_seconds := 0, sys_minutes := sys_minutes c + 1\<rparr> else c);
         c = (if sys_minutes c = 60 then c\<lparr>sys_minutes := 0, sys_hours := sys_hours c + 1\<rparr> else c)
     in if sys_hours c = 24 then c\<lparr>sys_hours := 0\<rparr> else c)"

text \<open>One round of \<open>calc_time\<close>, up to the return from \<open>thread_sleep\<close>.\<close>

definition calc_time :: "wall_clock \<Rightarrow> sched \<Rightarrow> (wall_clock \<times> sched) option" where
  "calc_time c k = do { k1 \<leftarrow> thread_sleep 1000 k; Some (calc_time_step c, k1) }"

definition time_text :: "wall_clock \<Rightarrow> bytes option" where
  "time_text c = snprintf 10 10 (zlit ''%02d:%02d:%02d'') [Num (sys_hours c), Num (sys_minutes c), Num (sys_seconds c)]"

definition sys_time :: "wall_clock \<Rightarrow> 'd console \<Rightarrow> sched \<Rightarrow> ('d console \<times> sched) option" where
  "sys_time c s k = do {
     time_str \<leftarrow> time_text c;
     s1 \<leftarrow> vga_draw_text time_str 12 0 0x70 s;
     k1 \<leftarrow> thread_yield k;
     Some (s1, k1) }"

section \<open>Processor usage\<close>

record usage =
  system_time :: u32
  irq_time :: u32
  idle_time :: u32
  user_time :: u32
  last_cpu_update :: u32

definition named :: "sched \<Rightarrow> string \<Rightarrow> bool option" where
  "named k name =
     (if current k = 0 then Some False
      else do { t \<leftarrow> tobj k (current k); r \<leftarrow> strcmp (name_bytes t) (zlit name); Some (r = 0) })"

definition charge :: "u32 \<Rightarrow> sched \<Rightarrow> usage \<Rightarrow> usage option" where
  "charge delta_ticks k u = do {
     idle \<leftarrow> named k ''idle'';
     if idle then Some (u\<lparr>idle_time := idle_time u + delta_ticks\<rparr>)
     else do {
       sh \<leftarrow> named k ''shell'';
       if sh then Some (u\<lparr>user_time := user_time u + delta_ticks\<rparr>)
       else do {
         st \<leftarrow> named k ''systime'';
         Some (u\<lparr>system_time := system_time u + delta_ticks\<rparr>) } } }"

definition calculate_cpu_usage :: "sched \<Rightarrow> usage \<Rightarrow> (i32 \<times> usage) option" where
  "calculate_cpu_usage k u = (
     let current_ticks = timer_ticks k;
         delta_ticks = current_ticks - last_cpu_update u
     in if delta_ticks = 0 then Some (0, u)
     else do {
       u \<leftarrow> charge delta_ticks k u;
       let total_active_time = user_time u + system_time u + irq_time u;
       let total_cpu_time = total_active_time + idle_time u;
       let cpu_percent = (if 0 < total_cpu_time then (total_active_time * 100) div total_cpu_time else 0);
       let u = (if 100 < total_cpu_time then u\<lparr>user_time := 0, system_time := 0, irq_time := 0, idle_time := 0\<rparr> else u);
       Some (cpu_percent, u\<lparr>last_cpu_update := current_ticks\<rparr>) })"

definition ui_bar_text :: bytes where
  "ui_bar_text = zlit '' Hatcher |                                                    | CPU Usage:    % ''"

definition ui_bar :: "bytes \<Rightarrow> usage \<Rightarrow> 'd console \<Rightarrow> sched \<Rightarrow> (usage \<times> 'd console \<times> sched) option" where
  "ui_bar junk u s k = do {
     s1 \<leftarrow> vga_draw_text ui_bar_text 0 0 0x70 s;
     (cpu_percent, u1) \<leftarrow> calculate_cpu_usage k u;
     s2 \<leftarrow> kprintci_vidmem junk cpu_percent 0x70 (0 * 25 + 75 * 2) s1;
     k1 \<leftarrow> thread_sleep 5 k;
     k2 \<leftarrow> thread_yield k1;
     Some (u1, s2, k2) }"

section \<open>Facts\<close>

text \<open>The second of the day a clock shows, and the clocks that show one.\<close>

definition clock_ok :: "wall_clock \<Rightarrow> bool" where
  "clock_ok c \<longleftrightarrow> unat (sys_seconds c) < 60 \<and> unat (sys_minutes c) < 60 \<and> unat (sys_hours c) < 24"

definition second_of_day :: "wall_clock \<Rightarrow> nat" where
  "second_of_day c = unat (sys_hours c) * 3600 + unat (sys_minutes c) * 60 + unat (sys_seconds c)"

lemma unat_Suc: "unat w < 100 \<Longrightarrow> unat (w + 1 :: u64) = unat w + 1"
  by (subst unat_add_lem [THEN iffD1]) simp_all

lemma unat_eq_numeral: "w = numeral k \<longleftrightarrow> unat (w :: u64) = unat (numeral k :: u64)"
  by (simp add: word_unat_eq_iff)

lemma calc_time_step_next:
  assumes "clock_ok c"
  shows "clock_ok (calc_time_step c) \<and> second_of_day (calc_time_step c) = (second_of_day c + 1) mod 86400"
proof -
  obtain s m h where c: "c = \<lparr>sys_seconds = s, sys_minutes = m, sys_hours = h\<rparr>" by (cases c)
  have b: "unat s < 60" "unat m < 60" "unat h < 24" using assms by (simp_all add: c clock_ok_def)
  have e: "s + 1 = 60 \<longleftrightarrow> unat s = 59" "m + 1 = 60 \<longleftrightarrow> unat m = 59" "h + 1 = 24 \<longleftrightarrow> unat h = 23"
    "m \<noteq> 60" "h \<noteq> 24"
    using b by (auto simp: unat_eq_numeral unat_Suc)
  show ?thesis
    using b e by (auto simp: c calc_time_step_def clock_ok_def second_of_day_def Let_def unat_Suc mod_if)
qed

definition two_digits :: "nat \<Rightarrow> bytes" where
  "two_digits n = [48 + of_nat (n div 10), 48 + of_nat (n mod 10)]"

lemma padded_dec: "n < 100 \<Longrightarrow> padding 48 2 (length (dec n)) @ dec n = two_digits n"
proof (cases "n < 10")
  case True
  then show ?thesis by (auto simp: dec_def padding_def two_digits_def decz.simps [of n])
next
  case False
  moreover assume "n < 100"
  ultimately have d: "n div 10 < 10" "0 < n div 10" by (auto simp: div_greater_zero_iff)
  then have "decz (n div 10) = [48 + of_nat (n div 10)]" by (simp add: decz_Suc)
  then show ?thesis using False by (simp add: dec_def padding_def two_digits_def decz_Suc [of n])
qed

lemma int_text_small: "unat (w :: u64) < 100 \<Longrightarrow> int_text (ucast w) = dec (unat w)"
proof -
  assume w: "unat w < 100"
  then have u: "unat (ucast w :: i32) = unat w" by (simp add: unsigned_ucast_eq take_bit_nat_eq_self)
  have "sint (word_of_nat (unat w) :: i32) = int (unat w)"
    by (rule sint_word_of_nat32) (use w in simp)
  then have "sint (ucast w :: i32) = int (unat w)" by simp
  then show ?thesis using u by (simp add: int_text_def)
qed

lemma time_text_shows:
  assumes "clock_ok c"
  shows "time_text c = Some (two_digits (unat (sys_hours c)) @ [58] @ two_digits (unat (sys_minutes c)) @ [58]
    @ two_digits (unat (sys_seconds c)) @ [0])"
proof -
  let ?h = "unat (sys_hours c)" and ?m = "unat (sys_minutes c)" and ?s = "unat (sys_seconds c)"
  have b: "?h < 100" "?m < 100" "?s < 100" using assms by (simp_all add: clock_ok_def)
  let ?r = "two_digits ?h @ [58] @ two_digits ?m @ [58] @ two_digits ?s"
  have "render NoMods snprintf_text (zlit ''%02d:%02d:%02d'') [Num (sys_hours c), Num (sys_minutes c), Num (sys_seconds c)] = Some ?r"
    using padded_dec [OF b(1)] padded_dec [OF b(2)] padded_dec [OF b(3)]
    by (simp add: lit_def parse_flags_def parse_len_def snprintf_text_def Let_def int_text_small b)
  then have "snprintf_loop 10 10 (zlit ''%02d:%02d:%02d'') [Num (sys_hours c), Num (sys_minutes c), Num (sys_seconds c)] []
      = Some (room 10 [] ?r)"
    using snprintf_loop_render [of 10 10] by blast
  then show ?thesis by (simp add: time_text_def snprintf_def room_def two_digits_def)
qed

lemma calc_time_steps:
  assumes "clock_ok c"
  shows "clock_ok ((calc_time_step ^^ n) c) \<and> second_of_day ((calc_time_step ^^ n) c) = (second_of_day c + n) mod 86400"
proof (induction n)
  case 0
  have "second_of_day c < 86400" using assms by (auto simp: clock_ok_def second_of_day_def)
  then show ?case using assms by simp
next
  case (Suc n)
  then show ?case using calc_time_step_next [of "(calc_time_step ^^ n) c"] by (simp add: mod_Suc_eq)
qed

lemma day_parts:
  assumes "clock_ok c"
  shows "unat (sys_hours c) = second_of_day c div 3600" "unat (sys_minutes c) = second_of_day c div 60 mod 60"
    "unat (sys_seconds c) = second_of_day c mod 60"
proof -
  have split: "n mod b = r \<and> n div b = q" if "n = q * b + r" "r < b" for n q r b :: nat using that by simp
  have b: "unat (sys_seconds c) < 60" "unat (sys_minutes c) < 60" using assms by (simp_all add: clock_ok_def)
  have "second_of_day c = (unat (sys_hours c) * 60 + unat (sys_minutes c)) * 60 + unat (sys_seconds c)"
    by (simp add: second_of_day_def)
  note m = split [OF this b(1)]
  then show "unat (sys_seconds c) = second_of_day c mod 60" by simp
  show "unat (sys_minutes c) = second_of_day c div 60 mod 60" using m split [OF refl b(2)] by simp
  have "second_of_day c = unat (sys_hours c) * 3600 + (unat (sys_minutes c) * 60 + unat (sys_seconds c))"
    "unat (sys_minutes c) * 60 + unat (sys_seconds c) < 3600"
    using b by (simp_all add: second_of_day_def)
  from split [OF this] show "unat (sys_hours c) = second_of_day c div 3600" by simp
qed

text \<open>The ticks that are accounted for.\<close>

definition total_ticks :: "usage \<Rightarrow> nat" where
  "total_ticks u = unat (user_time u) + unat (system_time u) + unat (irq_time u) + unat (idle_time u)"

lemma named_defined:
  assumes "thread_inv k"
  shows "\<exists>b. named k name = Some b"
proof -
  obtain t where "tobj k (current k) = Some t" 
    using table_cur [OF inv_table [OF assms]] table_thr(1) [OF inv_table [OF assms]] by auto
  moreover have "terminated (name_bytes t)" "terminated (zlit name)" by (simp_all add: name_bytes_def)
  ultimately show ?thesis
    using strcmp_defined [of "name_bytes t" "zlit name"] by (auto simp: named_def)
qed

lemma charge_adds:
  assumes "thread_inv k" and "total_ticks u + unat n < 2 ^ 32"
  shows "\<exists>v. charge n k u = Some v \<and> total_ticks v = total_ticks u + unat n \<and> last_cpu_update v = last_cpu_update u"
proof -
  have add: "unat (w + n) = unat w + unat n" if "unat w \<le> total_ticks u" for w :: u32
    using that assms(2) by (subst unat_add_lem [THEN iffD1]) simp_all
  obtain a b c where "named k ''idle'' = Some a" "named k ''shell'' = Some b" "named k ''systime'' = Some c"
    using named_defined [OF assms(1)] by blast
  then show ?thesis using add by (auto simp: charge_def total_ticks_def)
qed

section \<open>Properties\<close>

text \<open>
  C35. The clock is always a time of day: started at midnight, after n rounds of \<open>calc_time\<close> hours, minutes
  and seconds are in their ranges and are those of n modulo a day, and \<open>sys_time\<close> shows them as
  HH:MM:SS, which fills its buffer of ten bytes but for one.
\<close>

theorem clock_shows_time:
  fixes n :: nat
  defines "c \<equiv> (calc_time_step ^^ n) \<lparr>sys_seconds = 0, sys_minutes = 0, sys_hours = 0\<rparr>"
    and "t \<equiv> n mod 86400"
  shows "clock_ok c \<and> time_text c =
    Some (two_digits (t div 3600) @ [58] @ two_digits (t div 60 mod 60) @ [58] @ two_digits (t mod 60) @ [0])"
proof -
  let ?z = "\<lparr>sys_seconds = 0, sys_minutes = 0, sys_hours = 0\<rparr> :: wall_clock"
  have "clock_ok ?z" "second_of_day ?z = 0" by (simp_all add: clock_ok_def second_of_day_def)
  then have c: "clock_ok c" "second_of_day c = t" using calc_time_steps [of ?z n] by (simp_all add: c_def t_def)
  show ?thesis using time_text_shows [OF c(1)] c(1) by (simp add: day_parts [OF c(1)] c(2))
qed

theorem clock_shows_time_witness:
  "time_text ((calc_time_step ^^ 90061) \<lparr>sys_seconds = 0, sys_minutes = 0, sys_hours = 0\<rparr>) = Some (zlit ''01:01:01'')"
  using clock_shows_time [of 90061] by (simp add: two_digits_def lit_def)

text \<open>
  The status bar shows a percentage: on a well-formed thread table, from at most 100 ticks accounted
  for and within 42949571 ticks (almost twelve hours) of the last update, \<open>calculate_cpu_usage\<close> returns a
  number from 0 to 100, leaves at most 100 ticks accounted for, and keeps the time of the update.
\<close>

theorem cpu_usage_percent:
  assumes "thread_inv k" and "total_ticks u \<le> 100" and "unat (timer_ticks k - last_cpu_update u) \<le> 42949571"
  shows "\<exists>p v. calculate_cpu_usage k u = Some (p, v) \<and> unat p \<le> 100 \<and> total_ticks v \<le> 100
    \<and> last_cpu_update v = timer_ticks k"
proof (cases "timer_ticks k = last_cpu_update u")
  case True
  then show ?thesis using assms(2) by (simp add: calculate_cpu_usage_def)
next
  case False
  let ?n = "timer_ticks k - last_cpu_update u"
  obtain v where v: "charge ?n k u = Some v" "total_ticks v = total_ticks u + unat ?n"
    using charge_adds [OF assms(1), of u ?n] assms(2,3) by auto
  let ?a = "user_time v + system_time v + irq_time v" and ?t = "user_time v + system_time v + irq_time v + idle_time v"
  have le: "total_ticks v \<le> 42949671" using v(2) assms(2,3) by simp
  have us: "unat (user_time v + system_time v) = unat (user_time v) + unat (system_time v)"
    using le by (subst unat_add_lem [THEN iffD1]) (simp_all add: total_ticks_def)
  have a: "unat ?a = unat (user_time v) + unat (system_time v) + unat (irq_time v)"
    using le us by (subst unat_add_lem [THEN iffD1]) (simp_all add: total_ticks_def)
  have t: "unat ?t = total_ticks v"
    using le a by (subst unat_add_lem [THEN iffD1]) (simp_all add: total_ticks_def)
  have "unat (?a * 100) = unat ?a * 100"
    using le a by (subst unat_mult_lem [THEN iffD1]) (simp_all add: total_ticks_def)
  then have "unat ((?a * 100) div ?t) = unat ?a * 100 div total_ticks v" by (simp add: unat_div t)
  also have "\<dots> \<le> total_ticks v * 100 div total_ticks v" using a by (intro div_le_mono) (simp add: total_ticks_def)
  also have "\<dots> \<le> 100" by simp
  finally have p: "unat ((?a * 100) div ?t) \<le> 100" .
  have big: "100 < ?t \<longleftrightarrow> 100 < total_ticks v" by (simp add: word_less_nat_alt t)
  obtain q w where run: "calculate_cpu_usage k u = Some (q, w)" "q = (if 0 < ?t then (?a * 100) div ?t else 0)"
    "w = (if 100 < ?t then v\<lparr>user_time := 0, system_time := 0, irq_time := 0, idle_time := 0\<rparr> else v)\<lparr>last_cpu_update := timer_ticks k\<rparr>"
    using False v(1) by (simp add: calculate_cpu_usage_def Let_def)
  have "unat q \<le> 100" using p run(2) by simp
  moreover have "total_ticks w \<le> 100" unfolding run(3) big by (auto simp: total_ticks_def)
  ultimately show ?thesis using run(1,3) by auto
qed

theorem cpu_usage_percent_witness:
  "\<exists>p v. calculate_cpu_usage (two_sched\<lparr>timer_ticks := 70\<rparr>)
    \<lparr>system_time = 30, irq_time = 0, idle_time = 40, user_time = 20, last_cpu_update = 5\<rparr> = Some (p, v) \<and> unat p \<le> 100"
  using cpu_usage_percent [OF inv_tick [OF two_sched_facts(2), of 70],
      of "\<lparr>system_time = 30, irq_time = 0, idle_time = 40, user_time = 20, last_cpu_update = 5\<rparr>"]
  by (auto simp: total_ticks_def)

end
