(* ===== verification/Utils.thy ===== *)
theory Utils
  imports Fat32_Write Numbers
begin

text \<open>
  The kernel's helpers of kernel/utils.c: hexadecimal text, 8.3 names, and the path of a directory.
\<close>

section \<open>Hexadecimal text\<close>

definition hex_char_to_byte :: "u8 \<Rightarrow> u8" where
  "hex_char_to_byte c =
     (if 48 \<le> sint c \<and> sint c \<le> 57 then c - 48
      else if 97 \<le> sint c \<and> sint c \<le> 102 then c - 97 + 10
      else if 65 \<le> sint c \<and> sint c \<le> 70 then c - 65 + 10
      else 0)"

definition hexstr_to_bytes :: "bytes \<Rightarrow> bytes \<Rightarrow> nat \<Rightarrow> bytes option" where
  "hexstr_to_bytes hex_str byte_array max_bytes = do {
     len \<leftarrow> strlen hex_str;
     iter (\<lambda>i a. do {
         h \<leftarrow> rd hex_str (i * 2);
         l \<leftarrow> rd hex_str (i * 2 + 1);
         wr a i (push_bit 4 (hex_char_to_byte h) OR hex_char_to_byte l) })
       [0..<min (len div 2) max_bytes] byte_array }"

section \<open>8.3 names\<close>

text \<open>The characters of \<open>src\<close> from \<open>i\<close> to \<open>stop\<close>, in upper case, into \<open>dest\<close> from \<open>j\<close> to \<open>lim\<close>.\<close>

definition upper_copy :: "bytes \<Rightarrow> nat \<Rightarrow> nat \<Rightarrow> nat \<Rightarrow> nat \<Rightarrow> bytes \<Rightarrow> bytes option" where
  "upper_copy src i stop j lim dest =
     iter (\<lambda>k d. do { c \<leftarrow> rd src (i + k); wr d (j + k) (ucast (toupper (scast c))) })
       [0..<min (stop - i) (lim - j)] dest"

definition fat_name_from_string :: "bytes option \<Rightarrow> bytes \<Rightarrow> bytes option" where
  "fat_name_from_string src dest0 = do {
     dest \<leftarrow> memset dest0 0 32 11;
     case src of None \<Rightarrow> Some dest
     | Some src \<Rightarrow> do {
         len \<leftarrow> strlen src;
         let dot = find (\<lambda>i. src ! i = 46) [0..<len];
         case dot of
           None \<Rightarrow> upper_copy src 0 len 0 8 dest
         | Some dot \<Rightarrow> do {
             d1 \<leftarrow> upper_copy src 0 dot 0 8 dest;
             upper_copy src (dot + 1) len 8 11 d1 } } }"

section \<open>The path of a directory\<close>

definition raw_cluster :: "bytes \<Rightarrow> u32 option" where
  "raw_cluster e = do { h \<leftarrow> get16 e 20; l \<leftarrow> get16 e 26; Some (push_bit 16 (ucast h) OR ucast l) }"

text \<open>The cluster of the record named \<open>..\<close>, the root for cluster 0 and when there is none.\<close>

fun parent_of :: "u32 \<Rightarrow> bytes list \<Rightarrow> u32 option" where
  "parent_of root [] = Some root"
| "parent_of root (e # es) = do {
     a \<leftarrow> rd e 0;
     b \<leftarrow> rd e 1;
     if a = 46 \<and> b = 46 then do { p \<leftarrow> raw_cluster e; Some (if p = 0 then root else p) }
     else parent_of root es }"

fun squeeze :: "bytes \<Rightarrow> nat list \<Rightarrow> bytes \<Rightarrow> nat \<Rightarrow> (bytes \<times> nat) option" where
  "squeeze e [] name pos = Some (name, pos)"
| "squeeze e (j # js) name pos = do {
     c \<leftarrow> rd e j;
     if c \<noteq> 32 \<and> c \<noteq> 0 then do { n1 \<leftarrow> wr name pos c; squeeze e js n1 (pos + 1) }
     else squeeze e js name pos }"

text \<open>The name of the first subdirectory with cluster \<open>cur\<close>: an array of 9 bytes, empty when there is none.\<close>

fun name_of :: "u32 \<Rightarrow> bytes list \<Rightarrow> bytes option" where
  "name_of cur [] = Some (replicate 9 0)"
| "name_of cur (e # es) = do {
     attr \<leftarrow> rd e 11;
     if attr AND 0x10 \<noteq> 0x10 then name_of cur es
     else do {
       cl \<leftarrow> raw_cluster e;
       if cl = cur then do { (n, pos) \<leftarrow> squeeze e [0..<8] (replicate 9 0) 0; wr n pos 0 }
       else name_of cur es } }"

text \<open>
  The rows of \<open>path\<close> filled so far are \<open>path\<close>; the first argument is \<open>max_depth - depth\<close>. The drive is
  always 0.
\<close>

fun build_path_loop :: "'d blockdev \<Rightarrow> nat \<Rightarrow> u32 \<Rightarrow> bytes list \<Rightarrow> 'd fs \<Rightarrow> (bytes list \<times> 'd fs) option" where
  "build_path_loop dv 0 cur path s = Some (path, s)"
| "build_path_loop dv (Suc k) cur path s =
     (if cur = root_dir_first_cluster s then Some (path, s)
      else do {
        (entries, s1) \<leftarrow> new_buffer (32 * 32) s;
        if entries = 0 then Some (path, s1) else do {
        (n, es, s2) \<leftarrow> fat32_read_dir dv 0 cur 32 s1;
        parent \<leftarrow> parent_of (root_dir_first_cluster s2) (take (nat (sint n)) es);
        (pentries, s3) \<leftarrow> new_buffer (32 * 32) s2;
        if pentries = 0 then do { s4 \<leftarrow> free_list entries s3; Some (path, s4) } else do {
        (pn, ps, s4) \<leftarrow> fat32_read_dir dv 0 parent 32 s3;
        name \<leftarrow> name_of cur (take (nat (sint pn)) ps);
        s5 \<leftarrow> free_list entries s4;
        s6 \<leftarrow> free_list pentries s5;
        build_path_loop dv k parent (path @ [name]) s6 } } })"

definition build_path :: "'d blockdev \<Rightarrow> u32 \<Rightarrow> nat \<Rightarrow> 'd fs \<Rightarrow> (bytes list \<times> 'd fs) option" where
  "build_path dv cluster max_depth s = build_path_loop dv max_depth cluster [] s"

fun print_path :: "'d bus \<Rightarrow> bytes list \<Rightarrow> 'd console \<Rightarrow> 'd console option" where
  "print_path bus [] c = Some c"
| "print_path bus (row # rows) c = do {
     c1 \<leftarrow> kprint bus [92, 0] c;
     c2 \<leftarrow> kprint bus row c1;
     print_path bus rows c2 }"

section \<open>What the helpers compute\<close>

text \<open>A loop that fills \<open>d\<close> from \<open>j\<close> on with values read elsewhere.\<close>

lemma iter_fill:
  assumes "\<And>k. k < n \<Longrightarrow> f k = Some (v k)" and "j + n \<le> length d"
  shows "iter (\<lambda>k d. do { x \<leftarrow> f k; wr d (j + k) x }) [0..<n] d = Some (blit d j (map v [0..<n]))"
  using assms
proof (induction n)
  case 0
  then show ?case by simp
next
  case (Suc n)
  then show ?case by (simp add: iter_append blit_snoc [of j "map v [0..<n]"])
      (simp add: blit_def list_update_append nth_append flip: Cons_nth_drop_Suc)
qed

definition hex_text :: "u8 \<Rightarrow> bytes \<Rightarrow> bytes" where
  "hex_text a bs = concat (map (\<lambda>b. [hex_char a (ucast (drop_bit 4 b)), hex_char a (ucast (b AND 0xF))]) bs)"

lemma length_hex_text [simp]: "length (hex_text a bs) = 2 * length bs"
  by (induction bs) (simp_all add: hex_text_def)

lemma nth_hex_text:
  "i < length bs \<Longrightarrow> hex_text a bs ! (i * 2) = hex_char a (ucast (drop_bit 4 (bs ! i)))
     \<and> hex_text a bs ! (i * 2 + 1) = hex_char a (ucast (bs ! i AND 0xF))"
proof (induction bs arbitrary: i)
  case Nil
  then show ?case by simp
next
  case (Cons b bs)
  then show ?case by (cases i) (simp_all add: hex_text_def)
qed

lemma nibble_cases:
  assumes "(d :: u8) < 16"
  shows "d \<in> {0, 1, 2, 3, 4, 5, 6, 7, 8, 9, 10, 11, 12, 13, 14, 15}"
proof -
  have "unat d < 16" using assms by (simp add: word_less_nat_alt)
  then have "unat d \<in> set [0..<16]" by simp
  then have "of_nat (unat d) \<in> (of_nat :: nat \<Rightarrow> u8) ` set [0..<16]" by (rule imageI)
  moreover have "(of_nat :: nat \<Rightarrow> u8) ` set [0..<16] = {0, 1, 2, 3, 4, 5, 6, 7, 8, 9, 10, 11, 12, 13, 14, 15}"
    by (simp add: upt_rec)
  ultimately show ?thesis by simp
qed

lemma hex_char_decodes:
  assumes "d < 16" and "a = 65 \<or> a = 97"
  shows "hex_char_to_byte (hex_char a (ucast d)) = d \<and> hex_char a (ucast d) \<noteq> 0"
  using nibble_cases [OF assms(1)] assms(2)
  by (elim insertE emptyE disjE; hypsubst; simp add: hex_char_to_byte_def hex_char_def)

lemma nibbles: "drop_bit 4 b < (16 :: u8)" "b AND 0xF < (16 :: u8)" "push_bit 4 (drop_bit 4 b) OR (b AND 0xF) = (b :: u8)"
proof -
  show "drop_bit 4 b < (16 :: u8)"
    using unsigned_less [of b, where 'a = nat] by (simp add: word_less_nat_alt drop_bit_eq_div unat_div)
  show "b AND 0xF < (16 :: u8)"
    using and_mask_less' [of 4 b] by (simp add: mask_eq_exp_minus_1)
  have "b AND 0xF = take_bit 4 b" by (simp add: take_bit_eq_mask mask_eq_exp_minus_1)
  then show "push_bit 4 (drop_bit 4 b) OR (b AND 0xF) = b"
    by (simp only:) (rule bit_word_eqI, auto simp: bit_simps)
qed

lemma hex_text_nonzero: "a = 65 \<or> a = 97 \<Longrightarrow> 0 \<notin> set (hex_text a bs)"
  using hex_char_decodes nibbles by (fastforce simp: hex_text_def)

text \<open>The two halves of an 8.3 name, padded with blanks.\<close>

definition padded :: "nat \<Rightarrow> bytes \<Rightarrow> bytes" where
  "padded n s = take n (map toupper_ascii s @ replicate n 32)"

definition base_of :: "bytes \<Rightarrow> bytes" where
  "base_of s = takeWhile (\<lambda>c. c \<noteq> 46) s"

definition ext_of :: "bytes \<Rightarrow> bytes" where
  "ext_of s = tl (dropWhile (\<lambda>c. c \<noteq> 46) s)"

lemma length_padded [simp]: "length (padded n s) = n"
  by (simp add: padded_def)

lemma sub_32: "ucast (scast (c :: u8) - 32 :: i32) = c - 32"
proof -
  have "take_bit 8 (take_bit 32 (signed_take_bit 7 k - 32)) = take_bit 8 (k - 32)" for k :: int
  proof -
    have "take_bit 8 (take_bit 32 (signed_take_bit 7 k - 32)) = take_bit 8 (take_bit 8 (signed_take_bit 7 k) - take_bit 8 32)"
      unfolding take_bit_take_bit take_bit_diff by simp
    also have "take_bit 8 (signed_take_bit 7 k) = take_bit 8 k" by (simp add: take_bit_signed_take_bit)
    also have "take_bit 8 (take_bit 8 k - take_bit 8 32) = take_bit 8 (k - 32)" by (rule take_bit_diff)
    finally show ?thesis .
  qed
  then show ?thesis by transfer simp
qed

lemma upper_copy_blit:
  assumes "stop \<le> length src" and "lim \<le> length d" and "j \<le> lim"
  shows "upper_copy src i stop j lim d = Some (blit d j (take (lim - j) (map toupper_ascii (drop i (take stop src)))))"
proof -
  have up: "ucast (toupper (scast c)) = toupper_ascii c" for c
    by (auto simp: toupper_def toupper_ascii_def sint_up_scast is_up sub_32)
  define n where "n = min (stop - i) (lim - j)"
  have "upper_copy src i stop j lim d = iter (\<lambda>k d. do { x \<leftarrow> map_option toupper_ascii (rd src (i + k)); wr d (j + k) x }) [0..<n] d"
    unfolding upper_copy_def n_def up by (simp add: bind_map_option comp_def)
  also have "\<dots> = Some (blit d j (map (\<lambda>k. toupper_ascii (src ! (i + k))) [0..<n]))"
    by (rule iter_fill) (use assms in \<open>auto simp: n_def\<close>)
  also have "map (\<lambda>k. toupper_ascii (src ! (i + k))) [0..<n] = take (lim - j) (map toupper_ascii (drop i (take stop src)))"
    using assms by (intro nth_equalityI) (auto simp: n_def)
  finally show ?thesis .
qed

lemma padded_alt: "padded n s = take n (map toupper_ascii s) @ replicate (n - length (take n (map toupper_ascii s))) 32"
  by (simp add: padded_def min_def)

lemma blit_blanks:
  assumes "11 \<le> length dest" and "length a \<le> 8" and "length e \<le> 3"
  shows "blit (blit (blit dest 0 (replicate 11 32)) 0 a) 8 e
      = blit dest 0 ((a @ replicate (8 - length a) 32) @ e @ replicate (3 - length e) 32)"
proof -
  define D where "D = drop 11 dest"
  obtain n m where n: "8 = length a + n" and m: "3 = length e + m" using assms(2,3) by (meson le_Suc_ex)
  then have d: "8 - length a = n" "3 - length e = m" by simp_all
  have e: "11 = length a + (n + 3)" using n by simp
  have "blit dest 0 (replicate 11 32) = replicate (length a + (n + 3)) 32 @ D"
    using assms(1) e by (simp add: blit_def D_def)
  then have f: "blit (blit dest 0 (replicate 11 32)) 0 a = a @ replicate n 32 @ replicate (length e + m) 32 @ D"
    unfolding m [symmetric] by (simp add: blit_def replicate_add)
  have s: "take 8 (a @ replicate n 32 @ xs) = a @ replicate n 32"
    "drop (8 + length e) (a @ replicate n 32 @ xs) = drop (length e) xs" for xs
    unfolding n by simp_all
  have g: "blit dest 0 bs = bs @ D" if "length bs = 11" for bs using that by (simp add: blit_def D_def)
  have l: "length ((a @ replicate n 32) @ e @ replicate m 32) = 11" using n m by simp
  have "blit (blit (blit dest 0 (replicate 11 32)) 0 a) 8 e
      = (a @ replicate n 32) @ e @ drop (length e) (replicate (length e + m) 32 @ D)"
    unfolding f by (simp only: blit_def [where i = 8] s)
  also have "\<dots> = ((a @ replicate n 32) @ e @ replicate m 32) @ D" by simp
  finally show ?thesis unfolding d g [OF l] .
qed

lemma fat_name_from_string_spec:
  assumes "terminated src" and "11 \<le> length dest"
  shows "fat_name_from_string (Some src) dest = Some (blit dest 0 (padded 8 (base_of (cstr src)) @ padded 3 (ext_of (cstr src))))"
proof -
  let ?s = "cstr src"
  define d0 where "d0 = blit dest 0 (replicate 11 32)"
  have m: "memset dest 0 32 11 = Some d0" using assms(2) by (simp add: memset_blit d0_def)
  have len: "length ?s \<le> length src" by (rule length_cstr_le)
  have s: "take n src = take n ?s" if "n \<le> length ?s" for n
    using that nth_cstr_nonzero [of _ src] len by (intro nth_equalityI) auto
  have l0: "length d0 = length dest" using assms(2) by (simp add: d0_def)
  note cp = upper_copy_blit [where src = src]
  show ?thesis
  proof (cases "46 \<in> set ?s")
    case False
    have "find (\<lambda>i. src ! i = 46) [0..<length ?s] = None"
      using False nth_cstr_nonzero [of _ src] by (auto simp: find_None_iff) (metis nth_mem)
    then have "fat_name_from_string (Some src) dest = Some (blit d0 0 (take 8 (map toupper_ascii ?s)))"
      using cp [of "length ?s" 8 d0 0 0] assms(2) len l0 s [of "length ?s"]
      by (simp add: fat_name_from_string_def m strlen_cstr [OF assms(1)])
    moreover have "blit d0 0 (take 8 (map toupper_ascii ?s)) = blit dest 0 (padded 8 ?s @ padded 3 [])"
      using blit_blanks [OF assms(2), of "take 8 (map toupper_ascii ?s)" "[]"] unfolding d0_def padded_alt by simp
    moreover have "base_of ?s = ?s" "ext_of ?s = []"
    proof -
      show "base_of ?s = ?s" unfolding base_of_def takeWhile_eq_all_conv using False by blast
      have nil: "dropWhile (\<lambda>c. c \<noteq> 46) ?s = []" unfolding dropWhile_eq_Nil_conv using False by blast
      show "ext_of ?s = []" unfolding ext_of_def nil by simp
    qed
    ultimately show ?thesis by simp
  next
    case True
    define k where "k = length (base_of ?s)"
    have split: "?s = base_of ?s @ 46 # ext_of ?s"
    proof -
      have "dropWhile (\<lambda>c. c \<noteq> 46) ?s \<noteq> []" using True by (auto simp: dropWhile_eq_Nil_conv)
      moreover from hd_dropWhile [OF this] have "hd (dropWhile (\<lambda>c. c \<noteq> 46) ?s) = 46" by simp
      ultimately have "dropWhile (\<lambda>c. c \<noteq> 46) ?s = 46 # ext_of ?s" unfolding ext_of_def by (metis list.collapse)
      then show ?thesis unfolding base_of_def by (metis takeWhile_dropWhile_id)
    qed
    have nodot: "46 \<notin> set (base_of ?s)" by (auto simp: base_of_def dest: set_takeWhileD)
    have k: "k < length ?s" "?s ! k = 46" using arg_cong [OF split, of length] arg_cong [OF split, of "\<lambda>l. l ! k"] by (simp_all add: k_def)
    have before: "?s ! i \<noteq> 46" if "i < k" for i
      using that nodot arg_cong [OF split, of "\<lambda>l. l ! i"] by (auto simp: k_def nth_append) (metis nth_mem)
    have "find (\<lambda>i. src ! i = 46) [0..<length ?s] = Some k"
      using k before nth_cstr_nonzero [of _ src] by (auto simp: find_Some_iff intro!: exI [of _ k])
    moreover have "take k src = base_of ?s" "drop (k + 1) (take (length ?s) src) = ext_of ?s"
      using s [of k] s [of "length ?s"] k arg_cong [OF split, of "take k"] arg_cong [OF split, of "drop (k + 1)"] by (simp_all add: k_def)
    ultimately have "fat_name_from_string (Some src) dest
        = Some (blit (blit d0 0 (take 8 (map toupper_ascii (base_of ?s)))) 8 (take 3 (map toupper_ascii (ext_of ?s))))"
      using cp [of k 8 d0 0 0] cp [of "length ?s" 11 _ 8 "k + 1"] assms(2) len l0 k(1)
      by (simp add: fat_name_from_string_def m strlen_cstr [OF assms(1)])
    moreover have "blit (blit d0 0 (take 8 (map toupper_ascii b))) 8 (take 3 (map toupper_ascii e)) = blit dest 0 (padded 8 b @ padded 3 e)" for b e
      using blit_blanks [OF assms(2), of "take 8 (map toupper_ascii b)" "take 3 (map toupper_ascii e)"] unfolding d0_def padded_alt by simp
    ultimately show ?thesis by simp
  qed
qed

lemma hexstr_to_bytes_spec:
  assumes "a = 65 \<or> a = 97" and "length bs \<le> length buf" and "length bs \<le> mx"
  shows "hexstr_to_bytes (hex_text a bs @ 0 # rest) buf mx = Some (blit buf 0 bs)"
proof -
  let ?s = "hex_text a bs @ 0 # rest"
  have len: "strlen ?s = Some (2 * length bs)"
    using hex_text_nonzero [OF assms(1), of bs] by (simp add: strlen_cstr)
  have byte: "do { h \<leftarrow> rd ?s (i * 2); l \<leftarrow> rd ?s (i * 2 + 1); Some (push_bit 4 (hex_char_to_byte h) OR hex_char_to_byte l) }
      = Some (bs ! i)" if "i < length bs" for i
    using that nth_hex_text [OF that, of a] hex_char_decodes [OF nibbles(1) assms(1)] hex_char_decodes [OF nibbles(2) assms(1)]
    by (simp add: nth_append nibbles(3))
  have "hexstr_to_bytes ?s buf mx = iter (\<lambda>i d. do { x \<leftarrow> do { h \<leftarrow> rd ?s (i * 2); l \<leftarrow> rd ?s (i * 2 + 1);
      Some (push_bit 4 (hex_char_to_byte h) OR hex_char_to_byte l) }; wr d (0 + i) x }) [0..<length bs] buf"
    using assms(3) unfolding hexstr_to_bytes_def len by (simp add: min_def Option.bind_assoc)
  also have "\<dots> = Some (blit buf 0 (map ((!) bs) [0..<length bs]))"
    by (rule iter_fill [OF byte]) (use assms(2) in simp_all)
  finally show ?thesis by (simp add: map_nth)
qed

section \<open>Properties\<close>

text \<open>
  \<open>hexstr_to_bytes\<close> reads back the bytes that were printed as two hexadecimal digits each, in either
  case, and leaves the rest of the array as it was.
\<close>

theorem hexstr_decodes:
  assumes "a = 65 \<or> a = 97" and "length bs \<le> length buf" and "length bs \<le> mx"
  shows "hexstr_to_bytes (hex_text a bs @ 0 # rest) buf mx = Some (blit buf 0 bs)"
  by (rule hexstr_to_bytes_spec [OF assms])

theorem hexstr_decodes_witness:
  "hexstr_to_bytes (hex_text 65 [0xDE, 0xAD] @ 0 # []) [1, 2, 3] 512 = Some [0xDE, 0xAD, 3]"
  using hexstr_decodes [of 65 "[0xDE, 0xAD]" "[1, 2, 3]" 512 "[]"] by (simp add: blit_def)

text \<open>
  \<open>fat_name_from_string\<close> stores the 8.3 name of a file name: what stands before the first dot, cut to 8
  characters, and what stands behind it, cut to 3, in upper case and padded with blanks. Byte 11 and
  the ones behind it are not touched.
\<close>

theorem fat_name_is_padded:
  assumes "terminated src" and "11 \<le> length dest"
  shows "fat_name_from_string (Some src) dest = Some (blit dest 0 (padded 8 (base_of (cstr src)) @ padded 3 (ext_of (cstr src))))"
  by (rule fat_name_from_string_spec [OF assms])

theorem fat_name_is_padded_witness:
  "fat_name_from_string (Some (zlit ''boot.cfg'')) (replicate 12 7) = Some (lit ''BOOT    CFG'' @ [7])"
proof -
  have r: "replicate 4 x = [x, x, x, x]" for x :: u8 by (simp add: numeral_eq_Suc)
  show ?thesis
    using fat_name_is_padded [of "zlit ''boot.cfg''" "replicate 12 7"]
    by (simp add: lit_def base_of_def ext_of_def padded_def toupper_ascii_def blit_def r)
qed

text \<open>
  C29. The name a record made by \<open>fat_name_from_string\<close> shows in a listing is the file name it was made
  from, in upper case: \<open>shortname_to_string\<close> gives it back for every name of at most 8 characters and
  an extension of at most 3, without blanks and with at most one dot. An empty extension loses its dot.
\<close>

theorem short_name_roundtrip:
  assumes "terminated src" and "32 \<notin> set (cstr src)"
    and "length (base_of (cstr src)) \<le> 8" and "length (ext_of (cstr src)) \<le> 3"
    and "length dest = 11" and "13 \<le> length out"
  shows "do { nm \<leftarrow> fat_name_from_string (Some src) dest; shortname_to_string nm out }
    = Some (blit out 0 (map toupper_ascii (base_of (cstr src)
        @ (if ext_of (cstr src) = [] then [] else 46 # ext_of (cstr src))) @ [0]))"
proof -
  let ?b = "base_of (cstr src)" and ?e = "ext_of (cstr src)"
  have up: "c \<noteq> 32 \<Longrightarrow> toupper_ascii c \<noteq> 32" for c
  proof
    assume "c \<noteq> 32" "toupper_ascii c = 32"
    then have "c - 32 = 32" "97 \<le> sint c" by (auto simp: toupper_ascii_def split: if_splits)
    then have "c = 64" by (simp add: diff_eq_eq)
    with \<open>97 \<le> sint c\<close> show False by simp
  qed
  have sub: "set ?b \<subseteq> set (cstr src)" "set ?e \<subseteq> set (cstr src)"
    by (auto simp: base_of_def ext_of_def dest: set_takeWhileD set_dropWhileD list.set_sel(2) [rotated])
      (metis list.sel(2) list.set_sel(2) set_dropWhileD)
  have up32: "toupper_ascii c = 32 \<Longrightarrow> c = 32" for c using up by blast
  have ne: "32 \<notin> toupper_ascii ` set ?b" "32 \<notin> toupper_ascii ` set ?e" using sub assms(2) by (auto dest!: up32)
  have tw: "takeWhile (\<lambda>c. c \<noteq> 32) (padded n s) = map toupper_ascii s" if "32 \<notin> toupper_ascii ` set s" "length s \<le> n" for n s
    using that by (auto simp: padded_def takeWhile_append takeWhile_eq_all_conv image_iff)
  have e3: "padded 3 ?e = [32, 32, 32] \<longleftrightarrow> ?e = []"
  proof
    assume "padded 3 ?e = [32, 32, 32]"
    with tw [OF ne(2) assms(4)] show "?e = []" by simp
  qed (simp add: padded_def numeral_eq_Suc)
  define nm where "nm = padded 8 ?b @ padded 3 ?e"
  have len: "length nm = 11" by (simp add: nm_def)
  have "fat_name_from_string (Some src) dest = Some nm"
    using fat_name_from_string_spec [OF assms(1), of dest] assms(5) len by (simp add: nm_def blit_def)
  moreover have "short_text nm = map toupper_ascii (?b @ (if ?e = [] then [] else 46 # ?e))"
    using tw [OF ne(1) assms(3)] tw [OF ne(2) assms(4)] e3
    by (simp add: short_text_def nm_def toupper_ascii_def)
  ultimately show ?thesis using shortname_to_string_spec [OF len assms(6)] by simp
qed

theorem short_name_roundtrip_witness:
  "do { nm \<leftarrow> fat_name_from_string (Some (zlit ''a.c'')) (replicate 11 0); shortname_to_string nm (replicate 13 9) }
    = Some (blit (replicate 13 9) 0 (zlit ''A.C''))"
  using short_name_roundtrip [of "zlit ''a.c''" "replicate 11 0" "replicate 13 9"]
  by (simp add: lit_def base_of_def ext_of_def toupper_ascii_def)

end
