(* ===== verification/Shell_Env.thy ===== *)
theory Shell_Env
  imports Cstring
begin

text \<open>
  The shell's variables (user/shell.c): the table of name and value arrays, and the substitution of
  \<open>${NAME}\<close> and \<open>$NAME\<close> in a line.
\<close>

section \<open>The table\<close>

record env_var =
  ev_name :: bytes
  ev_value :: bytes

record env =
  env_vars :: "env_var list"
  env_count :: nat

fun env_find :: "env_var list \<Rightarrow> bytes \<Rightarrow> nat list \<Rightarrow> nat option option" where
  "env_find vs name [] = Some None"
| "env_find vs name (i # is) = do {
     v \<leftarrow> rd vs i;
     r \<leftarrow> strcmp (ev_name v) name;
     if r = 0 then Some (Some i) else env_find vs name is }"

text \<open>\<open>strncpy(field, s, n)\<close> and the 0 behind it, for a field of \<open>n + 1\<close> bytes.\<close>

definition store_field :: "nat \<Rightarrow> bytes \<Rightarrow> bytes \<Rightarrow> bytes option" where
  "store_field n field s = do { m \<leftarrow> strncpy field 0 s n; wr m n 0 }"

definition set_env_var :: "bytes \<Rightarrow> bytes \<Rightarrow> env \<Rightarrow> env option" where
  "set_env_var name v e = do {
     r \<leftarrow> env_find (env_vars e) name [0..<env_count e];
     case r of
       Some i \<Rightarrow> do {
         x \<leftarrow> rd (env_vars e) i;
         val \<leftarrow> store_field 127 (ev_value x) v;
         vs \<leftarrow> wr (env_vars e) i (x\<lparr>ev_value := val\<rparr>);
         Some (e\<lparr>env_vars := vs\<rparr>) }
     | None \<Rightarrow>
         if env_count e < 16 then do {
           x \<leftarrow> rd (env_vars e) (env_count e);
           nm \<leftarrow> store_field 31 (ev_name x) name;
           val \<leftarrow> store_field 127 (ev_value x) v;
           vs \<leftarrow> wr (env_vars e) (env_count e) (x\<lparr>ev_name := nm, ev_value := val\<rparr>);
           Some (e\<lparr>env_vars := vs, env_count := env_count e + 1\<rparr>) }
         else Some e }"

text \<open>\<open>None\<close> inside is the null pointer.\<close>

definition get_env_var :: "bytes \<Rightarrow> env \<Rightarrow> bytes option option" where
  "get_env_var name e = do {
     r \<leftarrow> env_find (env_vars e) name [0..<env_count e];
     case r of
       Some i \<Rightarrow> do { x \<leftarrow> rd (env_vars e) i; Some (Some (ev_value x)) }
     | None \<Rightarrow> Some None }"

section \<open>Substitution\<close>

definition name_start :: "u8 \<Rightarrow> bool" where
  "name_start c \<longleftrightarrow> 65 \<le> sint c \<and> sint c \<le> 90 \<or> 97 \<le> sint c \<and> sint c \<le> 122 \<or> c = 95"

definition name_char :: "u8 \<Rightarrow> bool" where
  "name_char c \<longleftrightarrow> 65 \<le> sint c \<and> sint c \<le> 90 \<or> 97 \<le> sint c \<and> sint c \<le> 122 \<or> 48 \<le> sint c \<and> sint c \<le> 57 \<or> c = 95"

text \<open>The characters taken into \<open>var_name\<close>, with \<open>room\<close> left, and the rest of the line.\<close>

fun take_name :: "(u8 \<Rightarrow> bool) \<Rightarrow> nat \<Rightarrow> bytes \<Rightarrow> (bytes \<times> bytes) option" where
  "take_name P room [] = None"
| "take_name P room (c # s) =
     (if c \<noteq> 0 \<and> P c \<and> room > 0 then do { (w, r) \<leftarrow> take_name P (room - 1) s; Some (c # w, r) }
      else Some ([], c # s))"

definition var_name :: "bytes \<Rightarrow> bytes" where
  "var_name w = w @ replicate (32 - length w) 0"

fun put_value :: "nat \<Rightarrow> bytes \<Rightarrow> bytes \<Rightarrow> nat \<Rightarrow> (bytes \<times> nat) option" where
  "put_value max_len [] out len = None"
| "put_value max_len (c # v) out len =
     (if c \<noteq> 0 \<and> len < max_len - 1 then do { o1 \<leftarrow> wr out len c; put_value max_len v o1 (len + 1) }
      else Some (out, len))"

definition put_var :: "nat \<Rightarrow> env \<Rightarrow> bytes \<Rightarrow> bytes \<Rightarrow> nat \<Rightarrow> (bytes \<times> nat) option" where
  "put_var max_len e w out len = do {
     v \<leftarrow> get_env_var (var_name w) e;
     case v of None \<Rightarrow> Some (out, len) | Some v \<Rightarrow> put_value max_len v out len }"

lemma take_name_rest: "take_name P room s = Some (w, r) \<Longrightarrow> length r \<le> length s"
  by (induction P room s arbitrary: w r rule: take_name.induct)
    (auto simp: Option.bind_eq_Some_conv split: if_splits)

text \<open>\<open>dst\<close> is \<open>expanded + len\<close> throughout.\<close>

function expand_loop :: "nat \<Rightarrow> env \<Rightarrow> bytes \<Rightarrow> bytes \<Rightarrow> nat \<Rightarrow> (bytes \<times> nat) option" where
  "expand_loop max_len e src out len = do {
     c \<leftarrow> rd src 0;
     if c = 0 \<or> \<not> len < max_len - 1 then Some (out, len)
     else do {
       c1 \<leftarrow> (if c = 36 then rd src 1 else Some 0);
       if c = 36 \<and> c1 = 123 then do {
         (w, s) \<leftarrow> take_name (\<lambda>c. c \<noteq> 125) 31 (drop 2 src);
         q \<leftarrow> rd s 0;
         if q = 125 then do {
           (o1, len1) \<leftarrow> put_var max_len e w out len;
           expand_loop max_len e (tl s) o1 len1 }
         else expand_loop max_len e s out len }
       else if c = 36 \<and> name_start c1 then do {
         (w, s) \<leftarrow> take_name name_char 31 (tl src);
         (o1, len1) \<leftarrow> put_var max_len e w out len;
         expand_loop max_len e s o1 len1 }
       else do {
         o1 \<leftarrow> wr out len c;
         expand_loop max_len e (tl src) o1 (len + 1) } } }"
  by auto

termination expand_loop
proof (relation "measure (\<lambda>(m, e, src, out, len). length src)", goal_cases)
  case 1
  then show ?case by simp
qed (auto simp: rd_eq_Some dest!: take_name_rest)

declare expand_loop.simps [simp del]

definition expand_variables :: "bytes \<Rightarrow> bytes \<Rightarrow> nat \<Rightarrow> env \<Rightarrow> bytes option" where
  "expand_variables line expanded max_len e = do {
     (out, len) \<leftarrow> expand_loop max_len e line expanded 0;
     wr out len 0 }"

section \<open>The table as a map\<close>

definition env_ok :: "env \<Rightarrow> bool" where
  "env_ok e \<longleftrightarrow> length (env_vars e) = 16 \<and> env_count e \<le> 16
     \<and> (\<forall>v \<in> set (env_vars e). length (ev_name v) = 32 \<and> terminated (ev_name v)
          \<and> length (ev_value v) = 128 \<and> terminated (ev_value v))"

definition bindings :: "env \<Rightarrow> env_var list" where
  "bindings e = take (env_count e) (env_vars e)"

definition lookup :: "env \<Rightarrow> bytes \<Rightarrow> bytes option" where
  "lookup e n = map_option (\<lambda>v. cstr (ev_value v)) (find (\<lambda>v. cstr (ev_name v) = n) (bindings e))"

lemma env_okD:
  assumes "env_ok e"
  shows "length (env_vars e) = 16" "env_count e \<le> 16"
    and "i < 16 \<Longrightarrow> length (ev_name (env_vars e ! i)) = 32 \<and> terminated (ev_name (env_vars e ! i))
      \<and> length (ev_value (env_vars e ! i)) = 128 \<and> terminated (ev_value (env_vars e ! i))"
  using assms by (auto simp: env_ok_def)

lemma env_find_spec:
  assumes "terminated name" and "\<forall>i\<in>set is. i < length vs \<and> terminated (ev_name (vs ! i))"
  shows "env_find vs name is = Some (find (\<lambda>i. cstr (ev_name (vs ! i)) = cstr name) is)"
  using assms(2)
proof (induction "is")
  case Nil
  then show ?case by simp
next
  case (Cons i "is")
  then obtain r where "strcmp (ev_name (vs ! i)) name = Some r" "r = 0 \<longleftrightarrow> cstr (ev_name (vs ! i)) = cstr name"
    using strcmp_zero [of "ev_name (vs ! i)" name] strcmp_defined [of "ev_name (vs ! i)" name] assms(1) by fastforce
  with Cons show ?case by auto
qed

lemma env_find_ok:
  assumes "env_ok e" and "terminated name"
  shows "env_find (env_vars e) name [0..<env_count e]
    = Some (find (\<lambda>i. cstr (ev_name (env_vars e ! i)) = cstr name) [0..<env_count e])"
  using env_okD [OF assms(1)] by (intro env_find_spec assms(2)) auto

lemma lookup_index:
  assumes "env_ok e"
  shows "lookup e n = map_option (\<lambda>i. cstr (ev_value (env_vars e ! i)))
    (find (\<lambda>i. cstr (ev_name (env_vars e ! i)) = n) [0..<env_count e])"
proof -
  have "bindings e = map ((!) (env_vars e)) [0..<env_count e]"
    using env_okD(1,2) [OF assms] by (auto simp: bindings_def intro!: nth_equalityI)
  then have "lookup e n = map_option (\<lambda>v. cstr (ev_value v))
      (find (\<lambda>v. cstr (ev_name v) = n) (map ((!) (env_vars e)) [0..<env_count e]))"
    by (simp add: lookup_def)
  moreover have "find P (map f xs) = map_option f (find (\<lambda>x. P (f x)) xs)" for P and f :: "nat \<Rightarrow> env_var" and xs
    by (induction xs) auto
  ultimately show ?thesis by (simp add: option.map_comp comp_def)
qed

lemma get_env_var_spec:
  assumes "env_ok e" and "terminated name"
  shows "\<exists>r. get_env_var name e = Some r \<and> map_option cstr r = lookup e (cstr name)
    \<and> (\<forall>v. r = Some v \<longrightarrow> terminated v)"
proof (cases "find (\<lambda>i. cstr (ev_name (env_vars e ! i)) = cstr name) [0..<env_count e]")
  case None
  then show ?thesis
    by (simp add: get_env_var_def env_find_ok [OF assms] lookup_index [OF assms(1)])
next
  case (Some i)
  then have "i < env_count e" by (auto simp: find_Some_iff)
  then have "i < 16" using env_okD(2) [OF assms(1)] by simp
  then show ?thesis using Some env_okD(1,3) [OF assms(1)]
    by (simp add: get_env_var_def env_find_ok [OF assms] lookup_index [OF assms(1)])
qed

lemma store_field_spec:
  assumes "length field = n + 1" and "terminated s"
  shows "\<exists>m. store_field n field s = Some m \<and> length m = n + 1 \<and> terminated m \<and> cstr m = take n (cstr s)"
proof -
  let ?t = "take n (cstr s)"
  have len: "length ?t \<le> n" by simp
  have z: "0 \<notin> set ?t" by (auto dest: in_set_takeD)
  define m where "m = blit field 0 (?t @ [0])"
  have m: "strncpy field 0 s n = Some m" using strncpy_blit [of s 0 n field] assms by (simp add: m_def min_def)
  have lm: "length m = n + 1" using assms(1) len by (simp add: m_def)
  have eq: "m = ?t @ 0 # drop (length ?t + 1) field" by (simp add: m_def blit_def)
  have "\<exists>r. m[n := 0] = ?t @ 0 # r"
    using len by (subst eq) (auto simp: list_update_append split: nat.split)
  then obtain r where "m[n := 0] = ?t @ 0 # r" by blast
  then have "cstr (m[n := 0]) = ?t" "terminated (m[n := 0])" using z by simp_all
  then show ?thesis using m lm by (simp add: store_field_def)
qed

text \<open>
  Setting a variable of at most 31 characters: the table stays well formed, the name then has the first
  127 characters of the value, and no other name changes. A new name is dropped when the table is full.
\<close>

lemma lookup_None_iff: "lookup e n = None \<longleftrightarrow> (\<forall>v\<in>set (bindings e). cstr (ev_name v) \<noteq> n)"
  by (auto simp: lookup_def find_None_iff)

lemma lookup_update:
  assumes "env_ok e" and "i < env_count e" and "find (\<lambda>i. cstr (ev_name (env_vars e ! i)) = n) [0..<env_count e] = Some i"
    and "cstr (ev_name x) = n"
  shows "lookup (e\<lparr>env_vars := (env_vars e)[i := x]\<rparr>) m = (if m = n then Some (cstr (ev_value x)) else lookup e m)"
proof -
  let ?vs = "env_vars e" and ?vs' = "(env_vars e)[i := x]"
  have i: "i < length ?vs" "cstr (ev_name (?vs ! i)) = n" and before: "\<forall>j<i. cstr (ev_name (?vs ! j)) \<noteq> n"
    using assms(2,3) env_okD(1,2) [OF assms(1)] by (auto simp: find_Some_iff)
  have b: "bindings (e\<lparr>env_vars := ?vs'\<rparr>) = (bindings e)[i := x]"
    by (simp add: bindings_def take_update_swap)
  have l: "length (bindings e) = env_count e" using env_okD(1,2) [OF assms(1)] by (simp add: bindings_def)
  have split: "bindings e = take i (bindings e) @ ?vs ! i # drop (i + 1) (bindings e)"
    using assms(2) l id_take_nth_drop [of i "bindings e"] by (simp add: bindings_def)
  have split': "(bindings e)[i := x] = take i (bindings e) @ x # drop (i + 1) (bindings e)"
    using assms(2) l by (simp add: upd_conv_take_nth_drop)
  have find_app: "find P (xs @ ys) = (case find P xs of None \<Rightarrow> find P ys | r \<Rightarrow> r)" for P :: "env_var \<Rightarrow> bool" and xs ys
    by (induction xs) auto
  have none: "find (\<lambda>v. cstr (ev_name v) = n) (take i (bindings e)) = None"
    using before assms(2) by (auto simp: find_None_iff bindings_def in_set_conv_nth)
  show ?thesis
  proof (cases "m = n")
    case True
    then show ?thesis using none assms(4) by (simp add: lookup_def b split' find_app)
  next
    case False
    have "find (\<lambda>v. cstr (ev_name v) = m) ((bindings e)[i := x]) = find (\<lambda>v. cstr (ev_name v) = m) (bindings e)"
    proof -
      have "find (\<lambda>v. cstr (ev_name v) = m) (x # r) = find (\<lambda>v. cstr (ev_name v) = m) (env_vars e ! i # r)" for r
        using False i(2) assms(4) by simp
      then show ?thesis by (subst (2) split, subst split') (simp only: find_app)
    qed
    then show ?thesis using False by (simp add: lookup_def b)
  qed
qed

lemma set_env_var_spec:
  assumes "env_ok e" and "terminated name" and "length (cstr name) \<le> 31" and "terminated v"
  shows "\<exists>e'. set_env_var name v e = Some e' \<and> env_ok e'
    \<and> (\<forall>n. lookup e' n = (if n = cstr name \<and> (lookup e n \<noteq> None \<or> env_count e < 16)
          then Some (take 127 (cstr v)) else lookup e n))"
proof (cases "find (\<lambda>i. cstr (ev_name (env_vars e ! i)) = cstr name) [0..<env_count e]")
  case (Some i)
  have i: "i < env_count e" "i < 16" and nm: "cstr (ev_name (env_vars e ! i)) = cstr name"
    using Some env_okD(2) [OF assms(1)] by (auto simp: find_Some_iff)
  obtain val where val: "store_field 127 (ev_value (env_vars e ! i)) v = Some val" "length val = 128" "terminated val"
    "cstr val = take 127 (cstr v)"
    using store_field_spec [of "ev_value (env_vars e ! i)" 127 v] env_okD(3) [OF assms(1) i(2)] assms(4) by auto
  define x where "x = (env_vars e ! i)\<lparr>ev_value := val\<rparr>"
  have "set_env_var name v e = Some (e\<lparr>env_vars := (env_vars e)[i := x]\<rparr>)"
    using Some i val(1) env_okD(1) [OF assms(1)] by (simp add: set_env_var_def env_find_ok [OF assms(1,2)] x_def)
  moreover have "env_ok (e\<lparr>env_vars := (env_vars e)[i := x]\<rparr>)"
    using assms(1) val env_okD(3) [OF assms(1) i(2)] by (auto simp: env_ok_def x_def dest!: set_update_subset_insert [THEN subsetD])
  moreover have "lookup e (cstr name) \<noteq> None"
    using Some by (simp add: lookup_index [OF assms(1)])
  ultimately show ?thesis
    using lookup_update [OF assms(1) i(1) Some, of x] nm val(4) by (simp add: x_def)
next
  case None
  have new: "lookup e (cstr name) = None" using None by (simp add: lookup_index [OF assms(1)])
  show ?thesis
  proof (cases "env_count e < 16")
    case False
    then have "set_env_var name v e = Some e"
      using None by (simp add: set_env_var_def env_find_ok [OF assms(1,2)])
    then show ?thesis using False new assms(1) by auto
  next
    case True
    let ?x = "env_vars e ! env_count e"
    obtain val where val: "store_field 127 (ev_value ?x) v = Some val" "length val = 128" "terminated val"
      "cstr val = take 127 (cstr v)"
      using store_field_spec [of "ev_value ?x" 127 v] env_okD(3) [OF assms(1) True] assms(4) by auto
    obtain nm where nm: "store_field 31 (ev_name ?x) name = Some nm" "length nm = 32" "terminated nm"
      "cstr nm = cstr name"
      using store_field_spec [of "ev_name ?x" 31 name] env_okD(3) [OF assms(1) True] assms(2,3) by auto
    define x where "x = ?x\<lparr>ev_name := nm, ev_value := val\<rparr>"
    define e' where "e' = e\<lparr>env_vars := (env_vars e)[env_count e := x], env_count := env_count e + 1\<rparr>"
    have "set_env_var name v e = Some e'"
      using None True val(1) nm(1) env_okD(1) [OF assms(1)]
      by (simp add: set_env_var_def env_find_ok [OF assms(1,2)] e'_def x_def)
    moreover have "env_ok e'"
      using assms(1) val nm True by (auto simp: env_ok_def e'_def x_def dest!: set_update_subset_insert [THEN subsetD])
    moreover have "bindings e' = bindings e @ [x]"
      using True env_okD(1) [OF assms(1)] by (simp add: bindings_def e'_def take_Suc_conv_app_nth)
    then have "lookup e' n = (if n = cstr name then Some (take 127 (cstr v)) else lookup e n)" for n
    proof -
      have find_app: "find P (xs @ [y]) = (case find P xs of None \<Rightarrow> if P y then Some y else None | r \<Rightarrow> r)"
        for P :: "env_var \<Rightarrow> bool" and xs y
        by (induction xs) auto
      show ?thesis using \<open>bindings e' = bindings e @ [x]\<close> new nm(4) val(4)
        by (auto simp: lookup_def find_app x_def split: option.splits)
    qed
    ultimately show ?thesis using True by (intro exI [of _ e']) auto
  qed
qed

section \<open>The text a line stands for\<close>

definition value_of :: "(bytes \<Rightarrow> bytes option) \<Rightarrow> bytes \<Rightarrow> bytes" where
  "value_of look w = (case look w of None \<Rightarrow> [] | Some v \<Rightarrow> v)"

text \<open>
  \<open>${NAME}\<close> and \<open>$NAME\<close> stand for the value of the variable, nothing when it is not set. A name has at
  most 31 characters; a braced name that is longer is dropped up to there and the rest of it is text.
\<close>

function expansion :: "(bytes \<Rightarrow> bytes option) \<Rightarrow> bytes \<Rightarrow> bytes" where
  "expansion look [] = []"
| "expansion look (c # s) =
     (if c = 36 \<and> s \<noteq> [] \<and> hd s = 123 then
        (let w = take 31 (takeWhile (\<lambda>c. c \<noteq> 125) (tl s)); r = drop (length w) (tl s)
         in if r \<noteq> [] \<and> hd r = 125 then value_of look w @ expansion look (tl r) else expansion look r)
      else if c = 36 \<and> s \<noteq> [] \<and> name_start (hd s) then
        (let w = take 31 (takeWhile name_char s) in value_of look w @ expansion look (drop (length w) s))
      else c # expansion look s)"
  by pat_completeness auto

termination expansion
  by (relation "measure (\<lambda>(look, s). length s)") (auto simp: Let_def)

declare expansion.simps(2) [simp del]

lemma take_name_spec:
  "terminated s \<Longrightarrow> take_name P room s
     = Some (take room (takeWhile P (cstr s)), drop (length (take room (takeWhile P (cstr s)))) s)"
proof (induction s arbitrary: room)
  case Nil
  then show ?case by simp
next
  case (Cons c s)
  then show ?case by (cases room) auto
qed

lemma length_name_le: "length (take n (takeWhile P s)) \<le> length s"
  using length_takeWhile_le [of P s] by simp

lemma put_value_spec:
  "terminated v \<Longrightarrow> len \<le> m - 1 \<Longrightarrow> m - 1 < length out \<Longrightarrow>
   put_value m v out len = Some (blit out len (take (m - 1 - len) (cstr v)), len + length (take (m - 1 - len) (cstr v)))"
proof (induction m v out len rule: put_value.induct)
  case (1 m out len)
  then show ?case by simp
next
  case (2 m c v out len)
  show ?case
  proof (cases "c \<noteq> 0 \<and> len < m - 1")
    case True
    then obtain k where k: "m - 1 - len = Suc k" "m - 1 - (len + 1) = k" by (cases "m - 1 - len") auto
    have "put_value m v (out[len := c]) (len + 1)
        = Some (blit (out[len := c]) (len + 1) (take k (cstr v)), len + 1 + length (take k (cstr v)))"
      using 2 True k(2) by simp
    moreover have "blit out len (c # take k (cstr v)) = blit (out[len := c]) (Suc len) (take k (cstr v))"
      using 2(4) k True by (intro blit_Cons) (auto simp: min_def)
    ultimately show ?thesis using True k(1) 2(4) by simp
  next
    case False
    then show ?thesis using 2 by auto
  qed
qed

lemma var_name_cstr: "0 \<notin> set w \<Longrightarrow> length w < 32 \<Longrightarrow> terminated (var_name w) \<and> cstr (var_name w) = w"
  by (cases "32 - length w") (auto simp: var_name_def terminated_def)

lemma put_var_spec:
  assumes "env_ok e" and "0 \<notin> set w" and "length w < 32" and "len \<le> m - 1" and "m - 1 < length out"
  shows "put_var m e w out len = Some (blit out len (take (m - 1 - len) (value_of (lookup e) w)),
    len + length (take (m - 1 - len) (value_of (lookup e) w)))"
proof -
  obtain r where r: "get_env_var (var_name w) e = Some r" "map_option cstr r = lookup e w" "\<forall>v. r = Some v \<longrightarrow> terminated v"
    using get_env_var_spec [OF assms(1), of "var_name w"] var_name_cstr [OF assms(2,3)] by auto
  then show ?thesis
    using put_value_spec [of _ len m out] assms(4,5) by (cases r) (auto simp: put_var_def value_of_def r(2) [symmetric])
qed

text \<open>Output is cut at \<open>max_len - 1\<close>: what follows a piece \<open>a\<close> starts where its cut ends.\<close>

lemma emit_append:
  assumes "len \<le> n" and "n < length out" and "l1 = len + length (take (n - len) a)"
    and "f = Some (blit (blit out len (take (n - len) a)) l1 (take (n - l1) b), l1 + length (take (n - l1) b))"
  shows "f = Some (blit out len (take (n - len) (a @ b)), len + length (take (n - len) (a @ b)))"
proof -
  have t: "take (n - len) (a @ b) = take (n - len) a @ take (n - l1) b"
    unfolding assms(3) by (cases "length a \<le> n - len") auto
  have "blit (blit out len (take (n - len) a)) l1 (take (n - l1) b) = blit out len (take (n - len) (a @ b))"
    unfolding t assms(3) by (rule blit_blit_next) (use assms(1-3) in auto)
  then show ?thesis unfolding assms(4) using t assms(3) by simp
qed

text \<open>What the name of a variable takes from the line, and what is left.\<close>

lemma name_rest:
  assumes "terminated t" and "w = take 31 (takeWhile P (cstr t))" and "q = drop (length w) t"
  shows "length w < 32" "0 \<notin> set w" "terminated q" "cstr q = drop (length w) (cstr t)" "length q \<le> length t"
proof -
  have le: "length w \<le> length (cstr t)" using length_name_le [of 31 P "cstr t"] assms(2) by simp
  show "length w < 32" "0 \<notin> set w"
    unfolding assms(2) using cstr_no_zero [of t] by (auto dest!: in_set_takeD set_takeWhileD)
  show "terminated q" "cstr q = drop (length w) (cstr t)" "length q \<le> length t"
    unfolding assms(3) using terminated_drop [OF assms(1) le] cstr_drop [OF le] by auto
qed

lemma expand_braced:
  assumes "terminated t" and "w = take 31 (takeWhile (\<lambda>c. c \<noteq> 125) (cstr t))" and "q = drop (length w) t" and "rd q 0 = Some x"
  shows "len < m - 1 \<Longrightarrow> expand_loop m e (36 # 123 # t) out len =
      (if x = 125 then do { (o1, l1) \<leftarrow> put_var m e w out len; expand_loop m e (tl q) o1 l1 } else expand_loop m e q out len)"
    and "expansion f (36 # 123 # cstr t) = (if x = 125 then value_of f w @ expansion f (cstr (tl q)) else expansion f (cstr q))"
proof -
  show "len < m - 1 \<Longrightarrow> expand_loop m e (36 # 123 # t) out len =
      (if x = 125 then do { (o1, l1) \<leftarrow> put_var m e w out len; expand_loop m e (tl q) o1 l1 } else expand_loop m e q out len)"
    using assms(4) take_name_spec [OF assms(1), of "\<lambda>c. c \<noteq> 125" 31]
    by (subst expand_loop.simps) (simp add: assms(2,3))
  have "cstr q \<noteq> [] \<longleftrightarrow> x \<noteq> 0" "x \<noteq> 0 \<Longrightarrow> cstr q = x # cstr (tl q)"
    using name_rest(3) [OF assms(1-3)] assms(4) by (cases q; auto)+
  then have "(cstr q \<noteq> [] \<and> hd (cstr q) = 125) = (x = 125)" "x = 125 \<Longrightarrow> tl (cstr q) = cstr (tl q)" by auto
  moreover have "expansion f (36 # 123 # cstr t)
      = (if cstr q \<noteq> [] \<and> hd (cstr q) = 125 then value_of f w @ expansion f (tl (cstr q)) else expansion f (cstr q))"
    unfolding name_rest(4) [OF assms(1-3)] assms(2) by (simp only: expansion.simps(2) [of _ 36] Let_def list.sel) simp
  ultimately show "expansion f (36 # 123 # cstr t) = (if x = 125 then value_of f w @ expansion f (cstr (tl q)) else expansion f (cstr q))"
    by simp
qed

lemma expand_plain:
  assumes "terminated s" and "rd s 0 = Some d" and "d \<noteq> 123" and "name_start d"
    and "w = take 31 (takeWhile name_char (cstr s))" and "q = drop (length w) s"
  shows "len < m - 1 \<Longrightarrow> expand_loop m e (36 # s) out len = do { (o1, l1) \<leftarrow> put_var m e w out len; expand_loop m e q o1 l1 }"
    and "expansion f (36 # cstr s) = value_of f w @ expansion f (cstr q)"
proof -
  show "len < m - 1 \<Longrightarrow> expand_loop m e (36 # s) out len = do { (o1, l1) \<leftarrow> put_var m e w out len; expand_loop m e q o1 l1 }"
    using assms(2-4) take_name_spec [OF assms(1), of name_char 31]
    by (subst expand_loop.simps) (simp add: assms(5,6) rd_def split: if_splits)
  have "d \<noteq> 0" using assms(4) by (auto simp: name_start_def)
  then have "cstr s \<noteq> []" "hd (cstr s) = d" using assms(1,2) by (cases s; auto)+
  then show "expansion f (36 # cstr s) = value_of f w @ expansion f (cstr q)"
    unfolding name_rest(4) [OF assms(1,5,6)] assms(5) using assms(3,4) by (subst expansion.simps(2)) (simp add: Let_def)
qed

lemma expand_loop_spec:
  assumes "env_ok e" and "terminated src" and "len \<le> m - 1" and "m - 1 < length out"
  shows "expand_loop m e src out len = Some (blit out len (take (m - 1 - len) (expansion (lookup e) (cstr src))),
    len + length (take (m - 1 - len) (expansion (lookup e) (cstr src))))"
  using assms(2-)
proof (induction "length src" arbitrary: src out len rule: less_induct)
  case less
  let ?X = "expansion (lookup e)"
  obtain c s where src: "src = c # s" using less.prems(1) by (cases src) auto
  show ?case
  proof (cases "c = 0 \<or> \<not> len < m - 1")
    case True
    then show ?thesis using src less.prems(2) by (subst expand_loop.simps) auto
  next
    case go: False
    then have ts: "terminated s" and cs: "cstr src = c # cstr s" using src less.prems(1) by auto
    have IH: "expand_loop m e q o1 l1 = Some (blit o1 l1 (take (m - 1 - l1) (?X (cstr q))), l1 + length (take (m - 1 - l1) (?X (cstr q))))"
      if "length q < length src" "terminated q" "l1 \<le> m - 1" "m - 1 < length o1" for q o1 l1
      by (rule less.hyps [OF that])
    obtain d where d: "rd s 0 = Some d" "cstr s \<noteq> [] \<longleftrightarrow> d \<noteq> 0" "d \<noteq> 0 \<Longrightarrow> cstr s = d # cstr (tl s) \<and> terminated (tl s)"
      using ts by (cases s) auto
    have r1: "rd src 1 = Some d" using d(1) src by (auto simp: rd_def)
    have r0: "rd src 0 = Some c" "tl src = s" "drop 2 src = tl s" using src by (simp_all add: drop_Suc numeral_2_eq_2)
    have emitted: "(do { (o1, l1) \<leftarrow> put_var m e w out len; expand_loop m e q o1 l1 })
        = Some (blit out len (take (m - 1 - len) (value_of (lookup e) w @ ?X (cstr q))),
            len + length (take (m - 1 - len) (value_of (lookup e) w @ ?X (cstr q))))"
      if "0 \<notin> set w" "length w < 32" "length q < length src" "terminated q" for w q
    proof -
      let ?a = "value_of (lookup e) w"
      define l1 where "l1 = len + length (take (m - 1 - len) ?a)"
      have b: "l1 \<le> m - 1" "length (blit out len (take (m - 1 - len) ?a)) = length out"
        using less.prems(2,3) by (auto simp: l1_def)
      show ?thesis unfolding put_var_spec [OF assms(1) that(1,2) less.prems(2,3)] bind.bind_lunit prod.case l1_def [symmetric]
        by (rule emit_append [OF less.prems(2,3) l1_def IH]) (use that b less.prems(3) in auto)
    qed
    consider (brace) "c = 36" "d = 123" | (plain) "c = 36" "d \<noteq> 123" "name_start d"
      | (char) "\<not> (c = 36 \<and> (d = 123 \<or> name_start d))" by blast
    then show ?thesis
    proof cases
      case brace
      then have src2: "src = 36 # 123 # tl s" "cstr src = 36 # 123 # cstr (tl s)" and tt: "terminated (tl s)"
        using d src cs by (cases s; auto)+
      define w where "w = take 31 (takeWhile (\<lambda>c. c \<noteq> 125) (cstr (tl s)))"
      define q where "q = drop (length w) (tl s)"
      note nr = name_rest [OF tt w_def q_def]
      obtain x where x: "rd q 0 = Some x" "x \<noteq> 0 \<Longrightarrow> cstr q = x # cstr (tl q) \<and> terminated (tl q)" using nr(3) by (cases q) auto
      note step = expand_braced [OF tt w_def q_def x(1)]
      have lq: "length q < length src" using nr(5) src2(1) by simp
      show ?thesis
      proof (cases "x = 125")
        case True
        then have "terminated (tl q)" "length (tl q) < length src" using x(2) lq by auto
        from emitted [OF nr(2,1) this(2,1)] show ?thesis using step go True by (simp add: src2)
      next
        case False
        then show ?thesis using step go IH [OF lq nr(3) less.prems(2,3)] by (simp add: src2)
      qed
    next
      case plain
      define w where "w = take 31 (takeWhile name_char (cstr s))"
      define q where "q = drop (length w) s"
      note nr = name_rest [OF ts w_def q_def]
      have lq: "length q < length src" using nr(5) src by simp
      show ?thesis
        using expand_plain [OF ts d(1) plain(2,3) w_def q_def] go emitted [OF nr(2,1) lq nr(3)] cs by (simp add: src plain(1))
    next
      case char
      have unf: "expand_loop m e src out len = expand_loop m e s (out[len := c]) (len + 1)"
        using go char less.prems(3) by (subst expand_loop.simps) (auto simp: r0 r1 [simplified])
      have ex: "?X (cstr src) = [c] @ ?X (cstr s)"
        unfolding cs using char d(2,3) by (subst expansion.simps(2)) auto
      have tk: "take (m - 1 - len) [c] = [c]" using go by (cases "m - 1 - len") auto
      have bl: "blit out len [c] = out[len := c]" using go less.prems(3) by (simp add: blit_Cons)
      have i: "expand_loop m e s (out[len := c]) (len + 1) = Some (blit (out[len := c]) (len + 1) (take (m - 1 - (len + 1)) (?X (cstr s))),
          len + 1 + length (take (m - 1 - (len + 1)) (?X (cstr s))))"
        by (rule IH) (use go src ts less.prems(3) in auto)
      show ?thesis unfolding unf ex
        by (rule emit_append [OF less.prems(2,3), of "len + 1"]) (use i in \<open>simp_all only: tk bl list.size\<close>)
    qed
  qed
qed

section \<open>Properties\<close>

definition empty_env :: env where
  "empty_env = \<lparr>env_vars = replicate 16 \<lparr>ev_name = replicate 32 0, ev_value = replicate 128 0\<rparr>, env_count = 0\<rparr>"

lemma empty_env_ok [simp]: "env_ok empty_env"
  by (simp add: env_ok_def empty_env_def terminated_def)

lemma empty_env_lookup [simp]: "lookup empty_env n = None" "env_count empty_env = 0"
  by (simp_all add: lookup_def bindings_def empty_env_def)

text \<open>
  C28. After \<open>set_env_var\<close> the table is well formed and \<open>get_env_var\<close> finds, for the name set, the first 127
  characters of the value, and for every other name what it found before. Only a new name at a full
  table is dropped.
\<close>

theorem env_set_get:
  assumes "env_ok e" and "terminated name" and "length (cstr name) \<le> 31" and "terminated v" and "terminated n"
  shows "\<exists>e' r r'. set_env_var name v e = Some e' \<and> env_ok e'
    \<and> get_env_var n e = Some r \<and> get_env_var n e' = Some r'
    \<and> map_option cstr r' = (if cstr n = cstr name \<and> (r \<noteq> None \<or> env_count e < 16)
         then Some (take 127 (cstr v)) else map_option cstr r)"
proof -
  obtain e' where e': "set_env_var name v e = Some e'" "env_ok e'"
    "lookup e' (cstr n) = (if cstr n = cstr name \<and> (lookup e (cstr n) \<noteq> None \<or> env_count e < 16)
       then Some (take 127 (cstr v)) else lookup e (cstr n))"
    using set_env_var_spec [OF assms(1-4)] by blast
  obtain r where r: "get_env_var n e = Some r" "map_option cstr r = lookup e (cstr n)"
    using get_env_var_spec [OF assms(1,5)] by blast
  obtain r' where r': "get_env_var n e' = Some r'" "map_option cstr r' = lookup e' (cstr n)"
    using get_env_var_spec [OF e'(2) assms(5)] by blast
  have "r \<noteq> None \<longleftrightarrow> lookup e (cstr n) \<noteq> None" unfolding r(2) [symmetric] by simp
  then show ?thesis using e' r r' by auto
qed

theorem env_set_get_witness:
  "\<exists>e' r. set_env_var (zlit ''HOME'') (zlit ''/root'') empty_env = Some e' \<and> get_env_var (zlit ''HOME'') e' = Some (Some r)
    \<and> cstr r = lit ''/root''"
proof -
  have "cstr (zlit ''HOME'') = lit ''HOME''" "cstr (zlit ''/root'') = lit ''/root''" by (simp_all add: lit_def)
  then show ?thesis
    using env_set_get [of empty_env "zlit ''HOME''" "zlit ''/root''" "zlit ''HOME''"] by (auto simp: lit_def)
qed

text \<open>
  C27. \<open>expand_variables\<close> writes the line with every variable replaced by its value, cut to
  \<open>max_len - 1\<close> characters and terminated; it stays inside the \<open>max_len\<close> bytes for every line and table.
\<close>

theorem expand_substitutes:
  assumes "env_ok e" and "terminated line" and "0 < max_len" and "max_len \<le> length expanded"
  shows "expand_variables line expanded max_len e
    = Some (blit expanded 0 (take (max_len - 1) (expansion (lookup e) (cstr line)) @ [0]))"
proof -
  let ?X = "take (max_len - 1) (expansion (lookup e) (cstr line))"
  have "expand_loop max_len e line expanded 0 = Some (blit expanded 0 ?X, length ?X)"
    using expand_loop_spec [OF assms(1,2), of 0 max_len expanded] assms(3,4) by simp
  moreover have "length ?X < max_len" using assms(3) by simp
  then have "wr (blit expanded 0 ?X) (length ?X) 0 = Some (blit expanded 0 (?X @ [0]))"
    using assms(4) by (simp add: wr_def blit_def list_update_append flip: Cons_nth_drop_Suc)
  ultimately show ?thesis by (simp add: expand_variables_def)
qed

theorem expand_substitutes_witness:
  "expand_variables (zlit ''a${X}b$Y-'') (replicate 8 1) 8 empty_env = Some (blit (replicate 8 1) 0 (zlit ''ab-''))"
proof -
  have l: "lookup empty_env = (\<lambda>_. None)" by (rule ext) simp
  have "expansion (\<lambda>_. None) (lit ''a${X}b$Y-'') = lit ''ab-''"
    by (simp add: lit_def expansion.simps value_of_def name_start_def name_char_def Let_def)
  then show ?thesis
    using expand_substitutes [of empty_env "zlit ''a${X}b$Y-''" 8 "replicate 8 1"]
    by (simp add: lit_def l)
qed

end
