(* ===== verification/Shell.thy ===== *)
theory Shell
  imports Utils Shell_Env Interrupts
begin

text \<open>
  The command interpreter, user/shell.c: one definition per command, the two script interpreters, and the
  command line with its separators.

  The state joins the parts the commands work on: the console, whose devices are those the disk driver
  drives too; the threads, whose heap is the one the file system allocates from; the file system; the
  flag \<open>end\<close>, \<open>drive_num\<close>, the variables, and the static pointer of \<open>strtok\<close>. What is read of an array before
  it is written comes from \<open>junk\<close>. The bytes a freed list, script or command buffer leaves in the heap are not tracked.
  A NULL result of \<open>thread_get\<close> is not a thread: using it is \<open>None\<close>.
\<close>

section \<open>State and services\<close>

record 'd shell =
  s_con :: "'d console"
  s_threads :: sched
  s_fs :: "'d fs"
  s_end :: i32
  s_drive :: i32
  s_env :: env
  s_tok :: "bytes option"

text \<open>
  \<open>others\<close> is what the rest of the kernel does to the console and the threads from the moment the shell
  gives up the processor until it has it again.
\<close>

record 'd board =
  io :: "'d bus"
  drv :: "'d blockdev"
  ticks :: "nat \<Rightarrow> u32"
  junk :: bytes
  others :: "'d console \<times> sched \<Rightarrow> 'd console \<times> sched"

definition ln :: "string \<Rightarrow> bytes" where
  "ln s = lit s @ [10, 0]"

definition on_screen :: "('d console \<Rightarrow> 'd console option) \<Rightarrow> 'd shell \<Rightarrow> 'd shell option" where
  "on_screen f w = do { c \<leftarrow> f (s_con w); Some (w\<lparr>s_con := c\<rparr>) }"

definition say :: "'d board \<Rightarrow> bytes \<Rightarrow> varg list \<Rightarrow> 'd shell \<Rightarrow> 'd shell option" where
  "say b fmt args = on_screen (kprintf (io b) fmt args)"

definition says :: "'d board \<Rightarrow> bytes \<Rightarrow> 'd shell \<Rightarrow> 'd shell option" where
  "says b str = on_screen (kprint (io b) str)"

definition logs :: "'d board \<Rightarrow> i32 \<Rightarrow> bytes \<Rightarrow> varg list \<Rightarrow> 'd shell \<Rightarrow> 'd shell option" where
  "logs b lvl fmt args = on_screen (kdbg (io b) lvl fmt args)"

definition on_threads :: "(sched \<Rightarrow> sched option) \<Rightarrow> 'd shell \<Rightarrow> 'd shell option" where
  "on_threads f w = do { k \<leftarrow> f (s_threads w); Some (w\<lparr>s_threads := k\<rparr>) }"

text \<open>A call of the file system, on the common heap and devices.\<close>

definition on_fs :: "('d fs \<Rightarrow> ('a \<times> 'd fs) option) \<Rightarrow> 'd shell \<Rightarrow> ('a \<times> 'd shell) option" where
  "on_fs f w = do {
     (r, s) \<leftarrow> f ((s_fs w)\<lparr>disk := dev (s_con w), fheap := kheap (s_threads w)\<rparr>);
     Some (r, w\<lparr>s_fs := s, s_con := (s_con w)\<lparr>dev := disk s\<rparr>,
       s_threads := (s_threads w)\<lparr>kheap := fheap s\<rparr>\<rparr>) }"

definition alloc :: "u64 \<Rightarrow> 'd shell \<Rightarrow> (u64 \<times> 'd shell) option" where
  "alloc n w = do {
     (p, h) \<leftarrow> kmalloc n (kheap (s_threads w));
     Some (p, w\<lparr>s_threads := (s_threads w)\<lparr>kheap := h\<rparr>\<rparr>) }"

text \<open>\<open>kfree(p)\<close>, where \<open>bs\<close> is what the block holds.\<close>

definition give_back :: "u64 \<Rightarrow> bytes \<Rightarrow> 'd shell \<Rightarrow> 'd shell option" where
  "give_back p bs w = (
     let h = kheap (s_threads w)
     in on_threads (\<lambda>k. do { h1 \<leftarrow> kfree p (h\<lparr>hmem := put_bytes p bs (hmem h)\<rparr>); Some (k\<lparr>kheap := h1\<rparr>) }) w)"

definition block :: "u64 \<Rightarrow> nat \<Rightarrow> 'd shell \<Rightarrow> bytes" where
  "block p n w = load_bytes p n (hmem (kheap (s_threads w)))"

definition resume :: "'d board \<Rightarrow> 'd shell \<Rightarrow> 'd shell" where
  "resume b w = (let (c, k) = others b (s_con w, s_threads w) in w\<lparr>s_con := c, s_threads := k\<rparr>)"

definition yields :: "'d board \<Rightarrow> 'd shell \<Rightarrow> 'd shell option" where
  "yields b w = do { w1 \<leftarrow> on_threads thread_yield w; Some (resume b w1) }"

abbreviation dnum :: "'d shell \<Rightarrow> u8" where
  "dnum w \<equiv> ucast (s_drive w)"

definition read_dir :: "'d board \<Rightarrow> nat \<Rightarrow> 'd shell \<Rightarrow> ((i32 \<times> bytes list) \<times> 'd shell) option" where
  "read_dir b n w = on_fs (\<lambda>s. do {
     (r, es, s1) \<leftarrow> fat32_read_dir (drv b) (dnum w) (current_dir_cluster s) n s; Some ((r, es), s1) }) w"

definition read_file :: "'d board \<Rightarrow> u32 \<Rightarrow> bytes \<Rightarrow> u32 \<Rightarrow> 'd shell \<Rightarrow> ((i32 \<times> bytes) \<times> 'd shell) option" where
  "read_file b cl buf n w = on_fs (\<lambda>s. do {
     (r, buf1, s1) \<leftarrow> fat32_read_file (drv b) (dnum w) cl buf n s; Some ((r, buf1), s1) }) w"

text \<open>A record of 32 bytes: its attribute and size; the first file, or record, the name comparison accepts.\<close>

definition entry_size :: "bytes \<Rightarrow> u32 option" where
  "entry_size e = get32 e 28"

fun find_raw_file :: "bytes \<Rightarrow> bytes list \<Rightarrow> bytes option option" where
  "find_raw_file fatname [] = Some None"
| "find_raw_file fatname (e # es) = do {
     attr \<leftarrow> rd e 11;
     if attr AND 0x10 \<noteq> 0 then find_raw_file fatname es
     else do {
       r \<leftarrow> memcmp e fatname 11;
       if r = 0 then Some (Some e) else find_raw_file fatname es } }"

fun find_raw :: "bytes \<Rightarrow> bytes list \<Rightarrow> bytes option option" where
  "find_raw fatname [] = Some None"
| "find_raw fatname (e # es) = do {
     r \<leftarrow> memcmp e fatname 11;
     if r = 0 then Some (Some e) else find_raw fatname es }"

type_synonym 'd command = "bytes list \<Rightarrow> 'd shell \<Rightarrow> (i32 \<times> 'd shell) option"

definition fails :: "('d shell \<Rightarrow> 'd shell option) \<Rightarrow> 'd shell \<Rightarrow> (i32 \<times> 'd shell) option" where
  "fails f w = do { w1 \<leftarrow> f w; Some (1, w1) }"

definition succeeds :: "('d shell \<Rightarrow> 'd shell option) \<Rightarrow> 'd shell \<Rightarrow> (i32 \<times> 'd shell) option" where
  "succeeds f w = do { w1 \<leftarrow> f w; Some (0, w1) }"

section \<open>Commands without files\<close>

definition cmd_exit :: "'d command" where
  "cmd_exit args w = Some (0, w\<lparr>s_end := 1\<rparr>)"

definition cmd_disk :: "'d board \<Rightarrow> 'd command" where
  "cmd_disk b args w =
     (if length args = 2 then do { a \<leftarrow> rd args 1; n \<leftarrow> atoi a; Some (0, w\<lparr>s_drive := n\<rparr>) }
      else if length args = 1 then succeeds (say b (ln ''%d'') [Num (scast (s_drive w))]) w
      else fails (say b (ln ''<(0C)>Usage: disk <drive_number><(07)>'') []) w)"

definition cmd_help :: "'d board \<Rightarrow> 'd command" where
  "cmd_help b args = succeeds (says b (ln ''help command''))"

definition cmd_info :: "'d board \<Rightarrow> 'd command" where
  "cmd_info b args = succeeds (say b
     (lit ''%s %s Operating System'' @ [10] @ lit ''BSD 3-Clause License'' @ [10] @ ln ''Copyright (c) 2025 fcexx'')
     [Str (zlit ''Hatcher''), Str (zlit ''1.01'')])"

definition cmd_clear :: "'d board \<Rightarrow> 'd command" where
  "cmd_clear b args w = do {
     w1 \<leftarrow> on_screen (kclear (io b)) w;
     succeeds (say b [10, 10, 0] []) w1 }"

definition state_text :: "thread_state \<Rightarrow> bytes" where
  "state_text st = zlit (case st of
       THREAD_READY \<Rightarrow> ''READY'' | THREAD_RUNNING \<Rightarrow> ''RUNNING'' | THREAD_BLOCKED \<Rightarrow> ''BLOCKED''
     | THREAD_TERMINATED \<Rightarrow> ''TERMINATED'' | THREAD_SLEEPING \<Rightarrow> ''SLEEPING'')"

text \<open>One line of \<open>lspid\<close>; \<open>state_str\<close> has 10 bytes.\<close>

definition list_thread :: "'d board \<Rightarrow> nat \<Rightarrow> 'd shell \<Rightarrow> 'd shell option" where
  "list_thread b i w = do {
     p \<leftarrow> thread_get (of_nat i) (s_threads w);
     t \<leftarrow> tobj (s_threads w) p;
     state_str \<leftarrow> strcpy (take 10 (junk b)) 0 (state_text (t_state t));
     w1 \<leftarrow> say b (zlit ''[%d] %s, state: %s'') [Num (t_tid t), Str (name_bytes t), Str state_str] w;
     w2 \<leftarrow> (if t_state t = THREAD_SLEEPING
       then say b (zlit '' (wake at tick %u)'') [Num (ucast (sleep_until t))] w1 else Some w1);
     say b [10, 0] [] w2 }"

definition cmd_lspid :: "'d board \<Rightarrow> 'd command" where
  "cmd_lspid b args w =
     (if length args = 1 then succeeds (iter (list_thread b) [0..<thread_get_count (s_threads w)]) w
      else fails (say b (ln ''<(0C)>Usage: lspid<(07)>'') []) w)"

definition cmd_sleep :: "'d board \<Rightarrow> 'd command" where
  "cmd_sleep b args w =
     (if length args = 2 then do {
        a \<leftarrow> rd args 1;
        ms \<leftarrow> atoi a;
        w1 \<leftarrow> on_threads (thread_sleep ms) w;
        Some (0, if ms = 0 then w1 else resume b w1) }
      else fails (say b (ln ''<(0C)>Usage: sleep <milliseconds><(07)>'') []) w)"

definition cmd_stop :: "'d board \<Rightarrow> 'd command" where
  "cmd_stop b args w =
     (if length args = 2 then do {
        a \<leftarrow> rd args 1;
        pid \<leftarrow> atoi a;
        if pid = 0 then fails (logs b 3 (ln ''thread_stop: access denied'') []) w
        else do {
          sh \<leftarrow> thread_get_pid (zlit ''shell'') (s_threads w);
          if pid = sh then do {
            w1 \<leftarrow> logs b 2 (ln ''thread_stop: stopping shell'') [] w;
            succeeds (on_threads (thread_stop pid)) (w1\<lparr>s_end := 1\<rparr>) }
          else do {
            w1 \<leftarrow> on_threads (thread_stop pid) w;
            succeeds (logs b 1 (ln ''thread_stop: pid %d stopped'') [Num (scast pid)]) w1 } } }
      else fails (say b (ln ''<(0C)>Usage: stop <pid><(07)>'') []) w)"

definition cmd_unblock :: "'d board \<Rightarrow> 'd command" where
  "cmd_unblock b args w =
     (if length args = 2 then do {
        a \<leftarrow> rd args 1;
        pid \<leftarrow> atoi a;
        w1 \<leftarrow> on_threads (thread_unblock pid) w;
        succeeds (logs b 1 (ln ''thread_unblock: pid %d unblocked'') [Num (scast pid)]) w1 }
      else fails (say b (ln ''<(0C)>Usage: unblock <pid><(07)>'') []) w)"

definition cmd_block :: "'d board \<Rightarrow> 'd command" where
  "cmd_block b args w =
     (if length args = 2 then do {
        a \<leftarrow> rd args 1;
        pid \<leftarrow> atoi a;
        if pid = 0 then fails (logs b 3 (ln ''thread_block: access denied'') []) w
        else do {
          w1 \<leftarrow> on_threads (thread_block pid) w;
          succeeds (logs b 1 (ln ''thread_block: pid %d blocked'') [Num (scast pid)]) w1 } }
      else fails (say b (ln ''<(0C)>Usage: block <pid><(07)>'') []) w)"

definition cmd_beep :: "'d board \<Rightarrow> 'd command" where
  "cmd_beep b args w =
     (if length args > 2 then do {
        a \<leftarrow> rd args 1;
        freq \<leftarrow> atoi a;
        c \<leftarrow> rd args 2;
        duration \<leftarrow> atoi c;
        d \<leftarrow> pc_speaker_beep (io b) (ticks b) freq duration (dev (s_con w));
        Some (0, w\<lparr>s_con := (s_con w)\<lparr>dev := d\<rparr>\<rparr>) }
      else fails (say b (ln ''<(0C)>Usage: beep <frequency> <duration><(07)>'') []) w)"

definition cmd_yield :: "'d board \<Rightarrow> 'd command" where
  "cmd_yield b args = succeeds (yields b)"

definition cmd_unknown :: "'d board \<Rightarrow> 'd command" where
  "cmd_unknown b args w = do {
     a0 \<leftarrow> rd args 0;
     fails (say b (ln ''<(0C)>%s?<(07)>'') [Str a0]) w }"

section \<open>Commands on the disk\<close>

definition cmd_mkfs :: "'d board \<Rightarrow> 'd command" where
  "cmd_mkfs b args w = do {
     (_, w1) \<leftarrow> on_fs (\<lambda>s. map_option (Pair ()) (fat32_create_fs (drv b) (dnum w) s)) w;
     Some (0, w1) }"

definition cmd_cd :: "'d board \<Rightarrow> 'd command" where
  "cmd_cd b args w =
     (if length args < 2 then fails (says b (ln ''<(0C)>Usage: cd <path><(07)>'')) w
      else do {
        path \<leftarrow> rd args 1;
        (cd_res, w1) \<leftarrow> on_fs (fat32_change_dir (drv b) (dnum w) path) w;
        if cd_res = 0 then Some (0, w1)
        else if cd_res = - 1 then fails (say b (ln ''<(0C)>No such directory: %s<(07)>'') [Str path]) w1
        else if cd_res = - 2 then fails (say b (ln ''<(0C)>Not a directory: %s<(07)>'') [Str path]) w1
        else if cd_res = - 3 then succeeds (say b (ln ''Already at root directory'') []) w1
        else fails (say b (ln ''<(0C)>Failed to change directory<(07)>'') []) w1 })"

definition put_text :: "'d board \<Rightarrow> bytes \<Rightarrow> 'd shell \<Rightarrow> 'd shell option" where
  "put_text b = iter (\<lambda>c. on_screen (putchar (io b) c 7))"

text \<open>What \<open>cat\<close> does with the record it found: the size and cluster, the buffer, the text.\<close>

definition cat_file :: "'d board \<Rightarrow> bytes \<Rightarrow> bytes \<Rightarrow> u64 \<Rightarrow> bytes list \<Rightarrow> 'd shell \<Rightarrow> (i32 \<times> 'd shell) option" where
  "cat_file b filename e entries es w = do {
     n \<leftarrow> entry_size e;
     first_cluster \<leftarrow> raw_cluster e;
     (buf, w1) \<leftarrow> alloc (ucast n) w;
     if buf = 0 then do {
       w2 \<leftarrow> says b (ln ''cat: OOM'') w1;
       w3 \<leftarrow> give_back entries (concat es) w2;
       w4 \<leftarrow> give_back entries (concat es) w3;
       fails (say b (ln ''<(0C)>cat: %s: not found<(07)>'') [Str filename]) w4 }
     else do {
       ((got, data), w2) \<leftarrow> read_file b first_cluster (block buf (unat n) w1) n w1;
       (status, w3) \<leftarrow> (if 0 <s got
         then do { w3 \<leftarrow> put_text b (take (unat got) data) w2; succeeds (says b [10, 0]) w3 }
         else Some (1, w2));
       w4 \<leftarrow> give_back buf data w3;
       w5 \<leftarrow> give_back entries (concat es) w4;
       Some (status, w5) } }"

definition cmd_cat :: "'d board \<Rightarrow> 'd command" where
  "cmd_cat b args w =
     (if length args < 2 then fails (says b (ln ''<(0C)>Usage: cat [FILENAME]<(07)>'')) w
      else do {
        filename \<leftarrow> rd args 1;
        (entries, w1) \<leftarrow> alloc (32 * 128) w;
        if entries = 0 then fails (says b (ln ''cat: OOM'')) w1 else do {
        ((n, es), w2) \<leftarrow> read_dir b 128 w1;
        if n <s 0 then do {
          w3 \<leftarrow> says b (ln ''cat: dir error'') w2;
          w4 \<leftarrow> give_back entries (concat es) w3;
          Some (1, w4) }
        else do {
        fatname \<leftarrow> fat_name_from_string (Some filename) (take 12 (junk b));
        found \<leftarrow> find_raw_file fatname (take (unat n) es);
        case found of
          Some e \<Rightarrow> cat_file b filename e entries es w2
        | None \<Rightarrow> do {
            w3 \<leftarrow> give_back entries (concat es) w2;
            fails (say b (ln ''<(0C)>cat: %s: not found<(07)>'') [Str filename]) w3 } } } })"

text \<open>A line of \<open>xxd\<close>: the offset, 16 columns of two digits, the characters.\<close>

definition xxd_line :: "'d board \<Rightarrow> bytes \<Rightarrow> u32 \<Rightarrow> u32 \<Rightarrow> 'd shell \<Rightarrow> 'd shell option" where
  "xxd_line b file_buf mx off w = do {
     let chunk = (if mx - off > 16 then 16 else mx - off);
     w1 \<leftarrow> say b (zlit ''%08X: '') [Num (ucast off)] w;
     w2 \<leftarrow> iter (\<lambda>i w. if i < unat chunk
         then do { v \<leftarrow> rd file_buf (unat off + i); say b (zlit ''%02X '') [Num (ucast v)] w }
         else says b (zlit ''   '') w) [0..<16] w1;
     w3 \<leftarrow> says b (zlit '' '') w2;
     w4 \<leftarrow> iter (\<lambda>i w. do {
         v \<leftarrow> rd file_buf (unat off + i);
         on_screen (putchar (io b) (if 32 \<le> v \<and> v \<le> 126 then v else 46) 7) w }) [0..<unat chunk] w3;
     says b [10, 0] w4 }"

partial_function (option) xxd_loop :: "'d board \<Rightarrow> bytes \<Rightarrow> u32 \<Rightarrow> u32 \<Rightarrow> 'd shell \<Rightarrow> 'd shell option" where
  "xxd_loop b file_buf mx off w =
     (if off < mx then do {
        w1 \<leftarrow> xxd_line b file_buf mx off w;
        xxd_loop b file_buf mx (off + 16) w1 }
      else Some w)"

definition xxd_file :: "'d board \<Rightarrow> u32 \<Rightarrow> bytes \<Rightarrow> 'd shell \<Rightarrow> (i32 \<times> 'd shell) option" where
  "xxd_file b len_limit fname w = do {
     (dir, w1) \<leftarrow> alloc (32 * 32) w;
     if dir = 0 then fails (says b (ln ''xxd: OOM error'')) w1 else do {
     ((n, es), w2) \<leftarrow> read_dir b 32 w1;
     if n <s 0 then do {
       w3 \<leftarrow> says b (ln ''xxd: dir error'') w2;
       w4 \<leftarrow> give_back dir (concat es) w3;
       Some (1, w4) }
     else do {
     fatname \<leftarrow> fat_name_from_string (Some fname) (take 12 (junk b));
     found \<leftarrow> find_raw fatname (take (unat n) es);
     clu \<leftarrow> (case found of None \<Rightarrow> Some 0 | Some e \<Rightarrow> raw_cluster e);
     fsize \<leftarrow> (case found of None \<Rightarrow> Some 0 | Some e \<Rightarrow> entry_size e);
     if clu = 0 then do {
       w3 \<leftarrow> say b (ln ''xxd: %s not found'') [Str fname] w2;
       w4 \<leftarrow> give_back dir (concat es) w3;
       Some (1, w4) }
     else do {
     let mx = (if len_limit \<noteq> 0 \<and> len_limit < fsize then len_limit else fsize);
     (file_buf, w3) \<leftarrow> alloc (ucast mx) w2;
     if file_buf = 0 then do {
       w4 \<leftarrow> says b (ln ''xxd: OOM error'') w3;
       w5 \<leftarrow> give_back dir (concat es) w4;
       Some (1, w5) }
     else do {
     ((read_result, data), w4) \<leftarrow> read_file b clu (block file_buf (unat mx) w3) mx w3;
     if read_result <s 0 then do {
       w5 \<leftarrow> say b (ln ''xxd: read error (result %d)'') [Num (scast read_result)] w4;
       w6 \<leftarrow> give_back file_buf data w5;
       w7 \<leftarrow> give_back dir (concat es) w6;
       Some (1, w7) }
     else do {
       w5 \<leftarrow> xxd_loop b data mx 0 w4;
       w6 \<leftarrow> give_back file_buf data w5;
       w7 \<leftarrow> give_back dir (concat es) w6;
       Some (0, w7) } } } } } }"

definition cmd_xxd :: "'d board \<Rightarrow> 'd command" where
  "cmd_xxd b args w =
     (if length args < 2 then fails (says b (ln ''Usage: xxd [-l len] <file>'')) w
      else do {
        a1 \<leftarrow> rd args 1;
        r \<leftarrow> strcmp a1 (zlit ''-l'');
        if r = 0 then
          (if length args < 4 then fails (says b (ln ''Usage: xxd -l <len> <file>'')) w
           else do {
             a2 \<leftarrow> rd args 2;
             len_limit \<leftarrow> atoi a2;
             if len_limit = 0 then fails (says b (ln ''Bad length'')) w
             else do { fname \<leftarrow> rd args 3; xxd_file b len_limit fname w } })
        else xxd_file b 0 a1 w })"

definition list_file :: "'d board \<Rightarrow> fat32_entry \<Rightarrow> 'd shell \<Rightarrow> 'd shell option" where
  "list_file b e w =
     (if e_attr e AND 0x10 \<noteq> 0 then Some w
      else (
        let n = e_size e
        in if n < 1024 then say b (ln '' <FILE> %s (%u bytes)'') [Str (e_name e), Num (ucast n)] w
        else if n < 1024 * 1024 then say b (ln '' <FILE> %s (%u.%u KB)'')
          [Str (e_name e), Num (ucast (n div 1024)), Num (ucast ((n mod 1024) div 100))] w
        else say b (ln '' <FILE> %s (%u.%u MB)'')
          [Str (e_name e), Num (ucast (n div (1024 * 1024))), Num (ucast ((n mod (1024 * 1024)) div 100000))] w))"

definition cmd_ls :: "'d board \<Rightarrow> 'd command" where
  "cmd_ls b args w = do {
     (entries, w1) \<leftarrow> alloc (268 * 128) w;
     if entries = 0 then fails (say b (ln ''<(0c)>ls: OOM<(0f)>'') []) w1 else do {
     ((n, es), w2) \<leftarrow> on_fs (\<lambda>s. do {
        (r, es, s1) \<leftarrow> fat32_list_dir (drv b) (dnum w) (current_dir_cluster s) 128 s; Some ((r, es), s1) }) w1;
     if n <s 0 then do {
       w3 \<leftarrow> say b (ln ''ls: dir read error'') [] w2;
       w4 \<leftarrow> give_back entries [] w3;
       Some (1, w4) }
     else do {
       w3 \<leftarrow> iter (\<lambda>e w. if e_attr e AND 0x10 \<noteq> 0 then say b (ln '' <DIR>  %s'') [Str (e_name e)] w else Some w)
         (take (unat n) es) w2;
       w4 \<leftarrow> iter (list_file b) (take (unat n) es) w3;
       w5 \<leftarrow> give_back entries [] w4;
       Some (0, w5) } } }"

definition cmd_write :: "'d board \<Rightarrow> 'd command" where
  "cmd_write b args w =
     (if length args = 3 then do {
        a \<leftarrow> rd args 1;
        lba \<leftarrow> atoi a;
        hex_data_str \<leftarrow> rd args 2;
        buffer \<leftarrow> memset (take 512 (junk b)) 0 0 512;
        data \<leftarrow> hexstr_to_bytes hex_data_str buffer 512;
        (r, w1) \<leftarrow> on_fs (\<lambda>s. Some (write_sector (drv b) (dnum w) lba data s)) w;
        if r = 0 then succeeds (say b (ln ''Sector %u written successfully.'') [Num (ucast lba)]) w1
        else fails (say b (ln ''Error writing sector %u.'') [Num (ucast lba)]) w1 }
      else fails (say b (ln ''<(0C)>Usage: write <lba> <hex_data><(07)>'') []) w)"

text \<open>A byte in two digits, with a line feed behind every sixteenth.\<close>

definition print_byte :: "'d board \<Rightarrow> bytes \<Rightarrow> nat \<Rightarrow> 'd shell \<Rightarrow> 'd shell option" where
  "print_byte b buffer i w = do {
     v \<leftarrow> rd buffer i;
     w1 \<leftarrow> say b (zlit ''%02X '') [Num (ucast v)] w;
     if (i + 1) mod 16 = 0 then say b [10, 0] [] w1 else Some w1 }"

definition read_at :: "'d board \<Rightarrow> u32 \<Rightarrow> bytes \<Rightarrow> 'd shell \<Rightarrow> ((i32 \<times> bytes) \<times> 'd shell) option" where
  "read_at b lba buffer w = on_fs (\<lambda>s. let (r, buf, s1) = read_sector (drv b) (dnum w) lba buffer s in Some ((r, buf), s1)) w"

text \<open>The sectors of \<open>read -l\<close> into their places of the 4096 bytes; the loop stops at the first error.\<close>

fun read_sectors :: "'d board \<Rightarrow> u32 \<Rightarrow> nat list \<Rightarrow> bytes \<Rightarrow> 'd shell \<Rightarrow> ((bool \<times> bytes) \<times> 'd shell) option" where
  "read_sectors b start [] buffer w = Some ((True, buffer), w)"
| "read_sectors b start (i # is) buffer w = do {
     ((r, sec), w1) \<leftarrow> read_at b (start + of_nat i) (take 512 (drop (i * 512) buffer)) w;
     let buf = blit buffer (i * 512) sec;
     if r \<noteq> 0 then do {
       w2 \<leftarrow> say b (ln ''error reading sector %u.'') [Num (ucast (start + of_nat i))] w1;
       Some ((False, buf), w2) }
     else read_sectors b start is buf w1 }"

definition read_length :: "'d board \<Rightarrow> u32 \<Rightarrow> u32 \<Rightarrow> 'd shell \<Rightarrow> (i32 \<times> 'd shell) option" where
  "read_length b size_to_read start_lba w =
     (if size_to_read = 0 then fails (say b (ln ''size to read cannot be zero.'') []) w
      else if size_to_read > 4096 then fails (say b
        (ln ''requested size %u exceeds max buffer size %u. please request less data.'') [Num (ucast size_to_read), Num 4096]) w
      else do {
        ((read_success, buffer), w1) \<leftarrow>
          read_sectors b start_lba [0..<unat ((size_to_read + 511) div 512)] (take 4096 (junk b)) w;
        if read_success then do {
          w2 \<leftarrow> say b (ln ''data from lba %u (first %u bytes):'') [Num (ucast start_lba), Num (ucast size_to_read)] w1;
          w3 \<leftarrow> iter (print_byte b buffer) [0..<unat size_to_read] w2;
          if size_to_read mod 16 \<noteq> 0 then succeeds (say b [10, 0] []) w3 else Some (0, w3) }
        else Some (1, w1) })"

definition cmd_read :: "'d board \<Rightarrow> 'd command" where
  "cmd_read b args w = do {
     long \<leftarrow> (if length args = 4 then do { a1 \<leftarrow> rd args 1; r \<leftarrow> strcmp a1 (zlit ''-l''); Some (r = 0) } else Some False);
     if long then do {
       a2 \<leftarrow> rd args 2;
       size_to_read \<leftarrow> atoi a2;
       a3 \<leftarrow> rd args 3;
       start_lba \<leftarrow> atoi a3;
       read_length b size_to_read start_lba w }
     else if length args = 2 then do {
       a1 \<leftarrow> rd args 1;
       lba \<leftarrow> atoi a1;
       ((r, buffer), w1) \<leftarrow> read_at b lba (take 512 (junk b)) w;
       if r = 0 then do {
         w2 \<leftarrow> say b (ln ''sector %u (512 bytes):'') [Num (ucast lba)] w1;
         w3 \<leftarrow> iter (print_byte b buffer) [0..<512] w2;
         succeeds (say b [10, 0] []) w3 }
       else fails (say b (ln ''error reading sector %u.'') [Num (ucast lba)]) w1 }
     else fails (say b (ln ''<(0C)>Usage: read <lba> OR read -l <bytes> <lba><(07)>'') []) w }"

section \<open>Lines of a script\<close>

fun skip_blanks :: "bytes \<Rightarrow> bytes option" where
  "skip_blanks [] = None"
| "skip_blanks (c # s) = (if c = 32 \<or> c = 9 then skip_blanks s else Some (c # s))"

fun last_kept :: "(u8 \<Rightarrow> bool) \<Rightarrow> bytes \<Rightarrow> nat \<Rightarrow> nat option" where
  "last_kept P l 0 = Some 0"
| "last_kept P l (Suc k) = do { c \<leftarrow> rd l (Suc k); if P c then last_kept P l k else Some (Suc k) }"

text \<open>
  The line without the blanks before it and the characters \<open>P\<close> behind it. On an empty rest \<open>end\<close> is one
  before the line and the 0 goes to its place again.
\<close>

definition strip :: "(u8 \<Rightarrow> bool) \<Rightarrow> bytes \<Rightarrow> bytes option" where
  "strip P line = do {
     l \<leftarrow> skip_blanks line;
     n \<leftarrow> strlen l;
     if n = 0 then wr l 0 0
     else do { k \<leftarrow> last_kept P l (n - 1); wr l (k + 1) 0 } }"

text \<open>The characters cut at the end of a line of a script, and of a command on the command line.\<close>

definition line_end :: "u8 \<Rightarrow> bool" where
  "line_end c \<longleftrightarrow> c = 32 \<or> c = 9 \<or> c = 13"

definition word_end :: "u8 \<Rightarrow> bool" where
  "word_end c \<longleftrightarrow> c = 32 \<or> c = 9"

type_synonym 'd runner = "bytes \<Rightarrow> 'd shell \<Rightarrow> (i32 \<times> 'd shell) option"

definition next_token :: "bytes \<Rightarrow> bytes option \<Rightarrow> 'd shell \<Rightarrow> (bytes option \<times> 'd shell) option" where
  "next_token delim str w = do {
     (t, l) \<leftarrow> strtok str delim (s_tok w);
     Some (t, w\<lparr>s_tok := l\<rparr>) }"

definition sh_line :: "'d board \<Rightarrow> 'd runner \<Rightarrow> bytes \<Rightarrow> 'd shell \<Rightarrow> 'd shell option" where
  "sh_line b run line w = do {
     n \<leftarrow> strlen line;
     c0 \<leftarrow> rd line 0;
     if 0 < n \<and> c0 \<noteq> 35 then do {
       l \<leftarrow> strip line_end line;
       m \<leftarrow> strlen l;
       if 0 < m then do {
         (cmd_status, w1) \<leftarrow> run l w;
         if cmd_status \<noteq> 0 then say b (ln ''sh: command failed: %s'') [Str l] w1 else Some w1 }
       else Some w }
     else Some w }"

partial_function (option) sh_lines :: "'d board \<Rightarrow> 'd runner \<Rightarrow> bytes option \<Rightarrow> 'd shell \<Rightarrow> 'd shell option" where
  "sh_lines b run line w =
     (case line of
        None \<Rightarrow> Some w
      | Some t \<Rightarrow> do {
          w1 \<leftarrow> sh_line b run t w;
          (nxt, w2) \<leftarrow> next_token [10, 13, 0] None w1;
          sh_lines b run nxt w2 })"

definition sh_file :: "'d board \<Rightarrow> 'd runner \<Rightarrow> bytes \<Rightarrow> u64 \<Rightarrow> bytes list \<Rightarrow> 'd shell \<Rightarrow> (i32 \<times> 'd shell) option" where
  "sh_file b run e entries es w = do {
     n \<leftarrow> entry_size e;
     first_cluster \<leftarrow> raw_cluster e;
     (buf, w1) \<leftarrow> alloc (ucast (n + 1)) w;
     if buf = 0 then do {
       w2 \<leftarrow> say b (ln ''sh: OOM'') [] w1;
       w3 \<leftarrow> give_back entries (concat es) w2;
       Some (1, w3) }
     else do {
       ((got, data), w2) \<leftarrow> read_file b first_cluster (block buf (unat (n + 1)) w1) n w1;
       (status, w3) \<leftarrow> (if 0 <s got
         then do {
           text0 \<leftarrow> wr data (unat got) 0;
           (line, w3) \<leftarrow> next_token [10, 13, 0] (Some text0) w2;
           w4 \<leftarrow> sh_lines b run line w3;
           Some (0, w4) }
         else Some (1, w2));
       w4 \<leftarrow> give_back buf [] w3;
       w5 \<leftarrow> give_back entries (concat es) w4;
       Some (status, w5) } }"

definition sh_execute_script :: "'d board \<Rightarrow> 'd runner \<Rightarrow> bytes \<Rightarrow> 'd shell \<Rightarrow> (i32 \<times> 'd shell) option" where
  "sh_execute_script b run filename w = do {
     (entries, w1) \<leftarrow> alloc (32 * 128) w;
     if entries = 0 then fails (say b (ln ''sh: OOM'') []) w1 else do {
     ((n, es), w2) \<leftarrow> read_dir b 128 w1;
     if n <s 0 then do {
       w3 \<leftarrow> say b (ln ''sh: dir error'') [] w2;
       w4 \<leftarrow> give_back entries (concat es) w3;
       Some (1, w4) }
     else do {
     fatname \<leftarrow> fat_name_from_string (Some filename) (take 12 (junk b));
     found \<leftarrow> find_raw_file fatname (take (unat n) es);
     case found of
       Some e \<Rightarrow> sh_file b run e entries es w2
     | None \<Rightarrow> do {
         w3 \<leftarrow> give_back entries (concat es) w2;
         fails (say b (ln ''<(0C)>sh: %s: not found<(07)>'') [Str filename]) w3 } } } }"

section \<open>Scripts with variables\<close>

fun chop_blanks :: "bytes \<Rightarrow> nat \<Rightarrow> bytes option" where
  "chop_blanks v 0 = Some v"
| "chop_blanks v (Suc k) = do {
     c \<leftarrow> rd v (Suc k);
     if c = 32 \<or> c = 9 then do { v1 \<leftarrow> wr v (Suc k) 0; chop_blanks v1 k } else Some v }"

definition unquote :: "bytes \<Rightarrow> bytes option" where
  "unquote v = do {
     quote \<leftarrow> rd v 0;
     if quote = 34 \<or> quote = 39 then do {
       n \<leftarrow> strlen v;
       v1 \<leftarrow> memmove v 0 1 n;
       quote_end \<leftarrow> strchr v1 (scast quote);
       case quote_end of None \<Rightarrow> Some v1 | Some i \<Rightarrow> wr v1 i 0 }
     else Some v }"

text \<open>\<open>NAME=VALUE\<close>, the sign at index \<open>name_len\<close>; a name of 31 characters or more is skipped.\<close>

definition assign_line :: "'d board \<Rightarrow> bytes \<Rightarrow> nat \<Rightarrow> 'd shell \<Rightarrow> 'd shell option" where
  "assign_line b line name_len w =
     (if name_len < 31 then do {
        n1 \<leftarrow> strncpy (replicate 32 0) 0 line name_len;
        n2 \<leftarrow> wr n1 name_len 0;
        k \<leftarrow> strlen n2;
        nm \<leftarrow> chop_blanks n2 (k - 1);
        v1 \<leftarrow> strcpy (replicate 128 0) 0 (drop (name_len + 1) line);
        v \<leftarrow> unquote v1;
        e \<leftarrow> set_env_var nm v (s_env w);
        say b (ln ''Set %s=%s'') [Str nm, Str v] (w\<lparr>s_env := e\<rparr>) }
      else Some w)"

text \<open>The status changes when a command fails.\<close>

definition exec_line :: "'d board \<Rightarrow> 'd runner \<Rightarrow> bytes \<Rightarrow> u32 \<Rightarrow> i32 \<Rightarrow> 'd shell \<Rightarrow> (i32 \<times> 'd shell) option" where
  "exec_line b run line line_num status w = do {
     n \<leftarrow> strlen line;
     c0 \<leftarrow> rd line 0;
     if 0 < n \<and> c0 \<noteq> 35 then do {
       l \<leftarrow> strip line_end line;
       m \<leftarrow> strlen l;
       if 0 < m then do {
         equals \<leftarrow> strchr l 61;
         if equals \<noteq> None \<and> equals \<noteq> Some 0 then do {
           w1 \<leftarrow> assign_line b l (the equals) w;
           Some (status, w1) }
         else do {
           expanded_line \<leftarrow> expand_variables l (take 256 (junk b)) 256 (s_env w);
           (cmd_status, w1) \<leftarrow> run expanded_line w;
           if cmd_status \<noteq> 0 then do {
             w2 \<leftarrow> say b (ln ''exec_sh_script: line %d failed: %s'') [Num (ucast line_num), Str l] w1;
             Some (cmd_status, w2) }
           else Some (status, w1) } }
       else Some (status, w) }
     else Some (status, w) }"

partial_function (option) exec_lines :: "'d board \<Rightarrow> 'd runner \<Rightarrow> bytes option \<Rightarrow> u32 \<Rightarrow> i32 \<Rightarrow> 'd shell
    \<Rightarrow> (i32 \<times> 'd shell) option" where
  "exec_lines b run line line_num status w =
     (case line of
        None \<Rightarrow> Some (status, w)
      | Some t \<Rightarrow> do {
          (status1, w1) \<leftarrow> exec_line b run t line_num status w;
          (nxt, w2) \<leftarrow> next_token [10, 13, 0] None w1;
          exec_lines b run nxt (line_num + 1) status1 w2 })"

definition exec_file :: "'d board \<Rightarrow> 'd runner \<Rightarrow> bytes \<Rightarrow> u64 \<Rightarrow> bytes list \<Rightarrow> 'd shell \<Rightarrow> (i32 \<times> 'd shell) option" where
  "exec_file b run e entries es w = do {
     n \<leftarrow> entry_size e;
     first_cluster \<leftarrow> raw_cluster e;
     (buf, w1) \<leftarrow> alloc (ucast (n + 1)) w;
     if buf = 0 then do {
       w2 \<leftarrow> say b (ln ''exec_sh_script: OOM'') [] w1;
       w3 \<leftarrow> give_back entries (concat es) w2;
       Some (1, w3) }
     else do {
       ((got, data), w2) \<leftarrow> read_file b first_cluster (block buf (unat (n + 1)) w1) n w1;
       (status, w3) \<leftarrow> (if 0 <s got
         then do {
           text0 \<leftarrow> wr data (unat got) 0;
           (line, w3) \<leftarrow> next_token [10, 13, 0] (Some text0) w2;
           (_, w4) \<leftarrow> exec_lines b run line 1 1 w3;
           Some (0, w4) }
         else Some (1, w2));
       w4 \<leftarrow> give_back buf [] w3;
       w5 \<leftarrow> give_back entries (concat es) w4;
       Some (status, w5) } }"

definition exec_sh_script :: "'d board \<Rightarrow> 'd runner \<Rightarrow> bytes \<Rightarrow> 'd shell \<Rightarrow> (i32 \<times> 'd shell) option" where
  "exec_sh_script b run pathname w = do {
     (entries, w1) \<leftarrow> alloc (32 * 128) w;
     if entries = 0 then fails (say b (ln ''exec_sh_script: OOM'') []) w1 else do {
     ((n, es), w2) \<leftarrow> read_dir b 128 w1;
     if n <s 0 then do {
       w3 \<leftarrow> say b (ln ''exec_sh_script: dir error'') [] w2;
       w4 \<leftarrow> give_back entries (concat es) w3;
       Some (1, w4) }
     else do {
     fatname \<leftarrow> fat_name_from_string (Some pathname) (take 12 (junk b));
     found \<leftarrow> find_raw_file fatname (take (unat n) es);
     case found of
       Some e \<Rightarrow> exec_file b run e entries es w2
     | None \<Rightarrow> do {
         w3 \<leftarrow> give_back entries (concat es) w2;
         fails (say b (ln ''<(0C)>exec_sh_script: %s: not found<(07)>'') [Str pathname]) w3 } } } }"

section \<open>The dispatcher\<close>

definition cmd_sh :: "'d board \<Rightarrow> 'd runner \<Rightarrow> 'd command" where
  "cmd_sh b run args w =
     (if length args < 2 then fails (say b (ln ''<(0C)>Usage: sh <script_file><(07)>'') []) w
      else do { f \<leftarrow> rd args 1; sh_execute_script b run f w })"

definition cmd_exec :: "'d board \<Rightarrow> 'd runner \<Rightarrow> 'd command" where
  "cmd_exec b run args w =
     (if length args < 2 then fails (say b (ln ''<(0C)>Usage: exec <script_file><(07)>'') []) w
      else do { f \<leftarrow> rd args 1; exec_sh_script b run f w })"

text \<open>The chain of comparisons with \<open>args[0]\<close>: the first name that is equal decides.\<close>

fun select :: "(string \<times> 'a) list \<Rightarrow> 'a \<Rightarrow> bytes \<Rightarrow> 'a option" where
  "select [] dflt a0 = Some dflt"
| "select ((s, f) # cs) dflt a0 = do {
     r \<leftarrow> strcmp a0 (zlit s);
     if r = 0 then Some f else select cs dflt a0 }"

definition commands :: "'d board \<Rightarrow> 'd runner \<Rightarrow> (string \<times> 'd command) list" where
  "commands b run = [
     (''exit'', cmd_exit), (''disk'', cmd_disk b), (''help'', cmd_help b), (''cat'', cmd_cat b),
     (''info'', cmd_info b), (''clear'', cmd_clear b), (''lspid'', cmd_lspid b), (''mkfs.fat32'', cmd_mkfs b),
     (''xxd'', cmd_xxd b), (''sleep'', cmd_sleep b), (''ls'', cmd_ls b), (''cd'', cmd_cd b), (''stop'', cmd_stop b),
     (''unblock'', cmd_unblock b), (''block'', cmd_block b), (''beep'', cmd_beep b), (''write'', cmd_write b),
     (''read'', cmd_read b), (''yield'', cmd_yield b), (''sh'', cmd_sh b run), (''exec'', cmd_exec b run)]"

text \<open>
  \<open>depth\<close> bounds the nesting of scripts: each level calls the interpreter on the kernel's stack, which
  is at its end (\<open>None\<close>) when the depth is used up.
\<close>

fun sh_exec_single :: "'d board \<Rightarrow> nat \<Rightarrow> 'd runner" where
  "sh_exec_single b 0 cmd w = None"
| "sh_exec_single b (Suc depth) cmd w = do {
     args \<leftarrow> c_split cmd 32;
     if args = [] then Some (0, w)
     else do {
       a0 \<leftarrow> rd args 0;
       f \<leftarrow> select (commands b (sh_exec_single b depth)) (cmd_unknown b) a0;
       (status, w1) \<leftarrow> f args w;
       w2 \<leftarrow> yields b w1;
       Some (status, w2) } }"

section \<open>The command line\<close>

definition run_token :: "'d runner \<Rightarrow> bytes \<Rightarrow> i32 \<Rightarrow> 'd shell \<Rightarrow> (i32 \<times> 'd shell) option" where
  "run_token run token last_status w = do {
     t \<leftarrow> strip word_end token;
     n \<leftarrow> strlen t;
     if 0 < n then do {
       next_pos \<leftarrow> strstr t (zlit ''&&'');
       case next_pos of
         Some i \<Rightarrow> do {
           t1 \<leftarrow> wr t i 0;
           if last_status = 0 then run t1 w else Some (last_status, w) }
       | None \<Rightarrow> run t w }
     else Some (last_status, w) }"

partial_function (option) run_tokens :: "'d runner \<Rightarrow> bytes option \<Rightarrow> i32 \<Rightarrow> 'd shell \<Rightarrow> (i32 \<times> 'd shell) option" where
  "run_tokens run token last_status w =
     (case token of
        None \<Rightarrow> Some (last_status, w)
      | Some t \<Rightarrow> do {
          (status, w1) \<leftarrow> run_token run t last_status w;
          (nxt, w2) \<leftarrow> next_token (zlit ''&'') None w1;
          run_tokens run nxt status w2 })"

definition sh_exec :: "'d board \<Rightarrow> nat \<Rightarrow> bytes \<Rightarrow> 'd shell \<Rightarrow> 'd shell option" where
  "sh_exec b depth cmd w = do {
     n \<leftarrow> strlen cmd;
     (p, w1) \<leftarrow> alloc (of_nat (n + 1)) w;
     if p = 0 then Some w1
     else do {
       cmd_copy \<leftarrow> strcpy (block p (n + 1) w1) 0 cmd;
       (token, w2) \<leftarrow> next_token (zlit ''&'') (Some cmd_copy) w1;
       (_, w3) \<leftarrow> run_tokens (sh_exec_single b depth) token 0 w2;
       give_back p [] w3 } }"

text \<open>
  The prompt (\<open>print_prompt\<close> of kernel/utils.c) and one round of the shell's loop, kernel/tasks/sys.c: the
  prompt, a line typed as \<open>chars\<close> with its echo, the command. The result has the line's buffer and what
  was typed behind the line.
\<close>

definition print_prompt :: "'d board \<Rightarrow> 'd shell \<Rightarrow> 'd shell option" where
  "print_prompt b w =
     (if current_dir_cluster (s_fs w) = root_dir_first_cluster (s_fs w)
      then say b (lit ''%d:'' @ [92] @ zlit ''>'') [Num (scast (s_drive w))] w
      else do {
        (path, w1) \<leftarrow> on_fs (\<lambda>s. build_path (drv b) (current_dir_cluster s) 32 s) w;
        w2 \<leftarrow> say b (zlit ''%d:'') [Num (scast (s_drive w))] w1;
        w3 \<leftarrow> on_screen (print_path (io b) (rev path)) w2;
        says b (zlit ''>'') w3 })"

definition shell_round :: "'d board \<Rightarrow> nat \<Rightarrow> bytes \<Rightarrow> bytes \<Rightarrow> 'd shell \<Rightarrow> (bytes \<times> bytes \<times> 'd shell) option" where
  "shell_round b depth buf chars w = do {
     w1 \<leftarrow> print_prompt b w;
     (line, rest, out) \<leftarrow> kgets buf chars;
     w2 \<leftarrow> iter (\<lambda>c. says b [c, 0]) out w1;
     w3 \<leftarrow> sh_exec b depth line w2;
     Some (line, rest, w3) }"

end
