(* ===== verification/Shell_Facts.thy ===== *)
theory Shell_Facts
  imports Shell
begin

text \<open>
  What the command line does: commands and the static pointer of \<open>strtok\<close>, the dispatcher, the separators
  of a command line, nested scripts, and the commands that reach the disk.
\<close>

section \<open>Commands do not look at the token pointer\<close>

named_theorems tok_simps \<open>services of the shell from another token pointer\<close>

abbreviation tok_to :: "bytes option \<Rightarrow> 'd shell \<Rightarrow> 'd shell" where
  "tok_to l \<equiv> s_tok_update (\<lambda>_. l)"

lemma tok_upd [tok_simps]:
  "(tok_to l w)\<lparr>s_con := c\<rparr> = tok_to l (w\<lparr>s_con := c\<rparr>)"
  "(tok_to l w)\<lparr>s_end := n\<rparr> = tok_to l (w\<lparr>s_end := n\<rparr>)"
  "(tok_to l w)\<lparr>s_drive := n\<rparr> = tok_to l (w\<lparr>s_drive := n\<rparr>)"
  "(if P then tok_to l w else tok_to l v) = tok_to l (if P then w else v)"
  by simp_all

lemma tok_service [tok_simps]:
  "on_screen f (tok_to l w) = map_option (tok_to l) (on_screen f w)"
  "on_threads g (tok_to l w) = map_option (tok_to l) (on_threads g w)"
  "on_fs h (tok_to l w) = map_option (map_prod id (tok_to l)) (on_fs h w)"
  "alloc n (tok_to l w) = map_option (map_prod id (tok_to l)) (alloc n w)"
  "block p k (tok_to l w) = block p k w"
  "resume b (tok_to l w) = tok_to l (resume b w)"
  by (auto simp: on_screen_def on_threads_def on_fs_def alloc_def block_def resume_def split: Option.bind_splits prod.splits)

lemma tok_service2 [tok_simps]:
  "say b fmt args (tok_to l w) = map_option (tok_to l) (say b fmt args w)"
  "says b s (tok_to l w) = map_option (tok_to l) (says b s w)"
  "logs b lvl fmt args (tok_to l w) = map_option (tok_to l) (logs b lvl fmt args w)"
  "give_back p bs (tok_to l w) = map_option (tok_to l) (give_back p bs w)"
  "yields b (tok_to l w) = map_option (tok_to l) (yields b w)"
  "read_dir b n (tok_to l w) = map_option (map_prod id (tok_to l)) (read_dir b n w)"
  "read_file b cl buf sz (tok_to l w) = map_option (map_prod id (tok_to l)) (read_file b cl buf sz w)"
  "read_at b lba buf (tok_to l w) = map_option (map_prod id (tok_to l)) (read_at b lba buf w)"
  by (simp_all add: say_def says_def logs_def give_back_def yields_def read_dir_def read_file_def read_at_def tok_service
      bind_map_option map_option_bind comp_def Let_def)

lemma tok_iter [tok_simps]:
  assumes "\<And>x w. f x (tok_to l w) = map_option (tok_to l) (f x w)"
  shows "iter f xs (tok_to l w) = map_option (tok_to l) (iter f xs w)"
  by (induction xs arbitrary: w) (simp_all add: assms bind_map_option map_option_bind comp_def)

lemma map_option_prod_case: "map_option f (case p of (x, y) \<Rightarrow> g x y) = (case p of (x, y) \<Rightarrow> map_option f (g x y))"
  by (cases p) simp

lemma case_map_prod: "(case map_prod f g p of (x, y) \<Rightarrow> h x y) = (case p of (x, y) \<Rightarrow> h (f x) (g y))"
  by (cases p) simp

lemma case_app: "(case p of (x, y) \<Rightarrow> g x y) z = (case p of (x, y) \<Rightarrow> g x y z)"
  by (cases p) simp

lemma map_option_if: "map_option f (if P then a else b) = (if P then map_option f a else map_option f b)"
  by simp

lemma bind_if: "Option.bind (if P then a else b) k = (if P then Option.bind a k else Option.bind b k)"
  by simp

lemma map_option_case: "map_option f (case r of None \<Rightarrow> a | Some x \<Rightarrow> g x) = (case r of None \<Rightarrow> map_option f a | Some x \<Rightarrow> map_option f (g x))"
  by (cases r) simp_all

lemmas tok_push = bind_map_option map_option_bind comp_def map_option_prod_case case_map_prod case_app bind_if map_option_if map_option_case
  fails_def succeeds_def

lemma tok_put_text [tok_simps]: "put_text b cs (tok_to l w) = map_option (tok_to l) (put_text b cs w)"
  unfolding put_text_def by (rule tok_iter) (rule tok_service)

lemma tok_cat_file [tok_simps]:
  "cat_file b nm e p es (tok_to l w) = map_option (map_prod id (tok_to l)) (cat_file b nm e p es w)"
  by (simp add: cat_file_def tok_simps tok_push Let_def cong: option.case_cong if_cong)

lemma tok_cat [tok_simps]: "cmd_cat b args (tok_to l w) = map_option (map_prod id (tok_to l)) (cmd_cat b args w)"
  by (simp add: cmd_cat_def tok_simps tok_push Let_def cong: option.case_cong if_cong)

lemma tok_small [tok_simps]:
  "cmd_exit args (tok_to l w) = map_option (map_prod id (tok_to l)) (cmd_exit args w)"
  "cmd_disk b args (tok_to l w) = map_option (map_prod id (tok_to l)) (cmd_disk b args w)"
  "cmd_help b args (tok_to l w) = map_option (map_prod id (tok_to l)) (cmd_help b args w)"
  "cmd_info b args (tok_to l w) = map_option (map_prod id (tok_to l)) (cmd_info b args w)"
  "cmd_clear b args (tok_to l w) = map_option (map_prod id (tok_to l)) (cmd_clear b args w)"
  "cmd_sleep b args (tok_to l w) = map_option (map_prod id (tok_to l)) (cmd_sleep b args w)"
  "cmd_stop b args (tok_to l w) = map_option (map_prod id (tok_to l)) (cmd_stop b args w)"
  "cmd_unblock b args (tok_to l w) = map_option (map_prod id (tok_to l)) (cmd_unblock b args w)"
  "cmd_block b args (tok_to l w) = map_option (map_prod id (tok_to l)) (cmd_block b args w)"
  "cmd_yield b args (tok_to l w) = map_option (map_prod id (tok_to l)) (cmd_yield b args w)"
  "cmd_unknown b args (tok_to l w) = map_option (map_prod id (tok_to l)) (cmd_unknown b args w)"
  "cmd_mkfs b args (tok_to l w) = map_option (map_prod id (tok_to l)) (cmd_mkfs b args w)"
  "cmd_cd b args (tok_to l w) = map_option (map_prod id (tok_to l)) (cmd_cd b args w)"
  by (simp_all add: cmd_exit_def cmd_disk_def cmd_help_def cmd_info_def cmd_clear_def cmd_sleep_def cmd_stop_def cmd_unblock_def
      cmd_block_def cmd_yield_def cmd_unknown_def cmd_mkfs_def cmd_cd_def tok_simps tok_push Let_def cong: option.case_cong if_cong)

lemma tok_beep [tok_simps]: "cmd_beep b args (tok_to l w) = map_option (map_prod id (tok_to l)) (cmd_beep b args w)"
  by (simp add: cmd_beep_def tok_simps tok_push)

lemma tok_list_thread: "list_thread b i (tok_to l w) = map_option (tok_to l) (list_thread b i w)"
proof -
  have push: "(if P then map_option (tok_to l) r else Some (tok_to l x)) = map_option (tok_to l) (if P then r else Some x)" for P r and x :: "'a shell"
    by simp
  show ?thesis by (simp add: list_thread_def tok_simps push bind_map_option map_option_bind comp_def cong: if_cong)
qed

lemma tok_lspid [tok_simps]: "cmd_lspid b args (tok_to l w) = map_option (map_prod id (tok_to l)) (cmd_lspid b args w)"
  using tok_iter [where f = "list_thread b", OF tok_list_thread] by (simp add: cmd_lspid_def tok_simps tok_push)

lemma tok_list_file: "list_file b e (tok_to l w) = map_option (tok_to l) (list_file b e w)"
  by (simp add: list_file_def tok_simps tok_push Let_def)

lemma tok_ls [tok_simps]: "cmd_ls b args (tok_to l w) = map_option (map_prod id (tok_to l)) (cmd_ls b args w)"
proof -
  have d: "(if e_attr e AND 0x10 \<noteq> 0 then say b (ln '' <DIR>  %s'') [Str (e_name e)] (tok_to l w) else Some (tok_to l w))
      = map_option (tok_to l) (if e_attr e AND 0x10 \<noteq> 0 then say b (ln '' <DIR>  %s'') [Str (e_name e)] w else Some w)" for e w
    by (simp add: tok_simps)
  show ?thesis
    by (simp add: cmd_ls_def tok_simps tok_push tok_iter [where f = "\<lambda>e w. if e_attr e AND 0x10 \<noteq> 0 then say b (ln '' <DIR>  %s'') [Str (e_name e)] w else Some w", OF d] tok_iter [where f = "list_file b", OF tok_list_file] Let_def cong: option.case_cong if_cong)
qed

lemma tok_write [tok_simps]: "cmd_write b args (tok_to l w) = map_option (map_prod id (tok_to l)) (cmd_write b args w)"
  by (simp add: cmd_write_def tok_simps tok_push Let_def cong: option.case_cong if_cong)

lemma tok_print_byte: "print_byte b buf i (tok_to l w) = map_option (tok_to l) (print_byte b buf i w)"
  by (simp add: print_byte_def tok_simps tok_push cong: if_cong)

lemma tok_read_sectors [tok_simps]:
  "read_sectors b start is buf (tok_to l w) = map_option (map_prod id (tok_to l)) (read_sectors b start is buf w)"
  by (induction "is" arbitrary: buf w) (simp_all add: tok_simps tok_push Let_def cong: option.case_cong if_cong)

lemma tok_read [tok_simps]: "cmd_read b args (tok_to l w) = map_option (map_prod id (tok_to l)) (cmd_read b args w)"
  by (simp add: cmd_read_def read_length_def tok_simps tok_push tok_iter [where f = "print_byte b _", OF tok_print_byte] Let_def cong: option.case_cong if_cong)

lemma tok_xxd_line: "xxd_line b buf mx off (tok_to l w) = map_option (tok_to l) (xxd_line b buf mx off w)"
proof -
  have cols: "iter (\<lambda>i w. if i < n then do { v \<leftarrow> rd buf (k + i); say b (zlit ''%02X '') [Num (ucast v)] w }
        else says b (zlit ''   '') w) xs (tok_to l w)
      = map_option (tok_to l) (iter (\<lambda>i w. if i < n then do { v \<leftarrow> rd buf (k + i); say b (zlit ''%02X '') [Num (ucast v)] w }
        else says b (zlit ''   '') w) xs w)" for n k xs w
    by (rule tok_iter) (simp add: tok_simps tok_push cong: if_cong)
  have chars: "iter (\<lambda>i w. do { v \<leftarrow> rd buf (k + i); on_screen (putchar (io b) (if 32 \<le> v \<and> v \<le> 126 then v else 46) 7) w }) xs (tok_to l w)
      = map_option (tok_to l) (iter (\<lambda>i w. do { v \<leftarrow> rd buf (k + i);
          on_screen (putchar (io b) (if 32 \<le> v \<and> v \<le> 126 then v else 46) 7) w }) xs w)" for k xs w
    by (rule tok_iter) (simp add: tok_simps tok_push)
  show ?thesis
    unfolding xxd_line_def Let_def tok_service2 bind_map_option map_option_bind comp_def cols chars ..
qed

lemma tok_xxd_loop_Some:
  assumes "xxd_loop b buf mx off w = Some w'"
  shows "xxd_loop b buf mx off (tok_to l w) = Some (tok_to l w')"
proof (rule xxd_loop.raw_induct [OF _ assms, where
    P = "\<lambda>b buf mx off w w'. xxd_loop b buf mx off (tok_to l w) = Some (tok_to l w')"], goal_cases)
  case (1 loop b buf mx off w w')
  show ?case
  proof (cases "off < mx")
    case True
    then obtain w1 where w1: "xxd_line b buf mx off w = Some w1" "loop b buf mx (off + 16) w1 = Some w'"
      using 1(2) by (auto simp: Option.bind_eq_Some_conv)
    then show ?thesis using True 1(1) [OF w1(2)] by (subst xxd_loop.simps) (simp add: tok_xxd_line)
  next
    case False
    then show ?thesis using 1(2) by (subst xxd_loop.simps) simp
  qed
qed

text \<open>A partial function that commutes with the token pointer where it is defined does so everywhere.\<close>

lemma tok_everywhere:
  assumes "\<And>w w' l. f w = Some w' \<Longrightarrow> f (tok_to l w) = Some (tok_to l w')"
  shows "f (tok_to l w) = map_option (tok_to l) (f w)"
proof (cases "f w")
  case (Some w')
  then show ?thesis using assms by simp
next
  case None
  have "f (tok_to l w) = None"
  proof (cases "f (tok_to l w)")
    case (Some v)
    then have "f (tok_to (s_tok w) (tok_to l w)) = Some (tok_to (s_tok w) v)" by (rule assms)
    then show ?thesis using None by simp
  qed
  then show ?thesis using None by simp
qed

lemma tok_xxd_loop [tok_simps]: "xxd_loop b buf mx off (tok_to l w) = map_option (tok_to l) (xxd_loop b buf mx off w)"
  by (rule tok_everywhere) (rule tok_xxd_loop_Some)

lemma tok_xxd_file [tok_simps]:
  "xxd_file b n nm (tok_to l w) = map_option (map_prod id (tok_to l)) (xxd_file b n nm w)"
  by (simp add: xxd_file_def tok_simps tok_push Let_def cong: option.case_cong if_cong)

lemma tok_xxd [tok_simps]: "cmd_xxd b args (tok_to l w) = map_option (map_prod id (tok_to l)) (cmd_xxd b args w)"
  by (simp add: cmd_xxd_def tok_simps tok_push cong: if_cong)

section \<open>The dispatcher\<close>

lemma select_spec:
  assumes "terminated a0" and "\<forall>(s, f) \<in> set cs. 0 \<notin> set (lit s)"
  shows "select cs dflt a0 = Some (case map_of (map (\<lambda>(s, f). (lit s, f)) cs) (cstr a0) of None \<Rightarrow> dflt | Some f \<Rightarrow> f)"
  using assms(2)
proof (induction cs)
  case Nil
  then show ?case by simp
next
  case (Cons c cs)
  obtain s f where c: "c = (s, f)" by force
  have z: "terminated (zlit s)" "cstr (zlit s) = lit s" using Cons.prems c by simp_all
  obtain r where "strcmp a0 (zlit s) = Some r" "r = 0 \<longleftrightarrow> cstr a0 = lit s"
    using strcmp_zero [OF assms(1) z(1)] strcmp_defined [OF assms(1) z(1)] z(2) by auto
  then show ?case using Cons c by auto
qed

definition command_of :: "'d board \<Rightarrow> 'd runner \<Rightarrow> bytes \<Rightarrow> 'd command" where
  "command_of b run nm = (case map_of (map (\<lambda>(s, f). (lit s, f)) (commands b run)) nm of
     None \<Rightarrow> cmd_unknown b | Some f \<Rightarrow> f)"

lemma select_commands:
  assumes "terminated a0"
  shows "select (commands b run) (cmd_unknown b) a0 = Some (command_of b run (cstr a0))"
  unfolding command_of_def by (rule select_spec [OF assms]) (simp add: commands_def lit_def)

lemma tok_command:
  assumes "nm \<noteq> lit ''sh''" and "nm \<noteq> lit ''exec''"
  shows "command_of b run nm args (tok_to l w) = map_option (map_prod id (tok_to l)) (command_of b run nm args w)"
proof -
  have "command_of b run nm \<in> {cmd_unknown b, cmd_exit, cmd_disk b, cmd_help b, cmd_cat b, cmd_info b, cmd_clear b, cmd_lspid b,
      cmd_mkfs b, cmd_xxd b, cmd_sleep b, cmd_ls b, cmd_cd b, cmd_stop b, cmd_unblock b, cmd_block b, cmd_beep b, cmd_write b,
      cmd_read b, cmd_yield b}"
    using assms by (simp add: command_of_def commands_def)
  then show ?thesis by (elim insertE emptyE; simp only: tok_simps)
qed

text \<open>\<open>split\<close> looks at the string only, and its words are terminated.\<close>

lemma split_skip_cstr:
  "terminated p \<Longrightarrow> \<exists>q. split_skip d p = Some q \<and> terminated q \<and> split_skip d (cstr p @ [0]) = Some (cstr q @ [0])" if "d \<noteq> 0"
  using that by (induction p) auto

lemma split_word_cstr:
  "terminated p \<Longrightarrow> \<exists>w q. split_word d k p = Some (w, q) \<and> terminated q \<and> 0 \<notin> set w
     \<and> split_word d k (cstr p @ [0]) = Some (w, cstr q @ [0])"
proof (induction d k p rule: split_word.induct)
  case (2 d k c s)
  then show ?case by (cases "c \<noteq> 0 \<and> c \<noteq> d \<and> k > 0") auto
qed simp

lemma split_loop_cstr:
  assumes "terminated p" and "d \<noteq> 0"
  shows "split_loop k d p = split_loop k d (cstr p @ [0])
    \<and> (\<forall>ws. split_loop k d p = Some ws \<longrightarrow> (\<forall>x \<in> set ws. terminated x))"
  using assms(1)
proof (induction k arbitrary: p)
  case 0
  then show ?case by (cases p) auto
next
  case (Suc k)
  obtain c where c: "rd p 0 = Some c" "rd (cstr p @ [0]) 0 = Some c" using Suc.prems by (cases p) auto
  obtain q where q: "split_skip d p = Some q" "terminated q" "split_skip d (cstr p @ [0]) = Some (cstr q @ [0])"
    using split_skip_cstr [OF assms(2) Suc.prems] by blast
  obtain e where e: "rd q 0 = Some e" "rd (cstr q @ [0]) 0 = Some e" using q(2) by (cases q) auto
  obtain w r where r: "split_word d 63 q = Some (w, r)" "terminated r" "split_word d 63 (cstr q @ [0]) = Some (w, cstr r @ [0])"
    using split_word_cstr [OF q(2)] by blast
  show ?case using c q e r Suc.IH [OF r(2)] by (auto simp: Option.bind_eq_Some_conv)
qed

lemma c_split_cstr: "terminated p \<Longrightarrow> c_split p 32 = c_split (cstr p @ [0]) 32"
  unfolding c_split_def using split_loop_cstr [of p 32] by simp

lemma c_split_words: "terminated p \<Longrightarrow> c_split p 32 = Some ws \<Longrightarrow> x \<in> set ws \<Longrightarrow> terminated x"
  unfolding c_split_def using split_loop_cstr [of p 32] by simp

text \<open>The words of a command, its name, and whether it runs a script.\<close>

definition words_of :: "bytes \<Rightarrow> bytes list" where
  "words_of s = (case c_split (s @ [0]) 32 of None \<Rightarrow> [] | Some ws \<Rightarrow> ws)"

lemma c_split_defined: "terminated p \<Longrightarrow> d \<noteq> 0 \<Longrightarrow> \<exists>ws. split_loop k d p = Some ws"
proof (induction k arbitrary: p)
  case 0
  then show ?case by (cases p) auto
next
  case (Suc k)
  obtain q where q: "split_skip d p = Some q" "terminated q" using split_skip_cstr [OF Suc.prems(2,1)] by blast
  obtain w r where r: "split_word d 63 q = Some (w, r)" "terminated r" using split_word_cstr [OF q(2)] by blast
  obtain c e where "rd p 0 = Some c" "rd q 0 = Some e" using Suc.prems q(2) by (cases p; cases q) auto
  then show ?case using q r Suc.IH [OF r(2) Suc.prems(2)] by auto
qed

lemma c_split_words_of: "terminated p \<Longrightarrow> c_split p 32 = Some (words_of (cstr p))"
  using c_split_defined [of "cstr p @ [0]" 32 64] c_split_cstr [of p]
  by (auto simp: words_of_def c_split_def)

lemma words_of_fields:
  assumes "0 \<notin> set s" and "length (Cstring.fields (\<lambda>c. c = 32) s) \<le> 64"
    and "\<forall>x \<in> set (Cstring.fields (\<lambda>c. c = 32) s). length x \<le> 63"
  shows "words_of s = map (\<lambda>x. x @ [0]) (Cstring.fields (\<lambda>c. c = 32) s)"
  using split_loop_fields [of "s @ [0]" 32 64] assms by (simp add: words_of_def c_split_def)

definition runs_script :: "bytes \<Rightarrow> bool" where
  "runs_script s \<longleftrightarrow> words_of s \<noteq> [] \<and> cstr (hd (words_of s)) \<in> {lit ''sh'', lit ''exec''}"

text \<open>A command is the command of its first word, followed by a yield; an empty one does nothing.\<close>

lemma exec_single_spec:
  assumes "terminated cmd"
  shows "sh_exec_single b (Suc depth) cmd w = (case words_of (cstr cmd) of
      [] \<Rightarrow> Some (0, w)
    | a0 # args \<Rightarrow> do {
        (status, w1) \<leftarrow> command_of b (sh_exec_single b depth) (cstr a0) (a0 # args) w;
        w2 \<leftarrow> yields b w1;
        Some (status, w2) })"
proof (cases "words_of (cstr cmd)")
  case Nil
  then show ?thesis using c_split_words_of [OF assms] by simp
next
  case (Cons a0 args)
  have "terminated a0" using c_split_words [OF assms c_split_words_of [OF assms]] Cons by simp
  then show ?thesis using c_split_words_of [OF assms] Cons by (simp add: select_commands)
qed

lemma exec_single_cstr:
  assumes "terminated cmd"
  shows "sh_exec_single b depth cmd w = sh_exec_single b depth (cstr cmd @ [0]) w"
proof (cases depth)
  case (Suc k)
  have "terminated (cstr cmd @ [0])" "cstr (cstr cmd @ [0]) = cstr cmd" by (simp_all add: cstr_id)
  then show ?thesis unfolding Suc by (simp only: exec_single_spec assms)
qed simp

lemma tok_exec_single:
  assumes "0 \<notin> set s" and "\<not> runs_script s"
  shows "sh_exec_single b depth (s @ [0]) (tok_to l w) = map_option (map_prod id (tok_to l)) (sh_exec_single b depth (s @ [0]) w)"
proof (cases depth)
  case 0
  then show ?thesis by simp
next
  case (Suc k)
  have t: "terminated (s @ [0])" "cstr (s @ [0]) = s" using assms(1) by simp_all
  show ?thesis
  proof (cases "words_of s")
    case Nil
    then show ?thesis unfolding Suc exec_single_spec [OF t(1)] t(2) by simp
  next
    case (Cons a0 args)
    then have "cstr a0 \<noteq> lit ''sh''" "cstr a0 \<noteq> lit ''exec''" using assms(2) by (simp_all add: runs_script_def)
    then show ?thesis unfolding Suc exec_single_spec [OF t(1)] t(2) using Cons
      by (simp add: tok_command tok_simps tok_push)
  qed
qed

text \<open>
  A script command sets the token pointer itself when it reads its script, which is when it returns 0; with
  any other status it has not looked at it.
\<close>

definition tok_after :: "bytes option \<Rightarrow> i32 \<times> 'd shell \<Rightarrow> i32 \<times> 'd shell" where
  "tok_after l r = (fst r, if fst r = 0 then snd r else tok_to l (snd r))"

lemma tok_after_simps [simp]: "tok_after l (0, w) = (0, w)" "tok_after l (1, w) = (1, tok_to l w)"
  by (simp_all add: tok_after_def)

lemma next_token_start: "next_token d (Some t) (tok_to l w) = next_token d (Some t) w"
  by (simp add: next_token_def strtok_def)

lemma bind_case_prod: "Option.bind (case p of (x, y) \<Rightarrow> g x y) k = (case p of (x, y) \<Rightarrow> Option.bind (g x y) k)"
  by (cases p) simp

lemma tok_sh_file: "sh_file b run e p es (tok_to l w) = map_option (tok_after l) (sh_file b run e p es w)"
  by (simp add: sh_file_def tok_simps tok_push next_token_start bind_case_prod cong: option.case_cong if_cong)

lemma tok_exec_file: "exec_file b run e p es (tok_to l w) = map_option (tok_after l) (exec_file b run e p es w)"
  by (simp add: exec_file_def tok_simps tok_push next_token_start bind_case_prod cong: option.case_cong if_cong)

lemma tok_scripts:
  "cmd_sh b run args (tok_to l w) = map_option (tok_after l) (cmd_sh b run args w)"
  "cmd_exec b run args (tok_to l w) = map_option (tok_after l) (cmd_exec b run args w)"
  by (simp_all add: cmd_sh_def cmd_exec_def sh_execute_script_def exec_sh_script_def tok_sh_file tok_exec_file tok_simps tok_push
      cong: option.case_cong if_cong)

section \<open>Stripped lines\<close>

definition stripped :: "(u8 \<Rightarrow> bool) \<Rightarrow> bytes \<Rightarrow> bytes" where
  "stripped P s = (case dropWhile word_end s of [] \<Rightarrow> [] | c # r \<Rightarrow> c # rev (dropWhile P (rev r)))"

lemma skip_blanks_spec:
  "terminated s \<Longrightarrow> \<exists>l. skip_blanks s = Some l \<and> terminated l \<and> cstr l = dropWhile word_end (cstr s)"
  by (induction s) (auto simp: word_end_def)

lemma last_kept_spec:
  "k < length l \<Longrightarrow> \<exists>j. last_kept P l k = Some j \<and> j \<le> k
     \<and> take (j + 1) l = hd l # rev (dropWhile P (rev (tl (take (k + 1) l))))"
proof (induction k)
  case 0
  then show ?case by (cases l) auto
next
  case (Suc k)
  have t: "take (Suc (Suc k)) l = take (Suc k) l @ [l ! Suc k]" using Suc.prems by (simp add: take_Suc_conv_app_nth)
  have ne: "take (Suc k) l \<noteq> []" using Suc.prems by auto
  have tl: "tl (take (Suc (Suc k)) l) = tl (take (Suc k) l) @ [l ! Suc k]" unfolding t using ne by simp
  show ?case
  proof (cases "P (l ! Suc k)")
    case True
    obtain j where "last_kept P l k = Some j" "j \<le> k" "take (j + 1) l = hd l # rev (dropWhile P (rev (tl (take (k + 1) l))))"
      using Suc by auto
    then show ?thesis using True Suc.prems tl by (auto intro!: exI [of _ j])
  next
    case False
    have "take (Suc (Suc k)) l = hd l # tl (take (Suc (Suc k)) l)" using Suc.prems by (cases l) auto
    then show ?thesis using False Suc.prems tl by auto
  qed
qed

lemma strip_spec:
  assumes "terminated line"
  shows "\<exists>t. strip P line = Some t \<and> terminated t \<and> cstr t = stripped P (cstr line)"
proof -
  obtain l where l: "skip_blanks line = Some l" "terminated l" "cstr l = dropWhile word_end (cstr line)"
    using skip_blanks_spec [OF assms] by blast
  show ?thesis
  proof (cases "cstr l = []")
    case True
    then obtain r where "l = 0 # r" using l(2) by (cases l) (auto split: if_splits)
    then show ?thesis using l True by (simp add: strip_def stripped_def)
  next
    case False
    define n where "n = length (cstr l)"
    have n: "0 < n" "n < length l" using False length_cstr_less [OF l(2)] by (simp_all add: n_def)
    have tk: "take n l = cstr l" unfolding n_def using nth_cstr_nonzero [of _ l] length_cstr_le [of l]
      by (intro nth_equalityI) auto
    obtain j where j: "last_kept P l (n - 1) = Some j" "j \<le> n - 1"
      "take (j + 1) l = hd l # rev (dropWhile P (rev (tl (take n l))))"
    proof -
      have k: "n - 1 < length l" "n - 1 + 1 = n" using n by simp_all
      show ?thesis using last_kept_spec [OF k(1), of P] unfolding k(2) using that by blast
    qed
    obtain c r where cr: "cstr l = c # r" using False by (cases "cstr l") auto
    have hd: "hd l = c" using cr l(2) by (cases l) (auto split: if_splits)
    have st: "take (j + 1) l = stripped P (cstr line)"
      using j(3) hd cr l(3) [symmetric] unfolding tk by (simp add: stripped_def)
    have pre: "take (j + 1) l = take (j + 1) (cstr l)" using j(2) n(1) by (simp add: tk [symmetric] min_def)
    then have z: "0 \<notin> set (take (j + 1) l)" using cstr_no_zero [of l] by (auto dest: in_set_takeD)
    have eq: "l[j + 1 := 0] = take (j + 1) l @ 0 # drop (j + 2) l"
      using j(2) n by (simp add: upd_conv_take_nth_drop)
    have "wr l (j + 1) 0 = Some (l[j + 1 := 0])" using j(2) n by (intro wr_Some) simp
    then have "strip P line = Some (l[j + 1 := 0])"
      using l(1,2) n(1) j(1) by (simp add: strip_def strlen_cstr n_def)
    moreover have "terminated (l[j + 1 := 0])" "cstr (l[j + 1 := 0]) = stripped P (cstr line)"
      unfolding eq using z st by simp_all
    ultimately show ?thesis by blast
  qed
qed

lemma stripped_subset: "set (stripped P s) \<subseteq> set s"
proof
  fix x assume x: "x \<in> set (stripped P s)"
  show "x \<in> set s"
  proof (cases "dropWhile word_end s")
    case Nil
    then show ?thesis using x unfolding stripped_def Nil by simp
  next
    case (Cons c r)
    then have "x \<in> set (c # r)" using x by (auto simp: stripped_def dest: set_dropWhileD)
    then show ?thesis unfolding Cons [symmetric] by (rule set_dropWhileD)
  qed
qed

section \<open>The separators of a command line\<close>

text \<open>Commands one after the other, whatever their status; the ones behind a script that was run are lost.\<close>

fun run_line :: "'d runner \<Rightarrow> bytes list \<Rightarrow> 'd shell \<Rightarrow> 'd shell option" where
  "run_line run [] w = Some w"
| "run_line run (c # cs) w = do {
     (st, w1) \<leftarrow> run (c @ [0]) w;
     if runs_script c \<and> st = 0 then Some w1 else run_line run cs w1 }"

text \<open>The commands of a line: what stands between the \<open>&\<close> signs, stripped, where something is left.\<close>

definition pieces :: "bytes list \<Rightarrow> bytes list" where
  "pieces ws = filter (\<lambda>c. c \<noteq> []) (map (stripped word_end) ws)"

definition commands_in :: "bytes \<Rightarrow> bytes list" where
  "commands_in s = pieces (Cstring.fields (\<lambda>c. c = 38) s)"

lemma field_within: "f \<in> set (Cstring.fields P s) \<Longrightarrow> set f \<subseteq> set s \<and> (\<forall>c \<in> set f. \<not> P c)"
  using fields_members [of f P s] by blast

lemma strstr_absent: "terminated t \<Longrightarrow> 38 \<notin> set (cstr t) \<Longrightarrow> strstr t (zlit ''&&'') = Some None"
proof -
  have "terminated t \<Longrightarrow> 38 \<notin> set (cstr t) \<Longrightarrow> strstr_loop t [38, 38, 0] = Some None"
    by (induction t) (auto split: if_splits)
  then show "terminated t \<Longrightarrow> 38 \<notin> set (cstr t) \<Longrightarrow> strstr t (zlit ''&&'') = Some None"
    by (simp add: strstr_def lit_def)
qed

text \<open>How a command treats the token pointer: a script that was run leaves NULL, everything else leaves it alone.\<close>

definition tok_command_law :: "'d runner \<Rightarrow> bytes \<Rightarrow> bool" where
  "tok_command_law run c \<longleftrightarrow>
     (\<forall>w l. run (c @ [0]) (tok_to l w)
        = map_option (\<lambda>(st, v). (st, if runs_script c \<and> st = 0 then v else tok_to l v)) (run (c @ [0]) w))
   \<and> (\<forall>w st v. run (c @ [0]) w = Some (st, v) \<longrightarrow> runs_script c \<longrightarrow> st = 0 \<longrightarrow> s_tok v = None)"

lemma tok_lawD:
  assumes "tok_command_law run c"
  shows "run (c @ [0]) (tok_to l w)
      = map_option (\<lambda>(st, v). (st, if runs_script c \<and> st = 0 then v else tok_to l v)) (run (c @ [0]) w)"
    and "run (c @ [0]) w = Some (st, v) \<Longrightarrow> s_tok v = (if runs_script c \<and> st = 0 then None else s_tok w)"
proof -
  show law: "run (c @ [0]) (tok_to l w)
      = map_option (\<lambda>(st, v). (st, if runs_script c \<and> st = 0 then v else tok_to l v)) (run (c @ [0]) w)" for l
    using assms by (simp add: tok_command_law_def)
  show "s_tok v = (if runs_script c \<and> st = 0 then None else s_tok w)" if r: "run (c @ [0]) w = Some (st, v)"
  proof (cases "runs_script c \<and> st = 0")
    case True
    then show ?thesis using assms r unfolding tok_command_law_def by auto
  next
    case False
    then have "v = tok_to (s_tok w) v" using law [of "s_tok w"] r by auto
    then have "s_tok v = s_tok (tok_to (s_tok w) v)" by (rule arg_cong)
    then show ?thesis using False by auto
  qed
qed

lemma tok_run_line:
  assumes "\<And>c. c \<in> set cs \<Longrightarrow> tok_command_law run c"
  shows "map_option (tok_to None) (run_line run cs (tok_to l w)) = map_option (tok_to None) (run_line run cs w)"
  using assms
proof (induction cs arbitrary: w)
  case Nil
  then show ?case by simp
next
  case (Cons c cs)
  then show ?case
    using tok_lawD(1) [of run c l w] by (cases "run (c @ [0]) w") (auto split: prod.split)
qed

lemma run_token_spec:
  assumes cstr: "\<And>t w. terminated t \<Longrightarrow> run t w = run (cstr t @ [0]) w"
    and "0 \<notin> set f" and "38 \<notin> set f"
  shows "run_token run (f @ [0]) st w = (if stripped word_end f = [] then Some (st, w) else run (stripped word_end f @ [0]) w)"
proof -
  have tf: "terminated (f @ [0])" "cstr (f @ [0]) = f" using assms(2) by simp_all
  obtain t where t: "strip word_end (f @ [0]) = Some t" "terminated t" "cstr t = stripped word_end f"
    using strip_spec [OF tf(1), of word_end] unfolding tf(2) by blast
  have "38 \<notin> set (cstr t)" using assms(3) stripped_subset [of word_end f] t(3) by auto
  then show ?thesis using t strstr_absent [OF t(2)] cstr [OF t(2)]
    by (simp add: run_token_def strlen_cstr)
qed

text \<open>The command line as tokens between the \<open>&\<close> signs.\<close>

lemma amp_fields:
  assumes "terminated p" and "start = Some p \<or> start = None \<and> l = Some p"
  shows "case Cstring.fields (\<lambda>c. c = 38) (cstr p) of [] \<Rightarrow> strtok start (zlit ''&'') l = Some (None, None)
    | f # fs \<Rightarrow> \<exists>l'. strtok start (zlit ''&'') l = Some (Some (f @ [0]), l') \<and> (\<forall>q. l' = Some q \<longrightarrow> terminated q)
        \<and> Cstring.fields (\<lambda>c. c = 38) (tok_rest l') = fs"
proof -
  have set: "set (cstr (zlit ''&'')) = {38}" "terminated (zlit ''&'')" by (simp_all add: lit_def)
  have tokf: "(\<lambda>c. c \<in> set (cstr (zlit ''&''))) = (\<lambda>c. c = (38 :: u8))" unfolding set by auto
  show ?thesis by (rule strtok_fields [OF set(2) assms, unfolded tokf])
qed

lemma run_tokens_spec:
  assumes cstr: "\<And>t w. terminated t \<Longrightarrow> run t w = run (cstr t @ [0]) w"
    and law: "\<And>c. c \<in> set (pieces fs) \<Longrightarrow> tok_command_law run c"
    and chars: "\<forall>f \<in> set fs. 0 \<notin> set f \<and> 38 \<notin> set f"
    and rest: "fs = f # Cstring.fields (\<lambda>c. c = 38) (tok_rest (s_tok w))" "\<forall>q. s_tok w = Some q \<longrightarrow> terminated q"
  shows "map_option snd (run_tokens run (Some (f @ [0])) st w) = map_option (tok_to None) (run_line run (pieces fs) w)"
  using assms(2-)
proof (induction fs arbitrary: f w st)
  case Nil
  then show ?case by simp
next
  case (Cons f0 gs)
  let ?P = "\<lambda>c. c = (38 :: u8)"
  have f0: "f0 = f" and gs: "gs = Cstring.fields ?P (tok_rest (s_tok w))" using Cons.prems(3) by auto
  let ?d = "stripped word_end f"
  have first: "run_token run (f @ [0]) st w = (if ?d = [] then Some (st, w) else run (?d @ [0]) w)"
  proof (rule run_token_spec)
    show "run t w = run (cstr t @ [0]) w" if "terminated t" for t w by (rule cstr [OF that])
  qed (use Cons.prems(2) f0 in auto)
  have pcs: "pieces (f0 # gs) = (if ?d = [] then pieces gs else ?d # pieces gs)" by (simp add: pieces_def f0)
  have lawg: "tok_command_law run c" if "c \<in> set (pieces gs)" for c
    by (rule Cons.prems(1)) (use pcs that in auto)
  have lost: "map_option snd (do { (nxt, w2) \<leftarrow> next_token (zlit ''&'') None w1; run_tokens run nxt st1 w2 })
      = Some (tok_to None w1)" if "s_tok w1 = None" for w1 st1
    using that by (simp add: next_token_def strtok_def run_tokens.simps)
  have go: "map_option snd (do { (nxt, w2) \<leftarrow> next_token (zlit ''&'') None w1; run_tokens run nxt st1 w2 })
      = map_option (tok_to None) (run_line run (pieces gs) w1)" if "s_tok w1 = s_tok w" for w1 st1
  proof (cases "s_tok w")
    case None
    then have "gs = []" using gs by (simp add: tok_rest_def fields_none)
    then show ?thesis using lost [of w1] None that by (simp add: pieces_def)
  next
    case (Some q)
    then have q: "terminated q" using Cons.prems(4) by blast
    have gq: "gs = Cstring.fields ?P (cstr q)" using gs Some by (simp add: tok_rest_def)
    note sf = amp_fields [OF q, of None "Some q"]
    show ?thesis
    proof (cases gs)
      case Nil
      then have "strtok None (zlit ''&'') (Some q) = Some (None, None)" using sf gq by simp
      then show ?thesis using that Some Nil by (simp add: next_token_def pieces_def run_tokens.simps)
    next
      case (Cons g hs)
      then obtain l' where l': "strtok None (zlit ''&'') (Some q) = Some (Some (g @ [0]), l')"
        "\<forall>q. l' = Some q \<longrightarrow> terminated q" "Cstring.fields ?P (tok_rest l') = hs"
        using sf gq by auto
      have "map_option snd (run_tokens run (Some (g @ [0])) st1 (tok_to l' w1))
          = map_option (tok_to None) (run_line run (pieces gs) (tok_to l' w1))"
        by (rule Cons.IH) (use lawg Cons.prems(2) l' Cons in auto)
      also have "\<dots> = map_option (tok_to None) (run_line run (pieces gs) w1)"
        by (rule tok_run_line) (rule lawg)
      finally show ?thesis using l'(1) that Some by (simp add: next_token_def)
    qed
  qed
  show ?case
  proof (cases "?d = []")
    case True
    then show ?thesis using go [OF refl, of st] first pcs by (subst run_tokens.simps) simp
  next
    case False
    then have law: "tok_command_law run ?d" using pcs by (intro Cons.prems(1)) simp
    have un: "map_option snd (run_tokens run (Some (f @ [0])) st w)
        = do { (st1, w1) \<leftarrow> run (?d @ [0]) w; map_option snd (do { (nxt, w2) \<leftarrow> next_token (zlit ''&'') None w1; run_tokens run nxt st1 w2 }) }"
      using False first by (subst run_tokens.simps) (simp add: map_option_bind comp_def map_option_prod_case)
    show ?thesis
    proof (cases "run (?d @ [0]) w")
      case None
      then show ?thesis using un pcs False by simp
    next
      case (Some r)
      obtain st1 w1 where r: "r = (st1, w1)" by force
      have tok: "s_tok w1 = (if runs_script ?d \<and> st1 = 0 then None else s_tok w)"
        using tok_lawD(2) [OF law] Some r by simp
      then show ?thesis
        using un pcs False Some r go [of w1 st1] lost [of w1 st1] by (cases "runs_script ?d \<and> st1 = 0") auto
    qed
  qed
qed

section \<open>Scripts and the token pointer\<close>

lemma next_token_end: "next_token d s w = Some (None, w') \<Longrightarrow> s_tok w' = None"
  by (auto simp: next_token_def strtok_def Option.bind_eq_Some_conv split: option.splits if_splits prod.splits)

lemma sh_lines_end:
  assumes "sh_lines b run line w = Some w'" and "line = None \<Longrightarrow> s_tok w = None"
  shows "s_tok w' = None"
proof -
  have "(line = None \<longrightarrow> s_tok w = None) \<longrightarrow> s_tok w' = None"
  proof (rule sh_lines.raw_induct [OF _ assms(1), where
      P = "\<lambda>b run line w w'. (line = None \<longrightarrow> s_tok w = None) \<longrightarrow> s_tok w' = None"], goal_cases)
    case (1 loop b run line w w')
    show ?case
    proof (cases line)
      case (Some t)
      then obtain w1 nxt w2 where w: "next_token [10, 13, 0] None w1 = Some (nxt, w2)" "loop b run nxt w2 = Some w'"
        using 1(2) by (auto simp: Option.bind_eq_Some_conv)
      then show ?thesis using 1(1) [OF w(2)] next_token_end [of _ _ w1 w2] by auto
    qed (use 1(2) in auto)
  qed
  then show ?thesis using assms(2) by blast
qed

lemma exec_lines_end:
  assumes "exec_lines b run line k st w = Some (st', w')" and "line = None \<Longrightarrow> s_tok w = None"
  shows "s_tok w' = None"
proof -
  have "(line = None \<longrightarrow> s_tok w = None) \<longrightarrow> s_tok (snd (st', w')) = None"
  proof (rule exec_lines.raw_induct [OF _ assms(1), where
      P = "\<lambda>b run line k st w r. (line = None \<longrightarrow> s_tok w = None) \<longrightarrow> s_tok (snd r) = None"], goal_cases)
    case (1 loop b run line k st w r)
    show ?case
    proof (cases line)
      case (Some t)
      then obtain st1 w1 nxt w2 where w: "next_token [10, 13, 0] None w1 = Some (nxt, w2)" "loop b run nxt (k + 1) st1 w2 = Some r"
        using 1(2) by (auto simp: Option.bind_eq_Some_conv)
      then show ?thesis using 1(1) [OF w(2)] next_token_end [of _ _ w1 w2] by auto
    qed (use 1(2) in auto)
  qed
  then show ?thesis using assms(2) by simp
qed

lemma tok_kept1:
  assumes "\<And>l. f (tok_to l w) = map_option (tok_to l) (f w)" and "f w = Some w'"
  shows "s_tok w' = s_tok w"
proof -
  have "f w = map_option (tok_to (s_tok w)) (f w)" using assms(1) [of "s_tok w"] by simp
  then have "w' = tok_to (s_tok w) w'" using assms(2) by simp
  then have "s_tok w' = s_tok (tok_to (s_tok w) w')" by (rule arg_cong)
  then show ?thesis by simp
qed

lemma give_back_tok: "give_back p bs w = Some w' \<Longrightarrow> s_tok w' = s_tok w"
  by (rule tok_kept1 [OF tok_service2(4)])

lemma yields_tok: "yields b w = Some w' \<Longrightarrow> s_tok w' = s_tok w"
  by (rule tok_kept1 [OF tok_service2(5)])

lemma sh_file_end: "sh_file b run e p es w = Some (0, w') \<Longrightarrow> s_tok w' = None"
  by (auto simp: sh_file_def Option.bind_eq_Some_conv split: if_splits prod.splits
      dest!: give_back_tok dest: next_token_end sh_lines_end)

lemma exec_file_end: "exec_file b run e p es w = Some (0, w') \<Longrightarrow> s_tok w' = None"
  by (auto simp: exec_file_def Option.bind_eq_Some_conv split: if_splits prod.splits
      dest!: give_back_tok dest: next_token_end exec_lines_end)

lemma script_end:
  "cmd_sh b run args w = Some (0, w') \<Longrightarrow> s_tok w' = None"
  "cmd_exec b run args w = Some (0, w') \<Longrightarrow> s_tok w' = None"
  by (auto simp: cmd_sh_def cmd_exec_def sh_execute_script_def exec_sh_script_def fails_def Option.bind_eq_Some_conv
      split: if_splits prod.splits option.splits dest: sh_file_end exec_file_end)

text \<open>A script that was read leaves the pointer at its end, and the line behind it in an outer script is not seen.\<close>

lemma exec_single_script:
  assumes "0 \<notin> set s" and "runs_script s" and "sh_exec_single b depth (s @ [0]) w = Some (0, w')"
  shows "s_tok w' = None"
proof (cases depth)
  case 0
  then show ?thesis using assms(3) by simp
next
  case (Suc k)
  have t: "terminated (s @ [0])" "cstr (s @ [0]) = s" using assms(1) by simp_all
  obtain a0 args where ws: "words_of s = a0 # args" "cstr a0 \<in> {lit ''sh'', lit ''exec''}"
    using assms(2) by (cases "words_of s") (auto simp: runs_script_def)
  obtain w1 where w1: "command_of b (sh_exec_single b k) (cstr a0) (a0 # args) w = Some (0, w1)" "yields b w1 = Some w'"
    using assms(3) unfolding Suc exec_single_spec [OF t(1)] t(2) ws(1)
    by (auto simp: Option.bind_eq_Some_conv)
  have "command_of b (sh_exec_single b k) (cstr a0) \<in> {cmd_sh b (sh_exec_single b k), cmd_exec b (sh_exec_single b k)}"
    using ws(2) by (auto simp: command_of_def commands_def lit_def)
  then have "s_tok w1 = None" using w1(1) script_end by auto
  then show ?thesis using yields_tok [OF w1(2)] by simp
qed

lemma tok_exec_script:
  assumes "0 \<notin> set s" and "runs_script s"
  shows "sh_exec_single b depth (s @ [0]) (tok_to l w) = map_option (tok_after l) (sh_exec_single b depth (s @ [0]) w)"
proof (cases depth)
  case 0
  then show ?thesis by simp
next
  case (Suc k)
  have t: "terminated (s @ [0])" "cstr (s @ [0]) = s" using assms(1) by simp_all
  obtain a0 args where ws: "words_of s = a0 # args" "cstr a0 \<in> {lit ''sh'', lit ''exec''}"
    using assms(2) by (cases "words_of s") (auto simp: runs_script_def)
  let ?f = "command_of b (sh_exec_single b k) (cstr a0) (a0 # args)"
  have "command_of b (sh_exec_single b k) (cstr a0) \<in> {cmd_sh b (sh_exec_single b k), cmd_exec b (sh_exec_single b k)}"
    using ws(2) by (auto simp: command_of_def commands_def lit_def)
  then have f: "?f (tok_to l w) = map_option (tok_after l) (?f w)" using tok_scripts by auto
  show ?thesis
    unfolding Suc exec_single_spec [OF t(1)] t(2) ws(1) list.case f
    by (cases "?f w") (auto simp: tok_after_def tok_simps bind_map_option map_option_bind comp_def split: prod.split)
qed

lemma exec_single_law:
  fixes b :: "'d board"
  assumes "0 \<notin> set c"
  shows "tok_command_law (sh_exec_single b depth) c"
proof (cases "runs_script c")
  case True
  then have "(\<lambda>(st, v :: 'd shell). (st, if runs_script c \<and> st = 0 then v else tok_to l v)) = tok_after l" for l
    by (auto simp: tok_after_def fun_eq_iff)
  then show ?thesis
    using exec_single_script [OF assms True, of b depth]
    by (simp add: tok_command_law_def tok_exec_script [OF assms True])
next
  case False
  then show ?thesis
    by (simp add: tok_command_law_def tok_exec_single [OF assms False] map_prod_def)
qed

lemma strcpy_overrun: "terminated s \<Longrightarrow> length d \<le> i + length (cstr s) \<Longrightarrow> strcpy d i s = None"
  by (induction d i s rule: strcpy.induct) (auto simp: wr_def Option.bind_eq_None_conv split: if_splits)

section \<open>The name comparison\<close>

text \<open>
  When two names are the same for the lookup: equal, or equal again in the character behind the first
  difference.
\<close>

definition accepted :: "bytes \<Rightarrow> bytes \<Rightarrow> bool" where
  "accepted q e \<longleftrightarrow> take 11 e = take 11 q \<or> (\<exists>i < 11. take i e = take i q \<and> e ! i \<noteq> q ! i \<and> e ! (i + 1) = q ! (i + 1))"

lemma memcmp_accepted:
  assumes "12 \<le> length e" and "12 \<le> length q"
  shows "\<exists>r. memcmp e q 11 = Some r \<and> (r = 0 \<longleftrightarrow> accepted q e)"
proof (cases "take 11 e = take 11 q")
  case True
  then show ?thesis using memcmp_equal [of 11 e q] assms by (simp add: accepted_def)
next
  case False
  then obtain i where i: "i < 11" "take i e = take i q" "e ! i \<noteq> q ! i"
    using first_difference [of 11 e q] assms by auto
  have "memcmp e q 11 = Some (sint (e ! Suc i) - sint (q ! Suc i))"
    by (rule memcmp_differ [OF i(1)]) (use i assms in auto)
  moreover have "accepted q e \<longleftrightarrow> e ! Suc i = q ! Suc i"
  proof
    assume "accepted q e"
    then obtain j where j: "j < 11" "take j e = take j q" "e ! j \<noteq> q ! j" "e ! (j + 1) = q ! (j + 1)"
      using False by (auto simp: accepted_def)
    have "\<not> i < j" using j(2) i(3) by (metis nth_take)
    moreover have "\<not> j < i" using i(2) j(3) by (metis nth_take)
    ultimately show "e ! Suc i = q ! Suc i" using j(4) by simp
  next
    assume "e ! Suc i = q ! Suc i"
    then show "accepted q e" using i by (auto simp: accepted_def)
  qed
  ultimately show ?thesis by (auto intro!: exI [of _ "sint (e ! Suc i) - sint (q ! Suc i)"])
qed

lemma find_raw_file_spec:
  assumes "\<forall>e \<in> set es. length e = 32" and "12 \<le> length q"
  shows "find_raw_file q es = Some (find (\<lambda>e. e ! 11 AND 0x10 = 0 \<and> accepted q e) es)"
  using assms(1)
proof (induction es)
  case Nil
  then show ?case by simp
next
  case (Cons e es)
  obtain r where "memcmp e q 11 = Some r" "r = 0 \<longleftrightarrow> accepted q e"
    using memcmp_accepted [of e q] Cons.prems assms(2) by auto
  then show ?case using Cons by auto
qed

section \<open>Properties\<close>

lemma exec_unfold:
  assumes "terminated cmd" and "kmalloc (of_nat (length (cstr cmd) + 1)) (kheap (s_threads w)) = Some (p, h)" and "p \<noteq> 0"
  shows "sh_exec b depth cmd w = do {
      (token, w2) \<leftarrow> next_token (zlit ''&'') (Some (cstr cmd @ [0])) (w\<lparr>s_threads := (s_threads w)\<lparr>kheap := h\<rparr>\<rparr>);
      w3 \<leftarrow> map_option snd (run_tokens (sh_exec_single b depth) token 0 w2);
      give_back p [] w3 }"
proof -
  let ?s = "cstr cmd" and ?w = "w\<lparr>s_threads := (s_threads w)\<lparr>kheap := h\<rparr>\<rparr>"
  have al: "alloc (of_nat (length ?s + 1)) w = Some (p, ?w)" using assms(2) by (simp add: alloc_def)
  have "length (block p (length ?s + 1) ?w) = length ?s + 1" by (simp add: block_def load_bytes_def)
  then have cp: "strcpy (block p (length ?s + 1) ?w) 0 cmd = Some (?s @ [0])"
    using strcpy_blit [OF assms(1), of 0 "block p (length ?s + 1) ?w"] by (simp add: blit_def)
  show ?thesis
    using al cp assms(3) by (simp add: sh_exec_def strlen_cstr [OF assms(1)] bind_map_option comp_def case_prod_unfold)
qed

lemma command_chars: "c \<in> set (commands_in (cstr cmd)) \<Longrightarrow> 0 \<notin> set c"
  using stripped_subset field_within cstr_no_zero [of cmd] by (fastforce simp: commands_in_def pieces_def)

lemma exec_runs_line:
  assumes "terminated cmd" and "kmalloc (of_nat (length (cstr cmd) + 1)) (kheap (s_threads w)) = Some (p, h)" and "p \<noteq> 0"
  shows "sh_exec b depth cmd w = do {
    w1 \<leftarrow> run_line (sh_exec_single b depth) (commands_in (cstr cmd)) (w\<lparr>s_threads := (s_threads w)\<lparr>kheap := h\<rparr>\<rparr>);
    give_back p [] (w1\<lparr>s_tok := None\<rparr>) }"
proof -
  let ?P = "\<lambda>c. c = (38 :: u8)" and ?s = "cstr cmd"
  define w1 where "w1 = w\<lparr>s_threads := (s_threads w)\<lparr>kheap := h\<rparr>\<rparr>"
  define run where "run = sh_exec_single b depth"
  note un = exec_unfold [OF assms, of b depth, folded w1_def run_def]
  note sf = amp_fields [of "?s @ [0]" "Some (?s @ [0])" "s_tok w1", simplified]
  show ?thesis
  proof (cases "Cstring.fields ?P ?s")
    case Nil
    then have "strtok (Some (?s @ [0])) (zlit ''&'') (s_tok w1) = Some (None, None)" using sf by simp
    then show ?thesis using Nil unfolding un w1_def [symmetric]
      by (simp add: next_token_def commands_in_def pieces_def run_tokens.simps)
  next
    case (Cons f ws)
    then obtain l' where l': "strtok (Some (?s @ [0])) (zlit ''&'') (s_tok w1) = Some (Some (f @ [0]), l')"
      "\<forall>q. l' = Some q \<longrightarrow> terminated q" "Cstring.fields ?P (tok_rest l') = ws"
      using sf by auto
    have law: "tok_command_law run c" if "c \<in> set (pieces (f # ws))" for c
      unfolding run_def by (rule exec_single_law, rule command_chars [of _ cmd]) (use that Cons in \<open>simp add: commands_in_def\<close>)
    have "map_option snd (run_tokens run (Some (f @ [0])) 0 (tok_to l' w1))
        = map_option (tok_to None) (run_line run (pieces (f # ws)) (tok_to l' w1))"
    proof (rule run_tokens_spec)
      show "run t w = run (cstr t @ [0]) w" if "terminated t" for t w
        unfolding run_def by (rule exec_single_cstr [OF that])
      show "\<forall>f \<in> set (f # ws). 0 \<notin> set f \<and> 38 \<notin> set f"
        using field_within [of _ ?P ?s] cstr_no_zero [of cmd] unfolding Cons by blast
    qed (use l' law in auto)
    also have "\<dots> = map_option (tok_to None) (run_line run (pieces (f # ws)) w1)"
      by (rule tok_run_line) (rule law)
    finally have "map_option snd (run_tokens run (Some (f @ [0])) 0 (tok_to l' w1))
        = map_option (tok_to None) (run_line run (commands_in ?s) w1)"
      by (simp add: commands_in_def Cons)
    from arg_cong [OF this, of "\<lambda>m. Option.bind m (give_back p [])"]
    show ?thesis unfolding un w1_def [symmetric] run_def [symmetric]
      using l'(1) by (simp add: next_token_def bind_map_option comp_def)
  qed
qed

lemma exec_no_memory:
  assumes "terminated cmd" and "kmalloc (of_nat (length (cstr cmd) + 1)) (kheap (s_threads w)) = Some (0, h)"
  shows "sh_exec b depth cmd w = Some (w\<lparr>s_threads := (s_threads w)\<lparr>kheap := h\<rparr>\<rparr>)"
  using assms by (simp add: sh_exec_def strlen_cstr alloc_def)

text \<open>
  C23. A command line runs the commands between its \<open>&\<close> signs in order, whatever status the ones before
  returned: \<open>a && b\<close> runs \<open>b\<close> also when \<open>a\<close> fails. The one exception are \<open>sh\<close> and \<open>exec\<close>: once such a command has
  run its script (it returned 0) the commands behind it are lost, because the script used the static pointer of
  \<open>strtok\<close>. Without memory for the copy of the line nothing runs; otherwise the copy is freed at the end
  and the token pointer is left NULL.
\<close>

theorem commands_run_regardless:
  assumes "terminated cmd"
    and "kmalloc (of_nat (length (cstr cmd) + 1)) (kheap (s_threads w)) = Some (p, h)"
    and "v = w\<lparr>s_threads := (s_threads w)\<lparr>kheap := h\<rparr>\<rparr>"
  shows "sh_exec b depth cmd w = (if p = 0 then Some v else do {
    w1 \<leftarrow> run_line (sh_exec_single b depth) (commands_in (cstr cmd)) v;
    give_back p [] (w1\<lparr>s_tok := None\<rparr>) })"
  using exec_runs_line [OF assms(1,2), of b depth] exec_no_memory [OF assms(1), of w h b depth] assms(2,3) by simp

text \<open>A board and a shell to run on: a text screen and a disk in memory, the threads idle and shell.\<close>

definition demo_bus :: "((u8 \<times> (u8 \<Rightarrow> u8)) \<times> (u32 \<Rightarrow> bytes)) bus" where
  "demo_bus = \<lparr>
     port_outb = (\<lambda>p v (c, d). (port_outb crt_bus p v c, d)), port_inb = (\<lambda>p (c, d). let (v, c1) = port_inb crt_bus p c in (v, (c1, d))),
     port_outw = (\<lambda>p v s. s), port_inw = (\<lambda>p s. (0, s)), port_outl = (\<lambda>p v s. s), port_inl = (\<lambda>p s. (0, s))\<rparr>"

definition demo_disk :: "((u8 \<times> (u8 \<Rightarrow> u8)) \<times> (u32 \<Rightarrow> bytes)) blockdev" where
  "demo_disk = \<lparr>
     dev_read = (\<lambda>drive lba buf (c, d). let (r, b, d1) = dev_read whole_ram drive lba buf d in (r, b, (c, d1))),
     dev_write = (\<lambda>drive lba buf (c, d). let (r, d1) = dev_write whole_ram drive lba buf d in (r, (c, d1)))\<rparr>"

definition demo_board :: "((u8 \<times> (u8 \<Rightarrow> u8)) \<times> (u32 \<Rightarrow> bytes)) board" where
  "demo_board = \<lparr>io = demo_bus, drv = demo_disk, ticks = of_nat, junk = replicate 4096 0, others = id\<rparr>"

definition demo_shell :: "((u8 \<times> (u8 \<Rightarrow> u8)) \<times> (u32 \<Rightarrow> bytes)) shell" where
  "demo_shell = \<lparr>s_con = \<lparr>vram = replicate 4000 0, dev = (dev boot_console, disk demo_fs), color = 7\<rparr>,
     s_threads = two_sched\<lparr>kheap := boot_heap\<rparr>,
     s_fs = \<lparr>disk = (dev boot_console, disk demo_fs), fheap = boot_heap, fat32_bpb = fat32_bpb demo_fs,
       fat_start = 32, root_dir_first_cluster = 2, current_dir_cluster = 2, cluster_begin_lba = 40,
       sectors_per_fat = 8, total_clusters = 8, partition_lba = 0, next_free_hint = 3,
       cached_fat_sector = 0xFFFFFFFF, fat_cache = replicate 512 0\<rparr>, s_end = 0, s_drive = 0, s_env = empty_env, s_tok = None\<rparr>"

theorem commands_run_regardless_witness:
  "\<exists>h. sh_exec demo_board 1 (zlit ''disk 7 && disk 2'') demo_shell = do {
    w1 \<leftarrow> run_line (sh_exec_single demo_board 1) [lit ''disk 7'', lit ''disk 2'']
      (demo_shell\<lparr>s_threads := (s_threads demo_shell)\<lparr>kheap := h\<rparr>\<rparr>);
    give_back 0x200020 [] (w1\<lparr>s_tok := None\<rparr>) }"
proof -
  have f: "commands_in (lit ''disk 7 && disk 2'') = [lit ''disk 7'', lit ''disk 2'']"
    by (simp add: commands_in_def pieces_def stripped_def lit_def Cstring.fields.simps word_end_def)
  obtain h where h: "kmalloc 17 boot_heap = Some (0x200020, h)"
    using kmalloc_first_fit [OF boot_heap_ok, of 17]
    by (auto simp: first_fit_def fits_def round16_def carve_def ad_def)
  have c: "cstr (zlit ''disk 7 && disk 2'') = lit ''disk 7 && disk 2''" by (simp add: lit_def)
  show ?thesis
    using commands_run_regardless [of "zlit ''disk 7 && disk 2''" demo_shell "0x200020" h _ demo_board 1, OF _ _ refl] f h
    unfolding c by (intro exI [of _ h]) (simp add: demo_shell_def lit_def)
qed

text \<open>
  C24. A command line of at most 64 words of at most 63 characters is the command named by its first word,
  run on all its words, and a yield of the processor behind it; an empty line does nothing. The names
  are compared exactly, so that a command is never taken for another one.
\<close>

theorem dispatch_by_name:
  assumes "terminated cmd" and "length (Cstring.fields (\<lambda>c. c = 32) (cstr cmd)) \<le> 64"
    and "\<forall>x \<in> set (Cstring.fields (\<lambda>c. c = 32) (cstr cmd)). length x \<le> 63"
  shows "sh_exec_single b (Suc depth) cmd w = (case Cstring.fields (\<lambda>c. c = 32) (cstr cmd) of
      [] \<Rightarrow> Some (0, w)
    | nm # rest \<Rightarrow> do {
        (status, w1) \<leftarrow> (case map_of (map (\<lambda>(s, f). (lit s, f)) (commands b (sh_exec_single b depth))) nm of
            None \<Rightarrow> cmd_unknown b | Some f \<Rightarrow> f) (map (\<lambda>x. x @ [0]) (nm # rest)) w;
        w2 \<leftarrow> yields b w1;
        Some (status, w2) })"
proof (cases "Cstring.fields (\<lambda>c. c = 32) (cstr cmd)")
  case Nil
  then show ?thesis using words_of_fields [OF cstr_no_zero assms(2,3)] exec_single_spec [OF assms(1)] by simp
next
  case (Cons nm rest)
  then have "0 \<notin> set nm" using field_within [of nm "\<lambda>c. c = 32" "cstr cmd"] cstr_no_zero [of cmd] by auto
  then show ?thesis using words_of_fields [OF cstr_no_zero assms(2,3)] exec_single_spec [OF assms(1), of b depth w] Cons
    by (simp add: command_of_def)
qed

theorem dispatch_by_name_witness:
  "sh_exec_single demo_board 1 (zlit '' disk 3'') demo_shell = do {
     w2 \<leftarrow> yields demo_board (demo_shell\<lparr>s_drive := 3\<rparr>); Some (0, w2) }"
proof -
  have "cstr (zlit '' disk 3'') = lit '' disk 3''" by (simp add: lit_def)
  moreover have "Cstring.fields (\<lambda>c. c = 32) (lit '' disk 3'') = [lit ''disk'', lit ''3'']"
    by (simp add: lit_def Cstring.fields.simps)
  moreover have "atoi (zlit ''3'') = Some 3" by (simp add: atoi_def lit_def)
  ultimately show ?thesis
    using dispatch_by_name [of "zlit '' disk 3''" demo_board 0 demo_shell]
    by (simp add: commands_def cmd_disk_def lit_def)
qed

text \<open>
  C25. A script run from a line of another script ends that script: when \<open>sh\<close> or \<open>exec\<close> has read its file, the
  outer \<open>sh\<close> runs none of its remaining lines. Only a failing line lets it go on.
\<close>

theorem nested_script_ends_outer:
  assumes "0 \<notin> set line" and "line \<noteq> []" and "hd line \<noteq> 35" and "runs_script (stripped line_end line)"
  shows "sh_lines b (sh_exec_single b depth) (Some (line @ [0])) w = do {
    (st, w1) \<leftarrow> sh_exec_single b depth (stripped line_end line @ [0]) w;
    if st = 0 then Some w1
    else do {
      l \<leftarrow> strip line_end (line @ [0]);
      w2 \<leftarrow> say b (ln ''sh: command failed: %s'') [Str l] w1;
      (nxt, w3) \<leftarrow> next_token [10, 13, 0] None w2;
      sh_lines b (sh_exec_single b depth) nxt w3 } }"
proof -
  let ?s = "stripped line_end line"
  have tl: "terminated (line @ [0])" "cstr (line @ [0]) = line" using assms(1) by simp_all
  obtain l where l: "strip line_end (line @ [0]) = Some l" "terminated l" "cstr l = ?s"
    using strip_spec [OF tl(1), of line_end] unfolding tl(2) by blast
  have ne: "?s \<noteq> []" using assms(4) by (auto simp: runs_script_def words_of_def c_split_def numeral_eq_Suc)
  have z: "0 \<notin> set ?s" using assms(1) stripped_subset [of line_end line] by auto
  have c0: "rd (line @ [0]) 0 = Some (hd line)" using assms(2) by (cases line) auto
  have run: "sh_exec_single b depth l w = sh_exec_single b depth (?s @ [0]) w"
    using exec_single_cstr [OF l(2)] unfolding l(3) .
  have un: "sh_lines b (sh_exec_single b depth) (Some (line @ [0])) w = do {
      (st, w1) \<leftarrow> sh_exec_single b depth (?s @ [0]) w;
      w2 \<leftarrow> (if st \<noteq> 0 then say b (ln ''sh: command failed: %s'') [Str l] w1 else Some w1);
      (nxt, w3) \<leftarrow> next_token [10, 13, 0] None w2;
      sh_lines b (sh_exec_single b depth) nxt w3 }"
    using assms(2,3) c0 l ne run
    by (subst sh_lines.simps) (simp add: sh_line_def strlen_cstr tl Option.bind_assoc case_prod_unfold)
  show ?thesis
  proof (cases "sh_exec_single b depth (?s @ [0]) w")
    case None
    then show ?thesis unfolding un by simp
  next
    case (Some r)
    obtain st w1 where r: "r = (st, w1)" by force
    show ?thesis
    proof (cases "st = 0")
      case True
      then have "s_tok w1 = None" using exec_single_script [OF z assms(4)] Some r by blast
      then have "next_token [10, 13, 0] None w1 = Some (None, w1)" by (simp add: next_token_def strtok_def)
      then show ?thesis unfolding un using Some r True by (simp add: sh_lines.simps)
    next
      case False
      then show ?thesis unfolding un using Some r l(1) by simp
    qed
  qed
qed

theorem nested_script_ends_outer_witness:
  "sh_lines demo_board (sh_exec_single demo_board 9) (Some (zlit ''sh a'')) demo_shell = do {
    (st, w1) \<leftarrow> sh_exec_single demo_board 9 (zlit ''sh a'') demo_shell;
    if st = 0 then Some w1
    else do {
      l \<leftarrow> strip line_end (zlit ''sh a'');
      w2 \<leftarrow> say demo_board (ln ''sh: command failed: %s'') [Str l] w1;
      (nxt, w3) \<leftarrow> next_token [10, 13, 0] None w2;
      sh_lines demo_board (sh_exec_single demo_board 9) nxt w3 } }"
proof -
  have s: "stripped line_end (lit ''sh a'') = lit ''sh a''" by (simp add: stripped_def lit_def word_end_def line_end_def)
  have r: "runs_script (lit ''sh a'')" by (simp add: runs_script_def words_of_fields lit_def Cstring.fields.simps)
  have "0 \<notin> set (lit ''sh a'')" "lit ''sh a'' \<noteq> []" "hd (lit ''sh a'') \<noteq> 35" by (simp_all add: lit_def)
  then show ?thesis
    using nested_script_ends_outer [of "lit ''sh a''" demo_board 9 demo_shell] r unfolding s by blast
qed

text \<open>
  \<open>cat\<close>, \<open>sh\<close> and \<open>exec\<close> take the first record without the directory bit whose name is accepted, and a
  name is accepted when it is the one looked for or has the same character behind the first one that
  differs: the comparison subtracts the characters behind it. So \<open>B.TXT\<close> finds \<open>A.TXT\<close>.
\<close>

theorem lookup_accepts:
  assumes "\<forall>e \<in> set es. length e = 32" and "12 \<le> length fatname"
  shows "find_raw_file fatname es = Some (find (\<lambda>e. e ! 11 AND 0x10 = 0
    \<and> (take 11 e = take 11 fatname
        \<or> (\<exists>i < 11. take i e = take i fatname \<and> e ! i \<noteq> fatname ! i \<and> e ! (i + 1) = fatname ! (i + 1)))) es)"
  using find_raw_file_spec [OF assms] unfolding accepted_def .

theorem lookup_accepts_witness:
  "find_raw_file (lit ''B       TXT'' @ [0]) [lit ''A       TXT'' @ replicate 21 0] = Some (Some (lit ''A       TXT'' @ replicate 21 0))"
proof -
  let ?e = "lit ''A       TXT'' @ replicate 21 0" and ?q = "lit ''B       TXT'' @ [0]"
  have first: "P e \<Longrightarrow> find P [e] = Some e" for P and e :: bytes by simp
  have "take 0 ?e = take 0 ?q \<and> ?e ! 0 \<noteq> ?q ! 0 \<and> ?e ! (0 + 1) = ?q ! (0 + 1)" by (simp add: lit_def)
  then have ex: "\<exists>i < 11. take i ?e = take i ?q \<and> ?e ! i \<noteq> ?q ! i \<and> ?e ! (i + 1) = ?q ! (i + 1)"
    by (intro exI [of _ "0 :: nat"] conjI) simp_all
  have attr: "?e ! 11 AND 0x10 = 0" by (simp add: lit_def)
  have len: "\<forall>e \<in> set [?e]. length e = 32" "12 \<le> length ?q" by (simp_all add: lit_def)
  show ?thesis unfolding lookup_accepts [OF len]
    by (rule arg_cong [where f = Some], rule first) (use attr ex in blast)
qed

text \<open>
  C26. The command \<open>write\<close> stores the bytes of its hexadecimal argument in the sector, followed by zeros: the
  rest of the sector's old content is lost. No other sector changes.
\<close>

theorem write_command_stores:
  assumes "block_device (drv b) (ucast (s_drive w)) img" and "writable (drv b) (ucast (s_drive w))"
    and "args = [nm, num, hex_text a bs @ 0 # r]" and "a = 65 \<or> a = 97" and "length bs \<le> 512"
    and "atoi num = Some lba" and "512 \<le> length (junk b)"
  shows "\<exists>d. cmd_write b args w = succeeds (say b (ln ''Sector %u written successfully.'') [Num (ucast lba)])
      (w\<lparr>s_fs := (s_fs w)\<lparr>fheap := kheap (s_threads w), disk := d\<rparr>, s_con := (s_con w)\<lparr>dev := d\<rparr>\<rparr>)
    \<and> img d = (img (dev (s_con w)))(lba := bs @ replicate (512 - length bs) 0)"
proof -
  let ?z = "replicate 512 (0 :: u8)" and ?data = "bs @ replicate (512 - length bs) (0 :: u8)"
  have m: "memset (take 512 (junk b)) 0 0 512 = Some ?z" using assms(7) by (simp add: memset_blit blit_def)
  have data: "blit ?z 0 bs = ?data" by (simp add: blit_def)
  have "hexstr_to_bytes (hex_text a bs @ 0 # r) ?z 512 = Some (blit ?z 0 bs)"
    by (rule hexstr_to_bytes_spec [OF assms(4)]) (use assms(5) in simp_all)
  then have hx: "hexstr_to_bytes (hex_text a bs @ 0 # r) ?z 512 = Some ?data" unfolding data .
  obtain res d where d: "dev_write (drv b) (ucast (s_drive w)) lba ?data (dev (s_con w)) = (res, d)" by force
  have res: "res = 0" using assms(2) d unfolding writable_def by (metis fst_conv)
  have len: "length ?data = 512" using assms(5) by simp
  have "img d = (img (dev (s_con w)))(lba := ?data)"
    using assms(1) len d [unfolded res] unfolding block_device_def by blast
  moreover have "cmd_write b args w = succeeds (say b (ln ''Sector %u written successfully.'') [Num (ucast lba)])
      (w\<lparr>s_fs := (s_fs w)\<lparr>fheap := kheap (s_threads w), disk := d\<rparr>, s_con := (s_con w)\<lparr>dev := d\<rparr>\<rparr>)"
    using m hx d res by (simp add: cmd_write_def assms(3,6) on_fs_def write_sector_def numeral_2_eq_2 del: replicate.simps)
  ultimately show ?thesis by blast
qed

theorem write_command_stores_witness:
  "\<exists>d. cmd_write demo_board [zlit ''write'', zlit ''5'', hex_text 65 [0xAB] @ [0]] demo_shell
      = succeeds (say demo_board (ln ''Sector %u written successfully.'') [Num 5])
        (demo_shell\<lparr>s_fs := (s_fs demo_shell)\<lparr>fheap := boot_heap, disk := d\<rparr>, s_con := (s_con demo_shell)\<lparr>dev := d\<rparr>\<rparr>)
    \<and> image512 (snd d) 5 = 0xAB # replicate 511 0"
proof -
  have bd: "block_device demo_disk 0 (\<lambda>d. image512 (snd d))"
    by (auto simp: block_device_def demo_disk_def ram_disk_def image512_def split: prod.splits if_splits)
  have wr: "writable demo_disk 0"
  proof -
    have "lba \<le> (0xFFFFFFFF :: u32)" for lba
      using ram_disk_writable [of 0] by (auto simp: writable_def ram_disk_def split: if_splits)
    then show ?thesis by (simp add: writable_def demo_disk_def ram_disk_def split: prod.splits)
  qed
  have at: "atoi (zlit ''5'') = Some 5" by (simp add: atoi_def lit_def)
  have f: "io demo_board = demo_bus" "drv demo_board = demo_disk" "s_drive demo_shell = 0" "512 \<le> length (junk demo_board)"
    "kheap (s_threads demo_shell) = boot_heap"
    by (simp_all add: demo_board_def demo_shell_def)
  have l: "length [0xAB :: u8] \<le> 512" by simp
  obtain d where d: "cmd_write demo_board [zlit ''write'', zlit ''5'', hex_text 65 [0xAB] @ [0]] demo_shell
      = succeeds (say demo_board (ln ''Sector %u written successfully.'') [Num (ucast (5 :: u32))])
        (demo_shell\<lparr>s_fs := (s_fs demo_shell)\<lparr>fheap := boot_heap, disk := d\<rparr>, s_con := (s_con demo_shell)\<lparr>dev := d\<rparr>\<rparr>)"
    "image512 (snd d) = (image512 (snd (dev (s_con demo_shell))))(5 := [0xAB] @ replicate (512 - length [0xAB :: u8]) 0)"
    using write_command_stores [of demo_board demo_shell "\<lambda>d. image512 (snd d)" "[zlit ''write'', zlit ''5'', hex_text 65 [0xAB] @ 0 # []]"
        "zlit ''write''" "zlit ''5''" 65 "[0xAB]" "[]" 5] bd wr at l f by auto
  have "image512 (snd d) 5 = 0xAB # replicate 511 0" unfolding d(2) by simp
  then show ?thesis using d(1) by (intro exI [of _ d] conjI) auto
qed

lemma list_thread_threads: "list_thread b i w = Some w' \<Longrightarrow> s_threads w' = s_threads w"
  by (auto simp: list_thread_def say_def on_screen_def Option.bind_eq_Some_conv split: if_splits)

lemma iter_undefined:
  assumes "x \<in> set xs" and "\<And>s. R s \<Longrightarrow> f x s = None" and "\<And>y s s'. R s \<Longrightarrow> f y s = Some s' \<Longrightarrow> R s'" and "R s"
  shows "iter f xs s = None"
  using assms(1,4)
proof (induction xs arbitrary: s)
  case Nil
  then show ?case by simp
next
  case (Cons y ys)
  show ?case
  proof (cases "f y s")
    case None
    then show ?thesis by simp
  next
    case (Some s')
    then have "x \<noteq> y" using Cons.prems assms(2) by auto
    then show ?thesis using Some Cons assms(3) by auto
  qed
qed

text \<open>
  \<open>lspid\<close> has no defined result as soon as one thread of the table is terminated: the word TERMINATED
  and its NUL need 11 bytes, and \<open>state_str\<close> has 10.
\<close>

theorem lspid_overruns:
  assumes "table_ok (s_threads w)" and "i < thread_count (s_threads w)"
    and "t_state (view (s_threads w) ! i) = THREAD_TERMINATED"
  shows "cmd_lspid b [a] w = None"
proof -
  let ?k = "s_threads w"
  have i32: "i < 32" using assms(1,2) by (simp add: table_ok_def)
  have "scast (of_nat i :: i32) = (of_nat i :: u64)" using i32 by transfer (simp add: signed_take_bit_int_eq_self)
  then have u: "unat (scast (of_nat i :: i32) :: u64) = i" using unat_index [OF i32] by simp
  have first: "find (\<lambda>j. t_tid (view ?k ! j) = scast (of_nat i :: i32)) [0..<thread_count ?k] = Some i"
    using find_tid [OF assms(1), of "scast (of_nat i :: i32)" "\<lambda>_. True"] assms(2) unfolding u by simp
  have none: "list_thread b i v = None" if "s_threads v = ?k" for v
  proof -
    have "set [0..<thread_count ?k] \<subseteq> {..<thread_count ?k}" by auto
    then have "find_thread (\<lambda>t. t_tid t = scast (of_nat i :: i32)) ?k [0..<thread_count ?k] = Some (Some (threads ?k ! i))"
      using find_thread_view [OF assms(1), of "[0..<thread_count ?k]" "\<lambda>t. t_tid t = scast (of_nat i :: i32)"] first by auto
    then have "thread_get (of_nat i) ?k = Some (threads ?k ! i)" by (simp add: thread_get_def)
    moreover have "tobj ?k (threads ?k ! i) = Some (view ?k ! i)" using table_thr(1) [OF assms(1,2)] .
    moreover have "strcpy (take 10 (junk b)) 0 (state_text THREAD_TERMINATED) = None"
      by (rule strcpy_overrun) (simp_all add: state_text_def lit_def)
    ultimately show ?thesis using that assms(3) by (simp add: list_thread_def)
  qed
  have "iter (list_thread b) [0..<thread_count ?k] w = None"
    by (rule iter_undefined [where R = "\<lambda>v. s_threads v = ?k" and x = i]) (use assms(2) none in \<open>auto dest: list_thread_threads\<close>)
  then show ?thesis by (simp add: cmd_lspid_def succeeds_def thread_get_count_def)
qed

theorem lspid_overruns_witness:
  "\<exists>k. thread_stop 1 two_sched = Some k \<and> cmd_lspid demo_board [zlit ''lspid''] (demo_shell\<lparr>s_threads := k\<rparr>) = None"
proof -
  have u: "unat (scast (1 :: i32) :: u64) = 1" by simp
  obtain k where k: "thread_stop 1 two_sched = Some k" "thread_inv k"
    "becomes two_sched k ((view two_sched)[1 := (view two_sched ! 1)\<lparr>t_state := THREAD_TERMINATED\<rparr>]) 0"
    using for_tid_view [OF two_sched_facts(2), of "\<lambda>t. t\<lparr>t_state := THREAD_TERMINATED\<rparr>" 1 "\<lambda>t. t_state t \<noteq> THREAD_TERMINATED"]
      two_sched_facts(3,4,6) unfolding u by (auto simp: thread_stop_def)
  have "view k = (view two_sched)[1 := (view two_sched ! 1)\<lparr>t_state := THREAD_TERMINATED\<rparr>]" "thread_count k = 2"
    using becomes_current [OF k(3)] two_sched_facts(3) by simp_all
  moreover have "length (view two_sched) = 2" using two_sched_facts(3) by (simp add: length_view)
  ultimately have "t_state (view k ! 1) = THREAD_TERMINATED" by simp
  then have "cmd_lspid demo_board [zlit ''lspid''] (demo_shell\<lparr>s_threads := k\<rparr>) = None"
    using lspid_overruns [of "demo_shell\<lparr>s_threads := k\<rparr>" 1 demo_board "zlit ''lspid''"] inv_table [OF k(2)] \<open>thread_count k = 2\<close> by simp
  then show ?thesis using k(1) by blast
qed


end
