(* ===== verification/Kernel.thy ===== *)
theory Kernel
  imports Disk_Stack Fat32_Write Descriptors Interrupts Pci
begin

text \<open>
  The start of the kernel, kernel/main.c: the order in which the parts are set up, the threads it
  creates, and the end of the kernel when \<open>end\<close> is set. What the called routines print besides their
  result is left out where their own theory leaves it out. From \<open>sti\<close> on the other threads and
  the interrupts run between the statements; the model gives the statements of the first thread.
\<close>

section \<open>State\<close>

text \<open>What the boot image fixes: the addresses of its tables, stacks and functions.\<close>

record kernel_image =
  gdt_at :: u64
  idt_at :: u64
  isr_stub_table :: "u64 list"
  pml4_table :: u64
  pdpt_table :: u64
  pd_table :: u64
  pt_table :: u64
  main_thread :: u64
  thread_trampoline :: u64
  f_ui_bar :: u64
  f_calc_time :: u64
  f_sys_time :: u64
  f_shell :: u64

text \<open>
  The devices: the port bus, the memory-mapped registers, and the values of \<open>timer_ticks\<close> that the
  \<open>n\<close>-th wait reads.
\<close>

record 'd hardware =
  ports :: "'d bus"
  mmio_in :: "'d mmio_read"
  mmio_out :: "u64 \<Rightarrow> u32 \<Rightarrow> 'd \<Rightarrow> 'd"
  clock :: "nat \<Rightarrow> nat \<Rightarrow> u32"

record 'd kernel =
  mach :: "'d machine"
  gdt :: "gdt_entry list"
  gdtr :: gdt_descriptor
  idt :: "idt_entry list"
  idtr :: idt_descriptor
  page_table :: "u64 list"
  drives :: bytes
  kfs :: "'d fs"

definition on_machine :: "('d machine \<Rightarrow> 'd machine option) \<Rightarrow> 'd kernel \<Rightarrow> 'd kernel option" where
  "on_machine f k = do { m \<leftarrow> f (mach k); Some (k\<lparr>mach := m\<rparr>) }"

definition report :: "'d hardware \<Rightarrow> i32 \<Rightarrow> bytes \<Rightarrow> varg list \<Rightarrow> 'd kernel \<Rightarrow> 'd kernel option" where
  "report hw lvl fmt args = on_machine (on_con (kdbg (ports hw) lvl fmt args))"

definition to_dev :: "('d \<Rightarrow> 'd) \<Rightarrow> 'd kernel \<Rightarrow> 'd kernel option" where
  "to_dev f = on_machine (\<lambda>m. Some (on_dev f m))"

definition to_threads :: "(sched \<Rightarrow> sched option) \<Rightarrow> 'd kernel \<Rightarrow> 'd kernel option" where
  "to_threads f = on_machine (\<lambda>m. do { s \<leftarrow> f (kthreads m); Some (m\<lparr>kthreads := s\<rparr>) })"

abbreviation devices :: "'d kernel \<Rightarrow> 'd" where
  "devices k \<equiv> dev (con (mach k))"

section \<open>Setting up\<close>

definition gdt_print_gdt :: "'d hardware \<Rightarrow> 'd kernel \<Rightarrow> 'd kernel option" where
  "gdt_print_gdt hw k = iter (\<lambda>i k. do {
     e \<leftarrow> rd (gdt k) i;
     report hw 1 (lit ''gdt: entry %d: %08X %08X %08X %08X'' @ [10, 0])
       [Num (of_nat i), Num (ucast (limit_low e)), Num (ucast (base_low e)), Num (ucast (base_mid e)),
        Num (ucast (access e))] k }) [0..<7] k"

definition banner :: bytes where
  "banner = [10] @ lit ''<(0F)>%s %s Operating System'' @ [10, 10, 0]"

definition setup_processor :: "'d hardware \<Rightarrow> kernel_image \<Rightarrow> 'd kernel \<Rightarrow> 'd kernel option" where
  "setup_processor hw img k0 = do {
     (r, g) \<leftarrow> gdt_init (gdt_at img) (gdt k0);
     k \<leftarrow> on_machine (on_con (kprintf (ports hw) banner [Str (zlit ''HATCHER''), Str (zlit ''1.01'')]))
       (k0\<lparr>gdt := g, gdtr := r\<rparr>);
     k \<leftarrow> gdt_print_gdt hw k;
     (r, t) \<leftarrow> idt_init (isr_stub_table img) (idt_at img) (idt k);
     k \<leftarrow> report hw 1 (lit ''kernel_main: base success'' @ [10, 0]) [] (k\<lparr>idt := t, idtr := r\<rparr>);
     k \<leftarrow> report hw 1 (lit ''pic_remap: remapping 0x20, 0x28'' @ [10, 0]) [] k;
     k \<leftarrow> to_dev (pic_remap (ports hw) 0x20 0x28) k;
     p \<leftarrow> paging_init (pml4_table img) (pdpt_table img) (pd_table img) (pt_table img) (page_table k);
     Some (k\<lparr>page_table := p\<rparr>) }"

definition setup_devices :: "'d hardware \<Rightarrow> 'd kernel \<Rightarrow> 'd kernel option" where
  "setup_devices hw k = do {
     k \<leftarrow> on_machine (on_con (pci_init (ports hw))) k;
     k \<leftarrow> report hw 2 (lit ''pic_set_mask: masking all irqs (some devices may not work eg. mouse)'' @ [10, 0]) [] k;
     k \<leftarrow> to_dev (fold (\<lambda>irq. pic_set_mask (ports hw) (of_nat irq)) [0..<16]) k;
     k \<leftarrow> report hw 1 (lit ''pic_clear_mask: enabling irq0, irq1'' @ [10, 0]) [] k;
     k \<leftarrow> to_dev (pic_clear_mask (ports hw) 0) k;
     k \<leftarrow> to_dev (pic_clear_mask (ports hw) 1) k;
     d \<leftarrow> init_timer (ports hw) (devices k);
     k \<leftarrow> to_dev (\<lambda>_. d) k;
     k \<leftarrow> on_machine (idt_register_handler 0x21 Idle_irq1) k;
     k \<leftarrow> on_machine (idt_register_handler 0x20 Timer_isr_wrapper) k;
     (t, d) \<leftarrow> ata_init (ports hw) (drives k) (devices k);
     to_dev (\<lambda>_. d) (k\<lparr>drives := t\<rparr>) }"

text \<open>A mount works on the common heap and devices; its result is ignored.\<close>

definition mounts :: "'d hardware \<Rightarrow> u8 \<Rightarrow> 'd kernel \<Rightarrow> 'd kernel option" where
  "mounts hw drive k = do {
     (r, s) \<leftarrow> fat32_mount (ata_disk (ports hw) (drives k)) drive
       ((kfs k)\<lparr>disk := devices k, fheap := kheap (kthreads (mach k))\<rparr>);
     k \<leftarrow> to_threads (\<lambda>t. Some (t\<lparr>kheap := fheap s\<rparr>)) (k\<lparr>kfs := s\<rparr>);
     to_dev (\<lambda>_. disk s) k }"

definition setup_memory :: "'d hardware \<Rightarrow> 'd kernel \<Rightarrow> 'd kernel option" where
  "setup_memory hw k = do {
     k \<leftarrow> to_threads (\<lambda>t. Some (t\<lparr>kheap := heap_init 0x200000 0x1000000 (kheap t)\<rparr>)) k;
     k \<leftarrow> report hw 1 (lit ''heap_init: initialized at 0x200000, size 16MB'' @ [10, 0]) [] k;
     k \<leftarrow> mounts hw 0 k;
     mounts hw 1 k }"

definition setup_display :: "'d hardware \<Rightarrow> 'd kernel \<Rightarrow> 'd kernel option" where
  "setup_display hw k = do {
     (r, g, d) \<leftarrow> gpu_init (ports hw) (mmio_in hw) (devices k);
     k \<leftarrow> to_dev (\<lambda>_. d) k;
     if r = 0 then do {
       gpu \<leftarrow> g;
       k \<leftarrow> on_machine (on_con (gpu_print_info (ports hw) gpu)) k;
       let (reg, d) = gpu_mmio_read32 (mmio_in hw) (mmio_base gpu) 0x0 (devices k);
       to_dev (\<lambda>_. gpu_mmio_write32 (mmio_out hw) (mmio_base gpu) 0x4 0x12345678 d) k }
     else report hw 2 (lit ''gpu_get_info: failed to get gpu info'' @ [10, 0]) [] k }"

text \<open>The result of \<open>thread_create\<close> is not looked at.\<close>

definition spawn :: "kernel_image \<Rightarrow> u64 \<Rightarrow> string \<Rightarrow> sched \<Rightarrow> sched option" where
  "spawn img entry name s = do {
     (p, s1) \<leftarrow> thread_create (thread_trampoline img) entry (zlit name) s;
     Some s1 }"

definition start_threads :: "kernel_image \<Rightarrow> sched \<Rightarrow> sched option" where
  "start_threads img s0 = do {
     s \<leftarrow> thread_init (main_thread img) s0;
     s \<leftarrow> spawn img (f_ui_bar img) ''hatchui'' s;
     s \<leftarrow> spawn img (f_calc_time img) ''calctime'' s;
     s \<leftarrow> spawn img (f_sys_time img) ''systime'' s;
     spawn img (f_shell img) ''shell'' s }"

definition beep :: "'d hardware \<Rightarrow> nat \<Rightarrow> u32 \<Rightarrow> u32 \<Rightarrow> 'd kernel \<Rightarrow> 'd kernel option" where
  "beep hw n frequency duration k = do {
     d \<leftarrow> pc_speaker_beep (ports hw) (clock hw n) frequency duration (devices k);
     to_dev (\<lambda>_. d) k }"

text \<open>\<open>kernel_main\<close> up to the loop that waits for \<open>end\<close>.\<close>

definition kernel_main :: "'d hardware \<Rightarrow> kernel_image \<Rightarrow> 'd kernel \<Rightarrow> 'd kernel option" where
  "kernel_main hw img k = do {
     k \<leftarrow> setup_processor hw img k;
     k \<leftarrow> setup_devices hw k;
     k \<leftarrow> setup_memory hw k;
     k \<leftarrow> setup_display hw k;
     k \<leftarrow> to_threads (start_threads img) k;
     k \<leftarrow> beep hw 0 400 100 k;
     k \<leftarrow> beep hw 1 500 100 k;
     beep hw 2 700 300 k }"

section \<open>The end\<close>

text \<open>
  \<open>thread_stop(thread_get(i)->tid)\<close> for every number below \<open>thread_get_count()\<close>, which no step changes;
  a NULL result of \<open>thread_get\<close> is no thread.
\<close>

definition stop_number :: "nat \<Rightarrow> sched \<Rightarrow> sched option" where
  "stop_number i s = do {
     p \<leftarrow> thread_get (of_nat i) s;
     if p = 0 then None
     else do { t \<leftarrow> tobj s p; thread_stop (ucast (t_tid t)) s } }"

definition stop_threads :: "sched \<Rightarrow> sched option" where
  "stop_threads s = iter stop_number [0..<thread_get_count s] s"

text \<open>What \<open>kernel_main\<close> does once \<open>end\<close> is 1; it then halts.\<close>

definition kernel_end :: "'d hardware \<Rightarrow> 'd kernel \<Rightarrow> 'd kernel option" where
  "kernel_end hw k = do {
     k \<leftarrow> to_threads stop_threads k;
     k \<leftarrow> report hw 2 (zlit ''kernel_main: kernel end'') [] k;
     k \<leftarrow> beep hw 3 700 100 k;
     k \<leftarrow> beep hw 4 500 100 k;
     beep hw 5 400 300 k }"

section \<open>Facts about the threads\<close>

lemma small_index:
  assumes "i < 32"
  shows "(scast (of_nat i :: i32) :: u64) = of_nat i" "unat (of_nat i :: u64) = i"
    "(ucast (of_nat i :: u64) :: i32) = of_nat i"
proof -
  show "(scast (of_nat i :: i32) :: u64) = of_nat i"
    using assms by transfer (simp add: signed_take_bit_int_eq_self)
  show "unat (of_nat i :: u64) = i" using assms by (simp add: unsigned_of_nat take_bit_nat_eq_self)
  show "(ucast (of_nat i :: u64) :: i32) = of_nat i" using assms by (simp add: unsigned_of_nat take_bit_nat_eq_self)
qed

definition ended :: "thread \<Rightarrow> thread" where
  "ended t = t\<lparr>t_state := THREAD_TERMINATED\<rparr>"

lemma stop_number_view:
  assumes inv: "thread_inv s" and i: "i < thread_count s"
  shows "\<exists>s'. stop_number i s = Some s' \<and> thread_inv s' \<and> thread_count s' = thread_count s \<and> cur s' = cur s
    \<and> view s' = (view s)[i := ended (view s ! i)]"
proof -
  note ok = inv_table [OF inv]
  have i32: "i < 32" using i ok by (simp add: table_ok_def)
  note sm = small_index [OF i32]
  have get: "thread_get (of_nat i) s = Some (threads s ! i)"
    using find_tid [OF ok, of "of_nat i" "\<lambda>t. True"] find_thread_view [OF ok, of "[0..<thread_count s]"] sm i
    by (auto simp: thread_get_def subset_iff)
  have p: "threads s ! i \<noteq> 0" and obj: "tobj s (threads s ! i) = Some (view s ! i)" "t_tid (view s ! i) = of_nat i"
    using ok i table_thr(1,3) [OF ok i] by (auto simp: table_ok_def)
  obtain s' where s': "thread_stop (of_nat i) s = Some s'" "thread_inv s'"
    "becomes s s' (if t_state (view s ! i) \<noteq> THREAD_TERMINATED then (view s)[i := ended (view s ! i)] else view s) (cur s)"
    using for_tid_view [OF inv, of ended "of_nat i" "\<lambda>t. t_state t \<noteq> THREAD_TERMINATED", unfolded sm(1) sm(2)] i
    unfolding thread_stop_def sm(1) by (auto simp: ended_def [abs_def] tame_def)
  have same: "(view s)[i := ended (view s ! i)] = view s" if "t_state (view s ! i) = THREAD_TERMINATED"
  proof -
    have "ended (view s ! i) = view s ! i" using that by (simp add: ended_def)
    then show ?thesis by simp
  qed
  have v: "view s' = (view s)[i := ended (view s ! i)]" using s'(3) same by (auto simp: becomes_def)
  then have "thread_count s' = thread_count s" using length_view [of s'] length_view [of s] by simp
  then show ?thesis using s' v get p obj sm(3) by (simp add: stop_number_def becomes_def)
qed

lemma stop_iter_view:
  assumes "thread_inv s" and "n \<le> thread_count s"
  shows "\<exists>s'. iter stop_number [0..<n] s = Some s' \<and> thread_inv s' \<and> thread_count s' = thread_count s \<and> cur s' = cur s
    \<and> view s' = map ended (take n (view s)) @ drop n (view s)"
  using assms(2)
proof (induction n)
  case 0
  then show ?case using assms(1) by simp
next
  case (Suc n)
  then obtain s1 where s1: "iter stop_number [0..<n] s = Some s1" "thread_inv s1" "thread_count s1 = thread_count s"
    "cur s1 = cur s" "view s1 = map ended (take n (view s)) @ drop n (view s)" by auto
  obtain s2 where s2: "stop_number n s1 = Some s2" "thread_inv s2" "thread_count s2 = thread_count s" "cur s2 = cur s"
    "view s2 = (view s1)[n := ended (view s1 ! n)]"
    using stop_number_view [OF s1(2), of n] s1(3,4) Suc.prems by auto
  have "view s2 = map ended (take (Suc n) (view s)) @ drop (Suc n) (view s)"
    unfolding s2(5) s1(5) using Suc.prems
    by (simp add: list_update_append nth_append take_Suc_conv_app_nth Cons_nth_drop_Suc [symmetric])
  then show ?case using s1(1) s2 by (simp add: iter_append)
qed

text \<open>A heap with one free block of at least \<open>m\<close> bytes at its end.\<close>

definition roomy :: "heap_state \<Rightarrow> nat \<Rightarrow> bool" where
  "roomy h m \<longleftrightarrow> (\<exists>B L n. heap_ok h B (L @ [(n, True)]) \<and> (\<forall>x \<in> set L. \<not> snd x) \<and> m \<le> n)"

lemma roomy_kmalloc:
  assumes "roomy h m" and "round16 (unat sz) + 64 \<le> m"
  obtains p h' where "kmalloc sz h = Some (p, h')" "p \<noteq> 0" "roomy h' (m - round16 (unat sz) - 32)" "hmem h' = hmem h"
proof -
  let ?k = "round16 (unat sz)"
  obtain B L n where ok: "heap_ok h B (L @ [(n, True)])" and used: "\<forall>x \<in> set L. \<not> snd x" and n: "m \<le> n"
    using assms(1) by (auto simp: roomy_def)
  have bound: "0 < B" "B + span (L @ [(n, True)]) < 2 ^ 64" using ok by (auto simp: heap_ok_def)
  then have "n < 2 ^ 64" by (simp add: span_def)
  then have sz: "unat sz \<le> 2 ^ 64 - 32" using assms(2) n round16_ge [of "unat sz"] by linarith
  have un: "\<forall>x \<in> set L. \<not> fits ?k x" using used by (auto simp: fits_def)
  have ff: "first_fit ?k (L @ [(n, True)]) = Some (L, n, [])"
    using un assms(2) n by (simp add: first_fit_def dropWhile_append takeWhile_append fits_def)
  obtain h' where h': "kmalloc sz h = Some (ad (B + span L + 32), h')" "heap_ok h' B (L @ carve ?k n)" "hmem h' = hmem h"
    using kmalloc_first_fit [OF ok sz] unfolding ff by auto
  have "ad (B + span L + 32) \<noteq> 0"
  proof -
    have "B + span L + 32 < 2 ^ 64" using bound by (simp add: span_def)
    then show ?thesis using unat_ad [of "B + span L + 32"] bound(1) by auto
  qed
  moreover have "roomy h' (m - ?k - 32)"
    unfolding roomy_def
    by (rule exI [of _ B], rule exI [of _ "L @ [(?k, False)]"], rule exI [of _ "n - ?k - 32"])
      (use h'(2) assms(2) n used in \<open>auto simp: carve_def\<close>)
  ultimately show thesis using that h' by blast
qed

lemma roomy_hmem [simp]: "roomy (h\<lparr>hmem := m\<rparr>) n = roomy h n"
  by (simp add: roomy_def heap_ok_def)

lemma spawn_view:
  assumes inv: "thread_inv s" and n: "thread_count s < 32" and room: "roomy (kheap s) m" "9000 \<le> m"
    and "terminated (zlit name)"
  obtains s' t where "spawn img entry name s = Some s'" "thread_inv s'" "thread_count s' = thread_count s + 1"
    "view s' = view s @ [t]" "cur s' = cur s" "new_thread entry (zlit name) (thread_count s) t" "roomy (kheap s') (m - 9000)"
proof -
  obtain p h1 where h1: "kmalloc 232 (kheap s) = Some (p, h1)" "p \<noteq> 0" "roomy h1 (m - 272)"
    by (rule roomy_kmalloc [OF room(1), of 232]) (use room(2) that in \<open>auto simp: round16_def\<close>)
  obtain q h2 where h2: "kmalloc 8208 h1 = Some (q, h2)" "roomy h2 (m - 8512)"
    by (rule roomy_kmalloc [OF h1(3), of 8208]) (use room(2) that in \<open>auto simp: round16_def\<close>)
  have heap: "roomy (kheap s') (m - 9000)" if "thread_create (thread_trampoline img) entry (zlit name) s = Some (r, s')" for r s'
  proof -
    have "roomy (kheap s') (m - 8512)"
      using that n h1 h2 by (auto simp: thread_create_def Let_def bind_eq_Some_conv)
    then show ?thesis by (force simp: roomy_def)
  qed
  have "thread_create (thread_trampoline img) entry (zlit name) s \<noteq> Some (0, s)"
    using n h1(1,2) by (auto simp: thread_create_def Let_def bind_eq_Some_conv)
  then show thesis
    using thread_create_cases [OF inv assms(5) n, of "thread_trampoline img" entry] heap that by (auto simp: spawn_def)
qed

text \<open>The name, the entry point and the number of a thread that was created, and of the first one.\<close>

definition started :: "thread \<Rightarrow> string \<Rightarrow> u64 \<Rightarrow> nat \<Rightarrow> bool" where
  "started t name entry n \<longleftrightarrow> cstr (name_bytes t) = lit name \<and> c_r12 (t_context t) = entry \<and> t_tid t = of_nat n
     \<and> t_state t = THREAD_READY"

lemma new_thread_started:
  "new_thread entry (zlit name) n t \<Longrightarrow> take 32 (cstr (zlit name)) = lit name \<Longrightarrow> started t name entry n"
  by (simp add: new_thread_def started_def)

section \<open>Properties\<close>

text \<open>
  C6. With an empty table and 45000 free bytes at the end of the heap, the kernel always starts its
  threads: the first one is running under the name \<open>idle\<close>, and the status bar, the clock, the time
  display and the shell stand behind it in this order, ready, each with its entry point, its
  name and its slot as number.
\<close>

theorem start_threads_five:
  assumes "length (threads s) = 32" and "heap_inv (kheap s)" and "roomy (kheap s) 45000"
    and "\<not> in_region (kheap s) (main_thread img)" and "main_thread img \<noteq> 0"
  shows "\<exists>s' t0 t1 t2 t3 t4. start_threads img s = Some s' \<and> thread_inv s' \<and> cur s' = 0
    \<and> view s' = [t0, t1, t2, t3, t4] \<and> cstr (name_bytes t0) = lit ''idle'' \<and> t_state t0 = THREAD_RUNNING
    \<and> started t1 ''hatchui'' (f_ui_bar img) 1 \<and> started t2 ''calctime'' (f_calc_time img) 2
    \<and> started t3 ''systime'' (f_sys_time img) 3 \<and> started t4 ''shell'' (f_shell img) 4"
proof -
  have names: "terminated (zlit ''hatchui'')" "terminated (zlit ''calctime'')" "terminated (zlit ''systime'')"
    "terminated (zlit ''shell'')" by (simp_all add: lit_def)
  have cut: "take 32 (cstr (zlit ''hatchui'')) = lit ''hatchui''" "take 32 (cstr (zlit ''calctime'')) = lit ''calctime''"
    "take 32 (cstr (zlit ''systime'')) = lit ''systime''" "take 32 (cstr (zlit ''shell'')) = lit ''shell''"
    by (simp_all add: lit_def)
  obtain s0 t0 where s0: "thread_init (main_thread img) s = Some s0" "thread_inv s0" "kheap s0 = kheap s" "view s0 = [t0]"
    "cur s0 = 0" "t_state t0 = THREAD_RUNNING" "cstr (name_bytes t0) = lit ''idle''"
    using thread_init_inv [OF assms(1,2,4,5)] by auto
  have n0: "thread_count s0 = 1" using length_view [of s0] s0(4) by simp
  have r0: "roomy (kheap s0) 45000" using assms(3) s0(3) by simp
  obtain s1 t1 where s1: "spawn img (f_ui_bar img) ''hatchui'' s0 = Some s1" "thread_inv s1" "thread_count s1 = 2"
    "view s1 = [t0, t1]" "cur s1 = 0" "new_thread (f_ui_bar img) (zlit ''hatchui'') 1 t1" "roomy (kheap s1) 36000"
    by (rule spawn_view [OF s0(2) _ r0 _ names(1), of img "f_ui_bar img"]) (simp_all add: n0 s0(4,5))
  obtain s2 t2 where s2: "spawn img (f_calc_time img) ''calctime'' s1 = Some s2" "thread_inv s2" "thread_count s2 = 3"
    "view s2 = [t0, t1, t2]" "cur s2 = 0" "new_thread (f_calc_time img) (zlit ''calctime'') 2 t2" "roomy (kheap s2) 27000"
    by (rule spawn_view [OF s1(2) _ s1(7) _ names(2), of img "f_calc_time img"]) (simp_all add: s1(3-5))
  obtain s3 t3 where s3: "spawn img (f_sys_time img) ''systime'' s2 = Some s3" "thread_inv s3" "thread_count s3 = 4"
    "view s3 = [t0, t1, t2, t3]" "cur s3 = 0" "new_thread (f_sys_time img) (zlit ''systime'') 3 t3" "roomy (kheap s3) 18000"
    by (rule spawn_view [OF s2(2) _ s2(7) _ names(3), of img "f_sys_time img"]) (simp_all add: s2(3-5))
  obtain s4 t4 where s4: "spawn img (f_shell img) ''shell'' s3 = Some s4" "thread_inv s4"
    "view s4 = [t0, t1, t2, t3, t4]" "cur s4 = 0" "new_thread (f_shell img) (zlit ''shell'') 4 t4"
    by (rule spawn_view [OF s3(2) _ s3(7) _ names(4), of img "f_shell img"]) (simp_all add: s3(3-5))
  have "start_threads img s = Some s4" using s0(1) s1(1) s2(1) s3(1) s4(1) by (simp add: start_threads_def)
  then show ?thesis
    using s4 s0(6,7) new_thread_started s1(6) s2(6) s3(6) cut by blast
qed

definition demo_image :: kernel_image where
  "demo_image = \<lparr>gdt_at = 0x105000, idt_at = 0x106000, isr_stub_table = replicate 256 0x101000, pml4_table = 0x107000,
     pdpt_table = 0x108000, pd_table = 0x109000, pt_table = 0x10A000, main_thread = 0x110000,
     thread_trampoline = 0x100500, f_ui_bar = 0x100600, f_calc_time = 0x100700, f_sys_time = 0x100800, f_shell = 0x100900\<rparr>"

theorem start_threads_five_witness:
  "\<exists>s. start_threads demo_image boot_sched = Some s \<and> map t_tid (view s) = [t_tid (view s ! 0), 1, 2, 3, 4]"
proof -
  have "roomy boot_heap 45000" unfolding roomy_def
    by (rule exI [of _ "0x200000"], rule exI [of _ "[]"], rule exI [of _ "0xFFFFE0"]) (simp add: boot_heap_ok)
  moreover have "\<not> in_region boot_heap 0x110000" by (simp add: in_region_def boot_heap_def heap_init_def)
  ultimately show ?thesis
    using start_threads_five [of boot_sched demo_image] boot_heap_inv
    by (auto simp: boot_sched_def demo_image_def started_def)
qed

text \<open>
  C7. The kernel's end stops every thread: whatever their states, afterwards all threads of the table
  are terminated, the current one included, and nothing else of them changes.
\<close>

theorem stop_threads_all:
  assumes "thread_inv s"
  shows "\<exists>s'. stop_threads s = Some s' \<and> thread_inv s' \<and> cur s' = cur s \<and> view s' = map ended (view s)"
  using stop_iter_view [OF assms, of "thread_count s"] by (auto simp: stop_threads_def thread_get_count_def)

theorem stop_threads_all_witness:
  "\<exists>s. stop_threads two_sched = Some s \<and> map t_state (view s) = [THREAD_TERMINATED, THREAD_TERMINATED]"
proof -
  obtain a b where v: "view two_sched = [a, b]"
    using two_sched_facts(3) length_view [of two_sched] unfolding numeral_2_eq_2
    by (auto simp: length_Suc_conv simp del: length_view)
  show ?thesis using stop_threads_all [OF two_sched_facts(2)] v by (auto simp: ended_def)
qed

text \<open>
  On a machine without a display controller the kernel never gets as far as its threads, whatever
  the other devices do: the search of the bus does not end.
\<close>

theorem boot_needs_display:
  assumes "config_ports (ports hw) addr cfg" and "\<forall>b. \<forall>p \<in> set places. \<not> display cfg b p"
  shows "kernel_main hw img k = None"
proof -
  have "\<forall>b. find (display cfg b) places = None" using assms(2) by (auto simp: find_None_iff)
  then have "gpu_init (ports hw) (mmio_in hw) d = None" for d
    using gpu_loop_forever [of "ports hw" "mmio_in hw" 0 d _ addr cfg] assms(1)
    by (cases "gpu_loop (ports hw) (mmio_in hw) 0 d") (auto simp: gpu_init_def)
  then have "setup_display hw k = None" for k by (simp add: setup_display_def)
  then show ?thesis by (simp add: kernel_main_def bind_eq_None_conv)
qed

theorem boot_needs_display_witness:
  "\<forall>k. kernel_main \<lparr>ports = config_bus (\<lambda>_. 0xFFFFFFFF), mmio_in = (\<lambda>_ d. (0, d)), mmio_out = (\<lambda>_ _ d. d), clock = (\<lambda>_. of_nat)\<rparr>
    demo_image k = None"
  using boot_needs_display [of "\<lparr>ports = config_bus (\<lambda>_. 0xFFFFFFFF), mmio_in = (\<lambda>_ d. (0, d)), mmio_out = (\<lambda>_ _ d. d), clock = (\<lambda>_. of_nat)\<rparr>",
    OF _ _, of "\<lambda>a. a" "\<lambda>_. 0xFFFFFFFF"] config_bus_ports [of "\<lambda>_. 0xFFFFFFFF"]
  by (simp add: display_def cfg16_def)

end
