(* ===== verification/Spec2Isabelle.thy ===== *)
theory Spec2Isabelle
  imports Cstring Heap Thread Keyboard Format Fat32_Update Fat32_Listing Disk_Stack Ata Descriptors Interrupts Pci Tasks Shell_Facts Kernel
begin

text \<open>
  Hatcher, a 64-bit kernel for the PC: its C code under src/, function by function, with the theorems that
  say what the parts do.

  The program. \<open>kernel_main\<close> (kernel/main.c) installs the segment and interrupt tables (kernel/gdt.c,
  cpu/idt.c, cpu/tss.c, mem/paging.c), programs the interrupt controllers and the timer (cpu/8259a.c,
  cpu/timer.c), scans the PCI bus (drivers/pci, drivers/usb, drivers/video/videocard.c), finds the disks
  (drivers/storage/ata.c), sets up the heap (mem/heap.c), mounts the FAT32 volumes (drivers/fs/fat32.c) and
  creates four threads (kernel/thread.c): the status bar, the clock, the time display (kernel/tasks/gui.c) and
  the shell (kernel/tasks/sys.c, user/shell.c). The timer interrupt drives the scheduler, the shell takes its lines
  from the keyboard driver (drivers/in/ps2.c), and all of them print through the text console
  (drivers/video/vga_default.c, kernel/debug.c) and use the C routines of libc/string.c.

  Conventions (Prelude). A C integer is a word of its width, read by \<open>unat\<close> or \<open>sint\<close>; \<open>char\<close> is signed.
  An array or object is a list of bytes, a pointer into it an offset or the rest of the list, and an access
  outside it, a use of NULL, a division by zero or a loop that never ends is the value \<open>None\<close>. So a theorem that
  gives \<open>Some\<close> says that the code returns and stays inside its objects. The results of C functions are those of
  the source, error codes included. What the code does not initialise is an argument (\<open>junk\<close>).

  The theories, in the order they build on each other:
    \<^item> Cstring: libc/string.c. \<open>memcpy\<close>, \<open>memmove\<close> and the like as updates of a list, \<open>strtok\<close> and \<open>split\<close> against
      a reference definition of the fields of a text, \<open>itoa\<close> and \<open>atoi\<close> as inverses, what \<open>memcmp\<close> compares.
    \<^item> Heap: mem/heap.c. The doubly linked blocks as a store of headers; \<open>heap_ok\<close> relates it to a list of
      blocks in address order, on which allocation is first fit and freeing merges neighbours. The locale
      \<open>allocator\<close> is the contract the other parts use; the heap interprets it.
    \<^item> Thread: kernel/thread.c and context_switch.S. The thread table as a list of threads (\<open>view\<close>), every
      operation as an update of it, the schedule as round robin, and the invariant of all reachable tables.
    \<^item> Ports, Vga, Format, Numbers: port access, the console against an abstract terminal of 80 by 25
      cells, \<open>snprintf\<close>, \<open>kprintf\<close>, the number routines, and the log lines of kernel/debug.c.
    \<^item> Keyboard: drivers/in/ps2.c against a bounded queue (locale \<open>bounded_fifo\<close>), and the line editor \<open>kgets\<close>.
    \<^item> Fat32, Fat32_Dir, Fat32_Write: fat32.c over any block device: FAT entries with their cache, cluster
      chains, files, directory records and long names; creating, writing and formatting. Fat32_Create: a file
      that was created is listed. Fat32_Subdir: a directory that was created can be entered and left. Both say what
      the operations do one after the other on a volume whose clusters have sectors of their own. Fat32_Layout: the
      packed structures of include/fat32.h, and mounting in terms of their fields. Fat32_Listing: what a directory
      lists, described by those structures, and listing returns it. Fat32_Update: a write that makes a file larger
      does not return.
    \<^item> Ata: ata.c over a controller that follows the standard. Disk_Stack: the file system on that driver; the
      locale \<open>sector_reader\<close> is the contract between them, and reading through the driver is shown to be reading
      the array of sectors (\<open>fs_image\<close>).
    \<^item> Descriptors, Interrupts: the tables in memory and what the processor reads in them; the interrupt
      controllers, the dispatcher with its handlers, the timer and the speaker. The timer handler switches the context
      before its end of interrupt: \<open>suspended\<close> says for each thread where it goes on, and the dispatcher's call returns only in
      a thread that was itself interrupted (\<open>timer_interrupt\<close>).
    \<^item> Pci, Tasks: the bus scan and the search for a display controller; the clock, the bar and its usage.
    \<^item> Utils, Shell_Env, Shell, Shell_Facts: kernel/utils.c, the variables, all commands, the two script
      interpreters and the command line of user/shell.c, and what they do.
    \<^item> Kernel: \<open>kernel_main\<close> from the first table to the threads, and the end of the kernel.

  Loops. A loop over a range is \<open>iter\<close> or structural recursion; a loop whose end depends on data is \<open>function\<close> with a
  measure (digits, page tables) or \<open>partial_function\<close> (cluster chains, the bus search, waiting), and its return is a
  theorem: chains of finite length for the file system, a display controller for \<open>gpu_init\<close>, a late enough
  counter for \<open>wait\<close>. The polling loops of the disk driver count down from the source's own 1000000. The one
  bound the source has not is \<open>depth\<close> of the shell's interpreters, the nesting of scripts that the kernel stack
  allows; every theorem with it holds for each depth.

  Parameters. The devices behind the ports (\<open>bus\<close>), the block device of the file system, the registers of
  the graphics card, the values of the tick counter that a waiting loop reads, and what the other threads do while the
  shell has given up the processor. The laws of the devices are predicates (\<open>crtc\<close>, \<open>ata_channel\<close>,
  \<open>pic_pair\<close>, \<open>pit_ports\<close>, \<open>config_ports\<close>, \<open>block_device\<close>), each with a concrete device that satisfies it.

  Not modelled. The assembly of the boot (boot/boot.asm: long mode, the first page tables), the interrupt
  stubs (cpu/isr.asm) and gdt_flush.S, which nothing calls; user/elf.c, an empty file; the spin lock that
  \<open>kprint\<close> takes (include/spinlock.h), since a call of it runs as one step; headers with prototypes and constants only. Of the C code, what \<open>kdbg\<close> prints inside the file
  system and the thread operations is left out, and an interrupt between two statements of an operation is
  not interleaved: an interrupt and a schedule are steps between operations. The \<open>thread_yield\<close> that
  the shell and the tasks call acts on the thread table there; the ends of interrupt that a thread sends when it goes on after such a call
  belong to it (\<open>own_yield\<close> in Interrupts). Writing on the
  driver is not composed with the file system: the driver cuts the address to 28 bits, so the array of sectors the
  writing theorems speak of exists only for disks below 128 GB.
\<close>

end
